(* ===== verification/Brynet_Prelude.thy ===== *)
theory Brynet_Prelude
  imports Main "HOL-Library.Word" "HOL-Library.Monad_Syntax"
begin

text \<open>
  Shared vocabulary of the development: the machine types of the sources on a
  64-bit platform, the C memory primitives (\<open>malloc\<close>, \<open>memcpy\<close>, \<open>memmove\<close>) with
  every out-of-bounds access made visible as \<open>None\<close>, the correspondence of
  characters and bytes, and generic list and word facts that the component
  theories collect in the named theorem lists declared here.
\<close>

unbundle bit_operations_syntax

named_theorems buffer_defs \<open>definitions of the receive buffer operations\<close>
named_theorems mem_simps \<open>success conditions and lengths of the memory primitives\<close>

section \<open>Machine types\<close>

type_synonym byte = "8 word"
type_synonym size_t = "64 word"

section \<open>Memory blocks\<close>

text \<open>
  A heap block is the list of its bytes. The C allocator is an environment
  that says which requests succeed and what the fresh bytes happen to hold.
\<close>

record heap_env =
  malloc_ok :: "nat \<Rightarrow> bool"
  uninit :: "nat \<Rightarrow> byte"

definition malloc :: "heap_env \<Rightarrow> nat \<Rightarrow> byte list option" where
  "malloc env n = (if malloc_ok env n then Some (map (uninit env) [0..<n]) else None)"

text \<open>A heap that serves every request, with zeroed blocks.\<close>

definition full_heap :: heap_env where
  "full_heap = \<lparr>malloc_ok = (\<lambda>_. True), uninit = (\<lambda>_. 0)\<rparr>"

text \<open>
  Reading \<open>n\<close> bytes at an offset of a block, or \<open>n\<close> elements of an array of
  structures: \<open>None\<close> when the access leaves the block.
\<close>

definition mem_read :: "'a list \<Rightarrow> nat \<Rightarrow> nat \<Rightarrow> 'a list option" where
  "mem_read blk off n = (if off + n \<le> length blk then Some (take n (drop off blk)) else None)"

text \<open>
  Copying bytes to an offset of a block, the target of a \<open>memcpy\<close> or \<open>memmove\<close>;
  the pointer is \<open>None\<close> for the null pointer, to which only zero bytes may go.
\<close>

definition mem_write :: "'a list \<Rightarrow> nat option \<Rightarrow> 'a list \<Rightarrow> 'a list option" where
  "mem_write blk ptr bs =
     (case ptr of
        None \<Rightarrow> if bs = [] then Some blk else None
      | Some off \<Rightarrow>
          if off + length bs \<le> length blk
          then Some (take off blk @ bs @ drop (off + length bs) blk) else None)"

lemma malloc_length [mem_simps]: "malloc env n = Some blk \<Longrightarrow> length blk = n"
  by (auto simp: malloc_def split: if_splits)

lemma mem_read_Some_iff [mem_simps]:
  "mem_read blk off n = Some bs \<longleftrightarrow> off + n \<le> length blk \<and> bs = take n (drop off blk)"
  by (auto simp: mem_read_def)

lemma mem_write_Some [mem_simps]:
  "off + length bs \<le> length blk \<Longrightarrow>
   mem_write blk (Some off) bs = Some (take off blk @ bs @ drop (off + length bs) blk)"
  by (simp add: mem_write_def)

lemma mem_write_empty [mem_simps]: "mem_write blk None [] = Some blk"
  by (simp add: mem_write_def)

lemma mem_write_length: "mem_write blk ptr bs = Some blk' \<Longrightarrow> length blk' = length blk"
  by (auto simp: mem_write_def split: option.splits if_splits)

lemma mem_write_read_back:
  assumes "mem_write blk (Some off) bs = Some blk'"
  shows "mem_read blk' off (length bs) = Some bs"
  using assms by (auto simp: mem_write_def mem_read_def split: if_splits)

lemma mem_write_frame:
  assumes "mem_write blk (Some off) bs = Some blk'"
    and "off' + n \<le> off \<or> off + length bs \<le> off'"
  shows "mem_read blk' off' n = mem_read blk off' n"
proof -
  from assms(1) have le: "off + length bs \<le> length blk"
    and blk': "blk' = take off blk @ bs @ drop (off + length bs) blk"
    by (auto simp: mem_write_def split: if_splits)
  from assms(2) show ?thesis
  proof
    assume "off' + n \<le> off"
    with le show ?thesis by (simp add: blk' mem_read_def drop_take)
  next
    assume "off + length bs \<le> off'"
    with le show ?thesis by (simp add: blk' mem_read_def)
  qed
qed

section \<open>Word bounds\<close>

lemma unat_bound: "unat (w :: 'a::len word) < 2 ^ LENGTH('a)"
  by (rule unsigned_less)

section \<open>Characters and bytes\<close>

text \<open>
  The HTTP code reads text, the binary formats read bytes; both are the same
  \<open>char\<close> of C. \<open>byte_of\<close> and \<open>char_of_byte\<close> are the two casts.
\<close>

definition byte_of :: "char \<Rightarrow> byte" where
  "byte_of c = of_nat (of_char c)"

definition char_of_byte :: "byte \<Rightarrow> char" where
  "char_of_byte b = char_of (unat b)"

lemma char_of_byte_of [simp]: "char_of_byte (byte_of c) = c"
proof -
  have "(of_char c :: nat) < 256" by simp
  then have "unat (of_nat (of_char c) :: byte) = of_char c"
    by (simp add: unat_of_nat take_bit_nat_eq_self)
  then show ?thesis by (simp add: char_of_byte_def byte_of_def)
qed

lemma byte_of_char_of_byte [simp]: "byte_of (char_of_byte b) = b"
proof -
  have "unat b < 256" using unat_bound [of b] by simp
  then show ?thesis by (simp add: char_of_byte_def byte_of_def)
qed

section \<open>Lists and words\<close>

text \<open>A byte is its eight bits.\<close>

lemma less_8_iff: "n < 8 \<longleftrightarrow> n = 0 \<or> n = 1 \<or> n = 2 \<or> n = 3 \<or> n = 4 \<or> n = 5 \<or> n = 6 \<or> n = (7 :: nat)"
  by auto

lemma byte_eqI:
  fixes v w :: byte
  assumes "bit v 0 = bit w 0" "bit v 1 = bit w 1" "bit v 2 = bit w 2" "bit v 3 = bit w 3"
    "bit v 4 = bit w 4" "bit v 5 = bit w 5" "bit v 6 = bit w 6" "bit v 7 = bit w 7"
  shows "v = w"
  using assms by (intro bit_word_eqI) (auto simp: less_8_iff)

lemma take_drop_append:
  "take n (drop m xs) @ take k (drop (m + n) xs) = take (n + k) (drop m xs)"
  by (simp only: take_add drop_drop add.commute [of m n])

lemma drop_take_write:
  "m \<le> off \<Longrightarrow> off \<le> length xs \<Longrightarrow>
   take (off + length bs - m) (drop m (take off xs @ bs @ ys)) = take (off - m) (drop m xs) @ bs"
  by (simp add: drop_take)

lemma unat_add_le_no_wrap:
  fixes a b c :: "'a::len word"
  assumes "unat a + unat b \<le> unat c"
  shows "unat (a + b) = unat a + unat b"
proof -
  have "unat a + unat b < 2 ^ LENGTH('a)" using assms unat_bound [of c] by linarith
  then show ?thesis by (simp add: unat_word_ariths)
qed

lemma unat_diff_le:
  fixes a b :: "'a::len word"
  shows "b \<le> a \<Longrightarrow> unat (a - b) = unat a - unat b"
  by (rule unat_sub)

lemmas word_nat_order = word_le_nat_alt word_less_nat_alt

end
