(* ===== verification/Ox_Array.thy ===== *)
theory Ox_Array
  imports Brynet_Prelude
begin

text \<open>
  The element array of \<open>utils/array.c\<close>: a heap block cut into elements of equal
  size. The \<open>int\<close> fields and indices are integers whose arithmetic is checked:
  signed overflow, a failed assertion and an access outside a block are all
  \<open>None\<close>. A pointer to an element is its offset in the block.
\<close>

section \<open>Signed arithmetic\<close>

definition c_int :: "int \<Rightarrow> int option" where
  "c_int x = (if - (2 ^ 31) \<le> x \<and> x < 2 ^ 31 then Some x else None)"

text \<open>The conversion of an \<open>int\<close> to the \<open>size_t\<close> of an allocation.\<close>

definition to_size :: "int \<Rightarrow> nat" where
  "to_size x = nat (x mod 2 ^ 64)"

lemma c_int_Some [simp]: "c_int x = Some y \<longleftrightarrow> y = x \<and> - (2 ^ 31) \<le> x \<and> x < 2 ^ 31"
  by (auto simp: c_int_def)

lemma c_int_fits: "0 \<le> x \<Longrightarrow> x < 2 ^ 31 \<Longrightarrow> c_int x = Some x"
  by simp

lemma to_size_pos [simp]: "0 \<le> x \<Longrightarrow> x < 2 ^ 31 \<Longrightarrow> to_size x = nat x"
  by (simp add: to_size_def)

section \<open>Operations\<close>

record array_s =
  arr_buffer :: "byte list"
  arr_buffer_size :: int
  arr_element_size :: int
  arr_element_num :: int

definition sizeof_array_s :: nat where
  "sizeof_array_s = 24"

text \<open>The inner option is the null pointer.\<close>

definition ox_array_new :: "heap_env \<Rightarrow> int \<Rightarrow> int \<Rightarrow> array_s option option" where
  "ox_array_new env num element_size =
     do {
       buffer_size \<leftarrow> c_int (num * element_size);
       case malloc env sizeof_array_s of
         None \<Rightarrow> Some None
       | Some _ \<Rightarrow>
           (case malloc env (to_size buffer_size) of
              None \<Rightarrow> Some None
            | Some blk \<Rightarrow>
                Some (Some \<lparr>arr_buffer = replicate (length blk) 0, arr_buffer_size = buffer_size,
                            arr_element_size = element_size, arr_element_num = num\<rparr>))
     }"

definition ox_array_at :: "array_s \<Rightarrow> int \<Rightarrow> nat option" where
  "ox_array_at self index =
     (if 0 \<le> index \<and> index < arr_element_num self
      then map_option nat (c_int (index * arr_element_size self)) else None)"

definition ox_array_set :: "array_s \<Rightarrow> int \<Rightarrow> byte list \<Rightarrow> (bool \<times> array_s) option" where
  "ox_array_set self index data =
     do {
       old_data \<leftarrow> ox_array_at self index;
       bs \<leftarrow> mem_read data 0 (to_size (arr_element_size self));
       blk \<leftarrow> mem_write (arr_buffer self) (Some old_data) bs;
       Some (True, self\<lparr>arr_buffer := blk\<rparr>)
     }"

definition ox_array_increase :: "heap_env \<Rightarrow> array_s \<Rightarrow> int \<Rightarrow> (bool \<times> array_s) option" where
  "ox_array_increase env self increase_num =
     (if increase_num \<le> 0 then Some (False, self)
      else do {
        more \<leftarrow> c_int (increase_num * arr_element_size self);
        new_buffer_size \<leftarrow> c_int (arr_buffer_size self + more);
        fresh \<leftarrow> malloc env (to_size new_buffer_size);
        old \<leftarrow> mem_read (arr_buffer self) 0 (to_size (arr_buffer_size self));
        new_buffer \<leftarrow> mem_write (replicate (length fresh) 0) (Some 0) old;
        num \<leftarrow> c_int (arr_element_num self + increase_num);
        Some (True, self\<lparr>arr_buffer := new_buffer, arr_element_num := num,
                         arr_buffer_size := new_buffer_size\<rparr>)
      })"

definition ox_array_num :: "array_s \<Rightarrow> int" where
  "ox_array_num self = arr_element_num self"

section \<open>The array as a list of elements\<close>

definition array_inv :: "array_s \<Rightarrow> bool" where
  "array_inv a \<longleftrightarrow> 0 < arr_element_size a \<and> 0 \<le> arr_element_num a \<and>
     arr_buffer_size a = arr_element_num a * arr_element_size a \<and>
     arr_buffer_size a < 2 ^ 31 \<and> int (length (arr_buffer a)) = arr_buffer_size a"

definition elem_at :: "array_s \<Rightarrow> nat \<Rightarrow> byte list" where
  "elem_at a i = take (nat (arr_element_size a)) (drop (i * nat (arr_element_size a)) (arr_buffer a))"

definition slots :: "array_s \<Rightarrow> byte list list" where
  "slots a = map (elem_at a) [0..<nat (arr_element_num a)]"

lemma length_slots [simp]: "length (slots a) = nat (arr_element_num a)"
  by (simp add: slots_def)

lemma nth_slots [simp]: "i < nat (arr_element_num a) \<Longrightarrow> slots a ! i = elem_at a i"
  by (simp add: slots_def)

text \<open>Every index below the element count is inside the block, and inside an \<open>int\<close>.\<close>

lemma slot_bound:
  assumes "array_inv a" and "i < nat (arr_element_num a)"
  shows "i * nat (arr_element_size a) + nat (arr_element_size a) \<le> length (arr_buffer a)"
    and "int i * arr_element_size a < 2 ^ 31"
proof -
  have len: "length (arr_buffer a) = nat (arr_element_num a) * nat (arr_element_size a)"
    using assms(1) unfolding array_inv_def by (metis less_imp_le nat_int nat_mult_distrib)
  have "(Suc i) * nat (arr_element_size a) \<le> nat (arr_element_num a) * nat (arr_element_size a)"
    using assms(2) by (intro mult_le_mono1) simp
  with len show *: "i * nat (arr_element_size a) + nat (arr_element_size a) \<le> length (arr_buffer a)"
    by (simp add: add.commute)
  have "int (i * nat (arr_element_size a)) < 2 ^ 31"
    using * assms(1) unfolding array_inv_def by linarith
  then show "int i * arr_element_size a < 2 ^ 31" using assms(1) by (simp add: array_inv_def)
qed

lemma array_at_ok:
  assumes "array_inv a" and "0 \<le> i" and "i < arr_element_num a"
  shows "ox_array_at a i = Some (nat i * nat (arr_element_size a))"
proof -
  have "i * arr_element_size a < 2 ^ 31"
    using slot_bound(2) [OF assms(1), of "nat i"] assms(2,3) by simp
  moreover have "0 \<le> i * arr_element_size a" using assms by (simp add: array_inv_def)
  ultimately show ?thesis
    using assms by (simp add: ox_array_at_def c_int_fits nat_mult_distrib array_inv_def)
qed

text \<open>The element a pointer leads to.\<close>

lemma array_at_elem:
  assumes "array_inv a" and "0 \<le> i" and "i < arr_element_num a"
  shows "\<exists>off. ox_array_at a i = Some off \<and>
    mem_read (arr_buffer a) off (nat (arr_element_size a)) = Some (slots a ! nat i)"
  using array_at_ok [OF assms] slot_bound(1) [OF assms(1), of "nat i"] assms(2,3)
  by (simp add: mem_read_def elem_at_def)

lemma elem_at_length:
  "array_inv a \<Longrightarrow> i < nat (arr_element_num a) \<Longrightarrow> length (elem_at a i) = nat (arr_element_size a)"
  using slot_bound(1) [of a i] by (simp add: elem_at_def)

text \<open>Two elements do not overlap.\<close>

lemma slots_disjoint:
  assumes "i \<noteq> (j :: nat)"
  shows "j * n + n \<le> i * n \<or> i * n + n \<le> j * n"
proof (cases "i < j")
  case True
  then have "Suc i * n \<le> j * n" by (intro mult_le_mono1) simp
  then show ?thesis by (simp add: add.commute)
next
  case False
  with assms have "Suc j * n \<le> i * n" by (intro mult_le_mono1) simp
  then show ?thesis by (simp add: add.commute)
qed

lemma array_set_ok:
  assumes "array_inv a" and "0 \<le> i" and "i < arr_element_num a"
    and "length d = nat (arr_element_size a)"
  obtains a' where "ox_array_set a i d = Some (True, a')" and "array_inv a'"
    and "slots a' = (slots a)[nat i := d]" and "arr_element_num a' = arr_element_num a"
    and "arr_element_size a' = arr_element_size a"
proof -
  let ?n = "nat (arr_element_size a)"
  have size: "to_size (arr_element_size a) = ?n"
  proof (rule to_size_pos)
    have "arr_element_size a * 1 \<le> arr_element_size a * arr_element_num a"
      using assms by (intro mult_left_mono) (auto simp: array_inv_def)
    moreover have "arr_element_size a * arr_element_num a < 2 ^ 31"
      using assms(1) by (simp add: array_inv_def mult.commute)
    ultimately show "arr_element_size a < 2 ^ 31" by linarith
  qed (use assms(1) in \<open>simp add: array_inv_def\<close>)
  have bound: "nat i * ?n + length d \<le> length (arr_buffer a)"
    using slot_bound(1) [OF assms(1), of "nat i"] assms(2-4) by simp
  from mem_write_Some [OF this] obtain blk where
    blk: "mem_write (arr_buffer a) (Some (nat i * ?n)) d = Some blk" by blast
  let ?a = "a\<lparr>arr_buffer := blk\<rparr>"
  have len: "length blk = length (arr_buffer a)" by (rule mem_write_length [OF blk])
  have "ox_array_set a i d = Some (True, ?a)"
    using array_at_ok [OF assms(1-3)] size assms(4) blk by (simp add: ox_array_set_def mem_read_def)
  moreover have "array_inv ?a" using assms(1) len by (simp add: array_inv_def)
  moreover have "slots ?a = (slots a)[nat i := d]"
  proof (rule nth_equalityI)
    fix j assume j: "j < length (slots ?a)"
    show "slots ?a ! j = (slots a)[nat i := d] ! j"
    proof (cases "j = nat i")
      case True
      with j mem_write_read_back [OF blk] assms(4) len bound show ?thesis
        by (simp add: elem_at_def mem_read_Some_iff)
    next
      case False
      have "mem_read blk (j * ?n) ?n = mem_read (arr_buffer a) (j * ?n) ?n"
        using slots_disjoint [of "nat i" j ?n] False assms(4)
        by (intro mem_write_frame [OF blk]) auto
      with slot_bound(1) [OF assms(1), of j] j False len show ?thesis
        by (simp add: elem_at_def mem_read_def)
    qed
  qed simp
  ultimately show ?thesis by (intro that [of ?a]) simp_all
qed

lemma array_new_ok:
  assumes "ox_array_new env num esize = Some (Some a)" and "0 \<le> num" and "0 < esize"
  shows "array_inv a" and "arr_element_num a = num" and "arr_element_size a = esize"
    and "slots a = replicate (nat num) (replicate (nat esize) 0)"
proof -
  have fits: "num * esize < 2 ^ 31" "0 \<le> num * esize"
    and a: "a = \<lparr>arr_buffer = replicate (nat (num * esize)) 0, arr_buffer_size = num * esize,
      arr_element_size = esize, arr_element_num = num\<rparr>"
    using assms
    by (auto simp: ox_array_new_def malloc_length bind_eq_Some_conv split: option.splits)
  then show inv: "array_inv a" using assms(2,3) by (simp add: array_inv_def)
  show "arr_element_num a = num" "arr_element_size a = esize" using a by simp_all
  show "slots a = replicate (nat num) (replicate (nat esize) 0)"
  proof (rule nth_equalityI)
    fix j assume "j < length (slots a)"
    with slot_bound(1) [OF inv, of j] a show "slots a ! j = replicate (nat num) (replicate (nat esize) 0) ! j"
      by (simp add: elem_at_def)
  qed (simp add: a)
qed

text \<open>
  Growing keeps the elements and appends zeroed ones; nothing changes for a
  request that is not positive.
\<close>

lemma array_increase_ok:
  assumes "array_inv a" and "ox_array_increase env a k = Some (ok, a')"
  shows "array_inv a'" and "ok \<longleftrightarrow> 0 < k" and "arr_element_size a' = arr_element_size a"
    and "slots a' = slots a @ replicate (nat k) (replicate (nat (arr_element_size a)) 0)"
proof -
  let ?n = "nat (arr_element_size a)"
  note inv = assms(1) [unfolded array_inv_def]
  have "array_inv a' \<and> (ok \<longleftrightarrow> 0 < k) \<and> arr_element_size a' = arr_element_size a \<and>
    slots a' = slots a @ replicate (nat k) (replicate ?n 0)"
  proof (cases "0 < k")
    case False
    with assms show ?thesis by (simp add: ox_array_increase_def)
  next
    case True
    let ?new = "(arr_element_num a + k) * arr_element_size a"
    let ?old = "arr_buffer_size a"
    have fits: "?new < 2 ^ 31" "0 \<le> ?new" "?old \<le> ?new" "0 \<le> ?old" "?old < 2 ^ 31"
      using assms(2) True inv
      by (auto simp: ox_array_increase_def bind_eq_Some_conv distrib_right)
    have old: "nat ?old = length (arr_buffer a)" using inv by (metis nat_int)
    have le: "nat ?old \<le> nat ?new" using fits(3) by (rule nat_mono)
    have a': "a' = a\<lparr>arr_buffer := arr_buffer a @ replicate (nat ?new - nat ?old) 0,
        arr_element_num := arr_element_num a + k, arr_buffer_size := ?new\<rparr>" and ok: "ok"
      using assms(2) True fits old le inv
      by (auto simp: ox_array_increase_def bind_eq_Some_conv malloc_length mem_read_def
          mem_write_def distrib_right split: if_splits)
    have inv': "array_inv a'" using a' inv fits old le True by (simp add: array_inv_def)
    have num: "nat (arr_element_num a + k) = nat (arr_element_num a) + nat k"
      using inv True by (simp add: nat_add_distrib)
    have "slots a' = slots a @ replicate (nat k) (replicate ?n 0)"
    proof (rule nth_equalityI)
      fix j assume j: "j < length (slots a')"
      then have b: "j * ?n + ?n \<le> nat ?new"
        using slot_bound(1) [OF inv', of j] a' old le by simp
      show "slots a' ! j = (slots a @ replicate (nat k) (replicate ?n 0)) ! j"
      proof (cases "j < nat (arr_element_num a)")
        case True
        with slot_bound(1) [OF assms(1), of j] j a' show ?thesis
          by (simp add: elem_at_def nth_append)
      next
        case False
        have "nat ?old = nat (arr_element_num a) * ?n" using inv by (simp add: nat_mult_distrib)
        also have "\<dots> \<le> j * ?n" using False by (intro mult_le_mono1) simp
        finally have "length (arr_buffer a) \<le> j * ?n" using old by simp
        moreover have "j - nat (arr_element_num a) < nat k" using False j a' num by simp
        moreover have "min ?n (nat ?new - j * ?n) = ?n" using b by simp
        ultimately show ?thesis using False j a' num b old le
          by (simp add: elem_at_def nth_append)
      qed
    qed (simp add: a' num)
    with inv' ok True a' show ?thesis by simp
  qed
  then show "array_inv a'" "ok \<longleftrightarrow> 0 < k" "arr_element_size a' = arr_element_size a"
    "slots a' = slots a @ replicate (nat k) (replicate ?n 0)" by auto
qed

end
