(* ===== verification/Ox_Stack.thy ===== *)
theory Ox_Stack
  imports Ox_Array
begin

text \<open>
  The double-ended stack of \<open>utils/stack.c\<close>: a ring over an element array that
  doubles when it is full. The abstract view is the list of its elements from
  front to back; every operation is shown to act on that list.
\<close>

section \<open>Operations\<close>

record stack_s =
  stk_array :: array_s
  stk_element_size :: int
  stk_element_num :: int
  stk_front :: int
  stk_num :: int

definition sizeof_stack_s :: nat where
  "sizeof_stack_s = 24"

definition ox_stack_new :: "heap_env \<Rightarrow> int \<Rightarrow> int \<Rightarrow> stack_s option option" where
  "ox_stack_new env num element_size =
     (case malloc env sizeof_stack_s of
        None \<Rightarrow> Some None
      | Some _ \<Rightarrow>
          map_option (map_option (\<lambda>a.
            \<lparr>stk_array = a, stk_element_size = element_size, stk_element_num = num,
             stk_front = 0, stk_num = 0\<rparr>)) (ox_array_new env num element_size))"

definition ox_stack_init :: "stack_s \<Rightarrow> stack_s" where
  "ox_stack_init self = self\<lparr>stk_front := 0, stk_num := 0\<rparr>"

definition ox_stack_size :: "stack_s \<Rightarrow> int" where
  "ox_stack_size self = stk_element_num self"

definition ox_stack_num :: "stack_s \<Rightarrow> int" where
  "ox_stack_num self = stk_num self"

definition ox_stack_isfull :: "stack_s \<Rightarrow> bool" where
  "ox_stack_isfull self \<longleftrightarrow> stk_num self = stk_element_num self"

text \<open>\<open>(front + i) % n\<close>: the sum is an \<open>int\<close>, and a zero divisor is undefined.\<close>

definition ring_index :: "int \<Rightarrow> int \<Rightarrow> int \<Rightarrow> int option" where
  "ring_index front i n =
     do { k \<leftarrow> c_int (front + i); if n = 0 then None else Some (k mod n) }"

text \<open>The copying loop of \<open>ox_stack_increase\<close> from index \<open>i\<close> on, \<open>k\<close> elements to go.\<close>

fun copy_elements :: "stack_s \<Rightarrow> array_s \<Rightarrow> int \<Rightarrow> nat \<Rightarrow> array_s option" where
  "copy_elements self tmp i 0 = Some tmp"
| "copy_elements self tmp i (Suc k) =
     do {
       j \<leftarrow> ring_index (stk_front self) i (stk_element_num self);
       off \<leftarrow> ox_array_at (stk_array self) j;
       (_, tmp') \<leftarrow> ox_array_set tmp i (drop off (arr_buffer (stk_array self)));
       copy_elements self tmp' (i + 1) k
     }"

definition ox_stack_increase :: "heap_env \<Rightarrow> stack_s \<Rightarrow> int \<Rightarrow> (bool \<times> stack_s) option" where
  "ox_stack_increase env self increase_num =
     do {
       n \<leftarrow> c_int (stk_element_num self + increase_num);
       new \<leftarrow> ox_array_new env n (stk_element_size self);
       case new of
         None \<Rightarrow> Some (False, self)
       | Some tmp \<Rightarrow>
           do {
             tmp' \<leftarrow> copy_elements self tmp 0 (nat (ox_stack_num self));
             Some (True, self\<lparr>stk_front := 0, stk_array := tmp', stk_element_num := ox_array_num tmp'\<rparr>)
           }
     }"

definition ox_stack_push :: "heap_env \<Rightarrow> stack_s \<Rightarrow> byte list \<Rightarrow> (bool \<times> stack_s) option" where
  "ox_stack_push env self data =
     do {
       self \<leftarrow> (if ox_stack_isfull self
                then map_option snd (ox_stack_increase env self (ox_stack_size self))
                else Some self);
       if ox_stack_isfull self then Some (False, self)
       else do {
         j \<leftarrow> ring_index (stk_front self) (stk_num self) (stk_element_num self);
         (_, a) \<leftarrow> ox_array_set (stk_array self) j data;
         num \<leftarrow> c_int (stk_num self + 1);
         Some (True, self\<lparr>stk_array := a, stk_num := num\<rparr>)
       }
     }"

text \<open>A result pointer is \<open>None\<close> for null, else an offset in the block of the array.\<close>

definition ox_stack_front :: "stack_s \<Rightarrow> nat option option" where
  "ox_stack_front self =
     (if ox_stack_num self > 0 then map_option Some (ox_array_at (stk_array self) (stk_front self))
      else Some None)"

definition ox_stack_popfront :: "stack_s \<Rightarrow> (nat option \<times> stack_s) option" where
  "ox_stack_popfront self =
     do {
       ret \<leftarrow> ox_stack_front self;
       case ret of
         None \<Rightarrow> Some (None, self)
       | Some off \<Rightarrow>
           do {
             front \<leftarrow> ring_index (stk_front self) 1 (stk_element_num self);
             Some (Some off, self\<lparr>stk_num := stk_num self - 1, stk_front := front\<rparr>)
           }
     }"

definition ox_stack_popback :: "stack_s \<Rightarrow> (nat option \<times> stack_s) option" where
  "ox_stack_popback self =
     (if ox_stack_num self > 0
      then do {
        let self = self\<lparr>stk_num := stk_num self - 1\<rparr>;
        j \<leftarrow> ring_index (stk_front self) (stk_num self) (stk_element_num self);
        off \<leftarrow> ox_array_at (stk_array self) j;
        Some (Some off, self)
      }
      else Some (None, self))"

section \<open>Rings\<close>

definition ring :: "'a list \<Rightarrow> nat \<Rightarrow> nat \<Rightarrow> 'a list" where
  "ring xs f k = map (\<lambda>i. xs ! ((f + i) mod length xs)) [0..<k]"

lemma length_ring [simp]: "length (ring xs f k) = k"
  by (simp add: ring_def)

lemma nth_ring [simp]: "i < k \<Longrightarrow> ring xs f k ! i = xs ! ((f + i) mod length xs)"
  by (simp add: ring_def)

lemma ring_Suc: "ring xs f (Suc k) = ring xs f k @ [xs ! ((f + k) mod length xs)]"
  by (simp add: ring_def)

lemma ring_pop:
  assumes "xs \<noteq> []"
  shows "ring xs f (Suc k) = xs ! (f mod length xs) # ring xs (Suc f mod length xs) k"
proof (rule nth_equalityI)
  fix i assume "i < length (ring xs f (Suc k))"
  then show "ring xs f (Suc k) ! i = (xs ! (f mod length xs) # ring xs (Suc f mod length xs) k) ! i"
    by (cases i) (simp_all add: mod_add_left_eq)
qed simp

lemma ring_index_inj:
  assumes "i < k" and "k < (n :: nat)"
  shows "(f + i) mod n \<noteq> (f + k) mod n"
proof
  assume "(f + i) mod n = (f + k) mod n"
  then have "n dvd (f + k) - (f + i)" using assms by (metis mod_eq_dvd_iff_nat add_le_cancel_left less_imp_le)
  with assms show False by (auto dest: dvd_imp_le)
qed

lemma ring_push:
  assumes "k < length xs"
  shows "ring (xs[(f + k) mod length xs := x]) f (Suc k) = ring xs f k @ [x]"
proof (rule nth_equalityI)
  fix i assume i: "i < length (ring (xs[(f + k) mod length xs := x]) f (Suc k))"
  show "ring (xs[(f + k) mod length xs := x]) f (Suc k) ! i = (ring xs f k @ [x]) ! i"
  proof (cases "i < k")
    case True
    with ring_index_inj [OF True assms, of f] assms show ?thesis by (simp add: nth_append)
  next
    case False
    with i have "i = k" by simp
    moreover have "(f + k) mod length xs < length xs" using assms by (intro mod_less_divisor) linarith
    ultimately show ?thesis by (simp add: nth_append)
  qed
qed simp

lemma ring_0: "k \<le> length xs \<Longrightarrow> ring xs 0 k = take k xs"
  by (rule nth_equalityI) simp_all

lemma ring_prefix: "length xs = k \<Longrightarrow> ring (xs @ ys) 0 k = xs"
  by (simp add: ring_0)

section \<open>The stack as a list\<close>

definition stack_inv :: "stack_s \<Rightarrow> bool" where
  "stack_inv s \<longleftrightarrow> array_inv (stk_array s) \<and>
     stk_element_size s = arr_element_size (stk_array s) \<and>
     stk_element_num s = arr_element_num (stk_array s) \<and> 2 * stk_element_num s < 2 ^ 31 \<and>
     0 \<le> stk_front s \<and> (stk_front s < stk_element_num s \<or> stk_front s = 0) \<and>
     0 \<le> stk_num s \<and> stk_num s \<le> stk_element_num s"

definition elements :: "stack_s \<Rightarrow> byte list list" where
  "elements s = ring (slots (stk_array s)) (nat (stk_front s)) (nat (stk_num s))"

lemma length_elements: "length (elements s) = nat (stk_num s)"
  by (simp add: elements_def)

lemma ring_index_ok:
  assumes "0 \<le> f" and "0 \<le> i" and "f + i < 2 ^ 31" and "0 < n"
  shows "ring_index f i n = Some (int ((nat f + nat i) mod nat n))"
proof -
  have "(f + i) mod n = int ((nat f + nat i) mod nat n)"
    using assms by (simp add: zmod_int)
  with assms show ?thesis by (simp add: ring_index_def c_int_fits)
qed

text \<open>Reading the element at ring position \<open>i\<close>.\<close>

lemma ring_read:
  assumes "stack_inv s" and "0 \<le> i" and "i < stk_num s"
  obtains j off where "ring_index (stk_front s) i (stk_element_num s) = Some j"
    and "ox_array_at (stk_array s) j = Some off"
    and "mem_read (arr_buffer (stk_array s)) off (nat (stk_element_size s)) = Some (elements s ! nat i)"
proof -
  note inv = assms(1) [unfolded stack_inv_def]
  define j where "j = (nat (stk_front s) + nat i) mod nat (stk_element_num s)"
  have n: "0 < stk_element_num s" "stk_front s + i < 2 ^ 31" using assms inv by auto
  have idx: "ring_index (stk_front s) i (stk_element_num s) = Some (int j)"
    unfolding j_def using ring_index_ok inv assms(2) n by simp
  have "j < nat (stk_element_num s)" unfolding j_def using n(1) by (intro mod_less_divisor) simp
  then have "int j < arr_element_num (stk_array s)" using inv by linarith
  from array_at_elem [OF _ _ this] inv obtain off where
    off: "ox_array_at (stk_array s) (int j) = Some off"
      "mem_read (arr_buffer (stk_array s)) off (nat (stk_element_size s)) = Some (slots (stk_array s) ! j)"
    by auto
  have "elements s ! nat i = slots (stk_array s) ! j"
    using assms(2,3) inv by (simp add: elements_def j_def)
  with idx off that show ?thesis by simp
qed

lemma array_set_pointer:
  assumes "mem_read blk off (to_size (arr_element_size a)) = Some e"
  shows "ox_array_set a i (drop off blk) = ox_array_set a i e"
  using assms by (auto simp: ox_array_set_def mem_read_def split: if_splits)

lemma element_size_fits:
  assumes "stack_inv s" and "0 < stk_element_num s"
  shows "to_size (stk_element_size s) = nat (stk_element_size s)"
proof (rule to_size_pos)
  note inv = assms(1) [unfolded stack_inv_def array_inv_def]
  show "0 \<le> stk_element_size s" using inv by simp
  have "stk_element_size s * 1 \<le> stk_element_size s * stk_element_num s"
    using inv assms(2) by (intro mult_left_mono) auto
  moreover have "stk_element_size s * stk_element_num s < 2 ^ 31" using inv by (simp add: mult.commute)
  ultimately show "stk_element_size s < 2 ^ 31" by linarith
qed

lemma copy_elements_ok:
  assumes "stack_inv s" and "array_inv tmp" and "arr_element_size tmp = stk_element_size s"
    and "0 \<le> i" and "nat i + k \<le> nat (stk_num s)" and "stk_num s \<le> arr_element_num tmp"
  shows "\<exists>tmp'. copy_elements s tmp i k = Some tmp' \<and> array_inv tmp' \<and>
    arr_element_size tmp' = arr_element_size tmp \<and> arr_element_num tmp' = arr_element_num tmp \<and>
    slots tmp' = take (nat i) (slots tmp) @ take k (drop (nat i) (elements s)) @ drop (nat i + k) (slots tmp)"
  using assms(2-6)
proof (induction k arbitrary: tmp i)
  case 0
  then show ?case by simp
next
  case (Suc k)
  have i: "i < stk_num s" "nat (i + 1) = Suc (nat i)" using Suc.prems by auto
  obtain j off where R: "ring_index (stk_front s) i (stk_element_num s) = Some j"
    "ox_array_at (stk_array s) j = Some off"
    "mem_read (arr_buffer (stk_array s)) off (nat (stk_element_size s)) = Some (elements s ! nat i)"
    by (rule ring_read [OF assms(1) Suc.prems(3) i(1)])
  have pos: "0 < stk_element_num s" using assms(1) i(1) Suc.prems(3) by (auto simp: stack_inv_def)
  have e: "length (elements s ! nat i) = nat (arr_element_size tmp)"
    using R(3) Suc.prems(2) by (auto simp: mem_read_Some_iff)
  have lt: "i < arr_element_num tmp" using i(1) Suc.prems(5) by linarith
  obtain tmp1 where T: "ox_array_set tmp i (elements s ! nat i) = Some (True, tmp1)"
    "array_inv tmp1" "slots tmp1 = (slots tmp)[nat i := elements s ! nat i]"
    "arr_element_num tmp1 = arr_element_num tmp" "arr_element_size tmp1 = arr_element_size tmp"
    by (rule array_set_ok [OF Suc.prems(1,3) lt e])
  have set: "ox_array_set tmp i (drop off (arr_buffer (stk_array s))) = Some (True, tmp1)"
    using array_set_pointer R(3) element_size_fits [OF assms(1) pos] Suc.prems(2) T(1) by simp
  obtain tmp' where C: "copy_elements s tmp1 (i + 1) k = Some tmp'" "array_inv tmp'"
    "arr_element_size tmp' = arr_element_size tmp1" "arr_element_num tmp' = arr_element_num tmp1"
    "slots tmp' = take (Suc (nat i)) (slots tmp1) @ take k (drop (Suc (nat i)) (elements s)) @
       drop (Suc (nat i) + k) (slots tmp1)"
  proof -
    have "arr_element_size tmp1 = stk_element_size s" "0 \<le> i + 1" "stk_num s \<le> arr_element_num tmp1"
      "nat (i + 1) + k \<le> nat (stk_num s)"
      using T(4,5) Suc.prems(2-5) i(2) by simp_all
    from Suc.IH [OF T(2) this(1,2,4,3)] i(2) that show thesis by auto
  qed
  have len: "nat i < length (slots tmp)" "nat i < length (elements s)"
    using i Suc.prems by (auto simp: elements_def)
  have "take (Suc (nat i)) (slots tmp1) = take (nat i) (slots tmp) @ [elements s ! nat i]"
    using len(1) T(3) by (simp add: take_Suc_conv_app_nth)
  moreover have "drop (Suc (nat i) + k) (slots tmp1) = drop (Suc (nat i) + k) (slots tmp)"
    using T(3) by (simp add: drop_update_cancel)
  moreover have "take (Suc k) (drop (nat i) (elements s)) =
      (elements s ! nat i) # take k (drop (Suc (nat i)) (elements s))"
    using len(2) by (simp add: Cons_nth_drop_Suc [symmetric])
  ultimately have "slots tmp' = take (nat i) (slots tmp) @ take (Suc k) (drop (nat i) (elements s)) @
      drop (nat i + Suc k) (slots tmp)" using C(5) by simp
  with C R set T show ?case by simp
qed

text \<open>
  Growing keeps the elements. It fails, and changes nothing, only when the heap
  refuses; the doubled block must fit an \<open>int\<close>.
\<close>

lemma stack_increase_ok:
  assumes "stack_inv s" and "0 \<le> k" and "2 * (stk_element_num s + k) < 2 ^ 31"
    and "(stk_element_num s + k) * stk_element_size s < 2 ^ 31"
  shows "ox_stack_increase env s k = Some (False, s) \<or>
    (\<exists>s'. ox_stack_increase env s k = Some (True, s') \<and> stack_inv s' \<and> elements s' = elements s \<and>
       stk_element_num s' = stk_element_num s + k \<and> stk_element_size s' = stk_element_size s \<and>
       stk_num s' = stk_num s)"
    and "(\<And>n. malloc_ok env n) \<Longrightarrow> ox_stack_increase env s k \<noteq> Some (False, s)"
proof -
  note inv = assms(1) [unfolded stack_inv_def array_inv_def]
  let ?n = "stk_element_num s + k"
  have pos: "0 \<le> ?n" "0 < stk_element_size s" using assms(2) inv by auto
  then have "0 \<le> ?n * stk_element_size s" by (intro mult_nonneg_nonneg) auto
  note prod = c_int_fits [OF this assms(4)]
  have "c_int ?n = Some ?n" by (rule c_int_fits) (use pos assms(3) in auto)
  note n = this pos prod
  have main: "\<exists>s'. ox_stack_increase env s k = Some (True, s') \<and> stack_inv s' \<and>
      elements s' = elements s \<and> stk_element_num s' = ?n \<and>
      stk_element_size s' = stk_element_size s \<and> stk_num s' = stk_num s"
    if new: "ox_array_new env ?n (stk_element_size s) = Some (Some tmp)" for tmp
  proof -
    note T = array_new_ok [OF new n(2,3)]
    have le: "nat 0 + nat (stk_num s) \<le> nat (stk_num s)" "stk_num s \<le> arr_element_num tmp"
      using inv assms(2) T(2) by auto
    obtain tmp' where C: "copy_elements s tmp 0 (nat (stk_num s)) = Some tmp'" "array_inv tmp'"
      "arr_element_size tmp' = arr_element_size tmp" "arr_element_num tmp' = arr_element_num tmp"
      "slots tmp' = elements s @ drop (nat (stk_num s)) (slots tmp)"
      using copy_elements_ok [OF assms(1) T(1) T(3) order_refl le] by (auto simp: elements_def)
    let ?s = "s\<lparr>stk_front := 0, stk_array := tmp', stk_element_num := ?n\<rparr>"
    have "ox_stack_increase env s k = Some (True, ?s)"
      using n(1) new C(1,4) T(2)
      by (simp add: c_int_def ox_stack_increase_def ox_stack_num_def ox_array_num_def)
    moreover have "stack_inv ?s" using C T inv assms(2,3) by (auto simp: stack_inv_def)
    moreover have "elements ?s = elements s"
      using C(5) by (simp add: elements_def [of ?s] ring_prefix length_elements)
    ultimately show ?thesis by (intro exI [of _ ?s]) simp
  qed
  show "ox_stack_increase env s k = Some (False, s) \<or>
    (\<exists>s'. ox_stack_increase env s k = Some (True, s') \<and> stack_inv s' \<and> elements s' = elements s \<and>
       stk_element_num s' = stk_element_num s + k \<and> stk_element_size s' = stk_element_size s \<and>
       stk_num s' = stk_num s)"
  proof (cases "ox_array_new env ?n (stk_element_size s)")
    case None
    with n(4) show ?thesis by (auto simp: c_int_def ox_array_new_def split: option.splits)
  next
    case (Some new)
    with main n(1) show ?thesis by (cases new) (simp_all add: ox_stack_increase_def c_int_def)
  qed
  assume "\<And>m. malloc_ok env m"
  with n(1,4) main show "ox_stack_increase env s k \<noteq> Some (False, s)"
    by (auto simp: ox_array_new_def malloc_def c_int_def)
qed

lemma push_room:
  assumes "stack_inv s" and "length d = nat (stk_element_size s)" and "stk_num s < stk_element_num s"
  obtains s' where "ox_stack_push env s d = Some (True, s')" and "stack_inv s'"
    and "elements s' = elements s @ [d]" and "stk_num s' = stk_num s + 1"
    and "stk_element_num s' = stk_element_num s" and "stk_element_size s' = stk_element_size s"
proof -
  note inv = assms(1) [unfolded stack_inv_def]
  define j where "j = (nat (stk_front s) + nat (stk_num s)) mod nat (stk_element_num s)"
  have n: "0 < stk_element_num s" "stk_front s + stk_num s < 2 ^ 31" using assms(3) inv by auto
  have idx: "ring_index (stk_front s) (stk_num s) (stk_element_num s) = Some (int j)"
    unfolding j_def using ring_index_ok inv n by simp
  have "j < nat (stk_element_num s)" unfolding j_def using n(1) by (intro mod_less_divisor) simp
  then have j: "int j < arr_element_num (stk_array s)" using inv by linarith
  obtain a where A: "ox_array_set (stk_array s) (int j) d = Some (True, a)" "array_inv a"
    "slots a = (slots (stk_array s))[j := d]"
    "arr_element_num a = arr_element_num (stk_array s)"
    "arr_element_size a = arr_element_size (stk_array s)"
    using array_set_ok [OF _ _ j] inv assms(2) by (metis nat_int of_nat_0_le_iff)
  let ?s = "s\<lparr>stk_array := a, stk_num := stk_num s + 1\<rparr>"
  have num: "c_int (stk_num s + 1) = Some (stk_num s + 1)" "nat (stk_num s + 1) = Suc (nat (stk_num s))"
    using inv assms(3) by (auto intro!: c_int_fits)
  have "ox_stack_push env s d = Some (True, ?s)"
    using assms(3) idx A(1) num(1) by (simp add: ox_stack_push_def ox_stack_isfull_def c_int_def)
  moreover have "stack_inv ?s" using A inv assms(3) by (auto simp: stack_inv_def)
  moreover have "elements ?s = elements s @ [d]"
  proof -
    have "nat (stk_num s) < length (slots (stk_array s))" using inv assms(3) by simp
    from ring_push [OF this, of "nat (stk_front s)" d] show ?thesis
      using A(3) inv num(2) by (simp add: elements_def j_def)
  qed
  ultimately show ?thesis by (intro that [of ?s]) simp_all
qed

lemma push_ok:
  assumes "stack_inv s" and "length d = nat (stk_element_size s)" and "0 < stk_element_num s"
    and "stk_num s = stk_element_num s \<Longrightarrow> 4 * stk_element_num s < 2 ^ 31 \<and>
           2 * stk_element_num s * stk_element_size s < 2 ^ 31"
  shows "ox_stack_push env s d = Some (False, s) \<or>
    (\<exists>s'. ox_stack_push env s d = Some (True, s') \<and> stack_inv s' \<and> elements s' = elements s @ [d] \<and>
       stk_num s' = stk_num s + 1 \<and> stk_element_num s \<le> stk_element_num s' \<and>
       stk_element_size s' = stk_element_size s)"
    and "(\<And>n. malloc_ok env n) \<Longrightarrow> ox_stack_push env s d \<noteq> Some (False, s)"
proof -
  have room: "\<exists>s'. ox_stack_push env t d = Some (True, s') \<and> stack_inv s' \<and>
      elements s' = elements t @ [d] \<and> stk_num s' = stk_num t + 1 \<and>
      stk_element_num t = stk_element_num s' \<and> stk_element_size s' = stk_element_size t"
    if "stack_inv t" "stk_element_size t = stk_element_size s" "stk_num t < stk_element_num t" for t
    using push_room [OF that(1) _ that(3), of d env] assms(2) that(2) by metis
  have "(ox_stack_push env s d = Some (False, s) \<or>
    (\<exists>s'. ox_stack_push env s d = Some (True, s') \<and> stack_inv s' \<and> elements s' = elements s @ [d] \<and>
       stk_num s' = stk_num s + 1 \<and> stk_element_num s \<le> stk_element_num s' \<and>
       stk_element_size s' = stk_element_size s)) \<and>
    ((\<forall>n. malloc_ok env n) \<longrightarrow> ox_stack_push env s d \<noteq> Some (False, s))"
  proof (cases "stk_num s = stk_element_num s")
    case False
    with assms(1) have "stk_num s < stk_element_num s" by (auto simp: stack_inv_def)
    with room [OF assms(1) refl] show ?thesis by auto
  next
    case True
    let ?k = "stk_element_num s"
    have k: "0 \<le> ?k" "2 * (stk_element_num s + ?k) < 2 ^ 31"
      "(stk_element_num s + ?k) * stk_element_size s < 2 ^ 31"
      using assms(3) assms(4) [OF True] by (auto simp: algebra_simps)
    note I = stack_increase_ok [OF assms(1) k, of env]
    from I(1) show ?thesis
    proof
      assume *: "ox_stack_increase env s ?k = Some (False, s)"
      with True have "ox_stack_push env s d = Some (False, s)"
        by (simp add: ox_stack_push_def ox_stack_isfull_def ox_stack_size_def)
      with * I(2) show ?thesis by blast
    next
      assume "\<exists>s'. ox_stack_increase env s ?k = Some (True, s') \<and> stack_inv s' \<and>
        elements s' = elements s \<and> stk_element_num s' = stk_element_num s + ?k \<and>
        stk_element_size s' = stk_element_size s \<and> stk_num s' = stk_num s"
      then obtain t where t: "ox_stack_increase env s ?k = Some (True, t)" "stack_inv t"
        "elements t = elements s" "stk_element_num t = stk_element_num s + ?k"
        "stk_element_size t = stk_element_size s" "stk_num t = stk_num s" by blast
      have "ox_stack_push env s d = ox_stack_push env t d"
        using True t assms(3) by (simp add: ox_stack_push_def ox_stack_isfull_def ox_stack_size_def)
      with room [OF t(2,5)] t True assms(3) show ?thesis by auto
    qed
  qed
  then show "ox_stack_push env s d = Some (False, s) \<or>
    (\<exists>s'. ox_stack_push env s d = Some (True, s') \<and> stack_inv s' \<and> elements s' = elements s @ [d] \<and>
       stk_num s' = stk_num s + 1 \<and> stk_element_num s \<le> stk_element_num s' \<and>
       stk_element_size s' = stk_element_size s)"
    and "(\<And>n. malloc_ok env n) \<Longrightarrow> ox_stack_push env s d \<noteq> Some (False, s)" by auto
qed

text \<open>Popping: the pointer leads to the element taken out, which stays in the block.\<close>

definition popped :: "(nat option \<times> stack_s) option \<Rightarrow> (byte list option \<times> stack_s) option" where
  "popped res =
     do {
       (ptr, s) \<leftarrow> res;
       case ptr of
         None \<Rightarrow> Some (None, s)
       | Some off \<Rightarrow>
           map_option (\<lambda>e. (Some e, s)) (mem_read (arr_buffer (stk_array s)) off (nat (stk_element_size s)))
     }"

lemma popfront_ok:
  assumes "stack_inv s"
  shows "elements s = [] \<and> popped (ox_stack_popfront s) = Some (None, s) \<or>
    (\<exists>e s'. elements s = e # elements s' \<and> popped (ox_stack_popfront s) = Some (Some e, s') \<and>
       stack_inv s' \<and> stk_num s' < stk_num s \<and> stk_element_num s' = stk_element_num s \<and>
       stk_element_size s' = stk_element_size s)"
proof (cases "0 < stk_num s")
  case False
  then show ?thesis
    by (simp add: elements_def ring_def ox_stack_popfront_def ox_stack_front_def ox_stack_num_def popped_def)
next
  case True
  note inv = assms [unfolded stack_inv_def]
  let ?n = "stk_element_num s" and ?f = "stk_front s"
  have n: "0 < ?n" "?f < ?n" using True inv by auto
  then obtain off where off: "ox_array_at (stk_array s) ?f = Some off"
    "mem_read (arr_buffer (stk_array s)) off (nat (stk_element_size s)) =
       Some (slots (stk_array s) ! nat ?f)"
    using array_at_elem [of "stk_array s" ?f] inv by auto
  have idx: "ring_index ?f 1 ?n = Some (int (Suc (nat ?f) mod nat ?n))"
    using ring_index_ok [of ?f 1 ?n] n inv by simp
  let ?s = "s\<lparr>stk_num := stk_num s - 1, stk_front := int (Suc (nat ?f) mod nat ?n)\<rparr>"
  have "popped (ox_stack_popfront s) = Some (Some (slots (stk_array s) ! nat ?f), ?s)"
    using True off idx
    by (simp add: ox_stack_popfront_def ox_stack_front_def ox_stack_num_def popped_def)
  moreover have "int (Suc (nat ?f) mod nat ?n) < ?n"
    using n mod_less_divisor [of "nat ?n" "Suc (nat ?f)"] by linarith
  then have "stack_inv ?s" using inv True by (simp add: stack_inv_def)
  moreover have "elements s = slots (stk_array s) ! nat ?f # elements ?s"
  proof -
    have k: "nat (stk_num s) = Suc (nat (stk_num s - 1))" using True by simp
    have "slots (stk_array s) \<noteq> []" "nat ?f < length (slots (stk_array s))"
      using n inv by (auto simp flip: length_0_conv)
    then show ?thesis
      using ring_pop [of "slots (stk_array s)" "nat ?f" "nat (stk_num s - 1)"] inv
      by (simp add: elements_def k)
  qed
  ultimately show ?thesis using True by (intro disjI2 exI [of _ "slots (stk_array s) ! nat ?f"] exI [of _ ?s]) simp
qed

lemma popback_ok:
  assumes "stack_inv s"
  shows "elements s = [] \<and> popped (ox_stack_popback s) = Some (None, s) \<or>
    (\<exists>e s'. elements s = elements s' @ [e] \<and> popped (ox_stack_popback s) = Some (Some e, s') \<and>
       stack_inv s' \<and> stk_num s' < stk_num s \<and> stk_element_num s' = stk_element_num s \<and>
       stk_element_size s' = stk_element_size s)"
proof (cases "0 < stk_num s")
  case False
  then show ?thesis
    by (simp add: elements_def ring_def ox_stack_popback_def ox_stack_num_def popped_def)
next
  case True
  note inv = assms [unfolded stack_inv_def]
  let ?s = "s\<lparr>stk_num := stk_num s - 1\<rparr>"
  have k: "nat (stk_num s) = Suc (nat (stk_num s - 1))" using True by simp
  obtain j off where R: "ring_index (stk_front s) (stk_num s - 1) (stk_element_num s) = Some j"
    "ox_array_at (stk_array s) j = Some off"
    "mem_read (arr_buffer (stk_array s)) off (nat (stk_element_size s)) =
       Some (elements s ! nat (stk_num s - 1))"
    using ring_read [OF assms, of "stk_num s - 1"] True by auto
  then have "popped (ox_stack_popback s) = Some (Some (elements s ! nat (stk_num s - 1)), ?s)"
    using True by (simp add: ox_stack_popback_def ox_stack_num_def popped_def)
  moreover have "stack_inv ?s" using inv True by (auto simp: stack_inv_def)
  moreover have "elements s = elements ?s @ [elements s ! nat (stk_num s - 1)]"
    by (simp add: elements_def k ring_Suc nth_append)
  ultimately show ?thesis
    using True by (intro disjI2 exI [of _ "elements s ! nat (stk_num s - 1)"] exI [of _ ?s]) simp
qed

section \<open>The contract of a double-ended stack\<close>

text \<open>
  \<open>room s n\<close> promises that \<open>n\<close> more elements fit. The operations of a client are
  a list, and running them on the implementation gives what running them on
  the list of elements gives.
\<close>

datatype 'e stack_op = Push_back 'e | Pop_front | Pop_back

fun deque_spec :: "'e stack_op \<Rightarrow> 'e list \<Rightarrow> 'e option \<times> 'e list" where
  "deque_spec (Push_back e) es = (None, es @ [e])"
| "deque_spec Pop_front es = (case es of [] \<Rightarrow> (None, []) | e # es' \<Rightarrow> (Some e, es'))"
| "deque_spec Pop_back es = (if es = [] then (None, []) else (Some (last es), butlast es))"

fun deque_run :: "'e stack_op list \<Rightarrow> 'e list \<Rightarrow> 'e option list \<times> 'e list" where
  "deque_run [] es = ([], es)"
| "deque_run (p # ps) es =
     (let (r, es') = deque_spec p es; (rs, es'') = deque_run ps es' in (r # rs, es''))"

definition pushed :: "'e stack_op list \<Rightarrow> 'e list" where
  "pushed ps = List.map_filter (\<lambda>p. case p of Push_back e \<Rightarrow> Some e | _ \<Rightarrow> None) ps"

lemma pushed_simps [simp]:
  "pushed [] = []" "pushed (Push_back e # ps) = e # pushed ps"
  "pushed (Pop_front # ps) = pushed ps" "pushed (Pop_back # ps) = pushed ps"
  by (simp_all add: pushed_def List.map_filter_def)

text \<open>Running operations on an implementation.\<close>

definition deque_step ::
    "('s \<Rightarrow> 'e \<Rightarrow> (bool \<times> 's) option) \<Rightarrow> ('s \<Rightarrow> ('e option \<times> 's) option) \<Rightarrow>
     ('s \<Rightarrow> ('e option \<times> 's) option) \<Rightarrow> 'e stack_op \<Rightarrow> 's \<Rightarrow> ('e option \<times> 's) option" where
  "deque_step push pop_front pop_back p s =
     (case p of
        Push_back e \<Rightarrow> map_option (\<lambda>(_, s'). (None, s')) (push s e)
      | Pop_front \<Rightarrow> pop_front s
      | Pop_back \<Rightarrow> pop_back s)"

fun deque_exec ::
    "('e stack_op \<Rightarrow> 's \<Rightarrow> ('e option \<times> 's) option) \<Rightarrow> 'e stack_op list \<Rightarrow> 's \<Rightarrow>
     ('e option list \<times> 's) option" where
  "deque_exec step [] s = Some ([], s)"
| "deque_exec step (p # ps) s =
     do { (r, s') \<leftarrow> step p s; (rs, s'') \<leftarrow> deque_exec step ps s'; Some (r # rs, s'') }"

fun push_all :: "('s \<Rightarrow> 'e \<Rightarrow> (bool \<times> 's) option) \<Rightarrow> 'e list \<Rightarrow> 's \<Rightarrow> 's option" where
  "push_all push [] s = Some s"
| "push_all push (e # es) s = do { (_, s') \<leftarrow> push s e; push_all push es s' }"

locale deque =
  fixes inv :: "'s \<Rightarrow> bool" and room :: "'s \<Rightarrow> nat \<Rightarrow> bool" and okay :: "'s \<Rightarrow> 'e \<Rightarrow> bool"
    and elems :: "'s \<Rightarrow> 'e list"
    and push :: "'s \<Rightarrow> 'e \<Rightarrow> (bool \<times> 's) option"
    and pop_front :: "'s \<Rightarrow> ('e option \<times> 's) option"
    and pop_back :: "'s \<Rightarrow> ('e option \<times> 's) option"
  assumes push_law: "inv s \<Longrightarrow> room s (Suc n) \<Longrightarrow> okay s e \<Longrightarrow>
      \<exists>s'. push s e = Some (True, s') \<and> inv s' \<and> room s' n \<and> okay s' = okay s \<and> elems s' = elems s @ [e]"
    and pop_front_law: "inv s \<Longrightarrow> room s n \<Longrightarrow>
      elems s = [] \<and> pop_front s = Some (None, s) \<or>
      (\<exists>e s'. elems s = e # elems s' \<and> pop_front s = Some (Some e, s') \<and> inv s' \<and> room s' n \<and>
         okay s' = okay s)"
    and pop_back_law: "inv s \<Longrightarrow> room s n \<Longrightarrow>
      elems s = [] \<and> pop_back s = Some (None, s) \<or>
      (\<exists>e s'. elems s = elems s' @ [e] \<and> pop_back s = Some (Some e, s') \<and> inv s' \<and> room s' n \<and>
         okay s' = okay s)"
begin

lemma step_refines:
  assumes "inv s" and "room s (length (pushed (p # ps)))" and "list_all (okay s) (pushed (p # ps))"
  obtains r s' where "deque_step push pop_front pop_back p s = Some (r, s')" and "deque_spec p (elems s) = (r, elems s')"
    and "inv s'" and "room s' (length (pushed ps))" and "okay s' = okay s"
proof (cases p)
  case (Push_back e)
  with assms obtain s' where "push s e = Some (True, s')" "inv s'" "room s' (length (pushed ps))"
    "okay s' = okay s" "elems s' = elems s @ [e]" using push_law [of s "length (pushed ps)" e] by auto
  with Push_back show ?thesis by (intro that [of None s']) (simp_all add: deque_step_def)
next
  case Pop_front
  from assms pop_front_law [of s "length (pushed ps)"] that show ?thesis
    by (auto simp: Pop_front deque_step_def)
next
  case Pop_back
  from assms pop_back_law [of s "length (pushed ps)"] that show ?thesis
    by (auto simp: Pop_back deque_step_def)
qed

lemma run_refines:
  assumes "inv s" and "room s (length (pushed ps))" and "list_all (okay s) (pushed ps)"
  shows "\<exists>rs s'. deque_exec (deque_step push pop_front pop_back) ps s = Some (rs, s') \<and> deque_run ps (elems s) = (rs, elems s') \<and> inv s'"
  using assms
proof (induction ps arbitrary: s)
  case Nil
  then show ?case by simp
next
  case (Cons p ps)
  obtain r s' where S: "deque_step push pop_front pop_back p s = Some (r, s')" "deque_spec p (elems s) = (r, elems s')"
    "inv s'" "room s' (length (pushed ps))" "okay s' = okay s"
    by (rule step_refines [OF Cons.prems])
  have "list_all (okay s') (pushed ps)" using Cons.prems(3) S(5) by (cases p) auto
  from Cons.IH [OF S(3,4) this] S(1,2) show ?case by auto
qed

text \<open>What a producer does: push the elements of a list one after the other.\<close>

lemma push_all_ok:
  assumes "inv s" and "room s (length es)" and "list_all (okay s) es"
  shows "\<exists>s'. push_all push es s = Some s' \<and> inv s' \<and> room s' 0 \<and> okay s' = okay s \<and>
    elems s' = elems s @ es"
  using assms
proof (induction es arbitrary: s)
  case Nil
  then show ?case by simp
next
  case (Cons e es)
  then obtain s' where S: "push s e = Some (True, s')" "inv s'" "room s' (length es)"
    "okay s' = okay s" "elems s' = elems s @ [e]" using push_law [of s "length es" e] by auto
  with Cons.prems(3) have "list_all (okay s') es" by simp
  from Cons.IH [OF S(2,3) this] S show ?case by auto
qed

end

text \<open>
  Room on a heap that serves every request: the doubled block of the most
  elements the stack will ever hold still has a size that fits an \<open>int\<close>.
\<close>

definition stack_room :: "heap_env \<Rightarrow> stack_s \<Rightarrow> nat \<Rightarrow> bool" where
  "stack_room env s n \<longleftrightarrow> (\<forall>k. malloc_ok env k) \<and> 0 < stk_element_num s \<and>
     4 * (stk_num s + int n) < 2 ^ 31 \<and> 2 * (stk_num s + int n) * stk_element_size s < 2 ^ 31"

definition stack_step ::
    "heap_env \<Rightarrow> byte list stack_op \<Rightarrow> stack_s \<Rightarrow> (byte list option \<times> stack_s) option" where
  "stack_step env =
     deque_step (ox_stack_push env) (\<lambda>s. popped (ox_stack_popfront s))
       (\<lambda>s. popped (ox_stack_popback s))"

definition stack_okay :: "stack_s \<Rightarrow> byte list \<Rightarrow> bool" where
  "stack_okay s d \<longleftrightarrow> length d = nat (stk_element_size s)"

lemma room_step:
  assumes "0 < a" and "x \<le> y" and "2 * y * a < (b :: int)"
  shows "2 * x * a < b"
proof -
  have "2 * x * a \<le> 2 * y * a" using assms(1,2) by (intro mult_right_mono) auto
  with assms(3) show ?thesis by linarith
qed

interpretation stk: deque stack_inv "stack_room env" stack_okay elements "ox_stack_push env"
    "\<lambda>s. popped (ox_stack_popfront s)" "\<lambda>s. popped (ox_stack_popback s)" for env
proof (unfold_locales, goal_cases)
  case (1 s n e)
  then have R: "\<And>k. malloc_ok env k" "0 < stk_element_num s" "4 * (stk_num s + int (Suc n)) < 2 ^ 31"
    "2 * (stk_num s + int (Suc n)) * stk_element_size s < 2 ^ 31" "0 < stk_element_size s"
    by (auto simp: stack_room_def stack_inv_def array_inv_def)
  have "4 * stk_element_num s < 2 ^ 31 \<and> 2 * stk_element_num s * stk_element_size s < 2 ^ 31"
    if "stk_num s = stk_element_num s"
    using room_step [OF R(5) _ R(4), of "stk_num s"] R(3) that by simp
  note P = push_ok [OF "1"(1) _ R(2) this, of e env]
  obtain s' where S: "ox_stack_push env s e = Some (True, s')" "stack_inv s'"
    "elements s' = elements s @ [e]" "stk_num s' = stk_num s + 1"
    "stk_element_num s \<le> stk_element_num s'" "stk_element_size s' = stk_element_size s"
    using P(1) P(2) [OF _ _ R(1)] "1"(3) by (auto simp: stack_okay_def)
  moreover have "stack_room env s' n"
  proof -
    have "stk_num s' + int n = stk_num s + int (Suc n)" using S(4) by simp
    then show ?thesis using R(1-4) S(5,6) by (simp only: stack_room_def) simp
  qed
  moreover have "stack_okay s' = stack_okay s" using S(6) by (auto simp: stack_okay_def)
  ultimately show ?case by blast
next
  case (2 s n)
  have "stack_room env s' n \<and> stack_okay s' = stack_okay s"
    if "stk_num s' < stk_num s" "stk_element_num s' = stk_element_num s"
      "stk_element_size s' = stk_element_size s" for s'
    using 2 that room_step [of "stk_element_size s" "stk_num s' + int n" "stk_num s + int n" "2 ^ 31"]
    by (auto simp: stack_room_def stack_okay_def stack_inv_def array_inv_def)
  with popfront_ok [OF "2"(1)] show ?case by blast
next
  case (3 s n)
  have "stack_room env s' n \<and> stack_okay s' = stack_okay s"
    if "stk_num s' < stk_num s" "stk_element_num s' = stk_element_num s"
      "stk_element_size s' = stk_element_size s" for s'
    using 3 that room_step [of "stk_element_size s" "stk_num s' + int n" "stk_num s + int n" "2 ^ 31"]
    by (auto simp: stack_room_def stack_okay_def stack_inv_def array_inv_def)
  with popback_ok [OF "3"(1)] show ?case by blast
qed

text \<open>
  C18. A stack that \<open>ox_stack_new\<close> made behaves as a double-ended list under every
  sequence of pushes and pops from either end, growing as often as needed:
  no access leaves its block, no index overflows, no element is lost, reordered
  or overwritten, and each pop returns a pointer to the right element. The
  heap serves requests, and the doubled block of all elements fits an \<open>int\<close>.
\<close>

theorem stack_refines_deque:
  assumes "ox_stack_new env num esize = Some (Some s)" and "0 < num" and "0 < esize"
    and "2 * num < 2 ^ 31" and "stack_room env s (length (pushed ps))"
    and "list_all (\<lambda>e. length e = nat esize) (pushed ps)"
  shows "\<exists>rs s'. deque_exec (stack_step env) ps s = Some (rs, s') \<and> stack_inv s' \<and> deque_run ps [] = (rs, elements s')"
proof -
  obtain a where a: "ox_array_new env num esize = Some (Some a)"
    and s: "s = \<lparr>stk_array = a, stk_element_size = esize, stk_element_num = num,
      stk_front = 0, stk_num = 0\<rparr>"
    using assms(1) by (auto simp: ox_stack_new_def split: option.splits)
  from array_new_ok [OF a] assms(2-4) have "stack_inv s" by (simp add: s stack_inv_def)
  moreover have "elements s = []" by (simp add: s elements_def ring_def)
  moreover have "list_all (stack_okay s) (pushed ps)" using assms(6) by (auto simp: s stack_okay_def list_all_iff)
  ultimately show ?thesis
    using stk.run_refines [OF _ assms(5)] unfolding stack_step_def by fastforce
qed

theorem stack_refines_deque_witness:
  "\<exists>s rs s'. ox_stack_new full_heap 1 2 = Some (Some s) \<and>
     deque_exec (stack_step full_heap) [Push_back [1, 2], Push_back [3, 4], Pop_front, Push_back [5, 6], Pop_back] s =
       Some (rs, s') \<and> rs = [None, None, Some [1, 2], None, Some [5, 6]] \<and> elements s' = [[3, 4]]"
proof -
  let ?ps = "[Push_back [1, 2], Push_back [3, 4], Pop_front, Push_back [5, 6], Pop_back] :: byte list stack_op list"
  obtain s where s: "ox_stack_new full_heap 1 2 = Some (Some s)" "stk_num s = 0"
    "stk_element_num s = 1" "stk_element_size s = 2"
    by (simp add: ox_stack_new_def ox_array_new_def full_heap_def malloc_def c_int_def)
  have "stack_room full_heap s (length (pushed ?ps))"
    using s by (simp add: stack_room_def full_heap_def)
  from stack_refines_deque [OF s(1) _ _ _ this] s(1) show ?thesis by auto
qed

section \<open>Stacks of integers\<close>

text \<open>The clients store an \<open>int\<close>, four bytes with the low byte first, and read it back.\<close>

definition int_bytes :: "int \<Rightarrow> byte list" where
  "int_bytes x = map (\<lambda>i. of_int (x div 256 ^ i)) [0..<4]"

definition int_of_bytes :: "byte list \<Rightarrow> int" where
  "int_of_bytes bs = sint (word_of_int (\<Sum>i\<leftarrow>[0..<4]. uint (bs ! i) * 256 ^ i) :: 32 word)"

lemma int_bytes_back:
  assumes "- (2 ^ 31) \<le> x" and "x < 2 ^ 31"
  shows "int_of_bytes (int_bytes x) = x"
proof -
  have u: "uint (of_int y :: byte) = y mod 256" for y :: int
    by (simp add: uint_word_of_int)
  have step: "x mod (b * 256) = x mod b + x div b mod 256 * b" if "b > 0" for b
    using zmod_zmult2_eq [of 256 x b] by (simp add: mult.commute add.commute)
  have "x mod 2 ^ 32 = x mod (16777216 * 256)" by simp
  also have "\<dots> = x mod (65536 * 256) + x div 16777216 mod 256 * 16777216" by (subst step) simp_all
  also have "\<dots> = x mod (256 * 256) + x div 65536 mod 256 * 65536 + x div 16777216 mod 256 * 16777216"
    by (subst step) simp_all
  also have "\<dots> = x mod 256 + x div 256 mod 256 * 256 + x div 65536 mod 256 * 65536 +
      x div 16777216 mod 256 * 16777216"
    by (subst step) simp_all
  finally have div: "x mod 2 ^ 32 = \<dots>" .
  have "(\<Sum>i\<leftarrow>[0..<4]. uint (int_bytes x ! i) * 256 ^ i) = x mod 2 ^ 32"
    unfolding div by (simp add: int_bytes_def upt_rec u)
  moreover have "(word_of_int (x mod 2 ^ 32) :: 32 word) = word_of_int x"
    by (simp add: word_of_int_eq_iff take_bit_eq_mod)
  ultimately have "int_of_bytes (int_bytes x) = sint (word_of_int x :: 32 word)"
    by (simp only: int_of_bytes_def)
  also have "\<dots> = x" using assms by (simp add: signed_of_int signed_take_bit_int_eq_self)
  finally show ?thesis .
qed

lemma popfront_shrinks:
  assumes "ox_stack_popfront s = Some (Some p, s')"
  shows "nat (stk_num s') < nat (stk_num s)"
proof -
  have "0 < stk_num s"
    using assms by (cases "0 < stk_num s") (simp_all add: ox_stack_popfront_def ox_stack_front_def ox_stack_num_def)
  moreover have "stk_num s' = stk_num s - 1"
    using assms \<open>0 < stk_num s\<close>
    by (cases "ox_array_at (stk_array s) (stk_front s)"; cases "ring_index (stk_front s) 1 (stk_element_num s)")
      (auto simp: ox_stack_popfront_def ox_stack_front_def ox_stack_num_def)
  ultimately show ?thesis by simp
qed

lemma popfront_cases:
  assumes "stack_inv st" and "stk_element_size st = 4"
  obtains (empty) "elements st = []" "ox_stack_popfront st = Some (None, st)"
  | (some) p bs st' where "ox_stack_popfront st = Some (Some p, st')" "elements st = bs # elements st'"
      "mem_read (arr_buffer (stk_array st')) p 4 = Some bs" "stack_inv st'" "stk_element_size st' = 4"
      "stk_element_num st' = stk_element_num st"
proof -
  obtain r st' where P: "ox_stack_popfront st = Some (r, st')"
    using popfront_ok [OF assms(1)] by (auto simp: popped_def bind_eq_Some_conv)
  from popfront_ok [OF assms(1)] P assms(2) show ?thesis
    by (cases r) (auto simp: popped_def intro: some empty)
qed

end
