(* ===== verification/Fdset.thy ===== *)
theory Fdset
  imports Ox_Stack
begin

text \<open>
  The poll set of \<open>net/fdset.c\<close> on Linux: an array of \<open>struct pollfd\<close> of which the
  first \<open>nfds\<close> are in use. The abstract view is a finite map from descriptors to
  the events asked for, in the order of their registration; a locale states
  what \<open>add\<close>, \<open>del\<close> and \<open>remove\<close> do to that map.
\<close>

section \<open>Data\<close>

type_synonym sock = int

definition SOCKET_ERROR :: int where "SOCKET_ERROR = -1"

definition POLLIN :: "16 word" where "POLLIN = 0x001"
definition POLLPRI :: "16 word" where "POLLPRI = 0x002"
definition POLLOUT :: "16 word" where "POLLOUT = 0x004"
definition POLLERR :: "16 word" where "POLLERR = 0x008"
definition POLLHUP :: "16 word" where "POLLHUP = 0x010"
definition POLLRDNORM :: "16 word" where "POLLRDNORM = 0x040"
definition POLLRDBAND :: "16 word" where "POLLRDBAND = 0x080"
definition POLLWRNORM :: "16 word" where "POLLWRNORM = 0x100"
definition POLLWRBAND :: "16 word" where "POLLWRBAND = 0x200"

definition CHECK_READ_FLAG :: "16 word" where
  "CHECK_READ_FLAG = POLLIN OR POLLRDNORM OR POLLRDBAND OR POLLPRI"

definition CHECK_WRITE_FLAG :: "16 word" where
  "CHECK_WRITE_FLAG = POLLOUT OR POLLWRNORM OR POLLWRBAND"

definition CHECK_ERROR_FLAG :: "16 word" where
  "CHECK_ERROR_FLAG = POLLERR OR POLLHUP"

lemmas poll_flags = POLLIN_def POLLPRI_def POLLOUT_def POLLERR_def POLLHUP_def POLLRDNORM_def
  POLLRDBAND_def POLLWRNORM_def POLLWRBAND_def CHECK_READ_FLAG_def CHECK_WRITE_FLAG_def
  CHECK_ERROR_FLAG_def

type_synonym check_type = "32 word"

definition ReadCheck :: check_type where "ReadCheck = 1"
definition WriteCheck :: check_type where "WriteCheck = 2"
definition ErrorCheck :: check_type where "ErrorCheck = 4"

definition wants :: "check_type \<Rightarrow> check_type \<Rightarrow> bool" where
  "wants type t \<longleftrightarrow> type AND t \<noteq> 0"

record pollfd =
  pfd_fd :: sock
  pfd_events :: "16 word"
  pfd_revents :: "16 word"

record fdset_s =
  fs_pollFds :: "pollfd list option"
  fs_nfds :: nat
  fs_limitSize :: nat

text \<open>The array behind the pointer; a null pointer has no element to access.\<close>

definition fs_block :: "fdset_s \<Rightarrow> pollfd list" where
  "fs_block self = (case fs_pollFds self of None \<Rightarrow> [] | Some blk \<Rightarrow> blk)"

lemma fs_block_update [simp]:
  "fs_block (s\<lparr>fs_pollFds := Some blk\<rparr>) = blk"
  "fs_block (s\<lparr>fs_nfds := n\<rparr>) = fs_block s"
  "fs_block (s\<lparr>fs_limitSize := n\<rparr>) = fs_block s"
  by (simp_all add: fs_block_def)

section \<open>Operations\<close>

definition sizeof_pollfd :: nat where
  "sizeof_pollfd = 8"

text \<open>What the bytes of a fresh block read as.\<close>

definition fresh_pollfd :: "heap_env \<Rightarrow> nat \<Rightarrow> pollfd" where
  "fresh_pollfd env i =
     (let b = (\<lambda>k. uninit env (i * sizeof_pollfd + k)) in
      \<lparr>pfd_fd = sint ((ucast (b 0) OR push_bit 8 (ucast (b 1)) OR push_bit 16 (ucast (b 2)) OR
                      push_bit 24 (ucast (b 3))) :: 32 word),
       pfd_events = ucast (b 4) OR push_bit 8 (ucast (b 5)),
       pfd_revents = ucast (b 6) OR push_bit 8 (ucast (b 7))\<rparr>)"

definition upstepPollfd :: "heap_env \<Rightarrow> fdset_s \<Rightarrow> int \<Rightarrow> fdset_s option" where
  "upstepPollfd env self upSize =
     (if upSize \<le> 0 then Some self
      else do {
        n \<leftarrow> c_int (int (fs_limitSize self) + upSize);
        if \<not> malloc_ok env (sizeof_pollfd * nat n) then Some self
        else do {
          let fresh = map (fresh_pollfd env) [0..<nat n];
          new \<leftarrow> (case fs_pollFds self of
                    None \<Rightarrow> Some fresh
                  | Some blk \<Rightarrow> do { old \<leftarrow> mem_read blk 0 (fs_nfds self); mem_write fresh (Some 0) old });
          Some (self\<lparr>fs_pollFds := Some new, fs_limitSize := nat n\<rparr>)
        }
      })"

text \<open>The search loop from index \<open>i\<close> on, \<open>k\<close> entries to go; an access outside is \<open>None\<close>.\<close>

fun find_loop :: "pollfd list \<Rightarrow> sock \<Rightarrow> nat \<Rightarrow> nat \<Rightarrow> nat option option" where
  "find_loop blk fd i 0 = Some None"
| "find_loop blk fd i (Suc k) =
     (if i \<ge> length blk then None
      else if pfd_fd (blk ! i) = fd then Some (Some i)
      else find_loop blk fd (Suc i) k)"

definition findPollfd :: "fdset_s \<Rightarrow> sock \<Rightarrow> nat option option" where
  "findPollfd self fd = find_loop (fs_block self) fd 0 (fs_nfds self)"

definition TryRemovePollFd :: "fdset_s \<Rightarrow> sock \<Rightarrow> fdset_s option" where
  "TryRemovePollFd self fd =
     do {
       found \<leftarrow> find_loop (fs_block self) fd 0 (fs_nfds self);
       case found of
         None \<Rightarrow> Some self
       | Some pos \<Rightarrow>
           do {
             rest \<leftarrow> mem_read (fs_block self) (pos + 1) (fs_nfds self - pos - 1);
             blk \<leftarrow> mem_write (fs_block self) (Some pos) rest;
             Some (self\<lparr>fs_pollFds := Some blk, fs_nfds := fs_nfds self - 1\<rparr>)
           }
     }"

definition ox_fdset_new :: "heap_env \<Rightarrow> fdset_s option option" where
  "ox_fdset_new env =
     (if malloc_ok env 16
      then map_option Some
             (upstepPollfd env \<lparr>fs_pollFds = None, fs_nfds = 0, fs_limitSize = 0\<rparr> 1024)
      else Some None)"

definition add_events :: "check_type \<Rightarrow> 16 word \<Rightarrow> 16 word" where
  "add_events type ev =
     (let ev = (if wants type ReadCheck then ev OR CHECK_READ_FLAG else ev)
      in if wants type WriteCheck then ev OR CHECK_WRITE_FLAG else ev)"

definition del_events :: "check_type \<Rightarrow> 16 word \<Rightarrow> 16 word" where
  "del_events type ev =
     (let ev = (if wants type ReadCheck then ev AND NOT CHECK_READ_FLAG else ev);
          ev = (if wants type WriteCheck then ev AND NOT CHECK_WRITE_FLAG else ev)
      in if wants type ErrorCheck then ev AND NOT CHECK_ERROR_FLAG else ev)"

definition update_events :: "(16 word \<Rightarrow> 16 word) \<Rightarrow> nat \<Rightarrow> fdset_s \<Rightarrow> fdset_s" where
  "update_events f pos self =
     self\<lparr>fs_pollFds := map_option (\<lambda>blk. blk[pos := (blk ! pos)\<lparr>pfd_events := f (pfd_events (blk ! pos))\<rparr>])
                          (fs_pollFds self)\<rparr>"

definition ox_fdset_add :: "heap_env \<Rightarrow> fdset_s \<Rightarrow> sock \<Rightarrow> check_type \<Rightarrow> fdset_s option" where
  "ox_fdset_add env self fd type =
     do {
       self \<leftarrow> (if fs_limitSize self = fs_nfds self then upstepPollfd env self 128 else Some self);
       if fs_limitSize self \<le> fs_nfds self then Some self
       else do {
         pf \<leftarrow> findPollfd self fd;
         case pf of
           Some pos \<Rightarrow> Some (update_events (add_events type) pos self)
         | None \<Rightarrow>
             if fs_nfds self \<ge> length (fs_block self) then None
             else let pos = fs_nfds self;
                      blk = (fs_block self)[pos := (fs_block self ! pos)\<lparr>pfd_events := 0, pfd_fd := fd\<rparr>]
                  in Some (update_events (add_events type) pos
                             (self\<lparr>fs_pollFds := Some blk, fs_nfds := fs_nfds self + 1\<rparr>))
       }
     }"

definition ox_fdset_del :: "fdset_s \<Rightarrow> sock \<Rightarrow> check_type \<Rightarrow> fdset_s option" where
  "ox_fdset_del self fd type =
     do {
       pf \<leftarrow> findPollfd self fd;
       case pf of
         None \<Rightarrow> Some self
       | Some pos \<Rightarrow>
           (let self = update_events (del_events type) pos self
            in if pfd_events (fs_block self ! pos) = 0 then TryRemovePollFd self fd else Some self)
     }"

definition ox_fdset_remove :: "fdset_s \<Rightarrow> sock \<Rightarrow> fdset_s option" where
  "ox_fdset_remove self fd = TryRemovePollFd self fd"

definition check_event :: "pollfd \<Rightarrow> check_type \<Rightarrow> bool" where
  "check_event pf type \<longleftrightarrow>
     (if wants type ReadCheck \<and> pfd_revents pf AND CHECK_READ_FLAG \<noteq> 0 then True
      else if wants type WriteCheck \<and> pfd_revents pf AND CHECK_WRITE_FLAG \<noteq> 0 then True
      else wants type ErrorCheck \<and> pfd_revents pf AND CHECK_ERROR_FLAG \<noteq> 0)"

fun visit_loop :: "heap_env \<Rightarrow> pollfd list \<Rightarrow> check_type \<Rightarrow> nat \<Rightarrow> nat \<Rightarrow> stack_s \<Rightarrow> stack_s option" where
  "visit_loop env blk type i 0 result = Some result"
| "visit_loop env blk type i (Suc k) result =
     (if i \<ge> length blk then None
      else if check_event (blk ! i) type
      then do {
        (_, result') \<leftarrow> ox_stack_push env result (int_bytes (pfd_fd (blk ! i)));
        visit_loop env blk type (Suc i) k result'
      }
      else visit_loop env blk type (Suc i) k result)"

definition ox_fdset_visitor :: "heap_env \<Rightarrow> fdset_s \<Rightarrow> check_type \<Rightarrow> stack_s \<Rightarrow> stack_s option" where
  "ox_fdset_visitor env self type result =
     visit_loop env (fs_block self) type 0 (fs_nfds self) result"

text \<open>
  \<open>poll\<close> is the kernel's: a function from the descriptors and events passed to
  its result, the error number and the events that occurred.
\<close>

type_synonym poll_fn = "(sock \<times> 16 word) list \<Rightarrow> int \<Rightarrow> int \<times> int \<times> 16 word list"

definition S_EINTR :: int where "S_EINTR = 4"

definition ox_fdset_poll :: "poll_fn \<Rightarrow> fdset_s \<Rightarrow> int \<Rightarrow> (int \<times> fdset_s) option" where
  "ox_fdset_poll poll self overtime =
     do {
       fds \<leftarrow> mem_read (fs_block self) 0 (fs_nfds self);
       let (ret, errno, revents) = poll (map (\<lambda>p. (pfd_fd p, pfd_events p)) fds) overtime;
       let fds' = map2 (\<lambda>p ev. p\<lparr>pfd_revents := ev\<rparr>) fds revents;
       blk \<leftarrow> mem_write (fs_block self) (Some 0) fds';
       Some (if ret = -1 then (if errno \<noteq> S_EINTR then -1 else 0) else ret,
             self\<lparr>fs_pollFds := map_option (\<lambda>_. blk) (fs_pollFds self)\<rparr>)
     }"

definition ox_fdset_check :: "fdset_s \<Rightarrow> sock \<Rightarrow> check_type \<Rightarrow> bool option" where
  "ox_fdset_check self fd type =
     do {
       pf \<leftarrow> findPollfd self fd;
       Some (case pf of None \<Rightarrow> False | Some pos \<Rightarrow> check_event (fs_block self ! pos) type)
     }"

section \<open>The poll set as a map\<close>

definition entries :: "fdset_s \<Rightarrow> pollfd list" where
  "entries self = take (fs_nfds self) (fs_block self)"

definition fdset_inv :: "fdset_s \<Rightarrow> bool" where
  "fdset_inv self \<longleftrightarrow> length (fs_block self) = fs_limitSize self \<and> fs_nfds self \<le> fs_limitSize self \<and>
     distinct (map pfd_fd (entries self))"

definition events_of :: "fdset_s \<Rightarrow> sock \<rightharpoonup> 16 word" where
  "events_of self = map_of (map (\<lambda>p. (pfd_fd p, pfd_events p)) (entries self))"

lemma find_loop_spec:
  assumes "i + k \<le> length blk"
  shows "find_loop blk fd i k =
    Some (case List.find (\<lambda>j. pfd_fd (blk ! j) = fd) [i..<i + k] of None \<Rightarrow> None | Some j \<Rightarrow> Some j)"
  using assms
proof (induction k arbitrary: i)
  case 0
  then show ?case by simp
next
  case (Suc k)
  then have "[i..<i + Suc k] = i # [Suc i..<Suc i + k]" by (simp add: upt_conv_Cons)
  with Suc show ?case by simp
qed

lemma findPollfd_cases:
  assumes "fdset_inv self"
  obtains (none) "findPollfd self fd = Some None" "fd \<notin> pfd_fd ` set (entries self)"
  | (some) pos where "findPollfd self fd = Some (Some pos)" "pos < length (entries self)"
      "pfd_fd (entries self ! pos) = fd" "pos < fs_nfds self" "pos < length (fs_block self)"
      "entries self ! pos = fs_block self ! pos"
proof -
  have le: "fs_nfds self \<le> length (fs_block self)" using assms by (simp add: fdset_inv_def)
  then have len: "length (entries self) = fs_nfds self" by (simp add: entries_def)
  have nth: "entries self ! j = fs_block self ! j" if "j < fs_nfds self" for j
    using that by (simp add: entries_def)
  have F: "findPollfd self fd =
      Some (List.find (\<lambda>j. pfd_fd (fs_block self ! j) = fd) [0..<fs_nfds self])"
    using find_loop_spec [of 0 "fs_nfds self" "fs_block self" fd] le
    by (simp add: findPollfd_def split: option.split)
  show ?thesis
  proof (cases "List.find (\<lambda>j. pfd_fd (fs_block self ! j) = fd) [0..<fs_nfds self]")
    case None
    then have "\<forall>j < fs_nfds self. pfd_fd (entries self ! j) \<noteq> fd"
      by (auto simp: find_None_iff nth)
    then have "fd \<notin> pfd_fd ` set (entries self)" using len by (auto simp: in_set_conv_nth)
    with F None none show ?thesis by simp
  next
    case (Some j)
    then have "j < fs_nfds self" "pfd_fd (fs_block self ! j) = fd"
      by (auto simp: find_Some_iff)
    with F Some le len nth some show ?thesis by simp
  qed
qed

definition fd_event :: "pollfd \<Rightarrow> sock \<times> 16 word" where
  "fd_event p = (pfd_fd p, pfd_events p)"

lemma fst_fd_event [simp]: "fst (fd_event p) = pfd_fd p"
  by (simp add: fd_event_def)

lemma events_of_alt: "events_of self = map_of (map fd_event (entries self))"
  by (simp add: events_of_def fd_event_def [abs_def])

lemma map_of_update:
  assumes "distinct (map pfd_fd xs)" and "pos < length xs" and "pfd_fd (xs ! pos) = fd"
  shows "map_of (map fd_event (xs[pos := (xs ! pos)\<lparr>pfd_events := e\<rparr>])) =
    (map_of (map fd_event xs))(fd \<mapsto> e)"
  using assms
proof (induction xs arbitrary: pos)
  case Nil
  then show ?case by simp
next
  case (Cons x xs)
  show ?case
  proof (cases pos)
    case 0
    with Cons.prems show ?thesis by (auto simp: fd_event_def)
  next
    case (Suc n)
    with Cons.prems have "pfd_fd x \<noteq> fd" by (auto dest: nth_mem)
    with Cons Suc show ?thesis by (auto simp: fd_event_def)
  qed
qed

lemma map_of_remove:
  assumes "distinct (map pfd_fd xs)" and "pos < length xs" and "pfd_fd (xs ! pos) = fd"
  shows "map_of (map fd_event (take pos xs @ drop (Suc pos) xs)) =
    (map_of (map fd_event xs))(fd := None)"
  using assms
proof (induction xs arbitrary: pos)
  case Nil
  then show ?case by simp
next
  case (Cons x xs)
  show ?case
  proof (cases pos)
    case 0
    with Cons.prems have "map_of (map fd_event xs) fd = None"
      by (auto simp: map_of_eq_None_iff image_image)
    with Cons.prems 0 show ?thesis
      by (auto simp: fd_event_def [of x])
  next
    case (Suc n)
    with Cons.prems have "pfd_fd x \<noteq> fd" by (auto dest: nth_mem)
    with Cons Suc show ?thesis by (auto simp: fd_event_def)
  qed
qed

lemma map_of_append_new:
  assumes "pfd_fd y \<notin> pfd_fd ` set xs"
  shows "map_of (map fd_event (xs @ [y])) = (map_of (map fd_event xs))(pfd_fd y \<mapsto> pfd_events y)"
proof -
  have "map_of (map fd_event xs) (pfd_fd y) = None"
    using assms by (simp add: map_of_eq_None_iff image_image)
  then show ?thesis by (auto simp: fd_event_def map_add_def split: option.split)
qed

lemma events_at:
  assumes "fdset_inv self" and "pos < length (entries self)"
  shows "events_of self (pfd_fd (entries self ! pos)) = Some (pfd_events (entries self ! pos))"
proof -
  let ?e = "entries self ! pos"
  have "map fst (map fd_event (entries self)) = map pfd_fd (entries self)" by simp
  then have "distinct (map fst (map fd_event (entries self)))"
    using assms(1) by (simp only: fdset_inv_def)
  moreover have "(pfd_fd ?e, pfd_events ?e) \<in> set (map fd_event (entries self))"
    using assms(2) by (auto simp: fd_event_def intro!: image_eqI [where x = ?e])
  ultimately show ?thesis unfolding events_of_alt by (rule map_of_is_SomeI)
qed

lemma events_none:
  "fd \<notin> pfd_fd ` set (entries self) \<Longrightarrow> events_of self fd = None"
  by (simp add: events_of_alt map_of_eq_None_iff image_image)

text \<open>The effect of each operation on the entries.\<close>

lemma update_events_ok:
  assumes "fdset_inv self" and "pos < fs_nfds self"
  shows "fdset_inv (update_events f pos self)"
    and "events_of (update_events f pos self) =
      (events_of self)(pfd_fd (entries self ! pos) \<mapsto> f (pfd_events (entries self ! pos)))"
    and "fs_nfds (update_events f pos self) = fs_nfds self"
    and "entries (update_events f pos self) =
      (entries self)[pos := (entries self ! pos)\<lparr>pfd_events := f (pfd_events (entries self ! pos))\<rparr>]"
    and "fs_limitSize (update_events f pos self) = fs_limitSize self"
proof -
  have len: "pos < length (fs_block self)" "length (fs_block self) = fs_limitSize self"
    using assms by (auto simp: fdset_inv_def)
  then obtain blk where blk: "fs_pollFds self = Some blk" "fs_block self = blk"
    by (cases "fs_pollFds self") (auto simp: fs_block_def)
  show E: "entries (update_events f pos self) =
      (entries self)[pos := (entries self ! pos)\<lparr>pfd_events := f (pfd_events (entries self ! pos))\<rparr>]"
    using blk assms(2) by (simp add: entries_def update_events_def fs_block_def take_update_swap)
  have pos: "pos < length (entries self)" using assms len by (simp add: entries_def)
  have "map pfd_fd (entries (update_events f pos self)) = map pfd_fd (entries self)"
    using pos by (simp add: E map_update list_update_same_conv)
  then show "fdset_inv (update_events f pos self)"
    using assms(1) blk by (simp add: fdset_inv_def) (simp add: update_events_def fs_block_def)
  show "events_of (update_events f pos self) =
      (events_of self)(pfd_fd (entries self ! pos) \<mapsto> f (pfd_events (entries self ! pos)))"
    using map_of_update [OF _ pos refl] assms(1) by (simp add: events_of_alt E fdset_inv_def)
qed (simp_all add: update_events_def)

lemma TryRemove_ok:
  assumes "fdset_inv self"
  shows "\<exists>self'. TryRemovePollFd self fd = Some self' \<and> fdset_inv self' \<and>
    events_of self' = (events_of self)(fd := None) \<and> fs_limitSize self' = fs_limitSize self"
  using assms
proof (cases rule: findPollfd_cases [where fd = fd])
  case none
  then show ?thesis using assms events_none [of fd self]
    by (simp add: TryRemovePollFd_def findPollfd_def fun_upd_idem)
next
  case (some pos)
  let ?n = "fs_nfds self" and ?blk = "fs_block self"
  have n: "?n \<le> length ?blk" "length ?blk = fs_limitSize self" using assms by (auto simp: fdset_inv_def)
  define rest where "rest = take (?n - pos - 1) (drop (pos + 1) ?blk)"
  define blk' where "blk' = take pos ?blk @ rest @ drop (?n - 1) ?blk"
  have len: "length rest = ?n - pos - 1" "length blk' = length ?blk"
    using n some(4) by (auto simp: rest_def blk'_def)
  have "mem_read ?blk (pos + 1) (?n - pos - 1) = Some rest"
    using n some(4) by (simp add: mem_read_def rest_def)
  moreover have "mem_write ?blk (Some pos) rest = Some blk'"
    using n some(4) len(1) by (simp add: mem_write_def blk'_def)
  ultimately have R: "TryRemovePollFd self fd = Some (self\<lparr>fs_pollFds := Some blk', fs_nfds := ?n - 1\<rparr>)"
    using some(1) by (simp add: TryRemovePollFd_def findPollfd_def)
  let ?s = "self\<lparr>fs_pollFds := Some blk', fs_nfds := ?n - 1\<rparr>"
  have E: "entries ?s = take pos (entries self) @ drop (Suc pos) (entries self)"
  proof -
    have "entries ?s = take (?n - 1) ((take pos ?blk @ rest) @ drop (?n - 1) ?blk)"
      by (simp add: entries_def fs_block_def blk'_def)
    moreover have "length (take pos ?blk @ rest) = ?n - 1" using n some(4) len by simp
    ultimately have "entries ?s = take pos ?blk @ rest" by (metis append_eq_conv_conj)
    then show ?thesis using n some(4) by (simp add: entries_def rest_def drop_take min_def)
  qed
  have D: "distinct (map pfd_fd (entries self))" using assms by (simp add: fdset_inv_def)
  have "distinct (map pfd_fd (entries ?s))"
    using D unfolding E map_append take_map [symmetric] drop_map [symmetric]
    by (simp add: distinct_take distinct_drop set_take_disj_set_drop_if_distinct)
  then have "fdset_inv ?s" using n len by (simp add: fdset_inv_def)
  moreover have "events_of ?s = (events_of self)(fd := None)"
    using map_of_remove [OF D some(2,3)] by (simp only: events_of_alt E)
  ultimately show ?thesis using R by simp
qed

lemma upstep_ok:
  assumes "fdset_inv self" and "int (fs_limitSize self) + up < 2 ^ 31" and "0 < up"
  shows "upstepPollfd env self up = Some self \<or>
    (\<exists>self'. upstepPollfd env self up = Some self' \<and> fdset_inv self' \<and>
       entries self' = entries self \<and> fs_nfds self' = fs_nfds self \<and>
       int (fs_limitSize self') = int (fs_limitSize self) + up)"
    and "(\<And>n. malloc_ok env n) \<Longrightarrow> upstepPollfd env self up \<noteq> Some self"
proof -
  let ?n = "int (fs_limitSize self) + up"
  let ?fresh = "map (fresh_pollfd env) [0..<nat ?n]"
  have c: "c_int ?n = Some ?n" by (rule c_int_fits) (use assms(2,3) in auto)
  have le: "fs_nfds self \<le> length (fs_block self)" "length (fs_block self) = fs_limitSize self"
    "fs_nfds self \<le> nat ?n" using assms(1,3) by (auto simp: fdset_inv_def)
  define new where "new = entries self @ drop (fs_nfds self) ?fresh"
  let ?s = "self\<lparr>fs_pollFds := Some new, fs_limitSize := nat ?n\<rparr>"
  have len: "length (entries self) = fs_nfds self" using le by (simp add: entries_def)
  have up: "upstepPollfd env self up = Some ?s" if ok: "malloc_ok env (sizeof_pollfd * nat ?n)"
  proof (cases "fs_pollFds self")
    case None
    with le have "new = ?fresh" by (simp add: new_def entries_def fs_block_def)
    with None c ok assms(3) show ?thesis by (simp add: upstepPollfd_def c_int_def)
  next
    case (Some blk)
    then have "mem_read blk 0 (fs_nfds self) = Some (entries self)"
      using le by (simp add: mem_read_def entries_def fs_block_def)
    moreover have "mem_write ?fresh (Some 0) (entries self) = Some new"
      using le len by (simp add: mem_write_def new_def)
    ultimately show ?thesis using Some c ok assms(3) by (simp add: upstepPollfd_def c_int_def)
  qed
  have "entries ?s = take (fs_nfds self) new" by (simp add: entries_def fs_block_def)
  also have "\<dots> = entries self" using len by (simp add: new_def)
  finally have E: "entries ?s = entries self" .
  have "length new = nat ?n" using len le by (simp add: new_def)
  with E assms(1) le have inv: "fdset_inv ?s"
    by (simp add: fdset_inv_def)
  have lim: "int (fs_limitSize ?s) = ?n" using assms(3) by simp
  show "upstepPollfd env self up = Some self \<or>
    (\<exists>self'. upstepPollfd env self up = Some self' \<and> fdset_inv self' \<and>
       entries self' = entries self \<and> fs_nfds self' = fs_nfds self \<and>
       int (fs_limitSize self') = int (fs_limitSize self) + up)"
  proof (cases "malloc_ok env (sizeof_pollfd * nat ?n)")
    case True
    with up E inv lim show ?thesis by (intro disjI2 exI [of _ ?s]) simp
  next
    case False
    with c assms(3) show ?thesis by (simp add: upstepPollfd_def c_int_def)
  qed
  assume "\<And>n. malloc_ok env n"
  then have "upstepPollfd env self up = Some ?s" by (rule up)
  moreover have "?s \<noteq> self" using lim assms(3) by (metis less_add_same_cancel1 less_irrefl)
  ultimately show "upstepPollfd env self up \<noteq> Some self" by simp
qed

section \<open>The contract of a poll set\<close>

datatype poll_op = Add sock check_type | Del sock check_type | Remove sock

fun poll_spec :: "poll_op \<Rightarrow> (sock \<rightharpoonup> 16 word) \<Rightarrow> (sock \<rightharpoonup> 16 word)" where
  "poll_spec (Add fd type) m = m(fd \<mapsto> add_events type (case m fd of None \<Rightarrow> 0 | Some ev \<Rightarrow> ev))"
| "poll_spec (Del fd type) m =
     (case m fd of
        None \<Rightarrow> m
      | Some ev \<Rightarrow> if del_events type ev = 0 then m(fd := None) else m(fd \<mapsto> del_events type ev))"
| "poll_spec (Remove fd) m = m(fd := None)"

definition poll_step ::
    "('s \<Rightarrow> sock \<Rightarrow> check_type \<Rightarrow> 's option) \<Rightarrow> ('s \<Rightarrow> sock \<Rightarrow> check_type \<Rightarrow> 's option) \<Rightarrow>
     ('s \<Rightarrow> sock \<Rightarrow> 's option) \<Rightarrow> poll_op \<Rightarrow> 's \<Rightarrow> 's option" where
  "poll_step add del remove p s =
     (case p of Add fd type \<Rightarrow> add s fd type | Del fd type \<Rightarrow> del s fd type | Remove fd \<Rightarrow> remove s fd)"

fun poll_exec :: "(poll_op \<Rightarrow> 's \<Rightarrow> 's option) \<Rightarrow> poll_op list \<Rightarrow> 's \<Rightarrow> 's option" where
  "poll_exec step [] s = Some s"
| "poll_exec step (p # ps) s = do { s' \<leftarrow> step p s; poll_exec step ps s' }"

locale poll_set =
  fixes inv :: "'s \<Rightarrow> bool" and room :: "'s \<Rightarrow> nat \<Rightarrow> bool" and events :: "'s \<Rightarrow> sock \<rightharpoonup> 16 word"
    and add :: "'s \<Rightarrow> sock \<Rightarrow> check_type \<Rightarrow> 's option"
    and del :: "'s \<Rightarrow> sock \<Rightarrow> check_type \<Rightarrow> 's option"
    and remove :: "'s \<Rightarrow> sock \<Rightarrow> 's option"
  assumes add_law: "inv s \<Longrightarrow> room s (Suc n) \<Longrightarrow>
      \<exists>s'. add s fd type = Some s' \<and> inv s' \<and> room s' n \<and> events s' = poll_spec (Add fd type) (events s)"
    and del_law: "inv s \<Longrightarrow> room s (Suc n) \<Longrightarrow>
      \<exists>s'. del s fd type = Some s' \<and> inv s' \<and> room s' n \<and> events s' = poll_spec (Del fd type) (events s)"
    and remove_law: "inv s \<Longrightarrow> room s (Suc n) \<Longrightarrow>
      \<exists>s'. remove s fd = Some s' \<and> inv s' \<and> room s' n \<and> events s' = poll_spec (Remove fd) (events s)"
begin

lemma run_refines:
  assumes "inv s" and "room s (length ps)"
  shows "\<exists>s'. poll_exec (poll_step add del remove) ps s = Some s' \<and> inv s' \<and>
    events s' = fold poll_spec ps (events s)"
  using assms
proof (induction ps arbitrary: s)
  case Nil
  then show ?case by simp
next
  case (Cons p ps)
  obtain s' where S: "poll_step add del remove p s = Some s'" "inv s'" "room s' (length ps)"
    "events s' = poll_spec p (events s)"
  proof -
    have "inv s" "room s (Suc (length ps))" using Cons.prems by simp_all
    then have "\<exists>s'. poll_step add del remove p s = Some s' \<and> inv s' \<and> room s' (length ps) \<and>
        events s' = poll_spec p (events s)"
      by (cases p) (simp_all only: poll_step_def poll_op.case add_law del_law remove_law)
    with that show thesis by blast
  qed
  from Cons.IH [OF S(2,3)] S(1,4) show ?case by auto
qed

end

text \<open>Room for \<open>n\<close> registrations: the array grows by at most 128 entries with each.\<close>

definition fdset_room :: "heap_env \<Rightarrow> fdset_s \<Rightarrow> nat \<Rightarrow> bool" where
  "fdset_room env self n \<longleftrightarrow> (\<forall>k. malloc_ok env k) \<and> fs_limitSize self + 128 * n < 2 ^ 31"

lemma add_ok:
  assumes "fdset_inv self" and "fdset_room env self (Suc n)"
  shows "\<exists>self'. ox_fdset_add env self fd type = Some self' \<and> fdset_inv self' \<and>
    fdset_room env self' n \<and> events_of self' = poll_spec (Add fd type) (events_of self)"
proof -
  note room = assms(2) [unfolded fdset_room_def]
  obtain s1 where s1: "(if fs_limitSize self = fs_nfds self then upstepPollfd env self 128 else Some self) = Some s1"
    "fdset_inv s1" "entries s1 = entries self" "fs_nfds s1 = fs_nfds self" "fs_nfds s1 < fs_limitSize s1"
    "fdset_room env s1 n"
  proof (cases "fs_limitSize self = fs_nfds self")
    case True
    have "fs_limitSize self + 128 * Suc n < 2 ^ 31" using room by blast
    then have "int (fs_limitSize self) + 128 < 2 ^ 31" by simp
    from upstep_ok [OF assms(1) this, of env] room obtain s' where
      "upstepPollfd env self 128 = Some s'" "fdset_inv s'" "entries s' = entries self"
      "fs_nfds s' = fs_nfds self" "int (fs_limitSize s') = int (fs_limitSize self) + 128" by auto
    with True room that [of s'] show thesis by (simp add: fdset_room_def)
  next
    case False
    with assms room that [of self] show thesis by (simp add: fdset_room_def fdset_inv_def)
  qed
  from s1(3) have ev: "events_of s1 = events_of self" by (simp add: events_of_def)
  have A: "ox_fdset_add env self fd type =
      (do { pf \<leftarrow> findPollfd s1 fd;
            case pf of
              Some pos \<Rightarrow> Some (update_events (add_events type) pos s1)
            | None \<Rightarrow>
                if fs_nfds s1 \<ge> length (fs_block s1) then None
                else let pos = fs_nfds s1;
                         blk = (fs_block s1)[pos := (fs_block s1 ! pos)\<lparr>pfd_events := 0, pfd_fd := fd\<rparr>]
                     in Some (update_events (add_events type) pos
                                (s1\<lparr>fs_pollFds := Some blk, fs_nfds := fs_nfds s1 + 1\<rparr>)) })"
    using s1(5) by (simp add: ox_fdset_add_def s1(1))
  from s1(2) show ?thesis
  proof (cases rule: findPollfd_cases [where fd = fd])
    case (some pos)
    with A update_events_ok [OF s1(2) some(4), of "add_events type"] events_at [OF s1(2) some(2)] ev s1(6)
    show ?thesis by (simp add: fdset_room_def)
  next
    case none
    let ?new = "(fs_block s1 ! fs_nfds s1)\<lparr>pfd_events := 0, pfd_fd := fd\<rparr>"
    let ?s2 = "s1\<lparr>fs_pollFds := Some ((fs_block s1)[fs_nfds s1 := ?new]), fs_nfds := fs_nfds s1 + 1\<rparr>"
    have len: "fs_nfds s1 < length (fs_block s1)" using s1(2,5) by (simp add: fdset_inv_def)
    then have E: "entries ?s2 = entries s1 @ [?new]"
      by (simp add: entries_def take_Suc_conv_app_nth)
    have "distinct (map pfd_fd (entries ?s2))"
      using none(2) s1(2) unfolding E by (simp add: fdset_inv_def)
    then have inv2: "fdset_inv ?s2" using s1(2,5) by (simp add: fdset_inv_def)
    have ev2: "events_of ?s2 = (events_of s1)(fd \<mapsto> 0)"
      using map_of_append_new [of ?new "entries s1"] none(2) unfolding events_of_alt E by simp
    have at: "entries ?s2 ! fs_nfds s1 = ?new"
      using len unfolding E by (simp add: entries_def nth_append)
    have "ox_fdset_add env self fd type = Some (update_events (add_events type) (fs_nfds s1) ?s2)"
      using A none(1) len by (simp add: Let_def)
    with update_events_ok [OF inv2, of "fs_nfds s1" "add_events type"] ev2 at events_none [OF none(2)] ev s1(6)
    show ?thesis by (simp add: fdset_room_def)
  qed
qed

lemma del_ok:
  assumes "fdset_inv self"
  shows "\<exists>self'. ox_fdset_del self fd type = Some self' \<and> fdset_inv self' \<and>
    fs_limitSize self' = fs_limitSize self \<and> events_of self' = poll_spec (Del fd type) (events_of self)"
  using assms
proof (cases rule: findPollfd_cases [where fd = fd])
  case none
  with assms events_none [OF none(2)] show ?thesis by (simp add: ox_fdset_del_def)
next
  case (some pos)
  let ?s = "update_events (del_events type) pos self"
  note U = update_events_ok [OF assms some(4), of "del_events type"]
  have ev: "events_of self fd = Some (pfd_events (entries self ! pos))"
    using events_at [OF assms some(2)] some(3) by simp
  have at: "pfd_events (fs_block ?s ! pos) = del_events type (pfd_events (entries self ! pos))"
  proof -
    have "entries ?s ! pos = fs_block ?s ! pos" using some(4) by (simp add: entries_def U(3))
    moreover have "entries ?s ! pos = (entries self ! pos)\<lparr>pfd_events :=
        del_events type (pfd_events (entries self ! pos))\<rparr>" using U(4) some(2) by simp
    ultimately show ?thesis by (metis pollfd.select_convs(2) pollfd.surjective pollfd.update_convs(2))
  qed
  show ?thesis
  proof (cases "del_events type (pfd_events (entries self ! pos)) = 0")
    case True
    with some(1) at have "ox_fdset_del self fd type = TryRemovePollFd ?s fd"
      by (simp add: ox_fdset_del_def Let_def)
    with TryRemove_ok [OF U(1), of fd] U(2,5) ev True some(3) show ?thesis by auto
  next
    case False
    with some(1,3) at U ev show ?thesis by (simp add: ox_fdset_del_def Let_def)
  qed
qed

interpretation fds: poll_set fdset_inv "fdset_room env" events_of "ox_fdset_add env" ox_fdset_del
    ox_fdset_remove for env
proof (unfold_locales, goal_cases)
  case (1 s n fd type)
  then show ?case by (rule add_ok)
next
  case (2 s n fd type)
  with del_ok [OF "2"(1), of fd type] show ?case by (auto simp: fdset_room_def)
next
  case (3 s n fd)
  with TryRemove_ok [OF "3"(1), of fd] show ?case by (auto simp: fdset_room_def ox_fdset_remove_def)
qed

definition fdset_step :: "heap_env \<Rightarrow> poll_op \<Rightarrow> fdset_s \<Rightarrow> fdset_s option" where
  "fdset_step env = poll_step (ox_fdset_add env) ox_fdset_del ox_fdset_remove"

text \<open>
  C21. A poll set that \<open>ox_fdset_new\<close> made answers every sequence of \<open>add\<close>, \<open>del\<close>
  and \<open>remove\<close> as the map from descriptors to requested events does: no access
  leaves the array, no descriptor is registered twice, the events of a
  descriptor are the union of what was asked for less what was withdrawn, and
  a descriptor leaves the set with its last event. The heap serves requests,
  and the array, which grows by 128 entries, stays below \<open>2 ^ 31\<close>.
\<close>

theorem fdset_refines_map:
  assumes "ox_fdset_new env = Some (Some s)" and "\<forall>k. malloc_ok env k"
    and "1024 + 128 * length ps < 2 ^ 31"
  shows "\<exists>s'. poll_exec (fdset_step env) ps s = Some s' \<and> fdset_inv s' \<and>
    events_of s' = fold poll_spec ps Map.empty"
proof -
  let ?s0 = "\<lparr>fs_pollFds = None, fs_nfds = 0, fs_limitSize = 0\<rparr> :: fdset_s"
  have inv0: "fdset_inv ?s0" by (simp add: fdset_inv_def fs_block_def entries_def)
  have s: "upstepPollfd env ?s0 1024 = Some s"
    using assms(1,2) by (auto simp: ox_fdset_new_def)
  with upstep_ok [OF inv0, of 1024 env] assms(2) have S: "fdset_inv s" "entries s = entries ?s0"
    "int (fs_limitSize s) = 1024" by auto
  then have "events_of s = Map.empty" by (simp add: events_of_def entries_def fs_block_def)
  moreover have "fdset_room env s (length ps)" using S(3) assms(2,3) by (simp add: fdset_room_def)
  ultimately show ?thesis
    using fds.run_refines [OF S(1), of env ps] by (simp add: fdset_step_def)
qed

theorem fdset_refines_map_witness:
  "\<exists>s s'. ox_fdset_new full_heap = Some (Some s) \<and>
     poll_exec (fdset_step full_heap) [Add 7 ReadCheck, Add 9 WriteCheck, Del 7 ReadCheck] s = Some s' \<and>
     fdset_inv s' \<and> events_of s' 7 = None \<and> events_of s' 9 = Some CHECK_WRITE_FLAG"
proof -
  have "ox_fdset_new full_heap \<noteq> None \<and> ox_fdset_new full_heap \<noteq> Some None"
    by (simp add: ox_fdset_new_def full_heap_def upstepPollfd_def c_int_def)
  then obtain s where s: "ox_fdset_new full_heap = Some (Some s)" by auto
  from fdset_refines_map [OF s, of "[Add 7 ReadCheck, Add 9 WriteCheck, Del 7 ReadCheck]"] s
  show ?thesis
    by (auto simp: full_heap_def add_events_def del_events_def wants_def ReadCheck_def WriteCheck_def
        ErrorCheck_def poll_flags)
qed

section \<open>Visiting\<close>

lemma visit_loop_push_all:
  assumes "i + k \<le> length blk"
  shows "visit_loop env blk type i k result =
    push_all (ox_stack_push env)
      (map (\<lambda>p. int_bytes (pfd_fd p)) (filter (\<lambda>p. check_event p type) (take k (drop i blk)))) result"
  using assms
proof (induction k arbitrary: i result)
  case 0
  then show ?case by simp
next
  case (Suc k)
  then have "drop i blk = blk ! i # drop (Suc i) blk" by (simp add: Cons_nth_drop_Suc)
  with Suc show ?case by (simp add: case_prod_unfold)
qed

lemma stack_room_mono:
  assumes "stack_inv s" and "stack_room env s n" and "m \<le> n"
  shows "stack_room env s m"
  using assms room_step [of "stk_element_size s" "stk_num s + int m" "stk_num s + int n" "2 ^ 31"]
  by (auto simp: stack_room_def stack_inv_def array_inv_def)

lemma visitor_ok:
  assumes "fdset_inv self" and "stack_inv result" and "stk_element_size result = 4"
    and "stack_room env result (fs_nfds self)"
  shows "\<exists>result'. ox_fdset_visitor env self type result = Some result' \<and> stack_inv result' \<and>
    stack_room env result' 0 \<and> stk_element_size result' = 4 \<and>
    elements result' = elements result @
      map (\<lambda>p. int_bytes (pfd_fd p)) (filter (\<lambda>p. check_event p type) (entries self))"
proof -
  let ?es = "map (\<lambda>p. int_bytes (pfd_fd p)) (filter (\<lambda>p. check_event p type) (entries self))"
  have le: "fs_nfds self \<le> length (fs_block self)" using assms(1) by (simp add: fdset_inv_def)
  have "length ?es \<le> fs_nfds self"
    using le length_filter_le [of "\<lambda>p. check_event p type" "entries self"] by (simp add: entries_def)
  with assms(2,4) have "stack_room env result (length ?es)" by (rule stack_room_mono)
  moreover have "list_all (stack_okay result) ?es"
    using assms(3) by (simp add: stack_okay_def list_all_iff int_bytes_def)
  moreover have "ox_fdset_visitor env self type result = push_all (ox_stack_push env) ?es result"
    using visit_loop_push_all [of 0 "fs_nfds self" "fs_block self"] le
    by (simp add: ox_fdset_visitor_def entries_def)
  ultimately obtain result' where R: "ox_fdset_visitor env self type result = Some result'" "stack_inv result'"
    "stack_room env result' 0" "stack_okay result' = stack_okay result" "elements result' = elements result @ ?es"
    using stk.push_all_ok [OF assms(2), of env ?es] by auto
  have "stack_okay result' (replicate 4 0)" using R(4) assms(3) by (simp add: stack_okay_def)
  then have "stk_element_size result' = 4" using R(2) by (simp add: stack_okay_def)
  with R show ?thesis by auto
qed

text \<open>
  \<open>ox_fdset_visitor\<close> appends to the result stack the descriptors whose last
  poll reported an event of the wanted kinds, all of them and no other, in the
  order of registration, whatever the stack held before.
\<close>

theorem fdset_visitor_collects:
  assumes "fdset_inv self" and "stack_inv result" and "stk_element_size result = 4"
    and "stack_room env result (fs_nfds self)"
  shows "\<exists>result'. ox_fdset_visitor env self type result = Some result' \<and> stack_inv result' \<and>
    elements result' = elements result @
      map (\<lambda>p. int_bytes (pfd_fd p)) (filter (\<lambda>p. check_event p type) (entries self))"
  using visitor_ok [OF assms, of type] by blast

theorem fdset_visitor_collects_witness:
  "\<exists>st st'. ox_stack_new full_heap 1 4 = Some (Some st) \<and>
     ox_fdset_visitor full_heap
       \<lparr>fs_pollFds = Some [\<lparr>pfd_fd = 5, pfd_events = 1, pfd_revents = 0\<rparr>,
          \<lparr>pfd_fd = 6, pfd_events = 1, pfd_revents = POLLIN\<rparr>], fs_nfds = 2, fs_limitSize = 2\<rparr>
       ReadCheck st = Some st' \<and> elements st' = [[6, 0, 0, 0]]"
proof -
  let ?self = "\<lparr>fs_pollFds = Some [\<lparr>pfd_fd = 5, pfd_events = 1, pfd_revents = 0\<rparr>,
    \<lparr>pfd_fd = 6, pfd_events = 1, pfd_revents = POLLIN\<rparr>], fs_nfds = 2, fs_limitSize = 2\<rparr> :: fdset_s"
  define a where "a = \<lparr>arr_buffer = [0, 0, 0, 0], arr_buffer_size = 4, arr_element_size = 4,
    arr_element_num = 1\<rparr>"
  define st where "st = \<lparr>stk_array = a, stk_element_size = 4, stk_element_num = 1, stk_front = 0, stk_num = 0\<rparr>"
  have st: "ox_stack_new full_heap 1 4 = Some (Some st)"
    by (simp add: ox_stack_new_def ox_array_new_def full_heap_def malloc_def c_int_def st_def a_def
        numeral_eq_Suc)
  have "stack_inv st" by (simp add: stack_inv_def array_inv_def st_def a_def)
  moreover have "fdset_inv ?self" by (simp add: fdset_inv_def fs_block_def entries_def)
  moreover have "stack_room full_heap st (fs_nfds ?self)"
    by (simp add: stack_room_def full_heap_def st_def)
  ultimately obtain st' where "ox_fdset_visitor full_heap ?self ReadCheck st = Some st'"
    "elements st' = elements st @ map (\<lambda>p. int_bytes (pfd_fd p))
       (filter (\<lambda>p. check_event p ReadCheck) (entries ?self))"
    using fdset_visitor_collects [of ?self st full_heap ReadCheck] by (auto simp: st_def)
  with st show ?thesis
    by (simp add: elements_def ring_def st_def entries_def fs_block_def check_event_def wants_def
        ReadCheck_def poll_flags int_bytes_def upt_rec)
qed

end
