(* ===== verification/Connector.thy ===== *)
theory Connector
  imports Fdset "HOL-Library.Multiset"
begin

text \<open>
  The asynchronous connector of \<open>net/Connector.cpp\<close>: requests are handed to a
  worker thread, which starts non-blocking connects, polls the descriptors in a
  poll set, and reports each connect_result through one of the two callbacks of the
  request. The theory models the worker's table of connects in progress, its
  three checks, the connector object with its lock and the life of the thread.

  A callback is a name; a call to it, like every descriptor opened or closed, is
  an entry of a log. Callbacks do not call back into the connector (the comment
  in \<open>checkTimeout\<close> asks for it). The kernel is a parameter: the results of
  \<open>socket\<close>, \<open>connect\<close>, \<open>getsockopt\<close>, \<open>poll\<close> and the clock.
\<close>

section \<open>Data\<close>

record 'c AsyncConnectAddr =
  ca_IP :: string
  ca_Port :: int
  ca_Timeout :: int
  ca_SuccessCB :: "'c option"
  ca_FailedCB :: "'c option"

record 'c ConnectingInfo =
  ci_startConnectTime :: int
  ci_timeout :: int
  ci_successCB :: "'c option"
  ci_failedCB :: "'c option"

datatype 'c conn_event = Opened sock | Closed sock | Succeeded 'c sock | Failed 'c

text \<open>\<open>std::map\<close> is the list of its pairs in the order of the keys.\<close>

record 'c ConnectorWorkInfo =
  mConnectingInfos :: "(sock \<times> 'c ConnectingInfo) list"
  mFDSet :: fdset_s
  mPollResult :: stack_s
  wi_log :: "'c conn_event list"

fun map_put :: "'k::linorder \<Rightarrow> 'v \<Rightarrow> ('k \<times> 'v) list \<Rightarrow> ('k \<times> 'v) list" where
  "map_put k v [] = [(k, v)]"
| "map_put k v ((k', v') # m) =
     (if k < k' then (k, v) # (k', v') # m
      else if k = k' then (k, v) # m
      else (k', v') # map_put k v m)"

definition map_erase :: "'k \<Rightarrow> ('k \<times> 'v) list \<Rightarrow> ('k \<times> 'v) list" where
  "map_erase k m = filter (\<lambda>kv. fst kv \<noteq> k) m"

text \<open>A call to a callback that may be null.\<close>

definition succeed_cb :: "'c option \<Rightarrow> sock \<Rightarrow> 'c conn_event list" where
  "succeed_cb cb fd = (case cb of None \<Rightarrow> [Closed fd] | Some c \<Rightarrow> [Succeeded c fd])"

definition fail_cb :: "'c option \<Rightarrow> 'c conn_event list" where
  "fail_cb cb = (case cb of None \<Rightarrow> [] | Some c \<Rightarrow> [Failed c])"

definition add_log :: "'c conn_event list \<Rightarrow> 'c ConnectorWorkInfo \<Rightarrow> 'c ConnectorWorkInfo" where
  "add_log es w = w\<lparr>wi_log := wi_log w @ es\<rparr>"

section \<open>The worker's operations\<close>

text \<open>
  The constructor. Where an allocation fails the pointer is null and the first
  use of it is undefined; both are \<open>None\<close>.
\<close>

definition ConnectorWorkInfo_new :: "heap_env \<Rightarrow> 'c ConnectorWorkInfo option" where
  "ConnectorWorkInfo_new env =
     do {
       fs \<leftarrow> ox_fdset_new env; fs \<leftarrow> fs;
       st \<leftarrow> ox_stack_new env 1024 4; st \<leftarrow> st;
       Some \<lparr>mConnectingInfos = [], mFDSet = fs, mPollResult = st, wi_log = []\<rparr>
     }"

text \<open>The result of \<open>getsockopt (SO_ERROR)\<close> for a descriptor: the return value and the error.\<close>

type_synonym sockopt_fn = "sock \<Rightarrow> int \<times> int"

definition isConnectSuccess :: "sockopt_fn \<Rightarrow> 'c ConnectorWorkInfo \<Rightarrow> sock \<Rightarrow> bool \<Rightarrow> bool option" where
  "isConnectSuccess getsockopt w clientfd willCheckWrite =
     do {
       writable \<leftarrow> (if willCheckWrite then ox_fdset_check (mFDSet w) clientfd WriteCheck else Some True);
       if \<not> writable then Some False
       else let (ret, err) = getsockopt clientfd
            in if ret = -1 then Some False else Some (err = 0)
     }"

text \<open>
  The loop that empties the result stack: the descriptors seen and those
  connected, two \<open>std::set\<close>s, which are lists in ascending order.
\<close>

function collect_ready ::
    "sockopt_fn \<Rightarrow> 'c ConnectorWorkInfo \<Rightarrow> sock list \<Rightarrow> sock list \<Rightarrow>
     (sock list \<times> sock list \<times> 'c ConnectorWorkInfo) option" where
  "collect_ready getsockopt w total_fds success_fds =
     (case ox_stack_popfront (mPollResult w) of
        None \<Rightarrow> None
      | Some (None, st) \<Rightarrow> Some (total_fds, success_fds, w\<lparr>mPollResult := st\<rparr>)
      | Some (Some p, st) \<Rightarrow>
          do {
            bs \<leftarrow> mem_read (arr_buffer (stk_array st)) p 4;
            let fd = int_of_bytes bs;
            ok \<leftarrow> isConnectSuccess getsockopt w fd False;
            collect_ready getsockopt (w\<lparr>mPollResult := st\<rparr>) (insort_insert fd total_fds)
              (if ok then insort_insert fd success_fds else success_fds)
          })"
  by pat_completeness auto

termination collect_ready
  by (relation "measure (\<lambda>(_, w, _, _). nat (stk_num (mPollResult w)))") (auto dest: popfront_shrinks)

text \<open>
  The connect_result of one polled descriptor. The \<open>TcpSocket\<close> made for it is moved into
  the success callback, else its destructor closes the descriptor.
\<close>

definition finish_connect ::
    "sock list \<Rightarrow> sock \<Rightarrow> 'c ConnectorWorkInfo \<Rightarrow> 'c ConnectorWorkInfo option" where
  "finish_connect success_fds fd w =
     do {
       fs \<leftarrow> ox_fdset_remove (mFDSet w) fd;
       let w = w\<lparr>mFDSet := fs\<rparr>;
       case map_of (mConnectingInfos w) fd of
         None \<Rightarrow> Some w
       | Some ci \<Rightarrow>
           let es = (if fd \<in> set success_fds then succeed_cb (ci_successCB ci) fd
                     else fail_cb (ci_failedCB ci) @ [Closed fd])
           in Some (add_log es (w\<lparr>mConnectingInfos := map_erase fd (mConnectingInfos w)\<rparr>))
     }"

fun for_each :: "('a \<Rightarrow> 's \<Rightarrow> 's option) \<Rightarrow> 'a list \<Rightarrow> 's \<Rightarrow> 's option" where
  "for_each f [] s = Some s"
| "for_each f (x # xs) s = do { s' \<leftarrow> f x s; for_each f xs s' }"

definition checkConnectStatus ::
    "heap_env \<Rightarrow> poll_fn \<Rightarrow> sockopt_fn \<Rightarrow> int \<Rightarrow> 'c ConnectorWorkInfo \<Rightarrow> 'c ConnectorWorkInfo option" where
  "checkConnectStatus env poll getsockopt millsecond w =
     do {
       (n, fs) \<leftarrow> ox_fdset_poll poll (mFDSet w) millsecond;
       let w = w\<lparr>mFDSet := fs\<rparr>;
       if n \<le> 0 then Some w
       else do {
         st \<leftarrow> ox_fdset_visitor env (mFDSet w) WriteCheck (mPollResult w);
         (total_fds, success_fds, w) \<leftarrow> collect_ready getsockopt (w\<lparr>mPollResult := st\<rparr>) [] [];
         for_each (finish_connect success_fds) total_fds w
       }
     }"

text \<open>The end of a connect that is given up: out of the poll set and the table, closed, reported.\<close>

definition give_up :: "sock \<times> 'c ConnectingInfo \<Rightarrow> 'c ConnectorWorkInfo \<Rightarrow> 'c ConnectorWorkInfo option" where
  "give_up v w =
     do {
       fs \<leftarrow> ox_fdset_remove (mFDSet w) (fst v);
       Some (add_log (Closed (fst v) # fail_cb (ci_failedCB (snd v)))
              (w\<lparr>mFDSet := fs, mConnectingInfos := map_erase (fst v) (mConnectingInfos w)\<rparr>))
     }"

text \<open>\<open>now fd\<close> is the clock when the loop stands at the entry of \<open>fd\<close>.\<close>

definition checkTimeout :: "(sock \<Rightarrow> int) \<Rightarrow> 'c ConnectorWorkInfo \<Rightarrow> 'c ConnectorWorkInfo option" where
  "checkTimeout now w =
     for_each (\<lambda>v w. if now (fst v) - ci_startConnectTime (snd v) < ci_timeout (snd v) then Some w
                     else give_up v w)
       (mConnectingInfos w) w"

text \<open>Here the table is cleared before the loop over its copy.\<close>

definition causeAllFailed :: "'c ConnectorWorkInfo \<Rightarrow> 'c ConnectorWorkInfo option" where
  "causeAllFailed w =
     for_each
       (\<lambda>v w. do {
          fs \<leftarrow> ox_fdset_remove (mFDSet w) (fst v);
          Some (add_log (Closed (fst v) # fail_cb (ci_failedCB (snd v))) (w\<lparr>mFDSet := fs\<rparr>)) })
       (mConnectingInfos w) (w\<lparr>mConnectingInfos := []\<rparr>)"

text \<open>
  The kernel as \<open>processConnect\<close> sees it: \<open>socket\<close> yields a descriptor that is not
  among those in use, or -1; \<open>connect\<close> to an address (the text of it, and the port
  cut to 16 bits) yields a result and an error number; the clock.
\<close>

record connect_calls =
  sys_socket :: "sock list \<Rightarrow> int"
  sys_connect :: "sock \<Rightarrow> string \<Rightarrow> 16 word \<Rightarrow> int \<times> int"
  sys_now :: int

definition EINPROGRESS :: int where "EINPROGRESS = 115"

definition processConnect ::
    "heap_env \<Rightarrow> connect_calls \<Rightarrow> 'c AsyncConnectAddr \<Rightarrow> 'c ConnectorWorkInfo \<Rightarrow> 'c ConnectorWorkInfo option" where
  "processConnect env sys addr w =
     (let clientfd = sys_socket sys (map fst (mConnectingInfos w)) in
      if clientfd = SOCKET_ERROR then Some (add_log (fail_cb (ca_FailedCB addr)) w)
      else
        let w = add_log [Opened clientfd] w;
            (n, errno) = sys_connect sys clientfd (ca_IP addr) (word_of_int (ca_Port addr))
        in if n = 0
           then Some (case ca_SuccessCB addr of None \<Rightarrow> w | Some c \<Rightarrow> add_log [Succeeded c clientfd] w)
           else if EINPROGRESS \<noteq> errno
           then Some (add_log (Closed clientfd # fail_cb (ca_FailedCB addr)) w)
           else do {
             let ci = \<lparr>ci_startConnectTime = sys_now sys, ci_timeout = ca_Timeout addr,
                       ci_successCB = ca_SuccessCB addr, ci_failedCB = ca_FailedCB addr\<rparr>;
             fs \<leftarrow> ox_fdset_add env (mFDSet w) clientfd WriteCheck;
             Some (w\<lparr>mConnectingInfos := map_put clientfd ci (mConnectingInfos w), mFDSet := fs\<rparr>)
           })"

section \<open>The connector object\<close>

text \<open>
  What waits in the event loop of the worker: a connect to start, or the proc by
  which \<open>stopWorkerThread\<close> clears the run flag.
\<close>

datatype 'c conn_proc = Process_connect "'c AsyncConnectAddr" | Stop_run

text \<open>
  \<open>cn_mThread\<close> says that the thread pointer is set, \<open>cn_joining\<close> that a caller waits for
  the thread in \<open>stopWorkerThread\<close> and holds \<open>mThreadGuard\<close>, \<open>cn_exited\<close> that the thread
  has left its function. The last two fields are the history: the conn_calls of
  earlier threads, and the requests taken.
\<close>

record 'c AsyncConnector =
  cn_mWorkInfo :: "'c ConnectorWorkInfo option"
  cn_mIsRun :: "bool option"
  cn_procs :: "'c conn_proc list"
  cn_mThread :: bool
  cn_joining :: bool
  cn_exited :: bool
  cn_log :: "'c conn_event list"
  cn_accepted :: "'c AsyncConnectAddr list"

definition AsyncConnector_new :: "'c AsyncConnector" where
  "AsyncConnector_new = \<lparr>cn_mWorkInfo = None, cn_mIsRun = Some False, cn_procs = [], cn_mThread = False,
     cn_joining = False, cn_exited = False, cn_log = [], cn_accepted = []\<rparr>"

datatype conn_error = All_callback_nullptr | Work_thread_already_stop

text \<open>\<open>None\<close> is the access through a null \<open>mIsRun\<close>.\<close>

definition asyncConnect ::
    "'c AsyncConnectAddr \<Rightarrow> 'c AsyncConnector \<Rightarrow> (conn_error + 'c AsyncConnector) option" where
  "asyncConnect addr c =
     (if ca_SuccessCB addr = None \<or> ca_FailedCB addr = None then Some (Inl All_callback_nullptr)
      else do {
        isRun \<leftarrow> cn_mIsRun c;
        if \<not> isRun then Some (Inl Work_thread_already_stop)
        else Some (Inr (c\<lparr>cn_procs := cn_procs c @ [Process_connect addr],
                          cn_accepted := cn_accepted c @ [addr]\<rparr>))
      })"

definition startConnectorThread :: "heap_env \<Rightarrow> 'c AsyncConnector \<Rightarrow> 'c AsyncConnector option" where
  "startConnectorThread env c =
     (if cn_mThread c then Some c
      else do {
        w \<leftarrow> ConnectorWorkInfo_new env;
        Some (c\<lparr>cn_mIsRun := Some True, cn_mWorkInfo := Some w, cn_procs := [], cn_mThread := True,
                 cn_exited := False\<rparr>)
      })"

text \<open>\<open>stopWorkerThread\<close> up to the join, and after it.\<close>

definition stopWorkerThread_begin :: "'c AsyncConnector \<Rightarrow> 'c AsyncConnector" where
  "stopWorkerThread_begin c =
     (if \<not> cn_mThread c then c else c\<lparr>cn_procs := cn_procs c @ [Stop_run], cn_joining := True\<rparr>)"

definition stopWorkerThread_end :: "'c AsyncConnector \<Rightarrow> 'c AsyncConnector" where
  "stopWorkerThread_end c =
     c\<lparr>cn_log := cn_log c @ (case cn_mWorkInfo c of None \<Rightarrow> [] | Some w \<Rightarrow> wi_log w),
       cn_procs := [], cn_mWorkInfo := None, cn_mIsRun := None, cn_mThread := False, cn_joining := False,
       cn_exited := False\<rparr>"

text \<open>The kernel during one round of the worker; \<open>rc_connect i\<close> serves the \<open>i\<close>-th proc.\<close>

record round_calls =
  rc_connect :: "nat \<Rightarrow> connect_calls"
  rc_poll :: poll_fn
  rc_getsockopt :: sockopt_fn
  rc_now :: "sock \<Rightarrow> int"

fun run_conn_proc ::
    "heap_env \<Rightarrow> round_calls \<Rightarrow> nat \<times> 'c conn_proc \<Rightarrow> bool \<times> 'c ConnectorWorkInfo \<Rightarrow>
     (bool \<times> 'c ConnectorWorkInfo) option" where
  "run_conn_proc env rc (i, Process_connect addr) (isRun, w) =
     map_option (Pair isRun) (processConnect env (rc_connect rc i) addr w)"
| "run_conn_proc env rc (i, Stop_run) (isRun, w) = Some (False, w)"

text \<open>The event loop runs the procs that wait, in their order; then come the two checks.\<close>

definition runOnceCheckConnect ::
    "heap_env \<Rightarrow> round_calls \<Rightarrow> 'c conn_proc list \<Rightarrow> bool \<times> 'c ConnectorWorkInfo \<Rightarrow>
     (bool \<times> 'c ConnectorWorkInfo) option" where
  "runOnceCheckConnect env rc procs s =
     do {
       (isRun, w) \<leftarrow> for_each (run_conn_proc env rc) (enumerate 0 procs) s;
       w \<leftarrow> checkConnectStatus env (rc_poll rc) (rc_getsockopt rc) 0 w;
       w \<leftarrow> checkTimeout (rc_now rc) w;
       Some (isRun, w)
     }"

text \<open>One turn of the thread's function: a round while the run flag is set, then the way out.\<close>

definition worker_turn :: "heap_env \<Rightarrow> round_calls \<Rightarrow> 'c AsyncConnector \<Rightarrow> 'c AsyncConnector option" where
  "worker_turn env rc c =
     do {
       isRun \<leftarrow> cn_mIsRun c;
       w \<leftarrow> cn_mWorkInfo c;
       if isRun then do {
         (isRun, w) \<leftarrow> runOnceCheckConnect env rc (cn_procs c) (isRun, w);
         Some (c\<lparr>cn_procs := [], cn_mIsRun := Some isRun, cn_mWorkInfo := Some w\<rparr>)
       }
       else do {
         w \<leftarrow> causeAllFailed w;
         Some (c\<lparr>cn_mWorkInfo := Some w, cn_exited := True\<rparr>)
       }
     }"

text \<open>What the kernel promises: a new descriptor is not one in use, and lies below the limit \<open>n\<close>.\<close>

definition kernel_ok :: "int \<Rightarrow> round_calls \<Rightarrow> bool" where
  "kernel_ok n rc \<longleftrightarrow> (\<forall>i held. let fd = sys_socket (rc_connect rc i) held
     in fd = SOCKET_ERROR \<or> 0 \<le> fd \<and> fd < n \<and> fd \<notin> set held)"

text \<open>
  The steps of the connector and its clients, which take turns in any order; the
  lock keeps \<open>startWorkerThread\<close>, \<open>stopWorkerThread\<close> and \<open>asyncConnect\<close> out while
  somebody joins the thread. No client asks after the stop.
\<close>

inductive ac_step :: "heap_env \<Rightarrow> int \<Rightarrow> 'c AsyncConnector \<Rightarrow> 'c AsyncConnector \<Rightarrow> bool"
  for env :: heap_env and n :: int where
  ask: "\<not> cn_joining c \<Longrightarrow> asyncConnect addr c = Some (Inr c') \<Longrightarrow> ac_step env n c c'"
| start: "\<not> cn_joining c \<Longrightarrow> startConnectorThread env c = Some c' \<Longrightarrow> ac_step env n c c'"
| stop: "\<not> cn_joining c \<Longrightarrow> ac_step env n c (stopWorkerThread_begin c)"
| turn: "cn_mThread c \<Longrightarrow> \<not> cn_exited c \<Longrightarrow> kernel_ok n rc \<Longrightarrow> worker_turn env rc c = Some c' \<Longrightarrow>
    ac_step env n c c'"
| join: "cn_joining c \<Longrightarrow> cn_exited c \<Longrightarrow> ac_step env n c (stopWorkerThread_end c)"

inductive ac_reach :: "heap_env \<Rightarrow> int \<Rightarrow> 'c AsyncConnector \<Rightarrow> bool"
  for env :: heap_env and n :: int where
  conn_init: "ac_reach env n AsyncConnector_new"
| conn_next: "ac_reach env n c \<Longrightarrow> ac_step env n c c' \<Longrightarrow> ac_reach env n c'"

end
