(* ===== verification/Connector_Safe.thy ===== *)
theory Connector_Safe
  imports Connector
begin

text \<open>
  What the connector promises: every request is answered once, no descriptor is
  leaked or closed twice, nobody waits past the deadline, and stopping ends.
\<close>

section \<open>Tables\<close>

lemma for_each_inv:
  assumes "\<And>x s. x \<in> set xs \<Longrightarrow> P s \<Longrightarrow> \<exists>s'. f x s = Some s' \<and> P s'" and "P s"
  shows "\<exists>s'. for_each f xs s = Some s' \<and> P s'"
  using assms
proof (induction xs arbitrary: s)
  case Nil
  then show ?case by simp
next
  case (Cons x xs)
  then obtain s' where "f x s = Some s'" "P s'" by (meson list.set_intros(1))
  with Cons.IH [of s'] Cons.prems(1) show ?case by simp
qed

lemma set_map_put:
  "fst ` set (map_put k v m) = insert k (fst ` set m)"
  by (induction k v m rule: map_put.induct) (simp_all add: insert_commute)

lemma sorted_map_put:
  "sorted_wrt (<) (map fst m) \<Longrightarrow> sorted_wrt (<) (map fst (map_put k v m))"
proof (induction m)
  case (Cons kv m)
  then show ?case by (cases kv) (auto simp: set_map_put)
qed simp

lemma mset_map_put:
  "k \<notin> fst ` set m \<Longrightarrow> mset (map_put k v m) = add_mset (k, v) (mset m)"
  by (induction m) auto

lemma set_map_erase [simp]: "set (map_erase k m) = {kv \<in> set m. fst kv \<noteq> k}"
  by (auto simp: map_erase_def)

lemma sorted_map_erase:
  "sorted_wrt (<) (map fst m) \<Longrightarrow> sorted_wrt (<) (map fst (map_erase k m))"
  by (induction m) (auto simp: map_erase_def)

lemma mset_map_erase:
  assumes "distinct (map fst m)" and "(k, v) \<in> set m"
  shows "mset m = add_mset (k, v) (mset (map_erase k m))"
  using assms
proof (induction m)
  case Nil
  then show ?case by simp
next
  case (Cons kv m)
  have "map_erase k m = m" if "k \<notin> fst ` set m"
    using that by (auto simp: map_erase_def filter_id_conv)
  moreover have "k \<notin> fst ` set m" "kv = (k, v)" if "fst kv = k"
    using that Cons.prems by (auto simp: image_iff intro: prod_eqI)
  ultimately show ?case using Cons by (cases "fst kv = k") (auto simp: map_erase_def)
qed

section \<open>The poll set and the result stack\<close>

lemma remove_ok:
  assumes "fdset_inv s"
  obtains s' where "ox_fdset_remove s fd = Some s'" and "fdset_inv s'"
    and "events_of s' = (events_of s)(fd := None)" and "fs_limitSize s' = fs_limitSize s"
  using TryRemove_ok [OF assms, of fd] that by (auto simp: ox_fdset_remove_def)

lemma dom_events_of: "dom (events_of s) = pfd_fd ` set (entries s)"
  by (force simp: events_of_def dom_map_of_conv_image_fst)

lemma nfds_card:
  assumes "fdset_inv s"
  shows "fs_nfds s = card (dom (events_of s))"
proof -
  have "length (entries s) = fs_nfds s" using assms by (simp add: fdset_inv_def entries_def)
  then show ?thesis
    using assms distinct_card [of "map pfd_fd (entries s)"] by (simp add: fdset_inv_def dom_events_of)
qed

text \<open>The array grows only when it is full.\<close>

lemma add_limit:
  assumes "ox_fdset_add env s fd type = Some s'" and "fdset_inv s"
  shows "fs_limitSize s' \<le> max (fs_limitSize s) (fs_nfds s + 128)"
proof -
  obtain s1 where s1: "(if fs_limitSize s = fs_nfds s then upstepPollfd env s 128 else Some s) = Some s1"
    using assms(1) by (auto simp: ox_fdset_add_def bind_eq_Some_conv)
  have "fs_limitSize s1 \<le> max (fs_limitSize s) (fs_nfds s + 128)"
    using s1 by (auto simp: upstepPollfd_def bind_eq_Some_conv c_int_def Let_def split: if_splits)
  moreover have "fs_limitSize s' = fs_limitSize s1"
    using assms(1) s1
    by (auto simp: ox_fdset_add_def bind_eq_Some_conv update_events_def Let_def split: if_splits option.splits)
  ultimately show ?thesis by simp
qed

lemma map_map2_prefix:
  assumes "\<And>x y. f (g x y) = f x"
  shows "map f (map2 g xs ys @ drop (min (length xs) (length ys)) xs) = map f xs"
  using assms
proof (induction xs arbitrary: ys)
  case (Cons x xs)
  then show ?case by (cases ys) auto
qed simp

lemma poll_ok:
  assumes "fdset_inv s"
  obtains n s' where "ox_fdset_poll poll s ms = Some (n, s')" and "fdset_inv s'"
    and "events_of s' = events_of s" and "fs_limitSize s' = fs_limitSize s"
proof -
  let ?fds = "entries s"
  obtain ret errno revents where P: "poll (map (\<lambda>p. (pfd_fd p, pfd_events p)) ?fds) ms = (ret, errno, revents)"
    by (cases "poll (map (\<lambda>p. (pfd_fd p, pfd_events p)) ?fds) ms") auto
  let ?new = "map2 (\<lambda>p ev. p\<lparr>pfd_revents := ev\<rparr>) ?fds revents"
  let ?blk = "?new @ drop (length ?new) (fs_block s)"
  let ?s = "s\<lparr>fs_pollFds := map_option (\<lambda>_. ?blk) (fs_pollFds s)\<rparr>"
  have n: "fs_nfds s \<le> length (fs_block s)" using assms by (simp add: fdset_inv_def)
  have "mem_read (fs_block s) 0 (fs_nfds s) = Some ?fds" using n by (simp add: mem_read_def entries_def)
  moreover have "mem_write (fs_block s) (Some 0) ?new = Some ?blk"
    using n by (simp add: mem_write_def entries_def)
  ultimately have R: "ox_fdset_poll poll s ms =
      Some (if ret = -1 then (if errno \<noteq> S_EINTR then -1 else 0) else ret, ?s)"
    by (simp add: ox_fdset_poll_def P)
  have B: "fs_block ?s = ?blk" using n by (cases "fs_pollFds s") (simp_all add: fs_block_def entries_def)
  obtain s' where s': "s' = ?s" by simp
  have blk: "fs_block s' = ?blk" by (simp only: s' B)
  have nf: "fs_nfds s' = fs_nfds s" by (simp add: s')
  have E: "entries s' = ?new @ drop (min (length ?fds) (length revents)) ?fds"
    using n unfolding entries_def [of s'] blk nf by (simp add: entries_def drop_take min_def)
  have ev: "map fd_event (entries s') = map fd_event ?fds"
    unfolding E by (rule map_map2_prefix) (simp add: fd_event_def)
  have fd: "map pfd_fd (entries s') = map pfd_fd ?fds"
    unfolding E by (rule map_map2_prefix) simp
  have len: "length (fs_block s') = length (fs_block s)" using n unfolding blk by (simp add: entries_def)
  have "fdset_inv s'" using assms len fd by (simp add: fdset_inv_def) (simp add: s')
  with R ev show ?thesis by (intro that [of _ s']) (simp_all only: events_of_alt, simp_all add: s')
qed

section \<open>The invariant of the worker\<close>

text \<open>The callbacks that were called, the descriptors opened, and those given away or closed.\<close>

definition answered :: "'c conn_event list \<Rightarrow> 'c list" where
  "answered es = List.map_filter (\<lambda>e. case e of Succeeded c _ \<Rightarrow> Some c | Failed c \<Rightarrow> Some c | _ \<Rightarrow> None) es"

definition opened :: "'c conn_event list \<Rightarrow> sock list" where
  "opened es = List.map_filter (\<lambda>e. case e of Opened fd \<Rightarrow> Some fd | _ \<Rightarrow> None) es"

definition released :: "'c conn_event list \<Rightarrow> sock list" where
  "released es = List.map_filter (\<lambda>e. case e of Succeeded _ fd \<Rightarrow> Some fd | Closed fd \<Rightarrow> Some fd | _ \<Rightarrow> None) es"

lemma history_simps [simp]:
  "answered [] = []" "answered (es @ es') = answered es @ answered es'"
  "answered (Opened fd # es) = answered es" "answered (Closed fd # es) = answered es"
  "answered (Succeeded c fd # es) = c # answered es" "answered (Failed c # es) = c # answered es"
  "opened [] = []" "opened (es @ es') = opened es @ opened es'"
  "opened (Opened fd # es) = fd # opened es" "opened (Closed fd # es) = opened es"
  "opened (Succeeded c fd # es) = opened es" "opened (Failed c # es) = opened es"
  "released [] = []" "released (es @ es') = released es @ released es'"
  "released (Opened fd # es) = released es" "released (Closed fd # es) = fd # released es"
  "released (Succeeded c fd # es) = fd # released es" "released (Failed c # es) = released es"
  by (simp_all add: answered_def opened_def released_def List.map_filter_def)

text \<open>
  \<open>req\<close> names the request that a callback belongs to; the two callbacks of one
  request have the same name.
\<close>

definition info_ok :: "('c \<Rightarrow> 'r) \<Rightarrow> 'c ConnectingInfo \<Rightarrow> bool" where
  "info_ok req ci \<longleftrightarrow> (\<exists>s f. ci_successCB ci = Some s \<and> ci_failedCB ci = Some f \<and> req s = req f)"

definition labelled :: "('c \<Rightarrow> 'r) \<Rightarrow> 'c AsyncConnectAddr \<Rightarrow> bool" where
  "labelled req a \<longleftrightarrow> (\<exists>s f. ca_SuccessCB a = Some s \<and> ca_FailedCB a = Some f \<and> req s = req f)"

definition label :: "('c \<Rightarrow> 'r) \<Rightarrow> 'c AsyncConnectAddr \<Rightarrow> 'r" where
  "label req a = req (the (ca_FailedCB a))"

definition info_label :: "('c \<Rightarrow> 'r) \<Rightarrow> sock \<times> 'c ConnectingInfo \<Rightarrow> 'r" where
  "info_label req v = req (the (ci_failedCB (snd v)))"

text \<open>The table, the poll set and the result stack, for descriptors below \<open>n\<close>.\<close>

definition table_inv :: "heap_env \<Rightarrow> int \<Rightarrow> ('c \<Rightarrow> 'r) \<Rightarrow> 'c ConnectorWorkInfo \<Rightarrow> bool" where
  "table_inv env n req w \<longleftrightarrow>
     sorted_wrt (<) (map fst (mConnectingInfos w)) \<and>
     (\<forall>v \<in> set (mConnectingInfos w). 0 \<le> fst v \<and> fst v < n \<and> info_ok req (snd v)) \<and>
     fdset_inv (mFDSet w) \<and> dom (events_of (mFDSet w)) = fst ` set (mConnectingInfos w) \<and>
     int (fs_limitSize (mFDSet w)) \<le> 1024 + n + 128"

definition stack_ready :: "stack_s \<Rightarrow> bool" where
  "stack_ready st \<longleftrightarrow> stack_inv st \<and> elements st = [] \<and> stk_element_size st = 4 \<and> 0 < stk_element_num st"

text \<open>
  The books balance: the requests of \<open>A\<close> are answered or still in the table, and
  the descriptors opened are released or still in the table.
\<close>

definition wi_ok :: "heap_env \<Rightarrow> int \<Rightarrow> ('c \<Rightarrow> 'r) \<Rightarrow> 'r multiset \<Rightarrow> 'c ConnectorWorkInfo \<Rightarrow> bool" where
  "wi_ok env n req A w \<longleftrightarrow> table_inv env n req w \<and>
     A = image_mset req (mset (answered (wi_log w))) + image_mset (info_label req) (mset (mConnectingInfos w)) \<and>
     mset (opened (wi_log w)) = mset (released (wi_log w)) + image_mset fst (mset (mConnectingInfos w))"

lemma wi_ok_poll [simp]: "wi_ok env n req A (w\<lparr>mPollResult := st\<rparr>) = wi_ok env n req A w"
  by (simp add: wi_ok_def table_inv_def)

lemma table_distinct: "table_inv env n req w \<Longrightarrow> distinct (map fst (mConnectingInfos w))"
  by (auto simp: table_inv_def strict_sorted_iff)

text \<open>An entry that leaves the table with one call to its callbacks and its descriptor released.\<close>

lemma entry_leaves:
  assumes "wi_ok env n req A w" and "(fd, ci) \<in> set (mConnectingInfos w)"
    and "ox_fdset_remove (mFDSet w) fd = Some fs"
    and "map req (answered es) = [req (the (ci_failedCB ci))]" and "opened es = []" and "released es = [fd]"
  shows "wi_ok env n req A
    (add_log es (w\<lparr>mFDSet := fs, mConnectingInfos := map_erase fd (mConnectingInfos w)\<rparr>))"
proof -
  have T: "table_inv env n req w" using assms(1) by (simp add: wi_ok_def)
  then have "fdset_inv (mFDSet w)" by (simp add: table_inv_def)
  from remove_ok [OF this, of fd] assms(3) have F: "fdset_inv fs"
    "events_of fs = (events_of (mFDSet w))(fd := None)" "fs_limitSize fs = fs_limitSize (mFDSet w)" by auto
  have "table_inv env n req (add_log es (w\<lparr>mFDSet := fs, mConnectingInfos := map_erase fd (mConnectingInfos w)\<rparr>))"
    using T F sorted_map_erase [of "mConnectingInfos w" fd] by (auto simp: table_inv_def add_log_def)
  moreover have "mset (mConnectingInfos w) = add_mset (fd, ci) (mset (map_erase fd (mConnectingInfos w)))"
    by (rule mset_map_erase [OF table_distinct [OF T] assms(2)])
  moreover have "image_mset req (mset (answered es)) = {#req (the (ci_failedCB ci))#}"
    using assms(4) by (metis mset_map mset_single_iff_right)
  ultimately show ?thesis
    using assms(1,5,6) by (simp add: wi_ok_def add_log_def info_label_def)
qed

lemma fail_answered [simp]:
  "info_ok req ci \<Longrightarrow> map req (answered (fail_cb (ci_failedCB ci))) = [req (the (ci_failedCB ci))]"
  "opened (fail_cb cb) = []" "released (fail_cb cb) = []"
  by (auto simp: info_ok_def fail_cb_def split: option.splits)

lemma finish_connect_ok:
  assumes "wi_ok env n req A w"
  shows "\<exists>w'. finish_connect ok fd w = Some w' \<and> wi_ok env n req A w'"
proof -
  have T: "table_inv env n req w" using assms by (simp add: wi_ok_def)
  then have "fdset_inv (mFDSet w)" by (simp add: table_inv_def)
  then obtain fs where F: "ox_fdset_remove (mFDSet w) fd = Some fs" "fdset_inv fs"
    "events_of fs = (events_of (mFDSet w))(fd := None)" "fs_limitSize fs = fs_limitSize (mFDSet w)"
    by (rule remove_ok [of _ fd])
  show ?thesis
  proof (cases "map_of (mConnectingInfos w) fd")
    case None
    then have "fd \<notin> fst ` set (mConnectingInfos w)" by (simp add: map_of_eq_None_iff)
    with T F have "table_inv env n req (w\<lparr>mFDSet := fs\<rparr>)" by (auto simp: table_inv_def)
    with None F(1) assms show ?thesis by (simp add: finish_connect_def wi_ok_def)
  next
    case (Some ci)
    then have in_table: "(fd, ci) \<in> set (mConnectingInfos w)" by (rule map_of_SomeD)
    with T have ci: "info_ok req ci" by (auto simp: table_inv_def)
    let ?es = "if fd \<in> set ok then succeed_cb (ci_successCB ci) fd else fail_cb (ci_failedCB ci) @ [Closed fd]"
    have "map req (answered ?es) = [req (the (ci_failedCB ci))]" "opened ?es = []" "released ?es = [fd]"
      using ci by (auto simp: info_ok_def succeed_cb_def fail_cb_def)
    from entry_leaves [OF assms in_table F(1) this] show ?thesis
      by (simp add: finish_connect_def F(1) Some)
  qed
qed

lemma give_up_ok:
  assumes "wi_ok env n req A w" and "v \<in> set (mConnectingInfos w)"
  obtains w' where "give_up v w = Some w'" and "wi_ok env n req A w'"
    and "mConnectingInfos w' = map_erase (fst v) (mConnectingInfos w)" and "mPollResult w' = mPollResult w"
proof -
  have T: "table_inv env n req w" using assms by (simp add: wi_ok_def)
  then obtain fs where F: "ox_fdset_remove (mFDSet w) (fst v) = Some fs"
    by (auto simp: table_inv_def intro: remove_ok)
  have "info_ok req (snd v)" using T assms(2) by (auto simp: table_inv_def)
  with entry_leaves [OF assms(1), of "fst v" "snd v" fs "Closed (fst v) # fail_cb (ci_failedCB (snd v))"] F assms(2)
  have "wi_ok env n req A (add_log (Closed (fst v) # fail_cb (ci_failedCB (snd v)))
      (w\<lparr>mFDSet := fs, mConnectingInfos := map_erase (fst v) (mConnectingInfos w)\<rparr>))" by simp
  moreover have "give_up v w = Some (add_log (Closed (fst v) # fail_cb (ci_failedCB (snd v)))
      (w\<lparr>mFDSet := fs, mConnectingInfos := map_erase (fst v) (mConnectingInfos w)\<rparr>))"
    by (simp add: give_up_def F)
  ultimately show ?thesis using that by (simp add: add_log_def)
qed

text \<open>A pass over the table that gives some entries up.\<close>

lemma give_up_pass:
  assumes "wi_ok env n req A w" and "set vs \<subseteq> set (mConnectingInfos w)" and "distinct (map fst vs)"
  shows "\<exists>w'. for_each (\<lambda>v w. if keep v then Some w else give_up v w) vs w = Some w' \<and> wi_ok env n req A w' \<and>
    mPollResult w' = mPollResult w \<and> set (mConnectingInfos w') = {v \<in> set (mConnectingInfos w). v \<notin> set vs \<or> keep v}"
  using assms
proof (induction vs arbitrary: w)
  case Nil
  then show ?case by auto
next
  case (Cons v vs)
  show ?case
  proof (cases "keep v")
    case True
    with Cons.IH [of w] Cons.prems show ?thesis by auto
  next
    case False
    have "v \<in> set (mConnectingInfos w)" using Cons.prems(2) by simp
    from give_up_ok [OF Cons.prems(1) this] obtain w1 where w1: "give_up v w = Some w1" "wi_ok env n req A w1"
      "mConnectingInfos w1 = map_erase (fst v) (mConnectingInfos w)" "mPollResult w1 = mPollResult w" .
    have d: "distinct (map fst (mConnectingInfos w))"
      using Cons.prems(1) table_distinct by (auto simp: wi_ok_def)
    have only: "u = v" if "u \<in> set (mConnectingInfos w)" "fst u = fst v" for u
      using d that \<open>v \<in> set (mConnectingInfos w)\<close> by (metis eq_key_imp_eq_value prod.collapse)
    have "set vs \<subseteq> set (mConnectingInfos w1)"
      using Cons.prems(2,3) by (auto simp: w1(3) image_iff)
    from Cons.IH [OF w1(2) this] Cons.prems(3) obtain w' where
      "for_each (\<lambda>v w. if keep v then Some w else give_up v w) vs w1 = Some w'" "wi_ok env n req A w'"
      "mPollResult w' = mPollResult w1" "set (mConnectingInfos w') = {v \<in> set (mConnectingInfos w1). v \<notin> set vs \<or> keep v}" by auto
    moreover from this(4) have "set (mConnectingInfos w') =
        {u \<in> set (mConnectingInfos w). u \<notin> set (v # vs) \<or> keep u}"
      using only False Cons.prems(3) by (auto simp: w1(3))
    ultimately show ?thesis using False w1(1,4) by simp
  qed
qed

lemma checkTimeout_ok:
  assumes "wi_ok env n req A w"
  obtains w' where "checkTimeout now w = Some w'" and "wi_ok env n req A w'" and "mPollResult w' = mPollResult w"
    and "\<forall>v \<in> set (mConnectingInfos w'). now (fst v) - ci_startConnectTime (snd v) < ci_timeout (snd v)"
proof -
  have "distinct (map fst (mConnectingInfos w))"
    using assms table_distinct by (auto simp: wi_ok_def)
  from give_up_pass [OF assms subset_refl this, of "\<lambda>v. now (fst v) - ci_startConnectTime (snd v) < ci_timeout (snd v)"]
  show ?thesis by (auto simp: checkTimeout_def intro: that)
qed

text \<open>\<open>causeAllFailed\<close> is such a pass that keeps nothing: clearing the table first makes no difference.\<close>

lemma for_each_cleared:
  "for_each (\<lambda>v w. do {
       fs \<leftarrow> ox_fdset_remove (mFDSet w) (fst v);
       Some (add_log (Closed (fst v) # fail_cb (ci_failedCB (snd v))) (w\<lparr>mFDSet := fs\<rparr>)) }) vs
     (w\<lparr>mConnectingInfos := []\<rparr>) =
   map_option (\<lambda>w. w\<lparr>mConnectingInfos := []\<rparr>) (for_each give_up vs w)"
proof (induction vs arbitrary: w)
  case (Cons v vs)
  show ?case
  proof (cases "ox_fdset_remove (mFDSet w) (fst v)")
    case (Some fs)
    with Cons.IH [of "add_log (Closed (fst v) # fail_cb (ci_failedCB (snd v)))
        (w\<lparr>mFDSet := fs, mConnectingInfos := map_erase (fst v) (mConnectingInfos w)\<rparr>)"]
    show ?thesis by (cases w) (simp add: give_up_def add_log_def)
  qed (simp add: give_up_def)
qed simp

lemma causeAllFailed_ok:
  assumes "wi_ok env n req A w"
  obtains w' where "causeAllFailed w = Some w'" and "wi_ok env n req A w'" and "mConnectingInfos w' = []"
    and "mPollResult w' = mPollResult w"
proof -
  have "distinct (map fst (mConnectingInfos w))"
    using assms table_distinct by (auto simp: wi_ok_def)
  from give_up_pass [OF assms subset_refl this, of "\<lambda>_. False"] obtain w' where
    w': "for_each give_up (mConnectingInfos w) w = Some w'" "wi_ok env n req A w'" "mConnectingInfos w' = []"
    "mPollResult w' = mPollResult w" by auto
  then have "causeAllFailed w = Some (w'\<lparr>mConnectingInfos := []\<rparr>)"
    by (simp add: causeAllFailed_def for_each_cleared)
  moreover have "w'\<lparr>mConnectingInfos := []\<rparr> = w'" using w'(3) by simp
  ultimately show ?thesis using w'(2-4) that by simp
qed

section \<open>The connect_result of polled connects\<close>

definition connected :: "sockopt_fn \<Rightarrow> sock \<Rightarrow> bool" where
  "connected getsockopt fd \<longleftrightarrow> fst (getsockopt fd) \<noteq> -1 \<and> snd (getsockopt fd) = 0"

lemma isConnectSuccess_unchecked: "isConnectSuccess g w fd False = Some (connected g fd)"
  by (simp add: isConnectSuccess_def connected_def case_prod_unfold Let_def)

declare collect_ready.simps [simp del]

lemma collect_ready_ok:
  assumes "stack_inv (mPollResult w)" and "stk_element_size (mPollResult w) = 4" and "sorted T" and "distinct T"
  shows "\<exists>T' S' st. collect_ready g w T S = Some (T', S', w\<lparr>mPollResult := st\<rparr>) \<and> sorted T' \<and> distinct T' \<and>
    set T' = set T \<union> int_of_bytes ` set (elements (mPollResult w)) \<and>
    set S' = set S \<union> {fd \<in> int_of_bytes ` set (elements (mPollResult w)). connected g fd} \<and>
    stack_inv st \<and> elements st = [] \<and> stk_element_size st = 4 \<and>
    stk_element_num st = stk_element_num (mPollResult w)"
  using assms
proof (induction "elements (mPollResult w)" arbitrary: w T S)
  case Nil
  from Nil(2,3) show ?case
    by (cases rule: popfront_cases) (use Nil in \<open>auto simp: collect_ready.simps [of g w] intro: exI [of _ "mPollResult w"]\<close>)
next
  case (Cons bs bss)
  from Cons.prems(1,2) obtain p st where st: "ox_stack_popfront (mPollResult w) = Some (Some p, st)"
    "elements st = bss" "mem_read (arr_buffer (stk_array st)) p 4 = Some bs" "stack_inv st"
    "stk_element_size st = 4" "stk_element_num st = stk_element_num (mPollResult w)"
    by (cases rule: popfront_cases) (use Cons.hyps(2) in auto)
  let ?fd = "int_of_bytes bs"
  let ?T = "insort_insert ?fd T" and ?S = "if connected g ?fd then insort_insert ?fd S else S"
  have "collect_ready g w T S = collect_ready g (w\<lparr>mPollResult := st\<rparr>) ?T ?S"
    by (subst collect_ready.simps) (simp add: st(1,3) isConnectSuccess_unchecked Let_def)
  moreover have "sorted ?T" "distinct ?T" using Cons.prems(3,4) by (simp_all add: sorted_insort_insert distinct_insort_insert)
  moreover from this obtain T' S' st' where
    IH: "collect_ready g (w\<lparr>mPollResult := st\<rparr>) ?T ?S = Some (T', S', w\<lparr>mPollResult := st'\<rparr>)"
      "sorted T'" "distinct T'" "set T' = set ?T \<union> int_of_bytes ` set bss"
      "set S' = set ?S \<union> {fd \<in> int_of_bytes ` set bss. connected g fd}"
      "stack_inv st'" "elements st' = []" "stk_element_size st' = 4" "stk_element_num st' = stk_element_num st"
    using Cons.hyps(1) [of "w\<lparr>mPollResult := st\<rparr>" ?T ?S] st(2,4-6) by auto
  moreover have "set T' = set T \<union> int_of_bytes ` set (elements (mPollResult w))"
    "set S' = set S \<union> {fd \<in> int_of_bytes ` set (elements (mPollResult w)). connected g fd}"
    using IH(4,5) Cons.hyps(2) [symmetric] by (auto simp: set_insort_insert)
  ultimately show ?case using st(6) by (intro exI [of _ T'] exI [of _ S'] exI [of _ st']) simp
qed

definition connect_result :: "(sock \<Rightarrow> bool) \<Rightarrow> sock \<times> 'c ConnectingInfo \<Rightarrow> 'c conn_event list" where
  "connect_result ok v =
     (if ok (fst v) then succeed_cb (ci_successCB (snd v)) (fst v)
      else fail_cb (ci_failedCB (snd v)) @ [Closed (fst v)])"

lemma filter_least_key:
  assumes "sorted_wrt (<) (map fst m)" and "(k, v) \<in> set m" and "\<forall>x \<in> K. k < (x :: 'k::linorder)"
  shows "filter (\<lambda>kv. fst kv \<in> insert k K) m = (k, v) # filter (\<lambda>kv. fst kv \<in> K) (map_erase k m)"
  using assms
proof (induction m)
  case Nil
  then show ?case by simp
next
  case (Cons kv m)
  show ?case
  proof (cases "fst kv = k")
    case True
    then have "k \<notin> fst ` set m" using Cons.prems(1) by auto
    then have "map_erase k (kv # m) = m" "kv = (k, v)" "\<forall>u \<in> set m. fst u \<noteq> k"
      using True Cons.prems(2) by (auto simp: map_erase_def filter_id_conv image_iff)
    then show ?thesis by (auto intro: filter_cong)
  next
    case False
    then have "(k, v) \<in> set m" using Cons.prems(2) by auto
    then have "fst kv < k" using Cons.prems(1) by force
    with Cons.prems(3) have "fst kv \<notin> K" by auto
    with False Cons.IH Cons.prems \<open>(k, v) \<in> set m\<close> show ?thesis by (simp add: map_erase_def)
  qed
qed

lemma finish_pass:
  assumes "wi_ok env n req A w" and "sorted T" and "distinct T" and "set T \<subseteq> fst ` set (mConnectingInfos w)"
  shows "\<exists>w'. for_each (finish_connect S) T w = Some w' \<and> wi_ok env n req A w' \<and> mPollResult w' = mPollResult w \<and>
    mConnectingInfos w' = filter (\<lambda>v. fst v \<notin> set T) (mConnectingInfos w) \<and>
    wi_log w' = wi_log w @ concat (map (connect_result (\<lambda>fd. fd \<in> set S)) (filter (\<lambda>v. fst v \<in> set T) (mConnectingInfos w)))"
  using assms
proof (induction T arbitrary: w)
  case Nil
  then show ?case by simp
next
  case (Cons fd T)
  have srt: "sorted_wrt (<) (map fst (mConnectingInfos w))" using Cons.prems(1) by (simp add: wi_ok_def table_inv_def)
  then have "distinct (map fst (mConnectingInfos w))" by (simp add: strict_sorted_iff)
  with Cons.prems(4) obtain ci where ci: "(fd, ci) \<in> set (mConnectingInfos w)" "map_of (mConnectingInfos w) fd = Some ci"
    by fastforce
  obtain w1 where w1: "finish_connect S fd w = Some w1" "wi_ok env n req A w1"
    using finish_connect_ok [OF Cons.prems(1)] by blast
  then have eq: "mConnectingInfos w1 = map_erase fd (mConnectingInfos w)" "mPollResult w1 = mPollResult w"
    "wi_log w1 = wi_log w @ connect_result (\<lambda>fd. fd \<in> set S) (fd, ci)"
    using ci(2) by (auto simp: finish_connect_def bind_eq_Some_conv add_log_def connect_result_def Let_def)
  have lt: "\<forall>x \<in> set T. fd < x" using Cons.prems(2,3) by (auto simp: order_less_le)
  have "set T \<subseteq> fst ` set (mConnectingInfos w1)" using Cons.prems(3,4) by (force simp: eq(1))
  from Cons.IH [OF w1(2) _ _ this] Cons.prems(2,3) obtain w' where
    w': "for_each (finish_connect S) T w1 = Some w'" "wi_ok env n req A w'" "mPollResult w' = mPollResult w1"
      "mConnectingInfos w' = filter (\<lambda>v. fst v \<notin> set T) (mConnectingInfos w1)"
      "wi_log w' = wi_log w1 @ concat (map (connect_result (\<lambda>fd. fd \<in> set S)) (filter (\<lambda>v. fst v \<in> set T) (mConnectingInfos w1)))"
    by auto
  have "filter (\<lambda>v. fst v \<notin> set (fd # T)) (mConnectingInfos w) = filter (\<lambda>v. fst v \<notin> set T) (mConnectingInfos w1)"
    by (auto simp: eq(1) map_erase_def intro: filter_cong)
  moreover have "filter (\<lambda>v. fst v \<in> set (fd # T)) (mConnectingInfos w) =
      (fd, ci) # filter (\<lambda>v. fst v \<in> set T) (mConnectingInfos w1)"
    using filter_least_key [OF srt ci(1) lt] by (simp add: eq(1))
  ultimately show ?case using w1(1) w' eq by simp
qed

definition ready_fds :: "fdset_s \<Rightarrow> sock set" where
  "ready_fds fs = {pfd_fd p | p. p \<in> set (entries fs) \<and> check_event p WriteCheck}"

lemma stack_ready_room:
  assumes "stack_ready st" and "\<forall>k. malloc_ok env k" and "int m < 2 ^ 28"
  shows "stack_room env st m"
proof -
  have "stk_num st = 0"
    using assms(1) length_elements [of st] by (auto simp: stack_ready_def stack_inv_def)
  with assms show ?thesis by (simp add: stack_ready_def stack_room_def)
qed

lemma table_nfds:
  assumes "table_inv env n req w"
  shows "int (fs_nfds (mFDSet w)) \<le> max 0 n"
proof -
  have "fst ` set (mConnectingInfos w) \<subseteq> {0..<n}" using assms by (auto simp: table_inv_def)
  then have "card (fst ` set (mConnectingInfos w)) \<le> card {0..<n}" by (intro card_mono) simp_all
  moreover have "fs_nfds (mFDSet w) = card (fst ` set (mConnectingInfos w))"
    using assms nfds_card [of "mFDSet w"] by (simp add: table_inv_def)
  ultimately show ?thesis by simp
qed

text \<open>
  One check: nothing happens when the poll fails or times out; else exactly the
  entries that became writable leave, each with the callback its socket error asks for.
\<close>

lemma checkConnectStatus_ok:
  assumes "wi_ok env n req A w" and "stack_ready (mPollResult w)" and "\<forall>k. malloc_ok env k" and "n < 2 ^ 28"
  obtains r fs w' where "ox_fdset_poll poll (mFDSet w) ms = Some (r, fs)"
    and "checkConnectStatus env poll g ms w = Some w'" and "wi_ok env n req A w'" and "stack_ready (mPollResult w')"
    and "mConnectingInfos w' = filter (\<lambda>v. r \<le> 0 \<or> fst v \<notin> ready_fds fs) (mConnectingInfos w)"
    and "wi_log w' = wi_log w @ concat (map (connect_result (connected g))
      (filter (\<lambda>v. 0 < r \<and> fst v \<in> ready_fds fs) (mConnectingInfos w)))"
proof -
  have T: "table_inv env n req w" using assms(1) by (simp add: wi_ok_def)
  then have fi: "fdset_inv (mFDSet w)" by (simp add: table_inv_def)
  from poll_ok [OF fi] obtain r fs where P: "ox_fdset_poll poll (mFDSet w) ms = Some (r, fs)" "fdset_inv fs"
    "events_of fs = events_of (mFDSet w)" "fs_limitSize fs = fs_limitSize (mFDSet w)" by metis
  let ?w1 = "w\<lparr>mFDSet := fs\<rparr>"
  have w1: "wi_ok env n req A ?w1" using assms(1) T P by (simp add: wi_ok_def table_inv_def)
  show ?thesis
  proof (cases "r \<le> 0")
    case True
    then have "checkConnectStatus env poll g ms w = Some ?w1" by (simp add: checkConnectStatus_def P(1))
    with that [OF P(1) this w1] assms(2) True show ?thesis by simp
  next
    case False
    have keys: "pfd_fd ` set (entries fs) = fst ` set (mConnectingInfos w)"
      using T P(3) by (simp add: table_inv_def flip: dom_events_of)
    have "int (fs_nfds fs) < 2 ^ 28"
      using table_nfds [of env n req ?w1] w1 assms(4) by (simp add: wi_ok_def)
    from visitor_ok [OF P(2) _ _ stack_ready_room [OF assms(2,3) this], of WriteCheck] assms(2)
    obtain st where st: "ox_fdset_visitor env fs WriteCheck (mPollResult w) = Some st" "stack_inv st"
      "stack_room env st 0" "stk_element_size st = 4"
      "elements st = map (\<lambda>p. int_bytes (pfd_fd p)) (filter (\<lambda>p. check_event p WriteCheck) (entries fs))"
      by (auto simp: stack_ready_def)
    have bytes: "int_of_bytes (int_bytes (pfd_fd p)) = pfd_fd p" if "p \<in> set (entries fs)" for p
    proof (rule int_bytes_back)
      have "pfd_fd p \<in> fst ` set (mConnectingInfos w)" using that keys by blast
      then show "- (2 ^ 31) \<le> pfd_fd p" "pfd_fd p < 2 ^ 31" using T assms(4) by (auto simp: table_inv_def)
    qed
    have ready: "int_of_bytes ` set (elements st) = ready_fds fs"
      using bytes by (force simp: st(5) ready_fds_def)
    from collect_ready_ok [of "?w1\<lparr>mPollResult := st\<rparr>" "[]" g "[]"] st(2,4) obtain T' S' st' where
      C: "collect_ready g (?w1\<lparr>mPollResult := st\<rparr>) [] [] = Some (T', S', ?w1\<lparr>mPollResult := st'\<rparr>)"
        "sorted T'" "distinct T'" "set T' = ready_fds fs" "set S' = {fd \<in> ready_fds fs. connected g fd}"
        "stack_inv st'" "elements st' = []" "stk_element_size st' = 4" "stk_element_num st' = stk_element_num st"
      by (auto simp: ready)
    have "set T' \<subseteq> fst ` set (mConnectingInfos w)" unfolding C(4) keys [symmetric] by (auto simp: ready_fds_def)
    with finish_pass [of env n req A "?w1\<lparr>mPollResult := st'\<rparr>" T' S'] w1 C(2,3) obtain w' where
      F: "for_each (finish_connect S') T' (?w1\<lparr>mPollResult := st'\<rparr>) = Some w'" "wi_ok env n req A w'"
        "mPollResult w' = st'" "mConnectingInfos w' = filter (\<lambda>v. fst v \<notin> set T') (mConnectingInfos w)"
        "wi_log w' = wi_log w @ concat (map (connect_result (\<lambda>fd. fd \<in> set S')) (filter (\<lambda>v. fst v \<in> set T') (mConnectingInfos w)))"
      by auto
    have "checkConnectStatus env poll g ms w = Some w'"
      using False by (simp add: checkConnectStatus_def P(1) st(1) C(1) F(1))
    moreover have "stack_ready (mPollResult w')"
      using C F(3) st(3) by (simp add: stack_ready_def stack_room_def)
    moreover have M: "map (connect_result (\<lambda>fd. fd \<in> set S')) (filter (\<lambda>v. fst v \<in> set T') (mConnectingInfos w)) =
        map (connect_result (connected g)) (filter (\<lambda>v. fst v \<in> ready_fds fs) (mConnectingInfos w))"
      by (auto simp: C(4,5) connect_result_def)
    ultimately show ?thesis using that [OF P(1) _ F(2)] F(4) F(5) [unfolded M] C(4) False by simp
  qed
qed

section \<open>Starting a connect\<close>

lemma processConnect_ok:
  assumes "wi_ok env n req A w" and "labelled req addr" and "\<forall>k. malloc_ok env k" and "n < 2 ^ 28"
    and "\<And>held. sys_socket sys held = SOCKET_ERROR \<or>
          0 \<le> sys_socket sys held \<and> sys_socket sys held < n \<and> sys_socket sys held \<notin> set held"
  obtains w' where "processConnect env sys addr w = Some w'" and "wi_ok env n req (add_mset (label req addr) A) w'"
    and "mPollResult w' = mPollResult w"
proof -
  let ?fd = "sys_socket sys (map fst (mConnectingInfos w))"
  obtain s f where cb: "ca_SuccessCB addr = Some s" "ca_FailedCB addr = Some f" "req s = req f"
    using assms(2) by (auto simp: labelled_def)
  obtain r errno where R: "sys_connect sys ?fd (ca_IP addr) (word_of_int (ca_Port addr)) = (r, errno)" by force
  have T: "table_inv env n req w" using assms(1) by (simp add: wi_ok_def)
  consider (nosock) "?fd = SOCKET_ERROR" | (at_once) "?fd \<noteq> SOCKET_ERROR" "r = 0"
    | (failed) "?fd \<noteq> SOCKET_ERROR" "r \<noteq> 0" "errno \<noteq> EINPROGRESS"
    | (progress) "?fd \<noteq> SOCKET_ERROR" "r \<noteq> 0" "errno = EINPROGRESS" by blast
  then show ?thesis
  proof cases
    case nosock
    with assms(1) cb show ?thesis
      by (intro that [of "add_log [Failed f] w"])
        (simp_all add: processConnect_def Let_def fail_cb_def wi_ok_def table_inv_def add_log_def label_def)
  next
    case at_once
    with assms(1) cb R show ?thesis
      by (intro that [of "add_log [Succeeded s ?fd] (add_log [Opened ?fd] w)"])
        (simp_all add: processConnect_def Let_def wi_ok_def table_inv_def add_log_def label_def)
  next
    case failed
    with assms(1) cb R show ?thesis
      by (intro that [of "add_log [Closed ?fd, Failed f] (add_log [Opened ?fd] w)"])
        (simp_all add: processConnect_def Let_def fail_cb_def wi_ok_def table_inv_def add_log_def label_def)
  next
    case progress
    have fd: "0 \<le> ?fd" "?fd < n" "?fd \<notin> fst ` set (mConnectingInfos w)"
      using progress(1) assms(5) [of "map fst (mConnectingInfos w)"] by auto
    let ?ci = "\<lparr>ci_startConnectTime = sys_now sys, ci_timeout = ca_Timeout addr,
      ci_successCB = ca_SuccessCB addr, ci_failedCB = ca_FailedCB addr\<rparr>"
    have fi: "fdset_inv (mFDSet w)" "int (fs_limitSize (mFDSet w)) \<le> 1024 + n + 128"
      using T by (simp_all add: table_inv_def)
    then have "fdset_room env (mFDSet w) (Suc 0)"
      using assms(3,4) by (simp add: fdset_room_def)
    from add_ok [OF fi(1) this, of ?fd WriteCheck] obtain fs where
      fs: "ox_fdset_add env (mFDSet w) ?fd WriteCheck = Some fs" "fdset_inv fs"
        "events_of fs = poll_spec (Add ?fd WriteCheck) (events_of (mFDSet w))" by auto
    have "int (fs_limitSize fs) \<le> 1024 + n + 128"
      using add_limit [OF fs(1) fi(1)] table_nfds [OF T] fi(2) fd by linarith
    moreover have "dom (events_of fs) = insert ?fd (fst ` set (mConnectingInfos w))"
      using T fs(3) by (auto simp: table_inv_def)
    moreover note put = mset_map_put [OF fd(3), of ?ci]
    moreover from put have "set (map_put ?fd ?ci (mConnectingInfos w)) = insert (?fd, ?ci) (set (mConnectingInfos w))"
      by (metis set_mset_mset set_mset_add_mset_insert)
    ultimately have "table_inv env n req
        (w\<lparr>mConnectingInfos := map_put ?fd ?ci (mConnectingInfos w), mFDSet := fs\<rparr>)"
      using T fs(2) fd cb sorted_map_put [of "mConnectingInfos w" ?fd ?ci]
      by (auto simp: table_inv_def info_ok_def)
    moreover have "processConnect env sys addr w = Some ((add_log [Opened ?fd] w)\<lparr>
        mConnectingInfos := map_put ?fd ?ci (mConnectingInfos w), mFDSet := fs\<rparr>)"
      using progress R fs(1) by (simp add: processConnect_def add_log_def Let_def)
    ultimately show ?thesis
      using assms(1) put cb
      by (intro that [of "(add_log [Opened ?fd] w)\<lparr>mConnectingInfos := map_put ?fd ?ci (mConnectingInfos w), mFDSet := fs\<rparr>"])
        (simp_all add: wi_ok_def table_inv_def add_log_def label_def info_label_def)
  qed
qed

section \<open>The connector\<close>

text \<open>The requests that wait in the event loop, and the labels of all that wait for an answer.\<close>

definition queued :: "'c conn_proc list \<Rightarrow> 'c AsyncConnectAddr list" where
  "queued ps = List.map_filter (\<lambda>p. case p of Process_connect a \<Rightarrow> Some a | Stop_run \<Rightarrow> None) ps"

lemma queued_simps [simp]:
  "queued [] = []" "queued (ps @ ps') = queued ps @ queued ps'"
  "queued (Process_connect a # ps) = a # queued ps" "queued (Stop_run # ps) = queued ps"
  by (simp_all add: queued_def List.map_filter_def)

definition infos :: "'c AsyncConnector \<Rightarrow> (sock \<times> 'c ConnectingInfo) list" where
  "infos c = (case cn_mWorkInfo c of None \<Rightarrow> [] | Some w \<Rightarrow> mConnectingInfos w)"

definition conn_calls :: "'c AsyncConnector \<Rightarrow> 'c conn_event list" where
  "conn_calls c = cn_log c @ (case cn_mWorkInfo c of None \<Rightarrow> [] | Some w \<Rightarrow> wi_log w)"

definition waiting :: "('c \<Rightarrow> 'r) \<Rightarrow> 'c AsyncConnector \<Rightarrow> 'r multiset" where
  "waiting req c = image_mset (label req) (mset (queued (cn_procs c))) + image_mset (info_label req) (mset (infos c))"

definition books :: "('c \<Rightarrow> 'r) \<Rightarrow> 'c AsyncConnector \<Rightarrow> bool" where
  "books req c \<longleftrightarrow>
     image_mset req (mset (answered (conn_calls c))) + waiting req c = image_mset (label req) (mset (cn_accepted c)) \<and>
     mset (opened (conn_calls c)) = mset (released (conn_calls c)) + image_mset fst (mset (infos c))"

definition work_ok :: "heap_env \<Rightarrow> int \<Rightarrow> ('c \<Rightarrow> 'r) \<Rightarrow> 'c ConnectorWorkInfo \<Rightarrow> bool" where
  "work_ok env n req w \<longleftrightarrow> (\<exists>A. wi_ok env n req A w) \<and> stack_ready (mPollResult w)"

text \<open>The states of the thread, from the two flags and the queue.\<close>

definition ac_inv :: "heap_env \<Rightarrow> int \<Rightarrow> ('c \<Rightarrow> 'r) \<Rightarrow> 'c AsyncConnector \<Rightarrow> bool" where
  "ac_inv env n req c \<longleftrightarrow> books req c \<and> list_all (labelled req) (queued (cn_procs c)) \<and>
     (case cn_mWorkInfo c of
        None \<Rightarrow> \<not> cn_mThread c \<and> cn_procs c = [] \<and> cn_mIsRun c \<noteq> Some True \<and> \<not> cn_joining c \<and> \<not> cn_exited c
      | Some w \<Rightarrow> cn_mThread c \<and> work_ok env n req w \<and>
          (cn_mIsRun c = Some True \<and> \<not> cn_exited c \<and> (cn_joining c \<longleftrightarrow> Stop_run \<in> set (cn_procs c)) \<or>
           cn_mIsRun c = Some False \<and> cn_joining c \<and> cn_procs c = [] \<and>
             (cn_exited c \<longrightarrow> mConnectingInfos w = [])))"

lemma new_ok:
  assumes "\<forall>k. malloc_ok env k" and "0 \<le> n"
  obtains w where "ConnectorWorkInfo_new env = Some w" and "wi_ok env n req {#} w" and "stack_ready (mPollResult w)"
    and "mConnectingInfos w = []" and "wi_log w = []"
proof -
  let ?s0 = "\<lparr>fs_pollFds = None, fs_nfds = 0, fs_limitSize = 0\<rparr> :: fdset_s"
  have inv0: "fdset_inv ?s0" by (simp add: fdset_inv_def fs_block_def entries_def)
  from upstep_ok [OF inv0, of 1024 env] assms(1) obtain fs where
    fs: "upstepPollfd env ?s0 1024 = Some fs" "fdset_inv fs" "entries fs = entries ?s0" "int (fs_limitSize fs) = 1024"
    by auto
  have ev: "events_of fs = Map.empty" using fs(3) by (simp add: events_of_def entries_def fs_block_def)
  have new_fs: "ox_fdset_new env = Some (Some fs)" using fs(1) assms(1) by (simp add: ox_fdset_new_def)
  obtain a where a: "ox_array_new env 1024 4 = Some (Some a)"
    using assms(1) by (simp add: ox_array_new_def malloc_def c_int_def)
  let ?st = "\<lparr>stk_array = a, stk_element_size = 4, stk_element_num = 1024, stk_front = 0, stk_num = 0\<rparr>"
  have new_st: "ox_stack_new env 1024 4 = Some (Some ?st)"
    using a assms(1) by (simp add: ox_stack_new_def malloc_def)
  have st: "stack_ready ?st"
    using array_new_ok [OF a] by (simp add: stack_ready_def stack_inv_def elements_def ring_def)
  let ?w = "\<lparr>mConnectingInfos = [], mFDSet = fs, mPollResult = ?st, wi_log = []\<rparr>"
  have "wi_ok env n req {#} ?w"
    using fs(2,4) ev assms(2) by (simp add: wi_ok_def table_inv_def)
  with st show ?thesis
    by (intro that [of ?w]) (simp_all add: ConnectorWorkInfo_new_def new_fs new_st)
qed

lemma run_procs_ok:
  assumes "wi_ok env n req A w" and "list_all (labelled req) (queued ps)" and "\<forall>k. malloc_ok env k"
    and "n < 2 ^ 28" and "kernel_ok n rc"
  shows "\<exists>w'. for_each (run_conn_proc env rc) (enumerate k ps) (isRun, w) = Some (isRun \<and> Stop_run \<notin> set ps, w') \<and>
    wi_ok env n req (A + image_mset (label req) (mset (queued ps))) w' \<and> mPollResult w' = mPollResult w"
  using assms(1,2)
proof (induction ps arbitrary: A k w isRun)
  case Nil
  then show ?case by simp
next
  case (Cons p ps)
  show ?case
  proof (cases p)
    case (Process_connect a)
    have "labelled req a" using Cons.prems(2) Process_connect by simp
    moreover have "sys_socket (rc_connect rc k) held = SOCKET_ERROR \<or> 0 \<le> sys_socket (rc_connect rc k) held \<and>
        sys_socket (rc_connect rc k) held < n \<and> sys_socket (rc_connect rc k) held \<notin> set held" for held
      using assms(5) unfolding kernel_ok_def Let_def by blast
    ultimately obtain w1 where w1: "processConnect env (rc_connect rc k) a w = Some w1"
      "wi_ok env n req (add_mset (label req a) A) w1" "mPollResult w1 = mPollResult w"
      using processConnect_ok [OF Cons.prems(1) _ assms(3,4)] by metis
    with Cons.IH [OF w1(2), of "Suc k" isRun] Cons.prems(2) Process_connect show ?thesis by simp
  next
    case Stop_run
    with Cons.IH [OF Cons.prems(1), of "Suc k" False] Cons.prems(2) show ?thesis by simp
  qed
qed

lemma round_ok:
  assumes "wi_ok env n req A w" and "stack_ready (mPollResult w)" and "list_all (labelled req) (queued ps)"
    and "\<forall>k. malloc_ok env k" and "n < 2 ^ 28" and "kernel_ok n rc"
  obtains w' where "runOnceCheckConnect env rc ps (isRun, w) = Some (isRun \<and> Stop_run \<notin> set ps, w')"
    and "wi_ok env n req (A + image_mset (label req) (mset (queued ps))) w'" and "stack_ready (mPollResult w')"
    and "\<forall>v \<in> set (mConnectingInfos w'). rc_now rc (fst v) - ci_startConnectTime (snd v) < ci_timeout (snd v)"
proof -
  let ?A = "A + image_mset (label req) (mset (queued ps))"
  obtain w1 where w1: "for_each (run_conn_proc env rc) (enumerate 0 ps) (isRun, w) = Some (isRun \<and> Stop_run \<notin> set ps, w1)"
    "wi_ok env n req ?A w1" "mPollResult w1 = mPollResult w"
    using run_procs_ok [OF assms(1,3-6)] by blast
  obtain w2 where w2: "checkConnectStatus env (rc_poll rc) (rc_getsockopt rc) 0 w1 = Some w2"
    "wi_ok env n req ?A w2" "stack_ready (mPollResult w2)"
    using checkConnectStatus_ok [OF w1(2) _ assms(4,5)] assms(2) w1(3) by metis
  obtain w3 where w3: "checkTimeout (rc_now rc) w2 = Some w3" "wi_ok env n req ?A w3" "mPollResult w3 = mPollResult w2"
    "\<forall>v \<in> set (mConnectingInfos w3). rc_now rc (fst v) - ci_startConnectTime (snd v) < ci_timeout (snd v)"
    using checkTimeout_ok [OF w2(2)] by metis
  with w1(1) w2 w3 show ?thesis by (intro that [of w3]) (simp_all add: runOnceCheckConnect_def)
qed

lemmas conn_views = books_def waiting_def conn_calls_def infos_def

lemma books_swap:
  assumes "l + a + (q + i) = (acc :: 'r multiset)" and "a + i + q = a' + i'"
  shows "l + a' + i' = acc"
proof -
  have "l + a' + i' = l + (a' + i')" by (simp add: add.assoc)
  also have "\<dots> = l + (a + i + q)" by (simp only: assms(2))
  also have "\<dots> = acc" using assms(1) by (simp add: ac_simps)
  finally show ?thesis .
qed

lemma turn_ok:
  assumes "ac_inv env n req c" and "cn_mThread c" and "\<not> cn_exited c" and "kernel_ok n rc"
    and "\<forall>k. malloc_ok env k" and "n < 2 ^ 28"
  shows "\<exists>c'. worker_turn env rc c = Some c' \<and> ac_inv env n req c' \<and> cn_procs c' = [] \<and>
    cn_joining c' = cn_joining c \<and> (if cn_mIsRun c = Some True then cn_mIsRun c' = Some (\<not> cn_joining c) else cn_exited c') \<and>
    (\<forall>v \<in> set (infos c'). rc_now rc (fst v) - ci_startConnectTime (snd v) < ci_timeout (snd v))"
proof -
  obtain w isRun where c: "cn_mWorkInfo c = Some w" "cn_mIsRun c = Some isRun" "work_ok env n req w"
    "list_all (labelled req) (queued (cn_procs c))" "books req c"
    "if isRun then cn_joining c \<longleftrightarrow> Stop_run \<in> set (cn_procs c) else cn_joining c \<and> cn_procs c = []"
    using assms(1-3) by (auto simp: ac_inv_def split: option.splits if_splits)
  then obtain A where A: "wi_ok env n req A w" "stack_ready (mPollResult w)" by (auto simp: work_ok_def)
  show ?thesis
  proof (cases isRun)
    case True
    from round_ok [OF A c(4) assms(5,6,4), of True] obtain w' where
      w': "runOnceCheckConnect env rc (cn_procs c) (True, w) = Some (Stop_run \<notin> set (cn_procs c), w')"
        "wi_ok env n req (A + image_mset (label req) (mset (queued (cn_procs c)))) w'" "stack_ready (mPollResult w')"
        "\<forall>v \<in> set (mConnectingInfos w'). rc_now rc (fst v) - ci_startConnectTime (snd v) < ci_timeout (snd v)" by auto
    let ?c = "c\<lparr>cn_procs := [], cn_mIsRun := Some (\<not> cn_joining c), cn_mWorkInfo := Some w'\<rparr>"
    have turn: "worker_turn env rc c = Some ?c" using True c(1,2,6) w'(1) by (simp add: worker_turn_def)
    have "books req ?c"
      using c(1,5) A(1) w'(2) by (auto simp: conn_views wi_ok_def intro: books_swap)
    moreover have "work_ok env n req w'" using w'(2,3) by (auto simp: work_ok_def)
    ultimately have "ac_inv env n req ?c" using assms(2,3) by (simp add: ac_inv_def)
    with turn True c(2) w'(4) show ?thesis by (auto simp: infos_def)
  next
    case False
    from causeAllFailed_ok [OF A(1)] obtain w' where w': "causeAllFailed w = Some w'" "wi_ok env n req A w'"
      "mConnectingInfos w' = []" "mPollResult w' = mPollResult w" .
    let ?c = "c\<lparr>cn_mWorkInfo := Some w', cn_exited := True\<rparr>"
    have turn: "worker_turn env rc c = Some ?c" using False c(1,2) w'(1) by (simp add: worker_turn_def)
    have "books req ?c"
      using c(1,5,6) A(1) w'(2,3) False by (simp add: conn_views wi_ok_def add.assoc)
    moreover have "work_ok env n req w'" using w'(2,4) A(2) by (auto simp: work_ok_def)
    ultimately have "ac_inv env n req ?c" using assms(2) False c(2,4,6) w'(3) by (simp add: ac_inv_def)
    with turn False c(2,6) w'(3) show ?thesis by (simp add: infos_def)
  qed
qed

lemma accepted_mono:
  assumes "ac_step env n c c'"
  shows "\<exists>as. cn_accepted c' = cn_accepted c @ as"
  using assms
  by cases (auto simp: asyncConnect_def startConnectorThread_def stopWorkerThread_begin_def
      stopWorkerThread_end_def worker_turn_def bind_eq_Some_conv split: if_splits)

lemma ac_step_inv:
  assumes "ac_step env n c c'" and "ac_inv env n req c" and "list_all (labelled req) (cn_accepted c')"
    and "\<forall>k. malloc_ok env k" and "0 \<le> n" and "n < 2 ^ 28"
  shows "ac_inv env n req c'"
  using assms(1)
proof cases
  case (ask addr)
  then have c': "c' = c\<lparr>cn_procs := cn_procs c @ [Process_connect addr], cn_accepted := cn_accepted c @ [addr]\<rparr>"
    "cn_mIsRun c = Some True"
    by (auto simp: asyncConnect_def bind_eq_Some_conv split: if_splits)
  with assms(2) obtain w where "cn_mWorkInfo c = Some w" by (auto simp: ac_inv_def split: option.splits)
  with c' assms(2,3) show ?thesis by (simp add: ac_inv_def conn_views)
next
  case start
  show ?thesis
  proof (cases "cn_mThread c")
    case True
    with start assms(2) show ?thesis by (simp add: startConnectorThread_def)
  next
    case False
    from new_ok [OF assms(4,5)] obtain w where w: "ConnectorWorkInfo_new env = Some w"
      "wi_ok env n req {#} w" "stack_ready (mPollResult w)" "mConnectingInfos w = []" "wi_log w = []" by metis
    moreover have "cn_mWorkInfo c = None" using False assms(2) by (auto simp: ac_inv_def split: option.splits)
    ultimately show ?thesis
      using start False assms(2) by (auto simp: ac_inv_def conn_views startConnectorThread_def work_ok_def)
  qed
next
  case stop
  show ?thesis
  proof (cases "cn_mThread c")
    case False
    with stop assms(2) show ?thesis by (simp add: stopWorkerThread_begin_def)
  next
    case True
    with assms(2) obtain w where "cn_mWorkInfo c = Some w" by (auto simp: ac_inv_def split: option.splits)
    with stop True assms(2) show ?thesis
      by (auto simp: stopWorkerThread_begin_def ac_inv_def conn_views)
  qed
next
  case (turn rc)
  with turn_ok [OF assms(2) turn(1-3) assms(4,6)] show ?thesis by auto
next
  case join
  with assms(2) obtain w where w: "cn_mWorkInfo c = Some w" "mConnectingInfos w = []" "cn_procs c = []"
    by (auto simp: ac_inv_def split: option.splits if_splits)
  from join assms(2) w show ?thesis by (simp add: stopWorkerThread_end_def ac_inv_def conn_views)
qed

lemma ac_reach_inv:
  assumes "ac_reach env n c" and "list_all (labelled req) (cn_accepted c)"
    and "\<forall>k. malloc_ok env k" and "0 \<le> n" and "n < 2 ^ 28"
  shows "ac_inv env n req c"
  using assms(1,2)
proof (induction rule: ac_reach.induct)
  case conn_init
  then show ?case by (simp add: AsyncConnector_new_def ac_inv_def conn_views)
next
  case (conn_next c c')
  from accepted_mono [OF conn_next(2)] conn_next(4) have "list_all (labelled req) (cn_accepted c)" by auto
  from ac_step_inv [OF conn_next(2) conn_next(3) [OF this] conn_next(4) assms(3-5)] show ?case .
qed

section \<open>Properties\<close>

text \<open>
  C7. However clients, the worker and whoever stops it take turns, the books of
  the connector balance. Each accepted request is in one place: answered by one
  call to one of its two callbacks, queued, or in the table; once the worker has
  stopped all are answered. Each descriptor opened was handed to a success
  callback or closed, once, or belongs to a connect in progress. The heap serves
  requests and descriptors stay below a limit of less than \<open>2 ^ 28\<close>; \<open>req\<close> names the
  request of a callback.
\<close>

theorem connector_answers_once:
  assumes "ac_reach env n c" and "list_all (labelled req) (cn_accepted c)"
    and "\<forall>k. malloc_ok env k" and "0 \<le> n" and "n < 2 ^ 28"
  shows "image_mset req (mset (answered (conn_calls c))) + waiting req c = image_mset (label req) (mset (cn_accepted c)) \<and>
    mset (opened (conn_calls c)) = mset (released (conn_calls c)) + image_mset fst (mset (infos c)) \<and>
    (cn_mThread c \<or> waiting req c = {#} \<and> infos c = [])"
  using ac_reach_inv [OF assms]
  by (auto simp: ac_inv_def conn_views split: option.splits)

text \<open>
  A turn of the worker thread never goes wrong: no access leaves the poll set
  or the result stack, the queue is emptied, no entry of the table that is past
  its deadline survives, and after a stop request the run flag falls with the
  next turn and the thread ends with the one after.
\<close>

theorem connector_turn_total:
  assumes "ac_reach env n c" and "list_all (labelled req) (cn_accepted c)"
    and "\<forall>k. malloc_ok env k" and "0 \<le> n" and "n < 2 ^ 28"
    and "cn_mThread c" and "\<not> cn_exited c" and "kernel_ok n rc"
  shows "\<exists>c'. worker_turn env rc c = Some c' \<and> ac_reach env n c' \<and> cn_procs c' = [] \<and>
    (\<forall>v \<in> set (infos c'). rc_now rc (fst v) - ci_startConnectTime (snd v) < ci_timeout (snd v)) \<and>
    (if cn_mIsRun c = Some True then cn_mIsRun c' = Some (\<not> cn_joining c) else cn_exited c')"
proof -
  from turn_ok [OF ac_reach_inv [OF assms(1-5)] assms(6-8,3,5)] obtain c' where
    c': "worker_turn env rc c = Some c'" "cn_procs c' = []"
      "if cn_mIsRun c = Some True then cn_mIsRun c' = Some (\<not> cn_joining c) else cn_exited c'"
      "\<forall>v \<in> set (infos c'). rc_now rc (fst v) - ci_startConnectTime (snd v) < ci_timeout (snd v)" by blast
  have "ac_reach env n c'" by (rule conn_next [OF assms(1) turn [OF assms(6-8) c'(1)]])
  with c' show ?thesis by blast
qed

text \<open>
  \<open>checkConnectStatus\<close> decides by the kernel's word: when \<open>poll\<close> reports events,
  exactly the entries whose descriptor became writable leave the table, in the
  order of their descriptors, with the success callback where \<open>getsockopt\<close> works
  and finds no error, and with the failure callback and a close otherwise; when
  it reports none or fails, nothing changes but the poll set.
\<close>

theorem connect_outcome:
  assumes "ac_reach env n c" and "list_all (labelled req) (cn_accepted c)"
    and "\<forall>k. malloc_ok env k" and "0 \<le> n" and "n < 2 ^ 28" and "cn_mWorkInfo c = Some w"
  shows "\<exists>r fs w'. ox_fdset_poll poll (mFDSet w) ms = Some (r, fs) \<and>
    checkConnectStatus env poll g ms w = Some w' \<and>
    mConnectingInfos w' = filter (\<lambda>v. r \<le> 0 \<or> fst v \<notin> ready_fds fs) (mConnectingInfos w) \<and>
    wi_log w' = wi_log w @ concat (map (connect_result (connected g))
      (filter (\<lambda>v. 0 < r \<and> fst v \<in> ready_fds fs) (mConnectingInfos w)))"
proof -
  from ac_reach_inv [OF assms(1-5)] assms(6) obtain A where "wi_ok env n req A w" "stack_ready (mPollResult w)"
    by (auto simp: ac_inv_def work_ok_def)
  from checkConnectStatus_ok [OF this assms(3,5)] show ?thesis by metis
qed

text \<open>A connector after \<open>stopWorkerThread\<close> must not be asked: the run flag is read through a null pointer.\<close>

lemma asyncConnect_after_stop:
  assumes "ca_SuccessCB addr \<noteq> None" and "ca_FailedCB addr \<noteq> None"
  shows "asyncConnect addr (stopWorkerThread_end c) = None"
  using assms by (simp add: asyncConnect_def stopWorkerThread_end_def)

section \<open>Witnesses\<close>

definition sample_request :: "nat AsyncConnectAddr" where
  "sample_request = \<lparr>ca_IP = ''127.0.0.1'', ca_Port = 80, ca_Timeout = 10, ca_SuccessCB = Some 7, ca_FailedCB = Some 7\<rparr>"

text \<open>A kernel that gives the least free descriptor, with connects under way and nothing to report.\<close>

definition sample_round :: round_calls where
  "sample_round = \<lparr>rc_connect = (\<lambda>_. \<lparr>sys_socket = (\<lambda>held. if 3 \<in> set held then -1 else 3),
     sys_connect = (\<lambda>_ _ _. (-1, EINPROGRESS)), sys_now = 0\<rparr>),
     rc_poll = (\<lambda>fds _. (0, 0, [])), rc_getsockopt = (\<lambda>_. (0, 0)), rc_now = (\<lambda>_. 5)\<rparr>"

lemma sample_kernel: "kernel_ok 1024 sample_round"
  by (simp add: kernel_ok_def sample_round_def SOCKET_ERROR_def)

lemma sample_labelled: "labelled id sample_request"
  by (simp add: labelled_def sample_request_def)

lemma full_heap_serves: "\<forall>k. malloc_ok full_heap k"
  by (simp add: full_heap_def)

lemma sample_asked:
  obtains c where "ac_reach full_heap 1024 c" and "cn_accepted c = [sample_request]" and "cn_mThread c"
    and "cn_mIsRun c = Some True" and "\<not> cn_exited c" and "\<not> cn_joining c" and "cn_mWorkInfo c \<noteq> None"
proof -
  from new_ok [OF full_heap_serves, of 1024 id] obtain w :: "nat ConnectorWorkInfo" where
    w: "ConnectorWorkInfo_new full_heap = Some w" by auto
  let ?c0 = "AsyncConnector_new :: nat AsyncConnector"
  let ?c1 = "?c0\<lparr>cn_mIsRun := Some True, cn_mWorkInfo := Some w, cn_procs := [], cn_mThread := True, cn_exited := False\<rparr>"
  let ?c2 = "?c1\<lparr>cn_procs := [Process_connect sample_request], cn_accepted := [sample_request]\<rparr>"
  have "ac_step full_heap 1024 ?c0 ?c1"
    by (rule start) (simp_all add: startConnectorThread_def w AsyncConnector_new_def)
  moreover have "ac_step full_heap 1024 ?c1 ?c2"
    by (rule ask [of _ sample_request]) (simp_all add: asyncConnect_def sample_request_def AsyncConnector_new_def)
  ultimately have "ac_reach full_heap 1024 ?c2" by (blast intro: ac_reach.intros)
  then show ?thesis by (rule that) (simp_all add: AsyncConnector_new_def)
qed

lemma sample_turn:
  assumes "ac_reach full_heap 1024 c" and "cn_accepted c = [sample_request]" and "cn_mThread c" and "\<not> cn_exited c"
  obtains c' where "ac_reach full_heap 1024 c'" and "cn_accepted c' = [sample_request]" and "cn_joining c' = cn_joining c"
    and "if cn_mIsRun c = Some True then cn_mIsRun c' = Some (\<not> cn_joining c) else cn_exited c'"
    and "cn_mThread c'" and "cn_mIsRun c = Some True \<Longrightarrow> \<not> cn_exited c'"
proof -
  have "ac_inv full_heap 1024 id c"
    using ac_reach_inv [OF assms(1) _ full_heap_serves, of id] sample_labelled assms(2) by simp
  from turn_ok [OF this assms(3,4) sample_kernel full_heap_serves] obtain c' where
    c': "worker_turn full_heap sample_round c = Some c'" "cn_joining c' = cn_joining c"
      "if cn_mIsRun c = Some True then cn_mIsRun c' = Some (\<not> cn_joining c) else cn_exited c'" by auto
  have "ac_reach full_heap 1024 c'"
    by (rule conn_next [OF assms(1) turn [OF assms(3,4) sample_kernel c'(1)]])
  moreover have "cn_accepted c' = cn_accepted c" "cn_mThread c' = cn_mThread c"
    "cn_mIsRun c = Some True \<Longrightarrow> cn_exited c' = cn_exited c"
    using c'(1) by (auto simp: worker_turn_def bind_eq_Some_conv split: if_splits)
  ultimately show ?thesis using that c'(2,3) assms(2-4) by simp
qed

theorem connector_answers_once_witness:
  "\<exists>c. ac_reach full_heap 1024 c \<and> cn_accepted c = [sample_request] \<and> \<not> cn_mThread c \<and>
     mset (answered (conn_calls c)) = {#7#} \<and> mset (opened (conn_calls c)) = mset (released (conn_calls c))"
proof -
  obtain c0 where c0: "ac_reach full_heap 1024 c0" "cn_accepted c0 = [sample_request]" "cn_mThread c0"
    "cn_mIsRun c0 = Some True" "\<not> cn_exited c0" "\<not> cn_joining c0" by (rule sample_asked)
  let ?c1 = "stopWorkerThread_begin c0"
  have "ac_reach full_heap 1024 ?c1" by (rule conn_next [OF c0(1) stop [OF c0(6)]])
  then obtain c2 where c2: "ac_reach full_heap 1024 c2" "cn_accepted c2 = [sample_request]" "cn_joining c2"
    "cn_mIsRun c2 = Some False" "cn_mThread c2" "\<not> cn_exited c2"
    by (rule sample_turn) (use c0 in \<open>simp_all add: stopWorkerThread_begin_def\<close>)
  from c2(1,2,5,6) obtain c3 where c3: "ac_reach full_heap 1024 c3" "cn_accepted c3 = [sample_request]"
    "cn_joining c3" "cn_exited c3" by (rule sample_turn) (use c2 in simp_all)
  let ?c = "stopWorkerThread_end c3"
  have "ac_reach full_heap 1024 ?c" by (rule conn_next [OF c3(1) join [OF c3(3,4)]])
  with connector_answers_once [OF this _ full_heap_serves, of id] c3(2) sample_labelled show ?thesis
    by (intro exI [of _ ?c]) (auto simp: stopWorkerThread_end_def label_def sample_request_def)
qed

theorem connector_turn_total_witness:
  "\<exists>c c'. ac_reach full_heap 1024 c \<and> cn_accepted c = [sample_request] \<and>
     worker_turn full_heap sample_round c = Some c' \<and> cn_procs c' = [] \<and> cn_mIsRun c' = Some True"
proof -
  obtain c where c: "ac_reach full_heap 1024 c" "cn_accepted c = [sample_request]" "cn_mThread c"
    "cn_mIsRun c = Some True" "\<not> cn_exited c" "\<not> cn_joining c" by (rule sample_asked)
  have "list_all (labelled id) (cn_accepted c)" using c(2) sample_labelled by simp
  from connector_turn_total [OF c(1) this full_heap_serves _ _ c(3,5) sample_kernel] c show ?thesis by auto
qed

theorem connect_outcome_witness:
  "\<exists>c w w'. ac_reach full_heap 1024 c \<and> cn_accepted c = [sample_request] \<and> cn_mWorkInfo c = Some w \<and>
     checkConnectStatus full_heap (\<lambda>_ _. (-1, S_EINTR, [])) (\<lambda>_. (0, 0)) 0 w = Some w' \<and>
     mConnectingInfos w' = mConnectingInfos w \<and> wi_log w' = wi_log w"
proof -
  obtain c where c: "ac_reach full_heap 1024 c" "cn_accepted c = [sample_request]" "cn_mWorkInfo c \<noteq> None"
    by (rule sample_asked)
  then obtain w where w: "cn_mWorkInfo c = Some w" by blast
  have "list_all (labelled id) (cn_accepted c)" using c(2) sample_labelled by simp
  from connect_outcome [OF c(1) this full_heap_serves _ _ w, of "\<lambda>_ _. (-1, S_EINTR, [])" 0 "\<lambda>_. (0, 0)"]
  obtain r fs w' where "ox_fdset_poll (\<lambda>_ _. (-1, S_EINTR, [])) (mFDSet w) 0 = Some (r, fs)"
    "checkConnectStatus full_heap (\<lambda>_ _. (-1, S_EINTR, [])) (\<lambda>_. (0, 0)) 0 w = Some w'"
    "mConnectingInfos w' = filter (\<lambda>v. r \<le> 0 \<or> fst v \<notin> ready_fds fs) (mConnectingInfos w)"
    "wi_log w' = wi_log w @ concat (map (connect_result (connected (\<lambda>_. (0, 0))))
      (filter (\<lambda>v. 0 < r \<and> fst v \<in> ready_fds fs) (mConnectingInfos w)))" by auto
  moreover from this(1) have "r = 0" by (auto simp: ox_fdset_poll_def bind_eq_Some_conv)
  ultimately show ?thesis using c(1,2) w by auto
qed

end
