(* ===== verification/Sha1.thy ===== *)
theory Sha1
  imports Brynet_Prelude
begin

text \<open>
  The hash class \<open>CSHA1\<close> of \<open>utils/SHA1.cpp\<close> on a little-endian machine: the
  transformation on a 16-word workspace that is overwritten in a ring, the
  buffered \<open>Update\<close> and the padding of \<open>Final\<close>. The reference is the standard's
  definition: an 80-word schedule and the padded message cut into blocks.
\<close>

section \<open>The transformation\<close>

type_synonym word32 = "32 word"

definition ROL32 :: "word32 \<Rightarrow> nat \<Rightarrow> word32" where
  "ROL32 v n = push_bit n v OR drop_bit (32 - n) v"

text \<open>\<open>m_block\<close> seen through the union: four bytes are a word, low byte first.\<close>

definition le_word :: "byte list \<Rightarrow> nat \<Rightarrow> word32" where
  "le_word bs i =
     ucast (bs ! (4 * i)) OR push_bit 8 (ucast (bs ! (4 * i + 1))) OR
     push_bit 16 (ucast (bs ! (4 * i + 2))) OR push_bit 24 (ucast (bs ! (4 * i + 3)))"

definition load_block :: "byte list \<Rightarrow> word32 list" where
  "load_block buffer = map (le_word buffer) [0..<16]"

text \<open>The macros assign to the workspace; their value is what they assign.\<close>

definition SHABLK0 :: "word32 list \<Rightarrow> nat \<Rightarrow> word32" where
  "SHABLK0 l i = (ROL32 (l ! i) 24 AND 0xFF00FF00) OR (ROL32 (l ! i) 8 AND 0x00FF00FF)"

definition SHABLK :: "word32 list \<Rightarrow> nat \<Rightarrow> word32" where
  "SHABLK l i =
     ROL32 (l ! ((i + 13) mod 16) XOR l ! ((i + 8) mod 16) XOR l ! ((i + 2) mod 16) XOR l ! (i mod 16)) 1"

text \<open>The function and the constant of the round macros \<open>_R0\<close> to \<open>_R4\<close>.\<close>

definition round_fun :: "nat \<Rightarrow> word32 \<Rightarrow> word32 \<Rightarrow> word32 \<Rightarrow> word32" where
  "round_fun i w x y =
     (if i < 20 then (w AND (x XOR y)) XOR y
      else if i < 40 then w XOR x XOR y
      else if i < 60 then ((w OR x) AND y) OR (w AND x)
      else w XOR x XOR y)"

definition round_const :: "nat \<Rightarrow> word32" where
  "round_const i =
     (if i < 20 then 0x5A827999 else if i < 40 then 0x6ED9EBA1
      else if i < 60 then 0x8F1BBCDC else 0xCA62C1D6)"

text \<open>
  Round \<open>i\<close> with the roles \<open>(v, w, x, y, z)\<close>. The unrolled code calls the next
  round with the roles \<open>(z, v, w, x, y)\<close>, so the result is given in that order;
  after 80 rounds the variables are back in their places.
\<close>

type_synonym sha_vars = "word32 \<times> word32 \<times> word32 \<times> word32 \<times> word32"

definition sha_round :: "nat \<Rightarrow> sha_vars \<times> word32 list \<Rightarrow> sha_vars \<times> word32 list" where
  "sha_round i st =
     (case st of ((v, w, x, y, z), l) \<Rightarrow>
        let blk = (if i < 16 then SHABLK0 l i else SHABLK l i);
            l' = l[i mod 16 := blk];
            z' = z + (round_fun i w x y + blk + round_const i + ROL32 v 5);
            w' = ROL32 w 30
        in ((z', v, w', x, y), l'))"

definition add_vars :: "sha_vars \<Rightarrow> sha_vars \<Rightarrow> sha_vars" where
  "add_vars s t =
     (case s of (a, b, c, d, e) \<Rightarrow> case t of (a', b', c', d', e') \<Rightarrow>
        (a + a', b + b', c + c', d + d', e + e'))"

definition Transform :: "sha_vars \<Rightarrow> byte list \<Rightarrow> sha_vars" where
  "Transform state buffer =
     add_vars state (fst (fold sha_round [0..<80] (state, load_block buffer)))"

section \<open>The object\<close>

record csha1 =
  m_state :: sha_vars
  m_count0 :: word32
  m_count1 :: word32
  m_buffer :: "byte list"
  m_digest :: "byte list"

definition Reset :: "csha1 \<Rightarrow> csha1" where
  "Reset s = s\<lparr>m_state := (0x67452301, 0xEFCDAB89, 0x98BADCFE, 0x10325476, 0xC3D2E1F0),
     m_count0 := 0, m_count1 := 0\<rparr>"

text \<open>\<open>CSHA1()\<close>: the arrays of the object are not initialised.\<close>

definition CSHA1_new :: "csha1 \<Rightarrow> csha1" where
  "CSHA1_new mem = Reset mem"

text \<open>The loop of \<open>Update\<close> over whole blocks; it gives the state and the index it stops at.\<close>

function update_loop :: "sha_vars \<Rightarrow> byte list \<Rightarrow> nat \<Rightarrow> sha_vars \<times> nat" where
  "update_loop st data i =
     (if i + 63 < length data
      then update_loop (Transform st (take 64 (drop i data))) data (i + 64)
      else (st, i))"
  by pat_completeness auto
termination
  by (relation "measure (\<lambda>(st, data, i). length data - i)") auto

declare update_loop.simps [simp del]

text \<open>
  \<open>memcpy\<close> into \<open>m_buffer\<close> behind its 64 bytes is \<open>None\<close>; the sum \<open>j + len\<close> is a
  32-bit one.
\<close>

definition Update :: "byte list \<Rightarrow> csha1 \<Rightarrow> csha1 option" where
  "Update data s =
     (let len = of_nat (length data) :: word32;
          j = drop_bit 3 (m_count0 s) AND 63;
          c0 = m_count0 s + push_bit 3 len;
          c1 = (if c0 < push_bit 3 len then m_count1 s + 1 else m_count1 s) + drop_bit 29 len;
          s = s\<lparr>m_count0 := c0, m_count1 := c1\<rparr>
      in if j + len > 63
         then do {
           let i = 64 - unat j;
           buf \<leftarrow> mem_write (m_buffer s) (Some (unat j)) (take i data);
           let (st, i) = update_loop (Transform (m_state s) buf) data i;
           buf \<leftarrow> mem_write buf (Some 0) (drop i data);
           Some (s\<lparr>m_state := st, m_buffer := buf\<rparr>)
         }
         else do {
           buf \<leftarrow> mem_write (m_buffer s) (Some (unat j)) data;
           Some (s\<lparr>m_buffer := buf\<rparr>)
         })"

text \<open>The bytes of a word, high byte first.\<close>

definition word_bytes :: "word32 \<Rightarrow> byte list" where
  "word_bytes w = [ucast (drop_bit 24 w), ucast (drop_bit 16 w), ucast (drop_bit 8 w), ucast w]"

text \<open>The padding loop of \<open>Final\<close>, with fuel; 64 rounds are always enough.\<close>

fun pad_loop :: "nat \<Rightarrow> csha1 \<Rightarrow> csha1 option" where
  "pad_loop 0 s = None"
| "pad_loop (Suc k) s =
     (if m_count0 s AND 504 \<noteq> 448 then do { s' \<leftarrow> Update [0] s; pad_loop k s' } else Some s)"

definition digest_of :: "sha_vars \<Rightarrow> byte list" where
  "digest_of st =
     (case st of (a, b, c, d, e) \<Rightarrow>
        word_bytes a @ word_bytes b @ word_bytes c @ word_bytes d @ word_bytes e)"

definition Final :: "csha1 \<Rightarrow> csha1 option" where
  "Final s =
     do {
       let finalcount = word_bytes (m_count1 s) @ word_bytes (m_count0 s);
       s \<leftarrow> Update [0x80] s;
       s \<leftarrow> pad_loop 64 s;
       s \<leftarrow> Update finalcount s;
       let zero = (0, 0, 0, 0, 0);
       Some (s\<lparr>m_digest := digest_of (m_state s), m_buffer := replicate 64 0, m_count0 := 0, m_count1 := 0,
               m_state := Transform zero (replicate 64 0)\<rparr>)
     }"

definition GetHash :: "csha1 \<Rightarrow> byte list" where
  "GetHash s = take 20 (m_digest s)"

section \<open>The standard\<close>

definition be_word :: "byte list \<Rightarrow> nat \<Rightarrow> word32" where
  "be_word bs i =
     push_bit 24 (ucast (bs ! (4 * i))) OR push_bit 16 (ucast (bs ! (4 * i + 1))) OR
     push_bit 8 (ucast (bs ! (4 * i + 2))) OR ucast (bs ! (4 * i + 3))"

fun sched :: "byte list \<Rightarrow> nat \<Rightarrow> word32" where
  "sched blk t =
     (if t < 16 then be_word blk t
      else word_rotl 1 (sched blk (t - 3) XOR sched blk (t - 8) XOR sched blk (t - 14) XOR sched blk (t - 16)))"

declare sched.simps [simp del]

definition fips_fun :: "nat \<Rightarrow> word32 \<Rightarrow> word32 \<Rightarrow> word32 \<Rightarrow> word32" where
  "fips_fun t x y z =
     (if t < 20 then (x AND y) XOR (NOT x AND z)
      else if t < 40 then x XOR y XOR z
      else if t < 60 then (x AND y) XOR (x AND z) XOR (y AND z)
      else x XOR y XOR z)"

definition fips_round :: "byte list \<Rightarrow> nat \<Rightarrow> sha_vars \<Rightarrow> sha_vars" where
  "fips_round blk t vs =
     (case vs of (a, b, c, d, e) \<Rightarrow>
        (word_rotl 5 a + fips_fun t b c d + e + round_const t + sched blk t, a, word_rotl 30 b, c, d))"

definition compress :: "sha_vars \<Rightarrow> byte list \<Rightarrow> sha_vars" where
  "compress h blk = add_vars h (fold (fips_round blk) [0..<80] h)"

text \<open>Hashing the whole blocks of a byte string, and what is left behind them.\<close>

function absorb :: "sha_vars \<Rightarrow> byte list \<Rightarrow> sha_vars" where
  "absorb h xs = (if length xs < 64 then h else absorb (compress h (take 64 xs)) (drop 64 xs))"
  by pat_completeness auto
termination
  by (relation "measure (\<lambda>(h, xs). length xs)") auto

declare absorb.simps [simp del]

definition leftover :: "byte list \<Rightarrow> byte list" where
  "leftover xs = drop (64 * (length xs div 64)) xs"

definition sha_iv :: sha_vars where
  "sha_iv = (0x67452301, 0xEFCDAB89, 0x98BADCFE, 0x10325476, 0xC3D2E1F0)"

definition pad_zeros :: "nat \<Rightarrow> nat" where
  "pad_zeros n = (119 - n mod 64) mod 64"

definition sha_pad :: "byte list \<Rightarrow> byte list" where
  "sha_pad msg =
     msg @ [0x80] @ replicate (pad_zeros (length msg)) 0 @
     word_bytes (of_nat (8 * length msg div 2 ^ 32)) @ word_bytes (of_nat (8 * length msg))"

definition sha1_ref :: "byte list \<Rightarrow> byte list" where
  "sha1_ref msg = digest_of (absorb sha_iv (sha_pad msg))"

section \<open>Workspace and schedule\<close>

lemma ROL32_rotl:
  assumes "0 < n" and "n < 32"
  shows "ROL32 v n = word_rotl n v"
proof (rule bit_word_eqI)
  fix k assume "k < LENGTH(32)"
  then have k: "k < 32" by simp
  show "bit (ROL32 v n) k = bit (word_rotl n v) k"
  proof (cases "n \<le> k")
    case True
    then have "(k + 32 - n) mod 32 = k - n" using k by (simp add: mod_if)
    moreover have "\<not> bit v (32 - n + k)" using True assms by (auto dest: bit_imp_le_length)
    ultimately show ?thesis using True k by (simp add: ROL32_def bit_simps)
  next
    case False
    then have "(k + 32 - n) mod 32 = 32 - n + k" using k assms by simp
    then show ?thesis using False k assms by (simp add: ROL32_def bit_simps)
  qed
qed

text \<open>Swapping the bytes of a word, one byte position at a time.\<close>

lemma bit_byte_out: "8 \<le> n \<Longrightarrow> \<not> bit (b :: byte) n"
  by (auto dest: bit_imp_le_length)

lemma swap_bytes:
  fixes b0 b1 b2 b3 :: byte
  defines "l \<equiv> ucast b0 OR push_bit 8 (ucast b1) OR push_bit 16 (ucast b2) OR push_bit 24 (ucast b3) :: word32"
  shows "(ROL32 l 24 AND 0xFF00FF00) OR (ROL32 l 8 AND 0x00FF00FF) =
    push_bit 24 (ucast b0) OR push_bit 16 (ucast b1) OR push_bit 8 (ucast b2) OR ucast b3"
proof (rule bit_word_eqI)
  fix k assume "k < LENGTH(32)"
  then have "k = 0 \<or> k = 1 \<or> k = 2 \<or> k = 3 \<or> k = 4 \<or> k = 5 \<or> k = 6 \<or> k = 7 \<or> k = 8 \<or> k = 9 \<or>
    k = 10 \<or> k = 11 \<or> k = 12 \<or> k = 13 \<or> k = 14 \<or> k = 15 \<or> k = 16 \<or> k = 17 \<or> k = 18 \<or> k = 19 \<or>
    k = 20 \<or> k = 21 \<or> k = 22 \<or> k = 23 \<or> k = 24 \<or> k = 25 \<or> k = 26 \<or> k = 27 \<or> k = 28 \<or> k = 29 \<or>
    k = 30 \<or> k = 31"
    by simp presburger
  then show "bit ((ROL32 l 24 AND 0xFF00FF00) OR (ROL32 l 8 AND 0x00FF00FF)) k =
    bit (push_bit 24 (ucast b0) OR push_bit 16 (ucast b1) OR push_bit 8 (ucast b2) OR ucast b3 :: word32) k"
    by (elim disjE; simp add: ROL32_def l_def bit_simps bit_byte_out)
qed

lemma SHABLK0_be: "i < 16 \<Longrightarrow> l ! i = le_word blk i \<Longrightarrow> SHABLK0 l i = be_word blk i"
  by (simp add: SHABLK0_def le_word_def be_word_def swap_bytes)

text \<open>After \<open>t\<close> rounds the workspace holds the last sixteen words of the schedule.\<close>

definition ring_holds :: "byte list \<Rightarrow> nat \<Rightarrow> word32 list \<Rightarrow> bool" where
  "ring_holds blk t l \<longleftrightarrow> length l = 16 \<and>
     (\<forall>s. s < t \<longrightarrow> t \<le> s + 16 \<longrightarrow> l ! (s mod 16) = sched blk s) \<and>
     (\<forall>i. t \<le> i \<longrightarrow> i < 16 \<longrightarrow> l ! i = le_word blk i)"

lemma ring_step:
  assumes "ring_holds blk t l"
  shows "(if t < 16 then SHABLK0 l t else SHABLK l t) = sched blk t"
    and "ring_holds blk (Suc t) (l[t mod 16 := sched blk t])"
proof -
  note R = assms [unfolded ring_holds_def]
  show "(if t < 16 then SHABLK0 l t else SHABLK l t) = sched blk t"
  proof (cases "t < 16")
    case True
    with R SHABLK0_be [of t l blk] show ?thesis by (simp add: sched.simps [of blk t])
  next
    case False
    then obtain u where u: "t = u + 16" by (metis add.commute le_Suc_ex not_less)
    have m: "(t + 13) mod 16 = (t - 3) mod 16" "(t + 8) mod 16 = (t - 8) mod 16"
      "(t + 2) mod 16 = (t - 14) mod 16" "t mod 16 = (t - 16) mod 16"
      using mod_add_self2 [of "u + 13" 16] mod_add_self2 [of "u + 8" 16] mod_add_self2 [of "u + 2" 16]
      by (simp_all add: u add.commute add.left_commute)
    have "l ! ((t - 3) mod 16) = sched blk (t - 3)" "l ! ((t - 8) mod 16) = sched blk (t - 8)"
      "l ! ((t - 14) mod 16) = sched blk (t - 14)" "l ! ((t - 16) mod 16) = sched blk (t - 16)"
      using R False by auto
    then have "SHABLK l t = ROL32 (sched blk (t - 3) XOR sched blk (t - 8) XOR sched blk (t - 14) XOR
        sched blk (t - 16)) 1"
      unfolding SHABLK_def m by (simp only:)
    with False show ?thesis by (simp add: ROL32_rotl sched.simps [of blk t])
  qed
  have other: "s mod 16 \<noteq> t mod 16" if "s < t" "t < s + 16" for s
  proof
    assume "s mod 16 = t mod 16"
    then have "16 dvd t - s" using that(1) by (metis less_imp_le mod_eq_dvd_iff_nat)
    with that show False by (auto dest: dvd_imp_le)
  qed
  show "ring_holds blk (Suc t) (l[t mod 16 := sched blk t])"
    unfolding ring_holds_def
  proof (intro conjI allI impI)
    show "length (l[t mod 16 := sched blk t]) = 16" using R by simp
  next
    fix s assume s: "s < Suc t" "Suc t \<le> s + 16"
    show "l[t mod 16 := sched blk t] ! (s mod 16) = sched blk s"
    proof (cases "s = t")
      case True
      then show ?thesis using R by simp
    next
      case False
      with s other [of s] R show ?thesis by simp
    qed
  next
    fix i assume "Suc t \<le> i" "i < 16"
    then show "l[t mod 16 := sched blk t] ! i = le_word blk i" using R by simp
  qed
qed

lemma round_fun_fips: "round_fun t x y z = fips_fun t x y z"
proof -
  have "(x AND (y XOR z)) XOR z = (x AND y) XOR (NOT x AND z)"
    by (rule bit_word_eqI) (auto simp: bit_simps)
  moreover have "((x OR y) AND z) OR (x AND y) = (x AND y) XOR (x AND z) XOR (y AND z)"
    by (rule bit_word_eqI) (auto simp: bit_simps)
  ultimately show ?thesis by (simp add: round_fun_def fips_fun_def)
qed

lemma round_sum: "z + (f + b + k + r) = r + f + z + k + (b :: word32)"
  by (simp add: ac_simps)

lemma rounds_fips:
  assumes "ring_holds blk 0 l"
  shows "\<exists>l'. fold sha_round [0..<t] (vs, l) = (fold (fips_round blk) [0..<t] vs, l') \<and> ring_holds blk t l'"
proof (induction t)
  case 0
  with assms show ?case by simp
next
  case (Suc t)
  then obtain l' where L: "fold sha_round [0..<t] (vs, l) = (fold (fips_round blk) [0..<t] vs, l')"
    "ring_holds blk t l'" by blast
  obtain a b c d e where V: "fold (fips_round blk) [0..<t] vs = (a, b, c, d, e)"
    by (metis prod.collapse)
  have "fold sha_round [0..<Suc t] (vs, l) = sha_round t ((a, b, c, d, e), l')"
    using L(1) V by simp
  also have "\<dots> = (fips_round blk t (a, b, c, d, e), l'[t mod 16 := sched blk t])"
    using ring_step(1) [OF L(2)]
    by (simp add: sha_round_def fips_round_def round_fun_fips ROL32_rotl Let_def round_sum)
  finally show ?case using ring_step(2) [OF L(2)] V by simp
qed

lemma Transform_compress: "Transform = compress"
proof (intro ext)
  fix st blk
  have "ring_holds blk 0 (load_block blk)" by (simp add: ring_holds_def load_block_def)
  from rounds_fips [OF this, of 80 st] show "Transform st blk = compress st blk"
    by (auto simp: Transform_def compress_def)
qed

section \<open>Buffering\<close>

lemma absorb_short: "length xs < 64 \<Longrightarrow> absorb h xs = h"
  by (simp add: absorb.simps)

lemma absorb_block: "length b = 64 \<Longrightarrow> absorb h (b @ xs) = absorb (compress h b) xs"
  by (simp add: absorb.simps [of h "b @ xs"])

lemma leftover_short: "length xs < 64 \<Longrightarrow> leftover xs = xs"
  by (simp add: leftover_def)

lemma leftover_block: "length b = 64 \<Longrightarrow> leftover (b @ xs) = leftover xs"
  using div_add_self1 [of 64 "length xs"] by (simp add: leftover_def)

lemma length_leftover: "length (leftover xs) = length xs mod 64"
  by (simp add: leftover_def minus_mult_div_eq_mod)

lemma absorb_append: "absorb h (xs @ ys) = absorb (absorb h xs) (leftover xs @ ys)"
proof (induction h xs rule: absorb.induct)
  case (1 h xs)
  show ?case
  proof (cases "length xs < 64")
    case True
    then show ?thesis by (simp add: absorb_short leftover_short)
  next
    case False
    then have b: "length (take 64 xs) = 64" by simp
    have "xs = take 64 xs @ drop 64 xs" by simp
    with False "1.IH" absorb_block [OF b] leftover_block [OF b] show ?thesis by (metis append_assoc)
  qed
qed

lemma leftover_append: "leftover (xs @ ys) = leftover (leftover xs @ ys)"
proof (induction "h :: sha_vars" xs rule: absorb.induct)
  case (1 h xs)
  show ?case
  proof (cases "length xs < 64")
    case True
    then show ?thesis by (simp add: leftover_short)
  next
    case False
    then have b: "length (take 64 xs) = 64" by simp
    have "xs = take 64 xs @ drop 64 xs" by simp
    with False "1.IH" leftover_block [OF b] show ?thesis by (metis append_assoc)
  qed
qed

lemma update_loop_absorb:
  "i \<le> length data \<Longrightarrow> update_loop st data i =
     (absorb st (drop i data), length data - length (leftover (drop i data)))"
proof (induction st data i rule: update_loop.induct)
  case (1 st data i)
  show ?case
  proof (cases "i + 63 < length data")
    case True
    define b where "b = take 64 (drop i data)"
    have b: "length b = 64" "drop i data = b @ drop (i + 64) data"
      using True by (simp_all add: b_def) (metis add.commute append_take_drop_id drop_drop)
    with True 1 show ?thesis
      by (simp add: update_loop.simps [of st data i] Transform_compress absorb_block leftover_block
          flip: b_def)
  next
    case False
    with "1.prems" show ?thesis
      by (simp add: update_loop.simps [of st data i] absorb_short leftover_short)
  qed
qed

section \<open>The bit count\<close>

definition counts :: "nat \<Rightarrow> csha1 \<Rightarrow> bool" where
  "counts n s \<longleftrightarrow> unat (m_count1 s) * 2 ^ 32 + unat (m_count0 s) = 8 * n"

lemma counts_low: "counts n s \<Longrightarrow> unat (m_count0 s) = 8 * n mod 2 ^ 32"
  using unat_bound [of "m_count0 s"] by (simp add: counts_def) (metis mod_less mod_mult_self3)

lemma counts_index:
  assumes "counts n s"
  shows "unat (drop_bit 3 (m_count0 s) AND 63) = n mod 64"
proof -
  have "drop_bit 3 (m_count0 s) AND 63 = take_bit 6 (drop_bit 3 (m_count0 s))"
    by (simp add: take_bit_eq_mask mask_eq_exp_minus_1)
  then have "unat (drop_bit 3 (m_count0 s) AND 63) = unat (m_count0 s) div 8 mod 64"
    by (simp add: take_bit_eq_mod drop_bit_eq_div unat_div unat_mod)
  also have "\<dots> = n mod 64"
  proof -
    have "8 * n mod 2 ^ 32 = 8 * (n mod 2 ^ 29)" using mult_mod_right [of 8 n "2 ^ 29"] by simp
    then have "8 * n mod 2 ^ 32 div 8 = n mod 2 ^ 29" by simp
    then show ?thesis unfolding counts_low [OF assms] by (simp add: mod_mod_cancel)
  qed
  finally show ?thesis .
qed

lemma counts_pad:
  assumes "counts n s"
  shows "m_count0 s AND 504 = 448 \<longleftrightarrow> n mod 64 = 56"
proof -
  have m: "(504 :: word32) = push_bit 3 (mask 6)" by (simp add: mask_eq_exp_minus_1)
  have m': "(63 :: word32) = mask 6" by (simp add: mask_eq_exp_minus_1)
  have "m_count0 s AND 504 = push_bit 3 (drop_bit 3 (m_count0 s) AND 63)"
    unfolding m m' by (rule bit_word_eqI) (auto simp: bit_simps)
  then have "unat (m_count0 s AND 504) = 8 * unat (drop_bit 3 (m_count0 s) AND 63)"
    using counts_index [OF assms] by (simp add: push_bit_eq_mult unat_word_ariths)
  then have "unat (m_count0 s AND 504) = 8 * (n mod 64)" unfolding counts_index [OF assms] .
  then show ?thesis by (auto simp: word_unat_eq_iff)
qed

text \<open>The 32-bit additions of \<open>Update\<close> carry from the low word into the high one.\<close>

lemma add_carry:
  fixes a p :: word32
  shows "unat (a + p) + (if a + p < p then 2 ^ 32 else 0) = unat a + unat p"
proof (cases "unat a + unat p < 2 ^ 32")
  case True
  then have "unat (a + p) = unat a + unat p" by (simp add: unat_word_ariths)
  then show ?thesis by (simp add: word_less_nat_alt)
next
  case False
  then have "unat (a + p) = unat a + unat p - 2 ^ 32"
    using unat_bound [of a] unat_bound [of p] by (simp add: unat_word_ariths mod_if)
  with False unat_bound [of a] show ?thesis by (auto simp: word_less_nat_alt)
qed

lemma counts_add:
  assumes "counts n s" and "m < 2 ^ 32" and "n + m < 2 ^ 61"
    and "c0 = m_count0 s + push_bit 3 (of_nat m)"
    and "c1 = (if c0 < push_bit 3 (of_nat m) then m_count1 s + 1 else m_count1 s) + drop_bit 29 (of_nat m)"
    and "m_count0 s' = c0" and "m_count1 s' = c1"
  shows "counts (n + m) s'"
proof -
  let ?p = "push_bit 3 (of_nat m) :: word32" and ?q = "drop_bit 29 (of_nat m) :: word32"
  have m: "unat (of_nat m :: word32) = m" using assms(2) by (simp add: unat_of_nat take_bit_nat_eq_self)
  have p: "unat ?p = 8 * m mod 2 ^ 32" by (simp add: push_bit_eq_mult unat_word_ariths m mult.commute)
  have q: "unat ?q = 8 * m div 2 ^ 32"
  proof -
    have "unat ?q = m div 2 ^ 29" by (simp add: drop_bit_eq_div unat_div m)
    also have "\<dots> = 8 * m div 2 ^ 32" using div_mult_mult1 [of 8 m "2 ^ 29"] by simp
    finally show ?thesis .
  qed
  define k :: nat where "k = (if c0 < ?p then 1 else 0)"
  have low: "unat c0 + k * 2 ^ 32 = unat (m_count0 s) + 8 * m mod 2 ^ 32"
    using add_carry [of "m_count0 s" ?p] unfolding p assms(4) [symmetric]
    by (simp add: k_def split: if_splits)
  have sum: "(unat (m_count1 s) + k + 8 * m div 2 ^ 32) * 2 ^ 32 + unat c0 = 8 * (n + m)"
    using low assms(1) div_mult_mod_eq [of "8 * m" "2 ^ 32"] by (simp add: counts_def algebra_simps)
  have "(unat (m_count1 s) + k + 8 * m div 2 ^ 32) * 2 ^ 32 \<le> 8 * (n + m)"
    by (subst sum [symmetric]) (rule le_add1)
  also have "\<dots> < 2 ^ 32 * 2 ^ 32" using assms(3) by simp
  finally have "unat (m_count1 s) + k + 8 * m div 2 ^ 32 < 2 ^ 32" by (simp only: mult_less_cancel2)
  then have "unat c1 = unat (m_count1 s) + k + 8 * m div 2 ^ 32"
    using q by (simp add: assms(5) k_def unat_word_ariths split: if_splits)
  with sum assms(6,7) show ?thesis by (simp add: counts_def)
qed

section \<open>Update and Final\<close>

definition sha_inv :: "byte list \<Rightarrow> csha1 \<Rightarrow> bool" where
  "sha_inv msg s \<longleftrightarrow> counts (length msg) s \<and> length (m_buffer s) = 64 \<and>
     m_state s = absorb sha_iv msg \<and> take (length msg mod 64) (m_buffer s) = leftover msg"

lemma Update_ok:
  assumes "sha_inv msg s" and "length data + 64 \<le> 2 ^ 32" and "length msg + length data < 2 ^ 61"
  obtains s' where "Update data s = Some s'" and "sha_inv (msg @ data) s'"
proof -
  note I = assms(1) [unfolded sha_inv_def]
  define len where "len = (of_nat (length data) :: word32)"
  define j where "j = drop_bit 3 (m_count0 s) AND 63"
  define c0 where "c0 = m_count0 s + push_bit 3 len"
  define c1 where "c1 = (if c0 < push_bit 3 len then m_count1 s + 1 else m_count1 s) + drop_bit 29 len"
  have j: "unat j = length msg mod 64" unfolding j_def using counts_index I by blast
  have len: "unat len = length data"
    unfolding len_def using assms(2) by (simp add: unat_of_nat take_bit_nat_eq_self)
  have jl: "j + len > 63 \<longleftrightarrow> 64 \<le> unat j + length data"
  proof -
    have "unat j < 64" using j by simp
    then have "unat (j + len) = unat j + length data"
      using assms(2) len by (simp add: unat_word_ariths)
    then show ?thesis by (auto simp: word_less_nat_alt)
  qed
  have count: "counts (length (msg @ data)) s'" if "m_count0 s' = c0" "m_count1 s' = c1" for s' :: csha1
    unfolding length_append
    by (rule counts_add [of _ s _ c0 c1])
      (use I assms(2,3) that in \<open>simp_all add: c0_def c1_def len_def\<close>)
  let ?rest = "leftover msg"
  have rest: "length ?rest = unat j" "take (unat j) (m_buffer s) = ?rest"
    using I j by (simp_all add: length_leftover)
  have U: "Update data s = (let s = s\<lparr>m_count0 := c0, m_count1 := c1\<rparr> in
      if j + len > 63
      then do {
        let i = 64 - unat j;
        buf \<leftarrow> mem_write (m_buffer s) (Some (unat j)) (take i data);
        let (st, i) = update_loop (Transform (m_state s) buf) data i;
        buf \<leftarrow> mem_write buf (Some 0) (drop i data);
        Some (s\<lparr>m_state := st, m_buffer := buf\<rparr>)
      }
      else do {
        buf \<leftarrow> mem_write (m_buffer s) (Some (unat j)) data;
        Some (s\<lparr>m_buffer := buf\<rparr>)
      })"
    unfolding Update_def by (simp add: Let_def j_def c0_def c1_def len_def)
  show ?thesis
  proof (cases "64 \<le> unat j + length data")
    case False
    let ?buf = "?rest @ data @ drop (unat j + length data) (m_buffer s)"
    let ?s = "s\<lparr>m_count0 := c0, m_count1 := c1, m_buffer := ?buf\<rparr>"
    have "mem_write (m_buffer s) (Some (unat j)) data = Some ?buf"
      using False I rest by (simp add: mem_write_def)
    then have "Update data s = Some ?s" using False jl by (simp add: U Let_def)
    moreover have short: "length (?rest @ data) < 64" using False rest by simp
    then have "absorb sha_iv (msg @ data) = m_state s" "leftover (msg @ data) = ?rest @ data"
      using I absorb_append [of sha_iv msg data] leftover_append [of msg data]
      by (simp_all add: absorb_short leftover_short)
    then have "sha_inv (msg @ data) ?s"
      using count [of ?s] False I rest length_leftover [of "msg @ data"]
      by (simp add: sha_inv_def)
    ultimately show ?thesis by (rule that)
  next
    case True
    define i where "i = 64 - unat j"
    define b where "b = ?rest @ take i data"
    have i: "unat j < 64" "i \<le> length data" "unat j + i = 64" using True j by (auto simp: i_def)
    have b: "length b = 64" "?rest @ data = b @ drop i data"
      using i rest by (simp_all add: b_def)
    define h where "h = compress (m_state s) b"
    have loop: "update_loop h data i = (absorb h (drop i data), length data - length (leftover (drop i data)))"
      by (rule update_loop_absorb [OF i(2)])
    define i' where "i' = length data - length (leftover (drop i data))"
    have i': "drop i' data = leftover (drop i data)"
    proof -
      let ?m = "64 * (length (drop i data) div 64) + i"
      have "?m \<le> length data" using i(2) by simp
      moreover have l: "leftover (drop i data) = drop ?m data"
        by (simp add: leftover_def add.commute)
      ultimately have "i' = ?m" unfolding i'_def l by simp
      with l show ?thesis by simp
    qed
    let ?left = "leftover (drop i data)"
    let ?buf = "?left @ drop (length ?left) b"
    let ?s = "s\<lparr>m_count0 := c0, m_count1 := c1, m_state := absorb h (drop i data), m_buffer := ?buf\<rparr>"
    have short: "length ?left < 64" by (simp add: length_leftover)
    have w: "mem_write (m_buffer s) (Some (unat j)) (take i data) = Some b"
      using I rest i by (simp add: mem_write_def b_def)
    have w': "mem_write b (Some 0) (drop i' data) = Some ?buf"
      using short b(1) by (simp add: mem_write_def i')
    have "Update data s = Some ?s"
      using True jl w w' loop by (simp add: U Let_def h_def Transform_compress flip: i_def i'_def)
    moreover have "absorb sha_iv (msg @ data) = absorb h (drop i data)"
      "leftover (msg @ data) = ?left"
      using I absorb_append [of sha_iv msg data] leftover_append [of msg data] b
      by (simp_all add: absorb_block leftover_block h_def)
    then have "sha_inv (msg @ data) ?s"
      using count [of ?s] short b(1) length_leftover [of "msg @ data"] by (simp add: sha_inv_def)
    ultimately show ?thesis by (rule that)
  qed
qed

lemma pad_distance:
  assumes "r < (64 :: nat)"
  shows "(120 - r) mod 64 = (if r \<le> 56 then 56 - r else 120 - r)"
    and "(119 - r) mod 64 = (if r \<le> 55 then 55 - r else 119 - r)"
proof -
  show "(120 - r) mod 64 = (if r \<le> 56 then 56 - r else 120 - r)"
  proof (cases "r \<le> 56")
    case True
    then have "120 - r = 64 + (56 - r)" by simp
    then have "(120 - r) mod 64 = (56 - r) mod 64" by (simp only: mod_add_self1)
    with True show ?thesis by simp
  qed (use assms in simp)
  show "(119 - r) mod 64 = (if r \<le> 55 then 55 - r else 119 - r)"
  proof (cases "r \<le> 55")
    case True
    then have "119 - r = 64 + (55 - r)" by simp
    then have "(119 - r) mod 64 = (55 - r) mod 64" by (simp only: mod_add_self1)
    also have "(55 - r) mod 64 = 55 - r" by (rule mod_less) linarith
    finally show ?thesis using True by (simp only: if_True)
  qed (use assms in simp)
qed

lemma next_distance:
  fixes n :: nat
  shows "n mod 64 \<noteq> 56 \<Longrightarrow> (120 - n mod 64) mod 64 = Suc ((120 - Suc n mod 64) mod 64)"
    and "(120 - Suc n mod 64) mod 64 = (119 - n mod 64) mod 64"
proof -
  define r where "r = n mod 64"
  have r: "r < 64" by (simp add: r_def)
  have s: "Suc n mod 64 = (if r = 63 then 0 else Suc r)" by (simp add: mod_Suc r_def)
  then have s64: "Suc n mod 64 < 64" by simp
  have e: "(120 - Suc n mod 64) mod 64 = (if r = 63 then 56 else if r \<le> 55 then 55 - r else 119 - r)"
    using pad_distance(1) [OF s64] s r by (auto split: if_splits)
  show "(120 - Suc n mod 64) mod 64 = (119 - n mod 64) mod 64"
    unfolding e r_def [symmetric] using pad_distance(2) [OF r] by auto
  show "(120 - n mod 64) mod 64 = Suc ((120 - Suc n mod 64) mod 64)" if "n mod 64 \<noteq> 56"
    unfolding e r_def [symmetric] using pad_distance(1) [OF r] r that [folded r_def] by auto
qed

lemma pad_loop_ok:
  assumes "sha_inv msg s" and "length msg + k < 2 ^ 61" and "(120 - length msg mod 64) mod 64 < k"
  shows "\<exists>s'. pad_loop k s = Some s' \<and>
    sha_inv (msg @ replicate ((120 - length msg mod 64) mod 64) 0) s'"
  using assms
proof (induction k arbitrary: msg s)
  case 0
  then show ?case by simp
next
  case (Suc k)
  have C: "m_count0 s AND 504 = 448 \<longleftrightarrow> length msg mod 64 = 56"
    using counts_pad Suc.prems(1) by (simp add: sha_inv_def)
  show ?case
  proof (cases "length msg mod 64 = 56")
    case True
    with C Suc.prems(1) show ?thesis by simp
  next
    case False
    let ?z = "(120 - length msg mod 64) mod 64" and ?z' = "(120 - length (msg @ [0]) mod 64) mod 64"
    have z: "?z = Suc ?z'" using next_distance(1) [OF False] by simp
    obtain s1 where s1: "Update [0] s = Some s1" "sha_inv (msg @ [0]) s1"
      using Update_ok [OF Suc.prems(1), of "[0]"] Suc.prems(2) by auto
    from Suc.IH [OF s1(2)] Suc.prems(2,3) z obtain s' where
      "pad_loop k s1 = Some s'" "sha_inv ((msg @ [0]) @ replicate ?z' 0) s'" by auto
    with C False s1(1) z show ?thesis by simp
  qed
qed

lemma Final_ok:
  assumes "sha_inv msg s" and "length msg + 128 < 2 ^ 61"
  shows "\<exists>s'. Final s = Some s' \<and> m_digest s' = sha1_ref msg"
proof -
  let ?n = "length msg"
  have cnt: "unat (m_count1 s) * 2 ^ 32 + unat (m_count0 s) = 8 * ?n"
    using assms(1) by (simp add: sha_inv_def counts_def)
  have c0: "m_count0 s = of_nat (8 * ?n)"
  proof -
    have "(2 ^ 32 :: word32) = 0" by simp
    then have "(of_nat (unat (m_count1 s) * 2 ^ 32 + unat (m_count0 s)) :: word32) = m_count0 s"
      by (simp only: of_nat_add of_nat_mult of_nat_power of_nat_numeral mult_zero_right add_0
          of_nat_unat ucast_id)
    then show ?thesis unfolding cnt by simp
  qed
  have "unat (m_count1 s) = 8 * ?n div 2 ^ 32"
    unfolding cnt [symmetric] using unat_bound [of "m_count0 s"] by simp
  then have c1: "m_count1 s = of_nat (8 * ?n div 2 ^ 32)" by (metis of_nat_unat ucast_id)
  define fc where "fc = word_bytes (m_count1 s) @ word_bytes (m_count0 s)"
  have fc: "length fc = 8" by (simp add: fc_def word_bytes_def)
  obtain s1 where s1: "Update [0x80] s = Some s1" "sha_inv (msg @ [0x80]) s1"
    using Update_ok [OF assms(1), of "[0x80]"] assms(2) by auto
  let ?z = "(120 - length (msg @ [0x80 :: byte]) mod 64) mod 64"
  have z: "?z = pad_zeros ?n" using next_distance(2) [of ?n] by (simp add: pad_zeros_def)
  obtain s2 where s2: "pad_loop 64 s1 = Some s2" "sha_inv ((msg @ [0x80]) @ replicate ?z 0) s2"
    using pad_loop_ok [OF s1(2), of 64] assms(2) by auto
  have "length ((msg @ [0x80]) @ replicate ?z (0 :: byte)) + length fc < 2 ^ 61"
    using assms(2) fc z by (simp add: pad_zeros_def)
  then obtain s3 where s3: "Update fc s2 = Some s3"
    "sha_inv (((msg @ [0x80]) @ replicate ?z 0) @ fc) s3"
    using Update_ok [OF s2(2), of fc] fc by auto
  have "((msg @ [0x80]) @ replicate ?z 0) @ fc = sha_pad msg"
    unfolding z sha_pad_def fc_def c0 c1 by simp
  with s3(2) have "m_state s3 = absorb sha_iv (sha_pad msg)" by (simp add: sha_inv_def)
  with s1(1) s2(1) s3(1) show ?thesis by (simp add: Final_def Let_def sha1_ref_def fc_def)
qed

section \<open>Hashing a message in pieces\<close>

fun update_all :: "byte list list \<Rightarrow> csha1 \<Rightarrow> csha1 option" where
  "update_all [] s = Some s"
| "update_all (d # ds) s = do { s' \<leftarrow> Update d s; update_all ds s' }"

lemma update_all_ok:
  assumes "sha_inv msg s" and "list_all (\<lambda>d. length d + 64 \<le> 2 ^ 32) ds"
    and "length msg + length (concat ds) < 2 ^ 61"
  shows "\<exists>s'. update_all ds s = Some s' \<and> sha_inv (msg @ concat ds) s'"
  using assms
proof (induction ds arbitrary: msg s)
  case Nil
  then show ?case by simp
next
  case (Cons d ds)
  then obtain s1 where s1: "Update d s = Some s1" "sha_inv (msg @ d) s1"
    using Update_ok [OF Cons.prems(1), of d] by auto
  from Cons.IH [OF s1(2)] Cons.prems(2,3) s1(1) show ?case by auto
qed

lemma sha_new_inv: "length (m_buffer mem) = 64 \<Longrightarrow> sha_inv [] (CSHA1_new mem)"
  by (simp add: sha_inv_def CSHA1_new_def Reset_def counts_def absorb_short leftover_short sha_iv_def)

lemma digest_length: "length (digest_of st) = 20"
  by (cases st) (simp add: digest_of_def word_bytes_def)

text \<open>
  C19. Feeding a message to \<open>Update\<close> in any pieces and calling \<open>Final\<close> gives the
  digest of the standard: the ring of sixteen words computes the 80-word
  schedule, the rewritten round functions are the standard's, the partial block
  is kept across calls, the 64-bit length is carried over two words, and the
  padding loop ends. No copy leaves the 64-byte buffer. A piece is shorter than
  \<open>2 ^ 32 - 63\<close> bytes and the message than \<open>2 ^ 61 - 128\<close>.
\<close>

theorem sha1_computes_digest:
  assumes "length (m_buffer mem) = 64" and "list_all (\<lambda>d. length d + 64 \<le> 2 ^ 32) ds"
    and "length (concat ds) + 128 < 2 ^ 61"
  shows "\<exists>s s'. update_all ds (CSHA1_new mem) = Some s \<and> Final s = Some s' \<and>
    GetHash s' = sha1_ref (concat ds)"
proof -
  obtain s where s: "update_all ds (CSHA1_new mem) = Some s" "sha_inv (concat ds) s"
    using update_all_ok [OF sha_new_inv [OF assms(1)] assms(2)] assms(3) by auto
  from Final_ok [OF s(2) assms(3)] s(1) show ?thesis
    by (auto simp: GetHash_def sha1_ref_def digest_length)
qed

definition blank_sha1 :: csha1 where
  "blank_sha1 = \<lparr>m_state = (0, 0, 0, 0, 0), m_count0 = 0, m_count1 = 0, m_buffer = replicate 64 0, m_digest = []\<rparr>"

theorem sha1_computes_digest_witness:
  "\<exists>s s'. update_all [[97], [98, 99]] (CSHA1_new blank_sha1) = Some s \<and> Final s = Some s' \<and>
     GetHash s' = sha1_ref [97, 98, 99]"
  using sha1_computes_digest [of blank_sha1 "[[97], [98, 99]]"] by (simp add: blank_sha1_def)

end
