(* ===== verification/Md5.thy ===== *)
theory Md5
  imports Sha1
begin

text \<open>
  The MD5 digest of \<open>utils/md5calc.cpp\<close>: 64 written-out calls on four variables
  and the padding of a C string. The reference is the definition of RFC 1321 by
  step numbers, over the padded message cut into blocks. The constants are those
  of the table; that they are the sines of the RFC is not proved here.
\<close>

section \<open>The code\<close>

definition md5_T :: "word32 list" where
  "md5_T =
    [0xd76aa478, 0xe8c7b756, 0x242070db, 0xc1bdceee,
     0xf57c0faf, 0x4787c62a, 0xa8304613, 0xfd469501,
     0x698098d8, 0x8b44f7af, 0xffff5bb1, 0x895cd7be,
     0x6b901122, 0xfd987193, 0xa679438e, 0x49b40821,
     0xf61e2562, 0xc040b340, 0x265e5a51, 0xe9b6c7aa,
     0xd62f105d, 0x2441453, 0xd8a1e681, 0xe7d3fbc8,
     0x21e1cde6, 0xc33707d6, 0xf4d50d87, 0x455a14ed,
     0xa9e3e905, 0xfcefa3f8, 0x676f02d9, 0x8d2a4c8a,
     0xfffa3942, 0x8771f681, 0x6d9d6122, 0xfde5380c,
     0xa4beea44, 0x4bdecfa9, 0xf6bb4b60, 0xbebfbc70,
     0x289b7ec6, 0xeaa127fa, 0xd4ef3085, 0x4881d05,
     0xd9d4d039, 0xe6db99e5, 0x1fa27cf8, 0xc4ac5665,
     0xf4292244, 0x432aff97, 0xab9423a7, 0xfc93a039,
     0x655b59c3, 0x8f0ccc92, 0xffeff47d, 0x85845dd1,
     0x6fa87e4f, 0xfe2ce6e0, 0xa3014314, 0x4e0811a1,
     0xf7537e82, 0xbd3af235, 0x2ad7d2bb, 0xeb86d391]"

definition ROTATE_LEFT :: "word32 \<Rightarrow> nat \<Rightarrow> word32" where
  "ROTATE_LEFT x n = push_bit n x OR drop_bit (32 - n) x"

definition MD5_F :: "word32 \<Rightarrow> word32 \<Rightarrow> word32 \<Rightarrow> word32" where
  "MD5_F X Y Z = (X AND Y) OR (NOT X AND Z)"

definition MD5_G :: "word32 \<Rightarrow> word32 \<Rightarrow> word32 \<Rightarrow> word32" where
  "MD5_G X Y Z = (X AND Z) OR (Y AND NOT Z)"

definition MD5_H :: "word32 \<Rightarrow> word32 \<Rightarrow> word32 \<Rightarrow> word32" where
  "MD5_H X Y Z = X XOR Y XOR Z"

definition MD5_I :: "word32 \<Rightarrow> word32 \<Rightarrow> word32 \<Rightarrow> word32" where
  "MD5_I X Y Z = Y XOR (X OR NOT Z)"

definition Round :: "word32 list \<Rightarrow> word32 \<Rightarrow> word32 \<Rightarrow> word32 \<Rightarrow> nat \<Rightarrow> nat \<Rightarrow> nat \<Rightarrow> word32" where
  "Round pX a b FGHI k s i = b + ROTATE_LEFT (a + FGHI + pX ! k + md5_T ! i) s"

text \<open>
  The local variables \<open>A\<close>, \<open>B\<close>, \<open>C\<close> and \<open>D\<close> of \<open>MD5_Round_Calculate\<close>, and a call to one of
  \<open>Round1\<close> to \<open>Round4\<close>: the variable whose address is passed, the three variables
  passed by value, and the numbers \<open>k\<close>, \<open>s\<close>, \<open>i\<close>.
\<close>

datatype md5_var = VA | VB | VC | VD

datatype md5_call =
    Round1 md5_var md5_var md5_var md5_var nat nat nat
  | Round2 md5_var md5_var md5_var md5_var nat nat nat
  | Round3 md5_var md5_var md5_var md5_var nat nat nat
  | Round4 md5_var md5_var md5_var md5_var nat nat nat

record md5_vars =
  md5_A :: word32
  md5_B :: word32
  md5_C :: word32
  md5_D :: word32

fun var_get :: "md5_var \<Rightarrow> md5_vars \<Rightarrow> word32" where
  "var_get VA m = md5_A m"
| "var_get VB m = md5_B m"
| "var_get VC m = md5_C m"
| "var_get VD m = md5_D m"

fun var_set :: "md5_var \<Rightarrow> word32 \<Rightarrow> md5_vars \<Rightarrow> md5_vars" where
  "var_set VA w m = m\<lparr>md5_A := w\<rparr>"
| "var_set VB w m = m\<lparr>md5_B := w\<rparr>"
| "var_set VC w m = m\<lparr>md5_C := w\<rparr>"
| "var_set VD w m = m\<lparr>md5_D := w\<rparr>"

fun exec_call :: "word32 list \<Rightarrow> md5_call \<Rightarrow> md5_vars \<Rightarrow> md5_vars" where
  "exec_call pX (Round1 a b c d k s i) m =
     var_set a (Round pX (var_get a m) (var_get b m) (MD5_F (var_get b m) (var_get c m) (var_get d m)) k s i) m"
| "exec_call pX (Round2 a b c d k s i) m =
     var_set a (Round pX (var_get a m) (var_get b m) (MD5_G (var_get b m) (var_get c m) (var_get d m)) k s i) m"
| "exec_call pX (Round3 a b c d k s i) m =
     var_set a (Round pX (var_get a m) (var_get b m) (MD5_H (var_get b m) (var_get c m) (var_get d m)) k s i) m"
| "exec_call pX (Round4 a b c d k s i) m =
     var_set a (Round pX (var_get a m) (var_get b m) (MD5_I (var_get b m) (var_get c m) (var_get d m)) k s i) m"

definition md5_calls :: "md5_call list" where
  "md5_calls =
    [Round1 VA VB VC VD 0 7 0, Round1 VD VA VB VC 1 12 1,
     Round1 VC VD VA VB 2 17 2, Round1 VB VC VD VA 3 22 3,
     Round1 VA VB VC VD 4 7 4, Round1 VD VA VB VC 5 12 5,
     Round1 VC VD VA VB 6 17 6, Round1 VB VC VD VA 7 22 7,
     Round1 VA VB VC VD 8 7 8, Round1 VD VA VB VC 9 12 9,
     Round1 VC VD VA VB 10 17 10, Round1 VB VC VD VA 11 22 11,
     Round1 VA VB VC VD 12 7 12, Round1 VD VA VB VC 13 12 13,
     Round1 VC VD VA VB 14 17 14, Round1 VB VC VD VA 15 22 15,
     Round2 VA VB VC VD 1 5 16, Round2 VD VA VB VC 6 9 17,
     Round2 VC VD VA VB 11 14 18, Round2 VB VC VD VA 0 20 19,
     Round2 VA VB VC VD 5 5 20, Round2 VD VA VB VC 10 9 21,
     Round2 VC VD VA VB 15 14 22, Round2 VB VC VD VA 4 20 23,
     Round2 VA VB VC VD 9 5 24, Round2 VD VA VB VC 14 9 25,
     Round2 VC VD VA VB 3 14 26, Round2 VB VC VD VA 8 20 27,
     Round2 VA VB VC VD 13 5 28, Round2 VD VA VB VC 2 9 29,
     Round2 VC VD VA VB 7 14 30, Round2 VB VC VD VA 12 20 31,
     Round3 VA VB VC VD 5 4 32, Round3 VD VA VB VC 8 11 33,
     Round3 VC VD VA VB 11 16 34, Round3 VB VC VD VA 14 23 35,
     Round3 VA VB VC VD 1 4 36, Round3 VD VA VB VC 4 11 37,
     Round3 VC VD VA VB 7 16 38, Round3 VB VC VD VA 10 23 39,
     Round3 VA VB VC VD 13 4 40, Round3 VD VA VB VC 0 11 41,
     Round3 VC VD VA VB 3 16 42, Round3 VB VC VD VA 6 23 43,
     Round3 VA VB VC VD 9 4 44, Round3 VD VA VB VC 12 11 45,
     Round3 VC VD VA VB 15 16 46, Round3 VB VC VD VA 2 23 47,
     Round4 VA VB VC VD 0 6 48, Round4 VD VA VB VC 7 10 49,
     Round4 VC VD VA VB 14 15 50, Round4 VB VC VD VA 5 21 51,
     Round4 VA VB VC VD 12 6 52, Round4 VD VA VB VC 3 10 53,
     Round4 VC VD VA VB 10 15 54, Round4 VB VC VD VA 1 21 55,
     Round4 VA VB VC VD 8 6 56, Round4 VD VA VB VC 15 10 57,
     Round4 VC VD VA VB 6 15 58, Round4 VB VC VD VA 13 21 59,
     Round4 VA VB VC VD 4 6 60, Round4 VD VA VB VC 11 10 61,
     Round4 VC VD VA VB 2 15 62, Round4 VB VC VD VA 9 21 63]"

text \<open>\<open>X\<close>: the block as sixteen words, low byte first.\<close>

definition md5_block_words :: "byte list \<Rightarrow> word32 list" where
  "md5_block_words block =
     map (\<lambda>k. let j = 4 * k in
            ucast (block ! j) OR push_bit 8 (ucast (block ! (j + 1))) OR
            push_bit 16 (ucast (block ! (j + 2))) OR push_bit 24 (ucast (block ! (j + 3)))) [0..<16]"

definition MD5_Round_Calculate :: "byte list \<Rightarrow> md5_vars \<Rightarrow> md5_vars" where
  "MD5_Round_Calculate block m =
     (let m' = fold (exec_call (md5_block_words block)) md5_calls m
      in \<lparr>md5_A = md5_A m' + md5_A m, md5_B = md5_B m' + md5_B m,
          md5_C = md5_C m' + md5_C m, md5_D = md5_D m' + md5_D m\<rparr>)"

text \<open>The loop of step 1-2; \<open>i\<close> is an \<open>int\<close>, \<open>pstring\<close> the rest of the string.\<close>

function md5_blocks_loop :: "int \<Rightarrow> byte list \<Rightarrow> md5_vars \<Rightarrow> byte list \<times> md5_vars" where
  "md5_blocks_loop i pstring m =
     (if 64 \<le> i then md5_blocks_loop (i - 64) (drop 64 pstring) (MD5_Round_Calculate (take 64 pstring) m)
      else (pstring, m))"
  by pat_completeness auto
termination
  by (relation "measure (\<lambda>(i, _, _). nat i)") auto

declare md5_blocks_loop.simps [simp del]

definition c_strlen :: "byte list \<Rightarrow> nat" where
  "c_strlen s = length (takeWhile (\<lambda>b. b \<noteq> 0) s)"

definition c_strncpy :: "byte list \<Rightarrow> nat \<Rightarrow> byte list" where
  "c_strncpy s n = take n (takeWhile (\<lambda>b. b \<noteq> 0) s @ replicate n 0)"

text \<open>The bytes of an \<open>unsigned int\<close> in memory, low byte first.\<close>

definition uint_bytes :: "word32 \<Rightarrow> byte list" where
  "uint_bytes w = [ucast w, ucast (drop_bit 8 w), ucast (drop_bit 16 w), ucast (drop_bit 24 w)]"

definition MD5_UINT_MAX :: word32 where "MD5_UINT_MAX = 4294967295"

text \<open>Step 2: the low and the high word of the bit length.\<close>

definition md5_length_bytes :: "word32 \<Rightarrow> byte list" where
  "md5_length_bytes string_byte_len =
     uint_bytes (string_byte_len * 8) @
     (if MD5_UINT_MAX div 8 < string_byte_len then uint_bytes ((string_byte_len - MD5_UINT_MAX div 8) * 8)
      else replicate 4 0)"

definition md5_start :: md5_vars where
  "md5_start = \<lparr>md5_A = 0x67452301, md5_B = 0xefcdab89, md5_C = 0x98badcfe, md5_D = 0x10325476\<rparr>"

definition MD5_String2binary :: "byte list \<Rightarrow> byte list" where
  "MD5_String2binary string =
     (let string_byte_len = of_nat (c_strlen string) :: word32;
          (pstring, m) = md5_blocks_loop (sint string_byte_len) string md5_start;
          copy_len = unat (string_byte_len mod 64);
          padding = c_strncpy pstring copy_len @ replicate (64 - copy_len) 0;
          padding = padding[copy_len := padding ! copy_len OR 0x80];
          (padding, m) =
            (if 56 \<le> copy_len
             then (replicate 56 0 @ drop 56 padding, MD5_Round_Calculate padding m)
             else (padding, m));
          padding = take 56 padding @ md5_length_bytes string_byte_len;
          m = MD5_Round_Calculate padding m
      in uint_bytes (md5_A m) @ uint_bytes (md5_B m) @ uint_bytes (md5_C m) @ uint_bytes (md5_D m))"

definition MD5_Binary :: "byte list \<Rightarrow> byte list" where
  "MD5_Binary string = MD5_String2binary string"

text \<open>\<open>sprintf\<close> with \<open>%02x\<close>.\<close>

definition hex_char :: "nat \<Rightarrow> char" where
  "hex_char n = ''0123456789abcdef'' ! n"

definition hex02 :: "byte \<Rightarrow> string" where
  "hex02 b = [hex_char (unat b div 16), hex_char (unat b mod 16)]"

definition MD5_String :: "byte list \<Rightarrow> string" where
  "MD5_String string = concat (map (\<lambda>i. hex02 (MD5_String2binary string ! i)) [0..<16])"

text \<open>\<open>rand\<close> is a parameter: the value of its \<open>i\<close>-th call, which is not negative.\<close>

definition MD5_Salt :: "(nat \<Rightarrow> nat) \<Rightarrow> nat \<Rightarrow> byte list" where
  "MD5_Salt rand len = map (\<lambda>i. of_nat (1 + rand i mod 255)) [0..<len]"

section \<open>The definition of RFC 1321\<close>

type_synonym md5_state = "word32 \<times> word32 \<times> word32 \<times> word32"

definition rfc_fun :: "nat \<Rightarrow> word32 \<Rightarrow> word32 \<Rightarrow> word32 \<Rightarrow> word32" where
  "rfc_fun i x y z =
     (if i < 16 then (x AND y) OR (NOT x AND z)
      else if i < 32 then (x AND z) OR (y AND NOT z)
      else if i < 48 then x XOR y XOR z
      else y XOR (x OR NOT z))"

definition rfc_index :: "nat \<Rightarrow> nat" where
  "rfc_index i =
     (if i < 16 then i else if i < 32 then (5 * i + 1) mod 16
      else if i < 48 then (3 * i + 5) mod 16 else 7 * i mod 16)"

definition rfc_shift :: "nat \<Rightarrow> nat" where
  "rfc_shift i = [[7, 12, 17, 22], [5, 9, 14, 20], [4, 11, 16, 23], [6, 10, 15, 21]] ! (i div 16) ! (i mod 4)"

definition rfc_step :: "word32 list \<Rightarrow> nat \<Rightarrow> md5_state \<Rightarrow> md5_state" where
  "rfc_step X i st =
     (case st of (a, b, c, d) \<Rightarrow>
        (d, b + word_rotl (rfc_shift i) (a + rfc_fun i b c d + X ! rfc_index i + md5_T ! i), b, c))"

definition md5_compress :: "md5_state \<Rightarrow> byte list \<Rightarrow> md5_state" where
  "md5_compress st block =
     (case st of (a, b, c, d) \<Rightarrow>
        case fold (rfc_step (md5_block_words block)) [0..<64] st of (a', b', c', d') \<Rightarrow>
          (a + a', b + b', c + c', d + d'))"

fun chunks :: "nat \<Rightarrow> byte list \<Rightarrow> byte list list" where
  "chunks 0 xs = []"
| "chunks (Suc k) xs = take 64 xs # chunks k (drop 64 xs)"

text \<open>A one bit, zeros up to eight bytes before the end of a block, and the bit length.\<close>

definition md5_pad :: "byte list \<Rightarrow> byte list" where
  "md5_pad msg =
     msg @ [0x80] @ replicate ((119 - length msg mod 64) mod 64) 0 @
     map (\<lambda>i. of_nat (8 * length msg div 256 ^ i)) [0..<8]"

definition md5_ref :: "byte list \<Rightarrow> byte list" where
  "md5_ref msg =
     (case foldl md5_compress (0x67452301, 0xefcdab89, 0x98badcfe, 0x10325476)
             (chunks (length (md5_pad msg) div 64) (md5_pad msg)) of
        (a, b, c, d) \<Rightarrow>
          concat (map (\<lambda>w. map (\<lambda>i. of_nat (unat w div 256 ^ i)) [0..<4]) [a, b, c, d]))"

section \<open>The written-out calls\<close>

definition role :: "nat \<Rightarrow> md5_var" where
  "role i = (if i mod 4 = 0 then VA else if i mod 4 = 1 then VD else if i mod 4 = 2 then VC else VB)"

text \<open>What the call of step \<open>i\<close> should be.\<close>

definition call_of :: "nat \<Rightarrow> md5_call" where
  "call_of i =
     (if i < 16 then Round1 else if i < 32 then Round2 else if i < 48 then Round3 else Round4)
       (role i) (role (i + 3)) (role (i + 2)) (role (i + 1)) (rfc_index i) (rfc_shift i) i"

lemma md5_calls_steps: "md5_calls = map call_of [0..<64]"
  by code_simp

text \<open>The four variables in the order in which step \<open>i\<close> finds them.\<close>

definition roles :: "nat \<Rightarrow> md5_vars \<Rightarrow> md5_state" where
  "roles i m = (var_get (role i) m, var_get (role (i + 3)) m, var_get (role (i + 2)) m, var_get (role (i + 1)) m)"

lemma shift_ok: "i < 64 \<Longrightarrow> 0 < rfc_shift i \<and> rfc_shift i < 32"
proof -
  assume "i < 64"
  then have "i div 16 < 4" "i mod 4 < 4" by auto
  then have "i div 16 \<in> {0, 1, 2, 3}" "i mod 4 \<in> {0, 1, 2, 3}" by auto
  then show ?thesis unfolding rfc_shift_def by (elim insertE emptyE; simp)
qed

lemma ROTATE_LEFT_rotl: "0 < n \<Longrightarrow> n < 32 \<Longrightarrow> ROTATE_LEFT v n = word_rotl n v"
  using ROL32_rotl [of n v] by (simp add: ROTATE_LEFT_def ROL32_def)

lemma var_get_set [simp]: "var_get v (var_set u w m) = (if u = v then w else var_get v m)"
  by (cases u; cases v) simp_all

lemma role_distinct:
  "role (i + 1) \<noteq> role i" "role (i + 2) \<noteq> role i" "role (i + 3) \<noteq> role i" "role (i + 4) = role i"
proof -
  have "i mod 4 < 4" by simp
  then have "i mod 4 \<in> {0, 1, 2, 3}" by auto
  moreover define r where "r = i mod 4"
  moreover have "(i + k) mod 4 = (r + k) mod 4" for k by (simp add: r_def mod_simps)
  ultimately show "role (i + 1) \<noteq> role i" "role (i + 2) \<noteq> role i" "role (i + 3) \<noteq> role i" "role (i + 4) = role i"
    unfolding role_def by (auto simp only: insert_iff empty_iff) simp_all
qed

lemma roles_Suc:
  "roles (Suc i) m = (var_get (role (i + 1)) m, var_get (role i) m, var_get (role (i + 3)) m, var_get (role (i + 2)) m)"
proof -
  have "Suc i = i + 1" "Suc i + 1 = i + 2" "Suc i + 2 = i + 3" "Suc i + 3 = i + 4" by simp_all
  then show ?thesis by (simp only: roles_def role_distinct(4))
qed

lemma call_step:
  assumes "i < 64"
  shows "roles (Suc i) (exec_call X (call_of i) m) = rfc_step X i (roles i m)"
proof -
  note rot = ROTATE_LEFT_rotl [OF conjunct1 [OF shift_ok [OF assms]] conjunct2 [OF shift_ok [OF assms]]]
  define r0 r1 r2 r3 where "r0 = role i" and "r1 = role (i + 1)" and "r2 = role (i + 2)" and "r3 = role (i + 3)"
  note r = r0_def [symmetric] r1_def [symmetric] r2_def [symmetric] r3_def [symmetric]
  have d: "r1 \<noteq> r0" "r2 \<noteq> r0" "r3 \<noteq> r0" using role_distinct [of i] by (simp_all only: r0_def r1_def r2_def r3_def not_False_eq_True)
  have "exec_call X (call_of i) m =
      var_set r0 (Round X (var_get r0 m) (var_get r3 m) (rfc_fun i (var_get r3 m) (var_get r2 m) (var_get r1 m))
        (rfc_index i) (rfc_shift i) i) m"
    unfolding call_of_def r by (simp add: rfc_fun_def MD5_F_def MD5_G_def MD5_H_def MD5_I_def)
  moreover have "roles (Suc i) m' = (var_get r1 m', var_get r0 m', var_get r3 m', var_get r2 m')" for m'
    by (simp only: roles_Suc r)
  moreover have "roles i m = (var_get r0 m, var_get r3 m, var_get r2 m, var_get r1 m)" by (simp only: roles_def r)
  ultimately show ?thesis using d by (auto simp: rfc_step_def Round_def rot)
qed

lemma calls_steps:
  "n \<le> 64 \<Longrightarrow> roles n (fold (exec_call X) (map call_of [0..<n]) m) = fold (rfc_step X) [0..<n] (roles 0 m)"
  by (induction n) (simp_all add: call_step)

definition vars_state :: "md5_vars \<Rightarrow> md5_state" where
  "vars_state m = (md5_A m, md5_B m, md5_C m, md5_D m)"

lemma Round_Calculate_compress:
  "vars_state (MD5_Round_Calculate block m) = md5_compress (vars_state m) block"
proof -
  have "vars_state (fold (exec_call (md5_block_words block)) md5_calls m) =
      fold (rfc_step (md5_block_words block)) [0..<64] (vars_state m)"
    using calls_steps [of 64 "md5_block_words block" m]
    by (simp add: md5_calls_steps roles_def role_def vars_state_def)
  then show ?thesis
    by (simp add: MD5_Round_Calculate_def md5_compress_def vars_state_def Let_def add.commute split: prod.splits)
      (metis prod.inject)
qed

section \<open>Padding\<close>

lemma blocks_loop_stop: "i < 64 \<Longrightarrow> md5_blocks_loop i str m = (str, m)"
  by (subst md5_blocks_loop.simps) simp

lemma blocks_loop_go:
  "64 \<le> i \<Longrightarrow> md5_blocks_loop i str m = md5_blocks_loop (i - 64) (drop 64 str) (MD5_Round_Calculate (take 64 str) m)"
  by (subst md5_blocks_loop.simps) simp

lemma blocks_loop:
  "int (64 * k) \<le> i \<Longrightarrow> i < int (64 * k) + 64 \<Longrightarrow>
    md5_blocks_loop i str m = (drop (64 * k) str, foldl (\<lambda>m b. MD5_Round_Calculate b m) m (chunks k str))"
proof (induction k arbitrary: i str m)
  case 0
  then show ?case by (simp add: blocks_loop_stop)
next
  case (Suc k)
  from Suc.prems have "64 \<le> i" by simp
  moreover have "md5_blocks_loop (i - 64) (drop 64 str) (MD5_Round_Calculate (take 64 str) m) =
      (drop (64 * k) (drop 64 str),
       foldl (\<lambda>m b. MD5_Round_Calculate b m) (MD5_Round_Calculate (take 64 str) m) (chunks k (drop 64 str)))"
    by (rule Suc.IH) (use Suc.prems in simp_all)
  ultimately show ?case by (simp add: blocks_loop_go add.commute)
qed

lemma vars_state_foldl:
  "vars_state (foldl (\<lambda>m b. MD5_Round_Calculate b m) m bs) = foldl md5_compress (vars_state m) bs"
  by (induction bs arbitrary: m) (simp_all add: Round_Calculate_compress)

lemma chunks_append:
  "length xs = 64 * k \<Longrightarrow> chunks (k + j) (xs @ ys) = chunks k xs @ chunks j ys"
proof (induction k arbitrary: xs)
  case 0
  then show ?case by simp
next
  case (Suc k)
  then have "chunks (k + j) (drop 64 xs @ ys) = chunks k (drop 64 xs) @ chunks j ys" by simp
  with Suc.prems show ?case by (simp add: take_append drop_append)
qed

lemma chunks_prefix: "64 * k \<le> length xs \<Longrightarrow> chunks k (xs @ ys) = chunks k xs"
  by (induction k arbitrary: xs) simp_all

lemma uint_bytes_alt: "uint_bytes w = map (\<lambda>i. of_nat (unat w div 256 ^ i)) [0..<4]"
proof -
  have "unat (drop_bit 8 w) = unat w div 256" "unat (drop_bit 16 w) = unat w div 65536"
    "unat (drop_bit 24 w) = unat w div 16777216"
    by (simp_all add: drop_bit_eq_div unat_div)
  moreover have v: "(ucast v :: byte) = of_nat (unat v)" for v :: word32 by simp
  ultimately show ?thesis
    unfolding uint_bytes_def v [of "drop_bit 8 w"] v [of "drop_bit 16 w"] v [of "drop_bit 24 w"]
    by (simp add: upt_rec)
qed

text \<open>Below \<open>2 ^ 29\<close> bytes the code's two words are the bit length.\<close>

lemma md5_length_bytes_small:
  assumes "n < 2 ^ 29"
  shows "md5_length_bytes (of_nat n) = map (\<lambda>i. of_nat (8 * n div 256 ^ i)) [0..<8]"
proof -
  have u: "unat (of_nat n :: word32) = n" using assms by (simp add: unat_of_nat take_bit_nat_eq_self)
  have "\<not> MD5_UINT_MAX div 8 < (of_nat n :: word32)"
    using assms by (simp add: word_less_nat_alt u MD5_UINT_MAX_def unat_div)
  moreover have "unat (of_nat n * 8 :: word32) = 8 * n"
    using assms by (simp add: unat_word_ariths u)
  moreover have "[0..<8] = [0..<4] @ [4..<8]" by (simp add: upt_rec)
  moreover have "map (\<lambda>i. of_nat (8 * n div 256 ^ i)) [4..<8] = replicate 4 (0 :: byte)"
  proof (rule replicate_eqI)
    fix y assume "y \<in> set (map (\<lambda>i. of_nat (8 * n div 256 ^ i) :: byte) [4..<8])"
    then obtain i where i: "4 \<le> i" "y = of_nat (8 * n div 256 ^ i)"
      by (metis (no_types, lifting) atLeastLessThan_iff imageE list.set_map set_upt)
    have "(256 :: nat) ^ 4 \<le> 256 ^ i" using i(1) by (intro power_increasing) simp_all
    moreover have "8 * n < 256 ^ 4" using assms by simp
    ultimately have "8 * n div 256 ^ i = 0" by simp
    then show "y = 0" using i(2) by simp
  qed simp
  ultimately show ?thesis
    by (simp only: md5_length_bytes_def uint_bytes_alt map_append if_False)
qed

section \<open>The digest\<close>

lemma takeWhile_nonzero: "0 \<notin> set s \<Longrightarrow> takeWhile (\<lambda>b. b \<noteq> (0 :: byte)) s = s"
  by (auto simp: takeWhile_eq_all_conv)

lemma strncpy_all: "0 \<notin> set s \<Longrightarrow> c_strncpy s (length s) = s"
  by (simp add: c_strncpy_def takeWhile_nonzero)

lemma md5_pad_short:
  assumes "length t < 56" and "length xs = 64 * k"
  shows "md5_pad (xs @ t) = xs @ (t @ 0x80 # replicate (55 - length t) 0) @
    map (\<lambda>i. of_nat (8 * length (xs @ t) div 256 ^ i)) [0..<8]"
proof -
  have "length (xs @ t) mod 64 = length t" using assms by simp
  moreover have "(119 - length t) mod 64 = 55 - length t" using assms(1) by (simp add: mod_if)
  ultimately show ?thesis unfolding md5_pad_def by simp
qed

lemma md5_pad_long:
  assumes "56 \<le> length t" and "length t < 64" and "length xs = 64 * k"
  shows "md5_pad (xs @ t) = xs @ (t @ 0x80 # replicate (63 - length t) 0) @ replicate 56 0 @
    map (\<lambda>i. of_nat (8 * length (xs @ t) div 256 ^ i)) [0..<8]"
proof -
  have "length (xs @ t) mod 64 = length t" using assms by simp
  moreover have "(119 - length t) mod 64 = (63 - length t) + 56" using assms(1,2) by simp
  ultimately show ?thesis unfolding md5_pad_def by (simp only: replicate_add append.simps append_assoc)
qed

text \<open>The last one or two blocks, as the code makes them from the rest \<open>t\<close> of the string.\<close>

definition last_blocks :: "byte list \<Rightarrow> byte list \<Rightarrow> byte list list" where
  "last_blocks t len =
     (if 56 \<le> length t
      then [t @ 0x80 # replicate (63 - length t) 0, replicate 56 0 @ len]
      else [(t @ 0x80 # replicate (55 - length t) 0) @ len])"

lemma chunks_pad:
  assumes "length t < 64" and "length xs = 64 * k"
  shows "chunks (length (md5_pad (xs @ t)) div 64) (md5_pad (xs @ t)) =
    chunks k xs @ last_blocks t (map (\<lambda>i. of_nat (8 * length (xs @ t) div 256 ^ i)) [0..<8])"
proof (cases "56 \<le> length t")
  case True
  define len where "len = (map (\<lambda>i. of_nat (8 * length (xs @ t) div 256 ^ i)) [0..<8] :: byte list)"
  define p q where "p = t @ 0x80 # replicate (63 - length t) 0" and "q = replicate 56 0 @ len"
  have P: "md5_pad (xs @ t) = xs @ p @ q"
    using md5_pad_long [OF True assms] by (simp only: p_def q_def len_def append_assoc)
  have l: "length p = 64" "length q = 64" using assms(1) by (simp_all add: p_def q_def len_def)
  have "length (md5_pad (xs @ t)) div 64 = k + 2" unfolding P using assms(2) l by simp
  then have "chunks (length (md5_pad (xs @ t)) div 64) (md5_pad (xs @ t)) = chunks k xs @ chunks 2 (p @ q)"
    using chunks_append [OF assms(2), of 2 "p @ q"] by (simp only: P)
  also have "chunks 2 (p @ q) = [p, q]" using l by (simp add: numeral_2_eq_2)
  finally show ?thesis using True by (simp add: last_blocks_def p_def q_def len_def)
next
  case False
  define len where "len = (map (\<lambda>i. of_nat (8 * length (xs @ t) div 256 ^ i)) [0..<8] :: byte list)"
  define p where "p = (t @ 0x80 # replicate (55 - length t) 0) @ len"
  have "length t < 56" using False by simp
  note P = md5_pad_short [OF this assms(2), folded len_def p_def]
  have l: "length p = 64" using False by (simp add: p_def len_def)
  have "length (md5_pad (xs @ t)) div 64 = k + 1" unfolding P using assms(2) l by simp
  then have "chunks (length (md5_pad (xs @ t)) div 64) (md5_pad (xs @ t)) = chunks k xs @ chunks 1 p"
    using chunks_append [OF assms(2), of 1 p] by (simp only: P)
  also have "chunks 1 p = [p]" using l by simp
  finally show ?thesis using False by (simp add: last_blocks_def p_def len_def)
qed

lemma String2binary_blocks:
  assumes "0 \<notin> set msg" and "length msg < 2 ^ 29"
  shows "MD5_String2binary msg =
    (let m = foldl (\<lambda>m b. MD5_Round_Calculate b m) md5_start
        (chunks (length msg div 64) msg @
         last_blocks (drop (64 * (length msg div 64)) msg) (md5_length_bytes (of_nat (length msg))))
     in uint_bytes (md5_A m) @ uint_bytes (md5_B m) @ uint_bytes (md5_C m) @ uint_bytes (md5_D m))"
proof -
  let ?n = "length msg" and ?len = "of_nat (length msg) :: word32"
  let ?t = "drop (64 * (?n div 64)) msg"
  define m1 where "m1 = foldl (\<lambda>m b. MD5_Round_Calculate b m) md5_start (chunks (?n div 64) msg)"
  have u: "unat ?len = ?n" using assms(2) by (simp add: unat_of_nat take_bit_nat_eq_self)
  have t: "length ?t = ?n mod 64" by (simp add: minus_mult_div_eq_mod)
  have "0 \<notin> set ?t" using assms(1) by (meson in_set_dropD)
  note cp = strncpy_all [OF this]
  have "sint ?len = int ?n" using assms(2) by (simp add: signed_of_nat signed_take_bit_int_eq_self)
  moreover have "md5_blocks_loop (int ?n) msg md5_start = (?t, m1)"
    unfolding m1_def by (rule blocks_loop) simp_all
  moreover have "c_strlen msg = ?n" unfolding c_strlen_def takeWhile_nonzero [OF assms(1)] ..
  moreover have "unat (?len mod 64) = length ?t" using t by (simp add: unat_mod u)
  moreover have "(?t @ replicate (64 - length ?t) 0)[length ?t := (?t @ replicate (64 - length ?t) 0) ! length ?t OR 0x80] =
      ?t @ 0x80 # replicate (63 - length ?t) 0"
  proof -
    have "64 - length ?t = Suc (63 - length ?t)" using t by (simp del: length_drop)
    then show ?thesis by (simp add: nth_append list_update_append del: length_drop)
  qed
  moreover have "take 56 (?t @ 0x80 # replicate (63 - length ?t) 0) = ?t @ 0x80 # replicate (55 - length ?t) 0"
    if "\<not> 56 \<le> length ?t"
    using that by (simp add: take_Cons')
  ultimately show ?thesis
    unfolding MD5_String2binary_def Let_def
    by (simp add: cp last_blocks_def m1_def del: length_drop)
qed

lemma String2binary_ref:
  assumes "0 \<notin> set msg" and "length msg < 2 ^ 29"
  shows "MD5_String2binary msg = md5_ref msg"
proof -
  let ?k = "length msg div 64"
  let ?xs = "take (64 * ?k) msg" and ?t = "drop (64 * ?k) msg"
  have "64 * ?k \<le> length msg" by simp
  then have xs: "length ?xs = 64 * ?k" by simp
  have t: "length ?t < 64" by (simp add: minus_mult_div_eq_mod)
  have "chunks ?k ?xs = chunks ?k msg" using chunks_prefix [of ?k ?xs ?t] xs by simp
  then have C: "chunks (length (md5_pad msg) div 64) (md5_pad msg) =
      chunks ?k msg @ last_blocks ?t (md5_length_bytes (of_nat (length msg)))"
    using chunks_pad [OF t xs] md5_length_bytes_small [OF assms(2)] by simp
  define m where "m = foldl (\<lambda>m b. MD5_Round_Calculate b m) md5_start
      (chunks (length (md5_pad msg) div 64) (md5_pad msg))"
  have "foldl md5_compress (0x67452301, 0xefcdab89, 0x98badcfe, 0x10325476)
      (chunks (length (md5_pad msg) div 64) (md5_pad msg)) = vars_state m"
    unfolding m_def vars_state_foldl by (simp add: vars_state_def md5_start_def)
  then have "md5_ref msg = uint_bytes (md5_A m) @ uint_bytes (md5_B m) @ uint_bytes (md5_C m) @ uint_bytes (md5_D m)"
    by (simp add: md5_ref_def vars_state_def uint_bytes_alt)
  then show ?thesis
    using String2binary_blocks [OF assms] by (simp only: C [symmetric] m_def [symmetric] Let_def)
qed

text \<open>
  C20. For every C string of fewer than \<open>2 ^ 29\<close> bytes \<open>MD5_Binary\<close> is the MD5 digest of
  RFC 1321, and \<open>MD5_String\<close> prints it in 32 lower-case hexadecimal digits: the 64
  written-out calls are the steps of the RFC with its word order and shifts, and
  the one or two last blocks are its padding.
\<close>

theorem md5_computes_digest:
  assumes "0 \<notin> set msg" and "length msg < 2 ^ 29"
  shows "MD5_Binary msg = md5_ref msg \<and> MD5_String msg = concat (map hex02 (md5_ref msg))"
proof -
  have "length (md5_ref msg) = 16" by (simp add: md5_ref_def split: prod.split)
  then have "map (\<lambda>i. md5_ref msg ! i) [0..<16] = md5_ref msg" by (metis map_nth)
  then have "map (\<lambda>i. hex02 (md5_ref msg ! i)) [0..<16] = map hex02 (md5_ref msg)"
    by (metis (no_types, lifting) map_map comp_apply map_eq_conv)
  then show ?thesis
    by (simp only: MD5_Binary_def MD5_String_def String2binary_ref [OF assms] simp_thms)
qed


text \<open>One test vector of the RFC, computed step by step.\<close>

lemmas md5_fun_defs = Round_def ROTATE_LEFT_def MD5_F_def MD5_G_def MD5_H_def MD5_I_def

definition abc_words :: "word32 list" where
  "abc_words = [0x80636261, 0, 0, 0, 0, 0, 0, 0, 0, 0, 0, 0, 0, 0, 24, 0]"

lemma abc_first_half:
  "fold (exec_call abc_words) (take 32 md5_calls) md5_start =
     \<lparr>md5_A = 2030729211, md5_B = 1919107795, md5_C = 2787673258, md5_D = 2672289016\<rparr>"
  by (simp add: md5_start_def md5_calls_def md5_T_def md5_fun_defs abc_words_def)

lemma abc_second_half:
  "fold (exec_call abc_words) (drop 32 md5_calls)
     \<lparr>md5_A = 2030729211, md5_B = 1919107795, md5_C = 2787673258, md5_D = 2672289016\<rparr> =
     \<lparr>md5_A = 822795919, md5_B = 3229755059, md5_C = 3833903576, md5_D = 1649249458\<rparr>"
  by (simp add: md5_calls_def md5_T_def md5_fun_defs abc_words_def)

lemma abc_block:
  "MD5_Round_Calculate (map byte_of ''abc'' @ 0x80 # replicate 52 0 @ [24, 0, 0, 0, 0, 0, 0, 0]) md5_start =
     \<lparr>md5_A = 2555380112, md5_B = 2958021180, md5_C = 2101319382, md5_D = 1920983336\<rparr>"
proof -
  have "md5_block_words (map byte_of ''abc'' @ 0x80 # replicate 52 0 @ [24, 0, 0, 0, 0, 0, 0, 0]) = abc_words"
    by (simp add: md5_block_words_def byte_of_def upt_rec nth_append nth_Cons' abc_words_def)
  moreover have "fold (exec_call abc_words) md5_calls md5_start =
      fold (exec_call abc_words) (drop 32 md5_calls) (fold (exec_call abc_words) (take 32 md5_calls) md5_start)"
    by (metis append_take_drop_id comp_apply fold_append)
  ultimately show ?thesis
    by (simp add: MD5_Round_Calculate_def abc_first_half abc_second_half) (simp add: md5_start_def)
qed

theorem md5_computes_digest_witness:
  "MD5_String (map byte_of ''abc'') = ''900150983cd24fb0d6963f7d28e17f72''"
proof -
  let ?s = "map byte_of ''abc''"
  have s: "0 \<notin> set ?s" "length ?s < 2 ^ 29" by (simp_all add: byte_of_def)
  have "MD5_String2binary ?s = md5_ref ?s" using md5_computes_digest [OF s] by (simp only: MD5_Binary_def)
  moreover have "md5_length_bytes (of_nat (length ?s)) = [24, 0, 0, 0, 0, 0, 0, 0]"
    using md5_length_bytes_small [of "length ?s"] by (simp add: upt_rec)
  then have "MD5_String2binary ?s = [0x90, 0x01, 0x50, 0x98, 0x3c, 0xd2, 0x4f, 0xb0, 0xd6, 0x96, 0x3f, 0x7d,
      0x28, 0xe1, 0x7f, 0x72]"
    using String2binary_blocks [OF s] abc_block by (simp add: last_blocks_def uint_bytes_def)
  ultimately have "md5_ref ?s = [0x90, 0x01, 0x50, 0x98, 0x3c, 0xd2, 0x4f, 0xb0, 0xd6, 0x96, 0x3f, 0x7d,
      0x28, 0xe1, 0x7f, 0x72]" by simp
  with md5_computes_digest [OF s] show ?thesis by (simp add: hex02_def hex_char_def)
qed

text \<open>From \<open>2 ^ 29\<close> bytes on the high word of the length is wrong.\<close>

lemma md5_length_wrong:
  "md5_length_bytes (of_nat (2 ^ 29)) \<noteq> map (\<lambda>i. of_nat (8 * 2 ^ 29 div 256 ^ i)) [0..<8]"
  by (simp add: md5_length_bytes_def MD5_UINT_MAX_def uint_bytes_def upt_rec)

lemma MD5_Salt_nonzero: "0 \<notin> set (MD5_Salt rand len)"
proof -
  have "(of_nat (1 + rand i mod 255) :: byte) \<noteq> 0" for i
  proof -
    have "1 + rand i mod 255 < 256" using mod_less_divisor [of 255 "rand i"] by linarith
    then have "unat (of_nat (1 + rand i mod 255) :: byte) = 1 + rand i mod 255"
      by (simp only: unat_of_nat take_bit_nat_eq_self_iff) (simp add: take_bit_nat_eq_self_iff)
    then show ?thesis by (metis add_is_0 unat_0 zero_neq_one)
  qed
  then show ?thesis by (auto simp: MD5_Salt_def)
qed

end
