(* ===== verification/Coroutine.thy ===== *)
theory Coroutine
  imports Ox_Stack
begin

text \<open>
  The coroutines of \<open>utils/coroutine.c\<close> (the branch for systems with \<open>ucontext\<close>):
  all coroutines run on one shared stack, whose live part is copied out when a
  coroutine gives up control and back when it is scheduled again. The abstract
  view is a table of tasks, each with its own frame, and a queue of the ones
  that may run.

  \<open>swapcontext\<close> is a transfer of control: each operation is modelled up to it, and
  what a coroutine does in between is a step that writes its part of the stack.
  \<open>coroutine_resume\<close> passes the table of pointers to a function for another type
  on these systems and has no meaning to model.
\<close>

section \<open>Data\<close>

datatype co_status = COROUTINE_READY | COROUTINE_RUNNING | COROUTINE_SUSPEND | COROUTINE_BLOCK | COROUTINE_DEAD

definition STACK_SIZE :: nat where "STACK_SIZE = 1024 * 1024"
definition DEFAULT_COROUTINE :: int where "DEFAULT_COROUTINE = 16"

text \<open>\<open>co_func\<close> stands for the function and its argument.\<close>

record 'f coroutine =
  co_func :: 'f
  co_cap :: int
  co_size :: int
  co_state :: co_status
  co_stack :: "byte list option"

record 'f co_schedule =
  sc_stack :: "byte list"
  sc_nco :: int
  sc_cap :: int
  sc_running :: int
  sc_cos :: "'f coroutine option list"
  sc_active_list :: stack_s

definition sizeof_coroutine :: nat where "sizeof_coroutine = 1024"
definition sizeof_schedule :: nat where "sizeof_schedule = 1049576"

section \<open>Operations\<close>

text \<open>The allocations are not checked: a null pointer is used at once, which is \<open>None\<close>.\<close>

definition co_new :: "heap_env \<Rightarrow> 'f \<Rightarrow> 'f coroutine option" where
  "co_new env func =
     do {
       _ \<leftarrow> malloc env sizeof_coroutine;
       Some \<lparr>co_func = func, co_cap = 0, co_size = 0, co_state = COROUTINE_READY, co_stack = None\<rparr>
     }"

definition coroutine_open :: "heap_env \<Rightarrow> 'f co_schedule option" where
  "coroutine_open env =
     do {
       S \<leftarrow> malloc env sizeof_schedule;
       _ \<leftarrow> malloc env (8 * nat DEFAULT_COROUTINE);
       al \<leftarrow> ox_stack_new env 1024 4;
       al \<leftarrow> al;
       Some \<lparr>sc_stack = take STACK_SIZE S, sc_nco = 0, sc_cap = DEFAULT_COROUTINE, sc_running = -1,
             sc_cos = replicate (nat DEFAULT_COROUTINE) None, sc_active_list = al\<rparr>
     }"

text \<open>The coroutines that \<open>coroutine_close\<close> frees, by their slots.\<close>

definition coroutine_close :: "'f co_schedule \<Rightarrow> nat list" where
  "coroutine_close S = filter (\<lambda>i. sc_cos S ! i \<noteq> None) [0..<nat (sc_cap S)]"

definition push_active :: "heap_env \<Rightarrow> int \<Rightarrow> 'f co_schedule \<Rightarrow> 'f co_schedule option" where
  "push_active env cid S =
     do {
       (_, al) \<leftarrow> ox_stack_push env (sc_active_list S) (int_bytes cid);
       Some (S\<lparr>sc_active_list := al\<rparr>)
     }"

text \<open>The search for a free slot, \<open>k\<close> rounds to go; a failed \<open>assert\<close> is \<open>None\<close>.\<close>

fun find_slot :: "'f co_schedule \<Rightarrow> int \<Rightarrow> nat \<Rightarrow> int option" where
  "find_slot S i 0 = None"
| "find_slot S i (Suc k) =
     do {
       j \<leftarrow> c_int (i + sc_nco S);
       let cid = j mod sc_cap S;
       if sc_cos S ! nat cid = None then Some cid else find_slot S (i + 1) k
     }"

definition coroutine_new :: "heap_env \<Rightarrow> 'f \<Rightarrow> 'f co_schedule \<Rightarrow> (int \<times> 'f co_schedule) option" where
  "coroutine_new env func S =
     do {
       co \<leftarrow> co_new env func;
       if sc_nco S \<ge> sc_cap S
       then do {
         let cid = sc_cap S;
         n \<leftarrow> c_int (sc_cap S * 2);
         _ \<leftarrow> malloc env (8 * nat n);
         let cos = sc_cos S @ replicate (nat (sc_cap S)) None;
         S \<leftarrow> push_active env cid
               (S\<lparr>sc_cos := cos[nat (sc_cap S) := Some co], sc_cap := n, sc_nco := sc_nco S + 1\<rparr>);
         Some (cid, S)
       }
       else do {
         cid \<leftarrow> find_slot S 0 (nat (sc_cap S));
         S \<leftarrow> push_active env cid
               (S\<lparr>sc_cos := (sc_cos S)[nat cid := Some co], sc_nco := sc_nco S + 1\<rparr>);
         Some (cid, S)
       }
     }"

text \<open>The rest of \<open>mainfunc\<close> after the coroutine's function has returned.\<close>

definition mainfunc_return :: "'f co_schedule \<Rightarrow> 'f co_schedule" where
  "mainfunc_return S =
     S\<lparr>sc_cos := (sc_cos S)[nat (sc_running S) := None], sc_nco := sc_nco S - 1, sc_running := -1\<rparr>"

definition stack_block :: "'f coroutine \<Rightarrow> byte list" where
  "stack_block C = (case co_stack C of None \<Rightarrow> [] | Some blk \<Rightarrow> blk)"

definition enter :: "int \<Rightarrow> 'f coroutine \<Rightarrow> 'f co_schedule \<Rightarrow> 'f co_schedule" where
  "enter cid C S =
     S\<lparr>sc_running := cid, sc_cos := (sc_cos S)[nat cid := Some (C\<lparr>co_state := COROUTINE_RUNNING\<rparr>)]\<rparr>"

definition coroutine_goto :: "'f co_schedule \<Rightarrow> int \<Rightarrow> 'f co_schedule option" where
  "coroutine_goto S cid =
     (if sc_running S \<noteq> -1 \<or> \<not> (0 \<le> cid \<and> cid < sc_cap S) then None
      else case sc_cos S ! nat cid of
        None \<Rightarrow> Some S
      | Some C \<Rightarrow>
          (case co_state C of
             COROUTINE_READY \<Rightarrow> Some (enter cid C S)
           | COROUTINE_SUSPEND \<Rightarrow>
               do {
                 bs \<leftarrow> mem_read (stack_block C) 0 (nat (co_size C));
                 stk \<leftarrow> mem_write (sc_stack S) (Some (STACK_SIZE - nat (co_size C))) bs;
                 Some (enter cid C (S\<lparr>sc_stack := stk\<rparr>))
               }
           | _ \<Rightarrow> None))"

text \<open>\<open>depth\<close> is \<open>top - &dummy\<close>, the number of bytes in use on the shared stack \<open>stk\<close>.\<close>

definition save_stack :: "heap_env \<Rightarrow> byte list \<Rightarrow> nat \<Rightarrow> 'f coroutine \<Rightarrow> 'f coroutine option" where
  "save_stack env stk depth C =
     (if depth > STACK_SIZE then None
      else do {
        let C = (if co_cap C < int depth
                 then C\<lparr>co_cap := int depth, co_stack := malloc env depth\<rparr> else C);
        let C = C\<lparr>co_size := int depth\<rparr>;
        bs \<leftarrow> mem_read stk (STACK_SIZE - depth) depth;
        blk \<leftarrow> mem_write (stack_block C) (map_option (\<lambda>_. 0) (co_stack C)) bs;
        Some (C\<lparr>co_stack := map_option (\<lambda>_. blk) (co_stack C)\<rparr>)
      })"

text \<open>
  The common part of \<open>coroutine_yield\<close> and \<open>coroutine_block\<close>. That the local variable lies
  on the shared stack follows from the check in \<open>_save_stack\<close>, whose own local lies deeper.
\<close>

definition leave :: "heap_env \<Rightarrow> nat \<Rightarrow> co_status \<Rightarrow> 'f co_schedule \<Rightarrow> (int \<times> 'f co_schedule) option" where
  "leave env depth st S =
     (let cid = sc_running S in
      if cid < 0 then None
      else do {
        C \<leftarrow> sc_cos S ! nat cid;
        C \<leftarrow> save_stack env (sc_stack S) depth C;
        Some (cid, S\<lparr>sc_cos := (sc_cos S)[nat cid := Some (C\<lparr>co_state := st\<rparr>)]\<rparr>)
      })"

definition coroutine_yield :: "heap_env \<Rightarrow> nat \<Rightarrow> 'f co_schedule \<Rightarrow> 'f co_schedule option" where
  "coroutine_yield env depth S =
     do {
       (cid, S) \<leftarrow> leave env depth COROUTINE_SUSPEND S;
       S \<leftarrow> push_active env cid S;
       Some (S\<lparr>sc_running := -1\<rparr>)
     }"

definition coroutine_block :: "heap_env \<Rightarrow> nat \<Rightarrow> 'f co_schedule \<Rightarrow> 'f co_schedule option" where
  "coroutine_block env depth S =
     do {
       (_, S) \<leftarrow> leave env depth COROUTINE_BLOCK S;
       Some (S\<lparr>sc_running := -1\<rparr>)
     }"

definition coroutine_status :: "'f co_schedule \<Rightarrow> int \<Rightarrow> co_status option" where
  "coroutine_status S cid =
     (if \<not> (0 \<le> cid \<and> cid < sc_cap S) then None
      else Some (case sc_cos S ! nat cid of None \<Rightarrow> COROUTINE_DEAD | Some C \<Rightarrow> co_state C))"

definition coroutine_running :: "'f co_schedule \<Rightarrow> int" where
  "coroutine_running S = sc_running S"

definition coroutine_schedule :: "'f co_schedule \<Rightarrow> 'f co_schedule option" where
  "coroutine_schedule S =
     (if ox_stack_num (sc_active_list S) > 0
      then do {
        (p, al) \<leftarrow> ox_stack_popfront (sc_active_list S);
        p \<leftarrow> p;
        bs \<leftarrow> mem_read (arr_buffer (stk_array al)) p 4;
        coroutine_goto (S\<lparr>sc_active_list := al\<rparr>) (int_of_bytes bs)
      }
      else Some S)"

section \<open>A program of coroutines\<close>

text \<open>
  What happens to a schedule: a coroutine is made; the main program schedules; a
  coroutine that runs computes, which leaves a frame on the shared stack, yields,
  blocks or returns. An operation that control is not at is skipped.
\<close>

datatype 'f co_op = Spawn 'f | Schedule | Compute "byte list" | Yield | Block | Finish

record 'f co_sys =
  sy_S :: "'f co_schedule"
  sy_depth :: nat

text \<open>The stack pointer comes with the context: at the top for a new coroutine, else where it was.\<close>

definition entered_depth :: "'f co_schedule \<Rightarrow> nat" where
  "entered_depth S =
     (if sc_running S < 0 then 0
      else case sc_cos S ! nat (sc_running S) of None \<Rightarrow> 0 | Some C \<Rightarrow> nat (co_size C))"

fun co_step :: "heap_env \<Rightarrow> 'f co_op \<Rightarrow> 'f co_sys \<Rightarrow> (int option \<times> 'f co_sys) option" where
  "co_step env (Spawn f) y =
     do { (cid, S) \<leftarrow> coroutine_new env f (sy_S y); Some (Some cid, y\<lparr>sy_S := S\<rparr>) }"
| "co_step env Schedule y =
     (if sc_running (sy_S y) \<noteq> -1 then Some (None, y)
      else do { S \<leftarrow> coroutine_schedule (sy_S y); Some (None, \<lparr>sy_S = S, sy_depth = entered_depth S\<rparr>) })"
| "co_step env (Compute fr) y =
     (if sc_running (sy_S y) = -1 \<or> length fr > STACK_SIZE then Some (None, y)
      else Some (None, \<lparr>sy_S = (sy_S y)\<lparr>sc_stack := take (STACK_SIZE - length fr) (sc_stack (sy_S y)) @ fr\<rparr>,
                         sy_depth = length fr\<rparr>))"
| "co_step env Yield y =
     (if sc_running (sy_S y) = -1 then Some (None, y)
      else do { S \<leftarrow> coroutine_yield env (sy_depth y) (sy_S y); Some (None, \<lparr>sy_S = S, sy_depth = 0\<rparr>) })"
| "co_step env Block y =
     (if sc_running (sy_S y) = -1 then Some (None, y)
      else do { S \<leftarrow> coroutine_block env (sy_depth y) (sy_S y); Some (None, \<lparr>sy_S = S, sy_depth = 0\<rparr>) })"
| "co_step env Finish y =
     (if sc_running (sy_S y) = -1 then Some (None, y)
      else Some (None, \<lparr>sy_S = mainfunc_return (sy_S y), sy_depth = 0\<rparr>))"

fun co_exec :: "heap_env \<Rightarrow> 'f co_op list \<Rightarrow> 'f co_sys \<Rightarrow> (int option list \<times> 'f co_sys) option" where
  "co_exec env [] y = Some ([], y)"
| "co_exec env (p # ps) y =
     do { (r, y') \<leftarrow> co_step env p y; (rs, y'') \<leftarrow> co_exec env ps y'; Some (r # rs, y'') }"

section \<open>The abstract scheduler\<close>

text \<open>Tasks have frames of their own; the queue holds those that may run.\<close>

datatype 'f task = Ready 'f | Running 'f | Suspended 'f "byte list" | Blocked 'f "byte list"

record 'f tasks =
  tk :: "int \<rightharpoonup> 'f task"
  tq :: "int list"
  tlive :: "(int \<times> byte list) option"

fun task_func :: "'f task \<Rightarrow> 'f" where
  "task_func (Ready f) = f"
| "task_func (Running f) = f"
| "task_func (Suspended f fr) = f"
| "task_func (Blocked f fr) = f"

text \<open>\<open>r\<close> is what the operation returned; \<open>None\<close> says that the scheduler does not allow it.\<close>

fun sched_spec :: "'f co_op \<Rightarrow> int option \<Rightarrow> 'f tasks \<Rightarrow> 'f tasks option" where
  "sched_spec (Spawn f) r a =
     (case r of
        None \<Rightarrow> None
      | Some cid \<Rightarrow>
          if tk a cid \<noteq> None then None
          else Some (a\<lparr>tk := (tk a)(cid \<mapsto> Ready f), tq := tq a @ [cid]\<rparr>))"
| "sched_spec Schedule r a =
     (case (tlive a, tq a) of
        (None, cid # q) \<Rightarrow>
          (case tk a cid of
             Some (Ready f) \<Rightarrow> Some \<lparr>tk = (tk a)(cid \<mapsto> Running f), tq = q, tlive = Some (cid, [])\<rparr>
           | Some (Suspended f fr) \<Rightarrow> Some \<lparr>tk = (tk a)(cid \<mapsto> Running f), tq = q, tlive = Some (cid, fr)\<rparr>
           | _ \<Rightarrow> None)
      | _ \<Rightarrow> Some a)"
| "sched_spec (Compute fr) r a =
     (case tlive a of
        None \<Rightarrow> Some a
      | Some (cid, _) \<Rightarrow> Some (if length fr > STACK_SIZE then a else a\<lparr>tlive := Some (cid, fr)\<rparr>))"
| "sched_spec Yield r a =
     (case tlive a of
        None \<Rightarrow> Some a
      | Some (cid, fr) \<Rightarrow>
          Some \<lparr>tk = (tk a)(cid := map_option (\<lambda>t. Suspended (task_func t) fr) (tk a cid)),
                tq = tq a @ [cid], tlive = None\<rparr>)"
| "sched_spec Block r a =
     (case tlive a of
        None \<Rightarrow> Some a
      | Some (cid, fr) \<Rightarrow>
          Some (a\<lparr>tk := (tk a)(cid := map_option (\<lambda>t. Blocked (task_func t) fr) (tk a cid)), tlive := None\<rparr>))"
| "sched_spec Finish r a =
     (case tlive a of
        None \<Rightarrow> Some a
      | Some (cid, _) \<Rightarrow> Some (a\<lparr>tk := (tk a)(cid := None), tlive := None\<rparr>))"

fun sched_run :: "'f co_op list \<Rightarrow> int option list \<Rightarrow> 'f tasks \<Rightarrow> 'f tasks option" where
  "sched_run [] [] a = Some a"
| "sched_run (p # ps) (r # rs) a = do { a' \<leftarrow> sched_spec p r a; sched_run ps rs a' }"
| "sched_run _ _ a = None"

definition no_tasks :: "'f tasks" where
  "no_tasks = \<lparr>tk = Map.empty, tq = [], tlive = None\<rparr>"

section \<open>Abstraction and invariant\<close>

definition frame :: "'f coroutine \<Rightarrow> byte list" where
  "frame C = take (nat (co_size C)) (stack_block C)"

definition task_of :: "'f coroutine \<Rightarrow> 'f task" where
  "task_of C =
     (case co_state C of
        COROUTINE_READY \<Rightarrow> Ready (co_func C)
      | COROUTINE_RUNNING \<Rightarrow> Running (co_func C)
      | COROUTINE_SUSPEND \<Rightarrow> Suspended (co_func C) (frame C)
      | _ \<Rightarrow> Blocked (co_func C) (frame C))"

definition slot :: "'f co_schedule \<Rightarrow> int \<Rightarrow> 'f coroutine option" where
  "slot S cid = (if 0 \<le> cid \<and> cid < sc_cap S then sc_cos S ! nat cid else None)"

definition active :: "'f co_schedule \<Rightarrow> int list" where
  "active S = map int_of_bytes (elements (sc_active_list S))"

definition tasks_of :: "'f co_sys \<Rightarrow> 'f tasks" where
  "tasks_of y =
     (let S = sy_S y in
      \<lparr>tk = map_option task_of \<circ> slot S, tq = active S,
       tlive = (if sc_running S = -1 then None
                else Some (sc_running S, drop (STACK_SIZE - sy_depth y) (sc_stack S)))\<rparr>)"

definition co_ok :: "'f coroutine \<Rightarrow> bool" where
  "co_ok C \<longleftrightarrow> co_cap C = int (length (stack_block C)) \<and> 0 \<le> co_size C \<and> co_size C \<le> co_cap C \<and>
     co_size C \<le> int STACK_SIZE \<and> (co_state C = COROUTINE_READY \<longrightarrow> co_size C = 0) \<and>
     co_state C \<noteq> COROUTINE_DEAD"

definition runnable :: "'f coroutine \<Rightarrow> bool" where
  "runnable C \<longleftrightarrow> co_state C = COROUTINE_READY \<or> co_state C = COROUTINE_SUSPEND"

definition used :: "'f co_schedule \<Rightarrow> nat" where
  "used S = length (filter (\<lambda>c. c \<noteq> None) (sc_cos S))"

definition table_ok :: "'f co_schedule \<Rightarrow> bool" where
  "table_ok S \<longleftrightarrow> int (length (sc_cos S)) = sc_cap S \<and> 16 \<le> sc_cap S \<and> sc_cap S < 2 ^ 29 \<and>
     sc_nco S = int (used S) \<and> (\<forall>cid C. slot S cid = Some C \<longrightarrow> co_ok C)"

definition queue_ok :: "'f co_schedule \<Rightarrow> bool" where
  "queue_ok S \<longleftrightarrow> stack_inv (sc_active_list S) \<and> stk_element_size (sc_active_list S) = 4 \<and>
     0 < stk_element_num (sc_active_list S) \<and>
     distinct (active S) \<and> (\<forall>cid. cid \<in> set (active S) \<longleftrightarrow> (\<exists>C. slot S cid = Some C \<and> runnable C))"

definition run_ok :: "'f co_schedule \<Rightarrow> bool" where
  "run_ok S \<longleftrightarrow> (\<forall>cid. (\<exists>C. slot S cid = Some C \<and> co_state C = COROUTINE_RUNNING) \<longleftrightarrow>
       sc_running S = cid \<and> cid \<noteq> -1)"

definition co_inv :: "'f co_sys \<Rightarrow> bool" where
  "co_inv y \<longleftrightarrow> table_ok (sy_S y) \<and> queue_ok (sy_S y) \<and> run_ok (sy_S y) \<and>
     length (sc_stack (sy_S y)) = STACK_SIZE \<and> sy_depth y \<le> STACK_SIZE"

section \<open>Slots\<close>

lemma slot_update:
  assumes "int (length (sc_cos S)) = sc_cap S" and "0 \<le> cid" and "cid < sc_cap S"
  shows "slot (S\<lparr>sc_cos := (sc_cos S)[nat cid := c]\<rparr>) = (slot S)(cid := c)"
  using assms by (auto simp: slot_def nth_list_update fun_eq_iff)

lemma slot_other [simp]:
  "slot (S\<lparr>sc_nco := n\<rparr>) = slot S" "slot (S\<lparr>sc_running := r\<rparr>) = slot S"
  "slot (S\<lparr>sc_stack := st\<rparr>) = slot S" "slot (S\<lparr>sc_active_list := al\<rparr>) = slot S"
  by (simp_all add: slot_def fun_eq_iff)

lemma slot_cong: "sc_cap S = sc_cap S' \<Longrightarrow> sc_cos S = sc_cos S' \<Longrightarrow> slot S = slot S'"
  by (simp add: slot_def fun_eq_iff)

lemma dom_slot: "dom (slot S) \<subseteq> {0..<sc_cap S}"
  by (auto simp: slot_def split: if_splits)

lemma finite_slot [simp]: "finite (dom (slot S))"
  by (rule finite_subset [OF dom_slot]) simp

lemma used_dom:
  assumes "int (length (sc_cos S)) = sc_cap S"
  shows "used S = card (dom (slot S))"
proof -
  have "dom (slot S) = int ` {i. i < length (sc_cos S) \<and> sc_cos S ! i \<noteq> None}"
  proof (intro equalityI subsetI)
    fix cid assume "cid \<in> dom (slot S)"
    then have "0 \<le> cid" "cid < sc_cap S" "sc_cos S ! nat cid \<noteq> None" by (auto simp: slot_def split: if_splits)
    with assms have "cid = int (nat cid)" "nat cid < length (sc_cos S)" "sc_cos S ! nat cid \<noteq> None" by auto
    then show "cid \<in> int ` {i. i < length (sc_cos S) \<and> sc_cos S ! i \<noteq> None}" by blast
  next
    fix cid assume "cid \<in> int ` {i. i < length (sc_cos S) \<and> sc_cos S ! i \<noteq> None}"
    with assms show "cid \<in> dom (slot S)" by (auto simp: slot_def)
  qed
  then show ?thesis by (simp add: used_def length_filter_conv_card card_image)
qed

text \<open>The table in terms of its map.\<close>

definition map_ok :: "int \<Rightarrow> int \<Rightarrow> (int \<rightharpoonup> 'f coroutine) \<Rightarrow> bool" where
  "map_ok cap nco m \<longleftrightarrow> 16 \<le> cap \<and> cap < 2 ^ 29 \<and> nco = int (card (dom m)) \<and> (\<forall>C \<in> ran m. co_ok C)"

lemma table_ok_map:
  "table_ok S \<longleftrightarrow> int (length (sc_cos S)) = sc_cap S \<and> map_ok (sc_cap S) (sc_nco S) (slot S)"
proof (cases "int (length (sc_cos S)) = sc_cap S")
  case True
  with used_dom [OF True] show ?thesis by (auto simp: table_ok_def map_ok_def ran_def)
qed (simp add: table_ok_def)

lemma map_ok_insert:
  assumes "map_ok cap nco m" and "finite (dom m)" and "m cid = None" and "co_ok C"
  shows "map_ok cap (nco + 1) (m(cid \<mapsto> C))"
proof -
  have "card (insert cid (dom m)) = Suc (card (dom m))" using assms(2,3) by (simp add: domIff)
  with assms show ?thesis by (auto simp: map_ok_def ran_def)
qed

lemma map_ok_change:
  assumes "map_ok cap nco m" and "m cid = Some C" and "co_ok C'"
  shows "map_ok cap nco (m(cid \<mapsto> C'))"
proof -
  have "insert cid (dom m) = dom m" using assms(2) by blast
  with assms show ?thesis by (auto simp: map_ok_def ran_def)
qed

lemma map_ok_delete:
  assumes "map_ok cap nco m" and "finite (dom m)" and "m cid = Some C"
  shows "map_ok cap (nco - 1) (m(cid := None))"
proof -
  have "card (dom m - {cid}) = card (dom m) - 1" "0 < card (dom m)"
    using assms(2,3) by (auto simp: card_gt_0_iff domI card_Diff_singleton)
  with assms show ?thesis by (auto simp: map_ok_def ran_def)
qed

lemma find_slot_ok:
  assumes "table_ok S" and "0 \<le> i" and "i + int k \<le> sc_cap S" and "i \<le> j" and "j < i + int k"
    and "sc_nco S \<le> sc_cap S" and "slot S ((j + sc_nco S) mod sc_cap S) = None"
  shows "\<exists>cid. find_slot S i k = Some cid \<and> 0 \<le> cid \<and> cid < sc_cap S \<and> slot S cid = None"
  using assms(2-5)
proof (induction k arbitrary: i)
  case 0
  then show ?case by simp
next
  case (Suc k)
  have cap: "16 \<le> sc_cap S" "sc_cap S < 2 ^ 29" "0 \<le> sc_nco S" using assms(1) by (auto simp: table_ok_def)
  let ?c = "(i + sc_nco S) mod sc_cap S"
  have c: "0 \<le> ?c" "?c < sc_cap S" using cap by simp_all
  have int: "c_int (i + sc_nco S) = Some (i + sc_nco S)"
    by (rule c_int_fits) (use Suc.prems cap assms(6) in simp_all)
  show ?case
  proof (cases "slot S ?c = None")
    case True
    then have "sc_cos S ! nat ?c = None" using c by (simp add: slot_def)
    then have "find_slot S i (Suc k) = Some ?c" by (simp add: int Let_def)
    with c True show ?thesis by blast
  next
    case False
    then have "i \<noteq> j" using assms(7) by auto
    then have "\<exists>cid. find_slot S (i + 1) k = Some cid \<and> 0 \<le> cid \<and> cid < sc_cap S \<and> slot S cid = None"
      using Suc.prems by (intro Suc.IH) simp_all
    moreover have "sc_cos S ! nat ?c \<noteq> None" using False c by (simp add: slot_def)
    then have "find_slot S i (Suc k) = find_slot S (i + 1) k" by (auto simp: int Let_def)
    ultimately show ?thesis by simp
  qed
qed

lemma find_slot_free:
  assumes "table_ok S" and "sc_nco S < sc_cap S"
  obtains cid where "find_slot S 0 (nat (sc_cap S)) = Some cid" and "0 \<le> cid" and "cid < sc_cap S" and "slot S cid = None"
proof -
  have t: "int (length (sc_cos S)) = sc_cap S" "map_ok (sc_cap S) (sc_nco S) (slot S)"
    using assms(1) by (simp_all add: table_ok_map)
  then have "int (card (dom (slot S))) < int (card {0..<sc_cap S})" using assms(2) by (simp add: map_ok_def)
  then have "dom (slot S) \<noteq> {0..<sc_cap S}" by auto
  then obtain free where free: "0 \<le> free" "free < sc_cap S" "slot S free = None"
    using dom_slot [of S] by (metis atLeastLessThan_iff domIff psubsetI psubset_imp_ex_mem DiffE)
  let ?j = "(free - sc_nco S) mod sc_cap S"
  have "(?j + sc_nco S) mod sc_cap S = free" using free(1,2) by (simp add: mod_simps)
  moreover have "0 \<le> ?j" "?j < sc_cap S" using free by simp_all
  ultimately show ?thesis
    using find_slot_ok [OF assms(1), of 0 "nat (sc_cap S)" ?j] assms(2) free that by auto
qed

section \<open>The queue\<close>

definition int_stack :: "stack_s \<Rightarrow> bool" where
  "int_stack al \<longleftrightarrow> stack_inv al \<and> stk_element_size al = 4 \<and> 0 < stk_element_num al"

definition ids :: "stack_s \<Rightarrow> int list" where
  "ids al = map int_of_bytes (elements al)"

definition may_run :: "(int \<rightharpoonup> 'f coroutine) \<Rightarrow> int set" where
  "may_run m = {cid. \<exists>C. m cid = Some C \<and> runnable C}"

lemma queue_ok_ids:
  "queue_ok S \<longleftrightarrow> int_stack (sc_active_list S) \<and> distinct (ids (sc_active_list S)) \<and>
     set (ids (sc_active_list S)) = may_run (slot S)"
  by (auto simp: queue_ok_def int_stack_def active_def ids_def may_run_def)

lemma push_ids:
  assumes "int_stack al" and "\<forall>k. malloc_ok env k" and "length (ids al) < 2 ^ 27"
    and "- (2 ^ 31) \<le> cid" and "cid < 2 ^ 31"
  obtains al' where "ox_stack_push env al (int_bytes cid) = Some (True, al')" and "int_stack al'"
    and "ids al' = ids al @ [cid]"
proof -
  have inv: "stack_inv al" "stk_element_size al = 4" "0 < stk_element_num al" using assms(1) by (auto simp: int_stack_def)
  have "stk_num al = int (length (ids al))"
    using inv(1) length_elements [of al] by (simp add: ids_def stack_inv_def)
  then have "stack_room env al (Suc 0)" using inv assms(2,3) by (simp add: stack_room_def)
  moreover have "stack_okay al (int_bytes cid)" using inv by (simp add: stack_okay_def int_bytes_def)
  ultimately obtain al' where al': "ox_stack_push env al (int_bytes cid) = Some (True, al')" "stack_inv al'"
    "stack_room env al' 0" "stack_okay al' = stack_okay al" "elements al' = elements al @ [int_bytes cid]"
    using stk.push_law [OF inv(1)] by blast
  have "stack_okay al' (replicate 4 0)" using al'(4) inv(2) by (simp add: stack_okay_def)
  then have "stk_element_size al' = 4" by (simp add: stack_okay_def)
  with al' have "int_stack al'" by (simp add: int_stack_def stack_room_def)
  moreover have "ids al' = ids al @ [cid]" using int_bytes_back [OF assms(4,5)] by (simp add: ids_def al'(5))
  ultimately show ?thesis using al'(1) that by blast
qed

lemma pop_ids:
  assumes "int_stack al" and "ids al = cid # q"
  obtains p al' bs where "ox_stack_popfront al = Some (Some p, al')" and "int_stack al'" and "ids al' = q"
    and "mem_read (arr_buffer (stk_array al')) p 4 = Some bs" and "int_of_bytes bs = cid"
proof -
  have inv: "stack_inv al" "stk_element_size al = 4" using assms(1) by (auto simp: int_stack_def)
  then show ?thesis
  proof (cases rule: popfront_cases)
    case empty
    with assms(2) show ?thesis by (simp add: ids_def)
  next
    case (some p bs al')
    with assms show ?thesis by (intro that [of p al' bs]) (simp_all add: ids_def int_stack_def)
  qed
qed

lemma num_ids: "stack_inv al \<Longrightarrow> ox_stack_num al > 0 \<longleftrightarrow> ids al \<noteq> []"
  using length_elements [of al] by (auto simp: ids_def ox_stack_num_def simp flip: length_0_conv)

text \<open>No more coroutines wait than there are.\<close>

lemma queue_length:
  assumes "queue_ok S"
  shows "length (ids (sc_active_list S)) \<le> card (dom (slot S))"
proof -
  have "set (ids (sc_active_list S)) \<subseteq> dom (slot S)" using assms by (auto simp: queue_ok_ids may_run_def)
  then have "card (set (ids (sc_active_list S))) \<le> card (dom (slot S))" by (intro card_mono) simp_all
  moreover have "distinct (ids (sc_active_list S))" using assms by (simp add: queue_ok_ids)
  ultimately show ?thesis by (simp only: distinct_card)
qed

section \<open>Frames\<close>

lemma save_stack_ok:
  assumes "co_ok C" and "length stk = STACK_SIZE" and "depth \<le> STACK_SIZE" and "\<forall>k. malloc_ok env k"
    and "co_state C = COROUTINE_RUNNING"
  obtains C' where "save_stack env stk depth C = Some C'" and "co_ok C'" and "co_func C' = co_func C"
    and "frame C' = drop (STACK_SIZE - depth) stk" and "co_state C' = COROUTINE_RUNNING"
proof -
  let ?C = "(if co_cap C < int depth then C\<lparr>co_cap := int depth, co_stack := malloc env depth\<rparr> else C)\<lparr>co_size := int depth\<rparr>"
  let ?bs = "drop (STACK_SIZE - depth) stk"
  have bs: "mem_read stk (STACK_SIZE - depth) depth = Some ?bs" "length ?bs = depth"
    using assms(2,3) by (simp_all add: mem_read_def)
  have cap: "int depth \<le> int (length (stack_block ?C))" "co_cap ?C = int (length (stack_block ?C))"
    using assms(1,4) by (auto simp: co_ok_def stack_block_def malloc_def)
  show ?thesis
  proof (cases "co_stack ?C")
    case None
    then have "depth = 0" using cap(1) by (simp add: stack_block_def)
    moreover have "co_stack C = None" using None \<open>depth = 0\<close> assms(1) by (simp add: co_ok_def)
    ultimately show ?thesis
      using assms bs by (intro that [of "C\<lparr>co_size := 0\<rparr>"])
        (auto simp: save_stack_def co_ok_def mem_write_def frame_def stack_block_def)
  next
    case (Some blk)
    then have blk: "stack_block ?C = blk" by (simp add: stack_block_def)
    let ?blk = "?bs @ drop depth blk"
    have w: "mem_write blk (Some 0) ?bs = Some ?blk"
      using cap(1) bs(2) blk by (simp add: mem_write_def)
    have "save_stack env stk depth C = Some (?C\<lparr>co_stack := Some ?blk\<rparr>)"
      using assms(3) bs(1) w blk Some by (simp add: save_stack_def Let_def)
    moreover have "length ?blk = length blk" using cap(1) bs(2) blk by simp
    ultimately show ?thesis
      using cap blk assms(1,3,5) bs(2)
      by (intro that [of "?C\<lparr>co_stack := Some ?blk\<rparr>"]) (auto simp: co_ok_def stack_block_def frame_def)
  qed
qed

section \<open>Making a coroutine\<close>

text \<open>What \<open>coroutine_new\<close> does to the map of slots and the queue.\<close>

definition fresh_co :: "'f \<Rightarrow> 'f coroutine" where
  "fresh_co f = \<lparr>co_func = f, co_cap = 0, co_size = 0, co_state = COROUTINE_READY, co_stack = None\<rparr>"

lemma fresh_co_ok: "co_ok (fresh_co f)" "runnable (fresh_co f)" "task_of (fresh_co f) = Ready f"
  "co_state (fresh_co f) = COROUTINE_READY"
  by (simp_all add: fresh_co_def co_ok_def stack_block_def runnable_def task_of_def)

lemma may_run_insert:
  "runnable C \<Longrightarrow> may_run (m(cid \<mapsto> C)) = insert cid (may_run m)"
  "\<not> runnable C \<Longrightarrow> may_run (m(cid \<mapsto> C)) = may_run m - {cid}"
  "may_run (m(cid := None)) = may_run m - {cid}"
  by (auto simp: may_run_def)

text \<open>Putting a new coroutine into a free slot of the table and its number into the queue.\<close>

lemma place_ok:
  assumes "queue_ok S" and "table_ok S'" and "slot S' = (slot S)(cid \<mapsto> C)" and "slot S cid = None" and "runnable C"
    and "sc_active_list S' = sc_active_list S" and "card (dom (slot S)) < 2 ^ 27" and "\<forall>k. malloc_ok env k"
  obtains al where "push_active env cid S' = Some (S'\<lparr>sc_active_list := al\<rparr>)"
    and "queue_ok (S'\<lparr>sc_active_list := al\<rparr>)" and "ids al = ids (sc_active_list S) @ [cid]"
proof -
  note Q = assms(1) [unfolded queue_ok_ids]
  have "cid \<in> dom (slot S')" using assms(3) by simp
  then have "0 \<le> cid" "cid < 2 ^ 29" using dom_slot [of S'] assms(2) by (auto simp: table_ok_def)
  then have "- (2 ^ 31) \<le> cid" "cid < 2 ^ 31" by simp_all
  moreover have "length (ids (sc_active_list S)) < 2 ^ 27" using queue_length [OF assms(1)] assms(7) by linarith
  ultimately obtain al where al: "ox_stack_push env (sc_active_list S) (int_bytes cid) = Some (True, al)"
    "int_stack al" "ids al = ids (sc_active_list S) @ [cid]"
    using push_ids [OF _ assms(8)] Q by metis
  have "cid \<notin> may_run (slot S)" using assms(4) by (simp add: may_run_def)
  then have "queue_ok (S'\<lparr>sc_active_list := al\<rparr>)"
    using al(2,3) Q by (simp add: queue_ok_ids assms(3) may_run_insert assms(5))
  with al that show ?thesis by (simp add: push_active_def assms(6))
qed

lemma coroutine_new_ok:
  assumes "table_ok S" and "queue_ok S" and "card (dom (slot S)) < 2 ^ 27" and "\<forall>k. malloc_ok env k"
  obtains cid S' where "coroutine_new env f S = Some (cid, S')" and "table_ok S'" and "queue_ok S'"
    and "slot S cid = None" and "slot S' = (slot S)(cid \<mapsto> fresh_co f)" and "active S' = active S @ [cid]"
    and "sc_running S' = sc_running S" and "sc_stack S' = sc_stack S" and "0 \<le> cid"
proof -
  have t: "int (length (sc_cos S)) = sc_cap S" "map_ok (sc_cap S) (sc_nco S) (slot S)"
    using assms(1) by (simp_all add: table_ok_map)
  have new: "co_new env f = Some (fresh_co f)" using assms(4) by (simp add: co_new_def malloc_def fresh_co_def)
  show ?thesis
  proof (cases "sc_nco S \<ge> sc_cap S")
    case True
    let ?n = "sc_cap S" and ?cos = "sc_cos S @ replicate (nat (sc_cap S)) None"
    let ?S = "S\<lparr>sc_cos := ?cos[nat ?n := Some (fresh_co f)], sc_cap := ?n * 2, sc_nco := sc_nco S + 1\<rparr>"
    have n: "16 \<le> ?n" "?n < 2 ^ 27" using t True assms(3) by (auto simp: map_ok_def)
    have free: "slot S ?n = None" by (simp add: slot_def)
    have slot: "slot ?S = (slot S)(?n \<mapsto> fresh_co f)"
    proof
      fix j
      have len: "nat ?n = length (sc_cos S)" using t(1) by simp
      have "?cos[nat ?n := Some (fresh_co f)] ! nat j =
          (if j = ?n then Some (fresh_co f) else if j < ?n then sc_cos S ! nat j else None)" if "0 \<le> j" "j < ?n * 2"
        using that n(1) unfolding len
        by (auto simp: list_update_append nth_append nth_list_update t(1) [symmetric])
      then show "slot ?S j = ((slot S)(?n \<mapsto> fresh_co f)) j" using n(1) by (auto simp: slot_def)
    qed
    have "map_ok (?n * 2) (sc_nco S + 1) (slot ?S)"
      using map_ok_insert [OF t(2) finite_slot free fresh_co_ok(1)] n unfolding slot by (simp add: map_ok_def)
    then have T: "table_ok ?S" using t(1) n by (simp add: table_ok_map)
    from place_ok [OF assms(2) T slot free fresh_co_ok(2) _ assms(3,4)] obtain al where
      al: "push_active env ?n ?S = Some (?S\<lparr>sc_active_list := al\<rparr>)" "queue_ok (?S\<lparr>sc_active_list := al\<rparr>)"
        "ids al = ids (sc_active_list S) @ [?n]" by auto
    have "c_int (?n * 2) = Some (?n * 2)" by (rule c_int_fits) (use n in simp_all)
    note int = this
    have "coroutine_new env f S = Some (?n, ?S\<lparr>sc_active_list := al\<rparr>)"
      using True al(1) assms(4) by (simp add: coroutine_new_def new malloc_def Let_def int)
    then show ?thesis
      using T al(2,3) free slot n
      by (intro that [of ?n "?S\<lparr>sc_active_list := al\<rparr>"]) (simp_all add: table_ok_map active_def ids_def)
  next
    case False
    then obtain cid where cid: "find_slot S 0 (nat (sc_cap S)) = Some cid" "0 \<le> cid" "cid < sc_cap S" "slot S cid = None"
      using find_slot_free [OF assms(1)] by (metis linorder_not_le)
    let ?S = "S\<lparr>sc_cos := (sc_cos S)[nat cid := Some (fresh_co f)], sc_nco := sc_nco S + 1\<rparr>"
    have slot: "slot ?S = (slot S)(cid \<mapsto> fresh_co f)" using slot_update [OF t(1) cid(2,3)] by simp
    have "map_ok (sc_cap S) (sc_nco S + 1) (slot ?S)"
      unfolding slot by (rule map_ok_insert [OF t(2) finite_slot cid(4) fresh_co_ok(1)])
    then have T: "table_ok ?S" using t(1) by (simp add: table_ok_map)
    from place_ok [OF assms(2) T slot cid(4) fresh_co_ok(2) _ assms(3,4)] obtain al where
      al: "push_active env cid ?S = Some (?S\<lparr>sc_active_list := al\<rparr>)" "queue_ok (?S\<lparr>sc_active_list := al\<rparr>)"
        "ids al = ids (sc_active_list S) @ [cid]" by auto
    have "coroutine_new env f S = Some (cid, ?S\<lparr>sc_active_list := al\<rparr>)"
      using False al(1) by (simp add: coroutine_new_def new cid(1))
    then show ?thesis
      using T al(2,3) cid(2,4) slot
      by (intro that [of cid "?S\<lparr>sc_active_list := al\<rparr>"]) (simp_all add: table_ok_map active_def ids_def)
  qed
qed

section \<open>Entering and leaving\<close>

lemma slot_range: "slot S cid = Some C \<Longrightarrow> 0 \<le> cid \<and> cid < sc_cap S \<and> sc_cos S ! nat cid = Some C"
  by (auto simp: slot_def split: if_splits)

lemma set_slot:
  assumes "table_ok S" and "slot S cid = Some C" and "co_ok C'"
  shows "slot (S\<lparr>sc_cos := (sc_cos S)[nat cid := Some C']\<rparr>) = (slot S)(cid \<mapsto> C')"
    and "table_ok (S\<lparr>sc_cos := (sc_cos S)[nat cid := Some C']\<rparr>)"
proof -
  have t: "int (length (sc_cos S)) = sc_cap S" "map_ok (sc_cap S) (sc_nco S) (slot S)"
    using assms(1) by (simp_all add: table_ok_map)
  show *: "slot (S\<lparr>sc_cos := (sc_cos S)[nat cid := Some C']\<rparr>) = (slot S)(cid \<mapsto> C')"
    using slot_update [OF t(1)] slot_range [OF assms(2)] by blast
  show "table_ok (S\<lparr>sc_cos := (sc_cos S)[nat cid := Some C']\<rparr>)"
    using t map_ok_change [OF t(2) assms(2,3)] by (simp add: table_ok_map *)
qed

lemma run_ok_running:
  assumes "run_ok S" and "sc_running S \<noteq> -1"
  obtains C where "slot S (sc_running S) = Some C" and "co_state C = COROUTINE_RUNNING" and "0 \<le> sc_running S"
    and "sc_cos S ! nat (sc_running S) = Some C"
proof -
  obtain C where "slot S (sc_running S) = Some C" "co_state C = COROUTINE_RUNNING"
    using assms unfolding run_ok_def by blast
  with slot_range that show ?thesis by blast
qed

text \<open>The front of the queue gets control.\<close>

lemma enter_slot_ok:
  assumes "table_ok S" and "queue_ok S" and "run_ok S" and "sc_running S = -1"
    and "ids (sc_active_list S) = cid # q" and "slot S cid = Some C" and "int_stack al" and "ids al = q"
  shows "table_ok (enter cid C (S\<lparr>sc_active_list := al, sc_stack := stk\<rparr>))"
    and "queue_ok (enter cid C (S\<lparr>sc_active_list := al, sc_stack := stk\<rparr>))"
    and "run_ok (enter cid C (S\<lparr>sc_active_list := al, sc_stack := stk\<rparr>))"
    and "slot (enter cid C (S\<lparr>sc_active_list := al, sc_stack := stk\<rparr>)) =
      (slot S)(cid \<mapsto> C\<lparr>co_state := COROUTINE_RUNNING\<rparr>)"
proof -
  let ?C = "C\<lparr>co_state := COROUTINE_RUNNING\<rparr>"
  let ?S = "enter cid C (S\<lparr>sc_active_list := al, sc_stack := stk\<rparr>)"
  have "co_ok C" using assms(1,6) by (auto simp: table_ok_def)
  then have ok: "co_ok ?C" by (simp add: co_ok_def stack_block_def)
  have cid: "0 \<le> cid" using slot_range [OF assms(6)] by simp
  note U = set_slot [OF assms(1,6) ok]
  show slot: "slot ?S = (slot S)(cid \<mapsto> ?C)"
    unfolding U(1) [symmetric] by (rule slot_cong) (simp_all add: enter_def)
  show "table_ok ?S" using U(2) unfolding table_ok_map slot by (simp add: enter_def U(1))
  show "queue_ok ?S"
    using assms(2,5,7,8) unfolding queue_ok_ids slot
    by (auto simp: enter_def may_run_insert runnable_def)
  show "run_ok ?S" using assms(3,4) cid unfolding run_ok_def slot by (auto simp: enter_def)
qed

lemma leave_ok:
  assumes "table_ok S" and "run_ok S" and "sc_running S \<noteq> -1" and "length (sc_stack S) = STACK_SIZE"
    and "depth \<le> STACK_SIZE" and "\<forall>k. malloc_ok env k" and "st = COROUTINE_SUSPEND \<or> st = COROUTINE_BLOCK"
  obtains C C' where "slot S (sc_running S) = Some C" and "co_state C = COROUTINE_RUNNING"
    and "leave env depth st S = Some (sc_running S, S\<lparr>sc_cos := (sc_cos S)[nat (sc_running S) := Some C']\<rparr>)"
    and "co_ok C'" and "co_state C' = st" and "co_func C' = co_func C" and "frame C' = drop (STACK_SIZE - depth) (sc_stack S)"
proof -
  obtain C where C: "slot S (sc_running S) = Some C" "co_state C = COROUTINE_RUNNING" "0 \<le> sc_running S"
    "sc_cos S ! nat (sc_running S) = Some C"
    using run_ok_running [OF assms(2,3)] .
  have "co_ok C" using assms(1) C(1) by (auto simp: table_ok_def)
  then obtain C1 where C1: "save_stack env (sc_stack S) depth C = Some C1" "co_ok C1" "co_func C1 = co_func C"
    "frame C1 = drop (STACK_SIZE - depth) (sc_stack S)"
    using save_stack_ok [OF _ assms(4,5,6) C(2)] by metis
  show ?thesis
    by (rule that [OF C(1,2), of "C1\<lparr>co_state := st\<rparr>"])
      (use C1 C(3,4) assms(7) in \<open>auto simp: leave_def Let_def co_ok_def stack_block_def frame_def\<close>)
qed

section \<open>Simulation\<close>

lemma tk_update:
  "map_option task_of \<circ> m(x \<mapsto> C) = (map_option task_of \<circ> m)(x \<mapsto> task_of C)"
  "map_option task_of \<circ> m(x := None) = (map_option task_of \<circ> m)(x := None)"
  by auto

definition spawns :: "'f co_op list \<Rightarrow> nat" where
  "spawns ps = length (filter (\<lambda>p. case p of Spawn _ \<Rightarrow> True | _ \<Rightarrow> False) ps)"

definition simulates :: "heap_env \<Rightarrow> 'f co_op \<Rightarrow> 'f co_sys \<Rightarrow> bool" where
  "simulates env p y \<longleftrightarrow> (\<exists>r y'. co_step env p y = Some (r, y') \<and> co_inv y' \<and>
     sched_spec p r (tasks_of y) = Some (tasks_of y') \<and>
     card (dom (slot (sy_S y'))) \<le> card (dom (slot (sy_S y))) + spawns [p])"

lemma simulatesI:
  assumes "co_step env p y = Some (r, y')" and "co_inv y'" and "sched_spec p r (tasks_of y) = Some (tasks_of y')"
    and "card (dom (slot (sy_S y'))) \<le> card (dom (slot (sy_S y))) + spawns [p]"
  shows "simulates env p y"
  using assms by (auto simp: simulates_def)

lemma spawn_simulates:
  assumes "co_inv y" and "card (dom (slot (sy_S y))) < 2 ^ 27" and "\<forall>k. malloc_ok env k"
  shows "simulates env (Spawn f) y"
proof -
  let ?S = "sy_S y"
  have inv: "table_ok ?S" "queue_ok ?S" "run_ok ?S" using assms(1) by (simp_all add: co_inv_def)
  obtain cid S' where N: "coroutine_new env f ?S = Some (cid, S')" "table_ok S'" "queue_ok S'" "slot ?S cid = None"
    "slot S' = (slot ?S)(cid \<mapsto> fresh_co f)" "active S' = active ?S @ [cid]" "sc_running S' = sc_running ?S"
    "sc_stack S' = sc_stack ?S" "0 \<le> cid"
    by (rule coroutine_new_ok [OF inv(1,2) assms(2,3), of f])
  have "sc_running ?S \<noteq> cid" using inv(3) [unfolded run_ok_def, rule_format, of cid] N(4,9) by auto
  then have "run_ok S'" using inv(3) unfolding run_ok_def N(5,7) by (auto simp: fresh_co_ok)
  then have "co_inv (y\<lparr>sy_S := S'\<rparr>)" using assms(1) N(2,3,8) by (simp add: co_inv_def)
  moreover have "sched_spec (Spawn f) (Some cid) (tasks_of y) = Some (tasks_of (y\<lparr>sy_S := S'\<rparr>))"
    using N(4,6,7,8) by (simp add: tasks_of_def Let_def N(5) tk_update fresh_co_ok)
  moreover have "card (dom (slot S')) \<le> card (dom (slot ?S)) + 1" by (simp add: N(5) card_insert_if)
  ultimately show ?thesis
    using N(1) by (intro simulatesI [of _ _ _ "Some cid" "y\<lparr>sy_S := S'\<rparr>"]) (simp_all add: spawns_def)
qed

lemma schedule_simulates:
  assumes "co_inv y"
  shows "simulates env Schedule y"
proof -
  let ?S = "sy_S y"
  have inv: "table_ok ?S" "queue_ok ?S" "run_ok ?S" "length (sc_stack ?S) = STACK_SIZE"
    using assms by (simp_all add: co_inv_def)
  have ist: "int_stack (sc_active_list ?S)" using inv(2) by (simp add: queue_ok_ids)
  then have num: "ox_stack_num (sc_active_list ?S) > 0 \<longleftrightarrow> ids (sc_active_list ?S) \<noteq> []"
    by (simp add: int_stack_def num_ids)
  show ?thesis
  proof (cases "sc_running ?S = -1")
    case False
    then show ?thesis
      using assms by (intro simulatesI [of _ _ _ None y]) (simp_all add: tasks_of_def Let_def)
  next
    case True
    show ?thesis
    proof (cases "ids (sc_active_list ?S)")
      case Nil
      then have "coroutine_schedule ?S = Some ?S" using num by (simp add: coroutine_schedule_def)
      then show ?thesis
        using assms True Nil
        by (intro simulatesI [of _ _ _ None "\<lparr>sy_S = ?S, sy_depth = entered_depth ?S\<rparr>"])
          (simp_all add: entered_depth_def co_inv_def tasks_of_def Let_def active_def ids_def)
    next
      case (Cons cid q)
      then have "cid \<in> may_run (slot ?S)" using inv(2) by (auto simp: queue_ok_ids)
      then obtain C where C: "slot ?S cid = Some C" "runnable C" by (auto simp: may_run_def)
      then have rng: "0 \<le> cid" "cid < sc_cap ?S" "sc_cos ?S ! nat cid = Some C" using slot_range by blast+
      have ok: "co_ok C" using inv(1) C(1) by (auto simp: table_ok_def)
      obtain p al bs where pop: "ox_stack_popfront (sc_active_list ?S) = Some (Some p, al)" "int_stack al" "ids al = q"
        "mem_read (arr_buffer (stk_array al)) p 4 = Some bs" "int_of_bytes bs = cid"
        by (rule pop_ids [OF ist Cons])
      let ?stk = "if co_state C = COROUTINE_READY then sc_stack ?S
        else take (STACK_SIZE - nat (co_size C)) (sc_stack ?S) @ frame C"
      let ?S' = "enter cid C (?S\<lparr>sc_active_list := al, sc_stack := ?stk\<rparr>)"
      have goto: "coroutine_schedule ?S = coroutine_goto (?S\<lparr>sc_active_list := al\<rparr>) cid"
        using num Cons pop by (simp add: coroutine_schedule_def)
      have fr: "length (frame C) = nat (co_size C)" using ok by (auto simp: frame_def co_ok_def)
      have sz: "nat (co_size C) \<le> STACK_SIZE" using ok by (auto simp: co_ok_def)
      have len: "length ?stk = STACK_SIZE" using inv(4) fr sz by simp
      have "coroutine_goto (?S\<lparr>sc_active_list := al\<rparr>) cid = Some ?S'"
      proof (cases "co_state C = COROUTINE_READY")
        case R: True
        have "?S\<lparr>sc_active_list := al\<rparr> = ?S\<lparr>sc_active_list := al, sc_stack := sc_stack ?S\<rparr>" by simp
        with R rng True show ?thesis by (simp add: coroutine_goto_def)
      next
        case False
        then have st: "co_state C = COROUTINE_SUSPEND" using C(2) by (simp add: runnable_def)
        have "mem_read (stack_block C) 0 (nat (co_size C)) = Some (frame C)"
          using ok by (auto simp: mem_read_def frame_def co_ok_def)
        moreover have "mem_write (sc_stack ?S) (Some (STACK_SIZE - nat (co_size C))) (frame C) = Some ?stk"
          using inv(4) fr sz False by (simp add: mem_write_def)
        ultimately show ?thesis using st rng True by (simp add: coroutine_goto_def)
      qed
      then have S': "coroutine_schedule ?S = Some ?S'" using goto by simp
      note E = enter_slot_ok [OF inv(1-3) True Cons C(1) pop(2,3), of ?stk]
      have run: "sc_running ?S' = cid" "sc_stack ?S' = ?stk" "active ?S' = q"
        using pop(3) by (simp_all add: enter_def active_def ids_def)
      have dep: "entered_depth ?S' = nat (co_size C)"
      proof -
        have "sc_cos ?S' ! nat cid = Some (C\<lparr>co_state := COROUTINE_RUNNING\<rparr>)"
          using slot_range [of ?S' cid] unfolding E(4) by simp
        then show ?thesis using rng(1) by (simp add: entered_depth_def run(1))
      qed
      have "co_inv \<lparr>sy_S = ?S', sy_depth = entered_depth ?S'\<rparr>"
        using E(1-3) run(2) len dep sz by (simp only: co_inv_def co_sys.select_convs simp_thms)
      moreover have "sched_spec Schedule None (tasks_of y) = Some (tasks_of \<lparr>sy_S = ?S', sy_depth = entered_depth ?S'\<rparr>)"
      proof -
        have t: "tk (tasks_of y) cid = Some (task_of C)" "tq (tasks_of y) = cid # q" "tlive (tasks_of y) = None"
          using C(1) Cons True by (simp_all add: tasks_of_def Let_def active_def ids_def)
        have "task_of (C\<lparr>co_state := COROUTINE_RUNNING\<rparr>) = Running (co_func C)" by (simp add: task_of_def)
        then have t': "tasks_of \<lparr>sy_S = ?S', sy_depth = entered_depth ?S'\<rparr> =
            \<lparr>tk = (tk (tasks_of y))(cid \<mapsto> Running (co_func C)), tq = q,
             tlive = Some (cid, drop (STACK_SIZE - nat (co_size C)) ?stk)\<rparr>"
          using rng(1) by (simp add: tasks_of_def Let_def dep run E(4) tk_update)
        show ?thesis
        proof (cases "co_state C = COROUTINE_READY")
          case R: True
          then have "drop (STACK_SIZE - nat (co_size C)) ?stk = []" using ok inv(4) by (simp add: co_ok_def)
          with R t t' show ?thesis by (simp add: task_of_def)
        next
          case False
          then have "co_state C = COROUTINE_SUSPEND" using C(2) by (simp add: runnable_def)
          moreover have "drop (STACK_SIZE - nat (co_size C)) ?stk = frame C" using False inv(4) by simp
          ultimately show ?thesis using t t' by (simp add: task_of_def)
        qed
      qed
      moreover have "card (dom (slot ?S')) \<le> card (dom (slot ?S))" using C(1) by (simp add: E(4) insert_absorb domI)
      moreover have "co_step env Schedule y = Some (None, \<lparr>sy_S = ?S', sy_depth = entered_depth ?S'\<rparr>)"
        using S' True by simp
      ultimately show ?thesis
        by (intro simulatesI [of _ _ _ None "\<lparr>sy_S = ?S', sy_depth = entered_depth ?S'\<rparr>"])
          (simp_all only: co_sys.select_convs trans_le_add1)
    qed
  qed
qed

text \<open>The running coroutine leaves: what is common to yielding and blocking.\<close>

lemma not_running:
  assumes "co_inv y" and "sc_running (sy_S y) = -1" and "p \<in> {Yield, Block, Finish} \<or> (\<exists>fr. p = Compute fr)"
  shows "simulates env p y"
  using assms by (intro simulatesI [of _ _ _ None y]) (auto simp: tasks_of_def Let_def)

lemma task_of_running: "co_state C = COROUTINE_RUNNING \<Longrightarrow> task_of C = Running (co_func C)"
  by (simp add: task_of_def)

lemma run_ok_left:
  assumes "run_ok S" and "slot S' = (slot S)(sc_running S := c)" and "sc_running S' = -1"
    and "\<forall>C. c = Some C \<longrightarrow> co_state C \<noteq> COROUTINE_RUNNING"
  shows "run_ok S'"
  using assms by (auto simp: run_ok_def)

lemma yield_simulates:
  assumes "co_inv y" and "card (dom (slot (sy_S y))) < 2 ^ 27" and "\<forall>k. malloc_ok env k"
  shows "simulates env Yield y"
proof (cases "sc_running (sy_S y) = -1")
  case True
  with assms(1) show ?thesis by (simp add: not_running)
next
  case False
  let ?S = "sy_S y"
  let ?r = "sc_running ?S"
  have inv: "table_ok ?S" "queue_ok ?S" "run_ok ?S" "length (sc_stack ?S) = STACK_SIZE" "sy_depth y \<le> STACK_SIZE"
    using assms(1) by (simp_all add: co_inv_def)
  obtain C C' where L: "slot ?S ?r = Some C" "co_state C = COROUTINE_RUNNING"
    "leave env (sy_depth y) COROUTINE_SUSPEND ?S = Some (?r, ?S\<lparr>sc_cos := (sc_cos ?S)[nat ?r := Some C']\<rparr>)"
    "co_ok C'" "co_state C' = COROUTINE_SUSPEND" "co_func C' = co_func C"
    "frame C' = drop (STACK_SIZE - sy_depth y) (sc_stack ?S)"
    using leave_ok [OF inv(1,3) False inv(4,5) assms(3)] by metis
  let ?S1 = "?S\<lparr>sc_cos := (sc_cos ?S)[nat ?r := Some C']\<rparr>"
  note U = set_slot [OF inv(1) L(1,4)]
  have C': "runnable C'" "\<not> runnable C" using L(2,5) by (simp_all add: runnable_def)
  have notin: "?r \<notin> may_run (slot ?S)" using L(1) C'(2) by (simp add: may_run_def)
  have len: "length (ids (sc_active_list ?S)) < 2 ^ 27" using queue_length [OF inv(2)] assms(2) by linarith
  have r: "- (2 ^ 31) \<le> ?r" "?r < 2 ^ 31" using slot_range [OF L(1)] inv(1) by (auto simp: table_ok_def)
  have ist: "int_stack (sc_active_list ?S)" using inv(2) by (simp add: queue_ok_ids)
  obtain al where al: "ox_stack_push env (sc_active_list ?S) (int_bytes ?r) = Some (True, al)" "int_stack al"
    "ids al = ids (sc_active_list ?S) @ [?r]"
    by (rule push_ids [OF ist assms(3) len r])
  let ?S2 = "?S1\<lparr>sc_active_list := al, sc_running := -1\<rparr>"
  have Y: "coroutine_yield env (sy_depth y) ?S = Some ?S2"
    using L(3) al(1) by (simp add: coroutine_yield_def push_active_def)
  have slot: "slot ?S2 = (slot ?S)(?r \<mapsto> C')" using U(1) by simp
  have "table_ok ?S2" using U(2) by (simp add: table_ok_map)
  moreover have "queue_ok ?S2"
    using al(2,3) inv(2) notin unfolding queue_ok_ids slot by (simp add: may_run_insert C'(1))
  moreover have "run_ok ?S2" by (rule run_ok_left [OF inv(3) slot]) (simp_all add: L(5))
  ultimately have "co_inv \<lparr>sy_S = ?S2, sy_depth = 0\<rparr>" using inv(4) by (simp add: co_inv_def)
  moreover have "task_of C' = Suspended (co_func C) (drop (STACK_SIZE - sy_depth y) (sc_stack ?S))"
    using L(5-7) by (simp add: task_of_def)
  then have "sched_spec Yield None (tasks_of y) = Some (tasks_of \<lparr>sy_S = ?S2, sy_depth = 0\<rparr>)"
    using False L(1) al(3) task_of_running [OF L(2)]
    by (simp add: tasks_of_def Let_def U(1) tk_update active_def ids_def)
  moreover have "card (dom (slot ?S2)) \<le> card (dom (slot ?S))" using L(1) by (simp add: slot insert_absorb domI del: slot_other)
  ultimately show ?thesis using Y False by (intro simulatesI [of _ _ _ None "\<lparr>sy_S = ?S2, sy_depth = 0\<rparr>"]) simp_all
qed

lemma block_simulates:
  assumes "co_inv y" and "\<forall>k. malloc_ok env k"
  shows "simulates env Block y"
proof (cases "sc_running (sy_S y) = -1")
  case True
  with assms(1) show ?thesis by (simp add: not_running)
next
  case False
  let ?S = "sy_S y"
  let ?r = "sc_running ?S"
  have inv: "table_ok ?S" "queue_ok ?S" "run_ok ?S" "length (sc_stack ?S) = STACK_SIZE" "sy_depth y \<le> STACK_SIZE"
    using assms(1) by (simp_all add: co_inv_def)
  obtain C C' where L: "slot ?S ?r = Some C" "co_state C = COROUTINE_RUNNING"
    "leave env (sy_depth y) COROUTINE_BLOCK ?S = Some (?r, ?S\<lparr>sc_cos := (sc_cos ?S)[nat ?r := Some C']\<rparr>)"
    "co_ok C'" "co_state C' = COROUTINE_BLOCK" "co_func C' = co_func C"
    "frame C' = drop (STACK_SIZE - sy_depth y) (sc_stack ?S)"
    using leave_ok [OF inv(1,3) False inv(4,5) assms(2)] by metis
  let ?S2 = "?S\<lparr>sc_cos := (sc_cos ?S)[nat ?r := Some C'], sc_running := -1\<rparr>"
  note U = set_slot [OF inv(1) L(1,4)]
  have Y: "coroutine_block env (sy_depth y) ?S = Some ?S2" using L(3) by (simp add: coroutine_block_def)
  have slot: "slot ?S2 = (slot ?S)(?r \<mapsto> C')" using U(1) by simp
  have "\<not> runnable C'" "\<not> runnable C" using L(2,5) by (simp_all add: runnable_def)
  then have "may_run (slot ?S2) = may_run (slot ?S)"
    using L(1) unfolding slot by (auto simp: may_run_insert) (simp add: may_run_def)
  then have "queue_ok ?S2" using inv(2) by (simp add: queue_ok_ids)
  moreover have "table_ok ?S2" using U(2) by (simp add: table_ok_map)
  moreover have "run_ok ?S2" by (rule run_ok_left [OF inv(3) slot]) (simp_all add: L(5))
  ultimately have "co_inv \<lparr>sy_S = ?S2, sy_depth = 0\<rparr>" using inv(4) by (simp add: co_inv_def)
  moreover have "task_of C' = Blocked (co_func C) (drop (STACK_SIZE - sy_depth y) (sc_stack ?S))"
    using L(5-7) by (simp add: task_of_def)
  then have "sched_spec Block None (tasks_of y) = Some (tasks_of \<lparr>sy_S = ?S2, sy_depth = 0\<rparr>)"
    using False L(1) task_of_running [OF L(2)] by (simp add: tasks_of_def Let_def U(1) tk_update active_def)
  moreover have "card (dom (slot ?S2)) \<le> card (dom (slot ?S))" using L(1) by (simp add: slot insert_absorb domI del: slot_other)
  ultimately show ?thesis using Y False by (intro simulatesI [of _ _ _ None "\<lparr>sy_S = ?S2, sy_depth = 0\<rparr>"]) simp_all
qed

lemma finish_simulates:
  assumes "co_inv y"
  shows "simulates env Finish y"
proof (cases "sc_running (sy_S y) = -1")
  case True
  with assms show ?thesis by (simp add: not_running)
next
  case False
  let ?S = "sy_S y"
  let ?r = "sc_running ?S" and ?S2 = "mainfunc_return (sy_S y)"
  have inv: "table_ok ?S" "queue_ok ?S" "run_ok ?S" using assms by (simp_all add: co_inv_def)
  obtain C where C: "slot ?S ?r = Some C" "co_state C = COROUTINE_RUNNING"
    using run_ok_running [OF inv(3) False] .
  have t: "int (length (sc_cos ?S)) = sc_cap ?S" "map_ok (sc_cap ?S) (sc_nco ?S) (slot ?S)"
    using inv(1) by (simp_all add: table_ok_map)
  have slot: "slot ?S2 = (slot ?S)(?r := None)"
    using slot_update [OF t(1)] slot_range [OF C(1)] by (simp add: mainfunc_return_def)
  have "table_ok ?S2"
    using map_ok_delete [OF t(2) finite_slot C(1)] t(1) unfolding table_ok_map slot by (simp add: mainfunc_return_def)
  moreover have "?r \<notin> may_run (slot ?S)" using C by (simp add: may_run_def runnable_def)
  then have "queue_ok ?S2" using inv(2) unfolding queue_ok_ids slot by (simp add: mainfunc_return_def may_run_insert)
  moreover have "run_ok ?S2" by (rule run_ok_left [OF inv(3) slot]) (simp_all add: mainfunc_return_def)
  ultimately have "co_inv \<lparr>sy_S = ?S2, sy_depth = 0\<rparr>"
    using assms by (simp add: co_inv_def mainfunc_return_def)
  moreover have "sched_spec Finish None (tasks_of y) = Some (tasks_of \<lparr>sy_S = ?S2, sy_depth = 0\<rparr>)"
    using False by (simp add: tasks_of_def Let_def slot tk_update active_def) (simp add: mainfunc_return_def)
  moreover have "card (dom (slot ?S2)) \<le> card (dom (slot ?S))" unfolding slot by (rule card_mono) auto
  ultimately show ?thesis using False by (intro simulatesI [of _ _ _ None "\<lparr>sy_S = ?S2, sy_depth = 0\<rparr>"]) simp_all
qed

lemma compute_simulates:
  assumes "co_inv y"
  shows "simulates env (Compute fr) y"
proof (cases "sc_running (sy_S y) = -1 \<or> length fr > STACK_SIZE")
  case True
  with assms show ?thesis
    by (intro simulatesI [of _ _ _ None y]) (auto simp: tasks_of_def Let_def)
next
  case False
  let ?S = "(sy_S y)\<lparr>sc_stack := take (STACK_SIZE - length fr) (sc_stack (sy_S y)) @ fr\<rparr>"
  have len: "length (sc_stack (sy_S y)) = STACK_SIZE" using assms by (simp add: co_inv_def)
  have "co_inv \<lparr>sy_S = ?S, sy_depth = length fr\<rparr>"
    using assms False by (simp add: co_inv_def table_ok_map queue_ok_ids run_ok_def)
  moreover have "sched_spec (Compute fr) None (tasks_of y) = Some (tasks_of \<lparr>sy_S = ?S, sy_depth = length fr\<rparr>)"
    using False len by (simp add: tasks_of_def Let_def active_def)
  ultimately show ?thesis
    using False by (intro simulatesI [of _ _ _ None "\<lparr>sy_S = ?S, sy_depth = length fr\<rparr>"]) simp_all
qed

lemma step_simulates:
  assumes "co_inv y" and "card (dom (slot (sy_S y))) < 2 ^ 27" and "\<forall>k. malloc_ok env k"
  shows "simulates env p y"
  using spawn_simulates [OF assms] schedule_simulates [OF assms(1)] compute_simulates [OF assms(1)]
    yield_simulates [OF assms] block_simulates [OF assms(1,3)] finish_simulates [OF assms(1)]
  by (cases p) auto

lemma exec_simulates:
  assumes "co_inv y" and "card (dom (slot (sy_S y))) + spawns ps < 2 ^ 27" and "\<forall>k. malloc_ok env k"
  shows "\<exists>rs y'. co_exec env ps y = Some (rs, y') \<and> co_inv y' \<and> sched_run ps rs (tasks_of y) = Some (tasks_of y')"
  using assms(1,2)
proof (induction ps arbitrary: y)
  case Nil
  then show ?case by simp
next
  case (Cons p ps)
  have sp: "spawns (p # ps) = spawns [p] + spawns ps" by (simp add: spawns_def)
  have "card (dom (slot (sy_S y))) < 2 ^ 27" using Cons.prems(2) by simp
  from step_simulates [OF Cons.prems(1) this assms(3), of p] obtain r y1 where
    s: "co_step env p y = Some (r, y1)" "co_inv y1" "sched_spec p r (tasks_of y) = Some (tasks_of y1)"
      "card (dom (slot (sy_S y1))) \<le> card (dom (slot (sy_S y))) + spawns [p]"
    by (auto simp: simulates_def)
  have "card (dom (slot (sy_S y1))) + spawns ps < 2 ^ 27" using s(4) Cons.prems(2) sp by linarith
  from Cons.IH [OF s(2) this] s(1,3) show ?case by auto
qed

lemma open_ok:
  assumes "\<forall>k. malloc_ok env k"
  obtains S where "coroutine_open env = Some S" and "co_inv \<lparr>sy_S = S, sy_depth = 0\<rparr>"
    and "tasks_of \<lparr>sy_S = S, sy_depth = 0\<rparr> = no_tasks" and "dom (slot S) = {}"
proof -
  obtain a where a: "ox_array_new env 1024 4 = Some (Some a)"
    using assms by (simp add: ox_array_new_def malloc_def c_int_def)
  let ?al = "\<lparr>stk_array = a, stk_element_size = 4, stk_element_num = 1024, stk_front = 0, stk_num = 0\<rparr>"
  have al: "ox_stack_new env 1024 4 = Some (Some ?al)" using a assms by (simp add: ox_stack_new_def malloc_def)
  have ist: "int_stack ?al" "ids ?al = []"
    using array_new_ok [OF a] by (simp_all add: int_stack_def stack_inv_def ids_def elements_def ring_def)
  obtain m where m: "malloc env sizeof_schedule = Some m" "length m = sizeof_schedule" using assms by (simp add: malloc_def)
  let ?S = "\<lparr>sc_stack = take STACK_SIZE m, sc_nco = 0, sc_cap = DEFAULT_COROUTINE, sc_running = -1,
    sc_cos = replicate (nat DEFAULT_COROUTINE) None, sc_active_list = ?al\<rparr>"
  obtain m' where "malloc env (8 * nat DEFAULT_COROUTINE) = Some m'" using assms by (simp add: malloc_def)
  then have S: "coroutine_open env = Some ?S" by (simp add: coroutine_open_def m(1) al)
  have "replicate 16 None ! nat x = None" if "0 \<le> x" "x < 16" for x :: int
    using that by (intro nth_replicate) simp
  then have slot: "slot ?S = Map.empty" by (auto simp: slot_def DEFAULT_COROUTINE_def intro!: ext)
  have "length (sc_stack ?S) = STACK_SIZE" using m(2) by (simp add: STACK_SIZE_def sizeof_schedule_def)
  moreover have "table_ok ?S"
    unfolding table_ok_map slot by (simp add: map_ok_def DEFAULT_COROUTINE_def)
  moreover have "queue_ok ?S" using ist by (simp add: queue_ok_ids slot may_run_def)
  moreover have "run_ok ?S" by (simp add: run_ok_def slot)
  ultimately have "co_inv \<lparr>sy_S = ?S, sy_depth = 0\<rparr>" by (simp add: co_inv_def)
  moreover have "tasks_of \<lparr>sy_S = ?S, sy_depth = 0\<rparr> = no_tasks"
    using ist(2) by (simp add: tasks_of_def Let_def slot no_tasks_def active_def ids_def fun_eq_iff)
  ultimately show ?thesis using S slot that by simp
qed

text \<open>
  C17. A schedule that \<open>coroutine_open\<close> made behaves as a scheduler of tasks that own
  their frames, whatever the main program and the coroutines do: a new coroutine
  gets a number not in use, those that may run are entered in the order they
  became ready, a coroutine that is entered again finds on the shared stack the
  very bytes it left there, whatever ran in between, and one that returned or
  blocked is not entered. No assertion fails and no access leaves the table or
  the stacks. Fewer than \<open>2 ^ 27\<close> coroutines are made, and the heap serves requests.
\<close>

theorem coroutines_refine_scheduler:
  fixes ps :: "'f co_op list"
  assumes "\<forall>k. malloc_ok env k" and "spawns ps < 2 ^ 27"
  shows "\<exists>S rs y'. coroutine_open env = Some S \<and> co_exec env ps \<lparr>sy_S = S, sy_depth = 0\<rparr> = Some (rs, y') \<and>
    sched_run ps rs no_tasks = Some (tasks_of y')"
proof -
  obtain S :: "'f co_schedule" where S: "coroutine_open env = Some S" "co_inv \<lparr>sy_S = S, sy_depth = 0\<rparr>"
    "tasks_of \<lparr>sy_S = S, sy_depth = 0\<rparr> = no_tasks" "dom (slot S) = {}"
    by (rule open_ok [OF assms(1)])
  have "card (dom (slot S)) + spawns ps < 2 ^ 27" using assms(2) by (simp only: S(4) card.empty add_0)
  with exec_simulates [OF S(2), of ps env] S(1,3) assms(1) show ?thesis by auto
qed

lemma sched_run_Nil: "sched_run [] rs a = Some a' \<longleftrightarrow> rs = [] \<and> a' = a"
  by (cases rs) auto

lemma sched_run_Cons:
  "sched_run (p # ps) rs a = Some a' \<longleftrightarrow>
     (\<exists>r rs' a1. rs = r # rs' \<and> sched_spec p r a = Some a1 \<and> sched_run ps rs' a1 = Some a')"
  by (cases rs) (auto simp: bind_eq_Some_conv)

lemma sample_schedule:
  assumes "sched_run [Spawn ''a'', Spawn ''b'', Schedule, Compute [7], Yield, Schedule, Compute [8, 9], Yield, Schedule]
    rs no_tasks = Some a"
  shows "\<exists>i. rs ! 0 = Some i \<and> tlive a = Some (i, [7])"
proof -
  from assms obtain i j rs' where rs: "rs = Some i # Some j # rs'" "j \<noteq> i"
    "sched_run [Schedule, Compute [7], Yield, Schedule, Compute [8, 9], Yield, Schedule] rs'
       \<lparr>tk = [i \<mapsto> Ready ''a'', j \<mapsto> Ready ''b''], tq = [i, j], tlive = None\<rparr> = Some a"
    unfolding sched_run_Cons [of "Spawn _"] by (auto simp: no_tasks_def split: option.splits if_splits)
  from rs(3) have "tlive a = Some (i, [7])"
    by (auto simp: sched_run_Nil sched_run_Cons STACK_SIZE_def rs(2) rs(2) [symmetric])
  with rs(1) show ?thesis by simp
qed

theorem coroutines_refine_scheduler_witness:
  "\<exists>S rs y'. coroutine_open full_heap = Some S \<and>
     co_exec full_heap [Spawn ''a'', Spawn ''b'', Schedule, Compute [7], Yield, Schedule, Compute [8, 9], Yield, Schedule]
       \<lparr>sy_S = S, sy_depth = 0\<rparr> = Some (rs, y') \<and>
     (\<exists>i. rs ! 0 = Some i \<and> tlive (tasks_of y') = Some (i, [7]))"
proof -
  let ?ps = "[Spawn ''a'', Spawn ''b'', Schedule, Compute [7], Yield, Schedule, Compute [8, 9], Yield, Schedule]"
  have "\<forall>k. malloc_ok full_heap k" "spawns ?ps < 2 ^ 27" by (simp_all add: full_heap_def spawns_def)
  from coroutines_refine_scheduler [OF this] obtain S rs y' where
    *: "coroutine_open full_heap = Some S" "co_exec full_heap ?ps \<lparr>sy_S = S, sy_depth = 0\<rparr> = Some (rs, y')"
      "sched_run ?ps rs no_tasks = Some (tasks_of y')" by blast
  with sample_schedule show ?thesis by blast
qed

text \<open>
  In every state that a program of coroutines reaches the counters and lists of
  the schedule agree with its table: \<open>nco\<close> is the number of slots in use and at most
  \<open>cap\<close>, so that the search for a free slot ends; the active list names each
  coroutine that is ready or suspended once and no other; at most one coroutine
  is running, the one \<open>running\<close> names; and what is saved of each stack fits its
  block.
\<close>

theorem coroutine_invariant:
  fixes ps :: "'f co_op list"
  assumes "\<forall>k. malloc_ok env k" and "spawns ps < 2 ^ 27" and "coroutine_open env = Some S"
    and "co_exec env ps \<lparr>sy_S = S, sy_depth = 0\<rparr> = Some (rs, y')"
  shows "table_ok (sy_S y') \<and> queue_ok (sy_S y') \<and> run_ok (sy_S y') \<and> sc_nco (sy_S y') \<le> sc_cap (sy_S y')"
proof -
  obtain S' :: "'f co_schedule" where S': "coroutine_open env = Some S'" "co_inv \<lparr>sy_S = S', sy_depth = 0\<rparr>" "dom (slot S') = {}"
    by (rule open_ok [OF assms(1)])
  with assms(3) have S: "co_inv \<lparr>sy_S = S, sy_depth = 0\<rparr>" "dom (slot S) = {}" by simp_all
  have "card (dom (slot S)) + spawns ps < 2 ^ 27" using assms(2) by (simp only: S(2) card.empty add_0)
  with exec_simulates [OF S(1), of ps env] assms(1,4) have "co_inv y'" by auto
  moreover have "sc_nco (sy_S y') \<le> sc_cap (sy_S y')" if "table_ok (sy_S y')"
    using that by (auto simp: table_ok_def used_def) (metis length_filter_le of_nat_mono)
  ultimately show ?thesis by (simp add: co_inv_def)
qed

theorem coroutine_invariant_witness:
  "\<exists>S rs y'. coroutine_open full_heap = Some S \<and>
     co_exec full_heap [Spawn (1 :: nat), Schedule, Block] \<lparr>sy_S = S, sy_depth = 0\<rparr> = Some (rs, y') \<and>
     table_ok (sy_S y') \<and> queue_ok (sy_S y') \<and> run_ok (sy_S y')"
proof -
  let ?ps = "[Spawn (1 :: nat), Schedule, Block]"
  have h: "\<forall>k. malloc_ok full_heap k" "spawns ?ps < 2 ^ 27" by (simp_all add: full_heap_def spawns_def)
  obtain S :: "nat co_schedule" where S: "coroutine_open full_heap = Some S" "co_inv \<lparr>sy_S = S, sy_depth = 0\<rparr>"
    "dom (slot S) = {}" by (rule open_ok [OF h(1)])
  have "card (dom (slot S)) + spawns ?ps < 2 ^ 27" by (simp only: S(3)) (simp add: spawns_def)
  with exec_simulates [OF S(2), of ?ps full_heap] h(1) obtain rs y' where
    E: "co_exec full_heap ?ps \<lparr>sy_S = S, sy_depth = 0\<rparr> = Some (rs, y')" by auto
  from coroutine_invariant [OF h S(1) E] S(1) E show ?thesis by blast
qed

end
