(* ===== verification/Http_Format.thy ===== *)
theory Http_Format
  imports Brynet_Prelude "HOL-Library.Multiset"
begin

text \<open>
  The builders of query strings, requests and responses of
  \<open>net/http/HttpFormat.h\<close>. The reference is a reader of HTTP messages: a start
  line, header lines up to an empty one, and the body. What the builders print
  is read back with every part in its place.

  The iteration order of \<open>std::unordered_map\<close> is not specified: it is a parameter
  that rearranges the entries.
\<close>

section \<open>Builders\<close>

definition CRLF :: string where "CRLF = [CHR 0x0D, CHR 0x0A]"

text \<open>\<open>HttpQueryParameter\<close>: the state is the string built so far.\<close>

definition query_add :: "string \<Rightarrow> string \<Rightarrow> string" where
  "query_add v mParameter = mParameter @ v"

definition query_add_pair :: "string \<Rightarrow> string \<Rightarrow> string \<Rightarrow> string" where
  "query_add_pair k v mParameter =
     (let mParameter = (if length mParameter > 0 then mParameter @ ''&'' else mParameter)
      in mParameter @ k @ ''='' @ v)"

datatype HTTP_METHOD =
    HTTP_METHOD_HEAD | HTTP_METHOD_GET | HTTP_METHOD_POST | HTTP_METHOD_PUT | HTTP_METHOD_DELETE | HTTP_METHOD_MAX

fun method_index :: "HTTP_METHOD \<Rightarrow> nat" where
  "method_index HTTP_METHOD_HEAD = 0"
| "method_index HTTP_METHOD_GET = 1"
| "method_index HTTP_METHOD_POST = 2"
| "method_index HTTP_METHOD_PUT = 3"
| "method_index HTTP_METHOD_DELETE = 4"
| "method_index HTTP_METHOD_MAX = 5"

definition HttpMethodString :: "string list" where
  "HttpMethodString = [''HEAD'', ''GET'', ''POST'', ''PUT'', ''DELETE'']"

text \<open>\<open>std::unordered_map\<close>: the entries, one for each key.\<close>

type_synonym head_map = "(string \<times> string) list"

fun head_put :: "string \<Rightarrow> string \<Rightarrow> head_map \<Rightarrow> head_map" where
  "head_put k v [] = [(k, v)]"
| "head_put k v ((k', v') # m) = (if k = k' then (k, v) # m else (k', v') # head_put k v m)"

record HttpRequest =
  rq_mUrl :: string
  rq_mQuery :: string
  rq_mBody :: string
  rq_mMethod :: HTTP_METHOD
  rq_mHeadField :: head_map

text \<open>The assertion of \<open>setMethod\<close> excludes \<open>HEAD\<close> as well; \<open>None\<close> is its failure.\<close>

definition setMethod :: "HTTP_METHOD \<Rightarrow> HttpRequest \<Rightarrow> HttpRequest option" where
  "setMethod protocol r =
     (if method_index protocol > method_index HTTP_METHOD_HEAD \<and> method_index protocol < method_index HTTP_METHOD_MAX
      then Some (r\<lparr>rq_mMethod := protocol\<rparr>) else None)"

definition HttpRequest_new :: HttpRequest where
  "HttpRequest_new = \<lparr>rq_mUrl = [], rq_mQuery = [], rq_mBody = [], rq_mMethod = HTTP_METHOD_GET, rq_mHeadField = []\<rparr>"

definition rq_addHeadValue :: "string \<Rightarrow> string \<Rightarrow> HttpRequest \<Rightarrow> HttpRequest" where
  "rq_addHeadValue field v r = r\<lparr>rq_mHeadField := head_put field v (rq_mHeadField r)\<rparr>"

definition setHost :: "string \<Rightarrow> HttpRequest \<Rightarrow> HttpRequest" where
  "setHost host = rq_addHeadValue ''Host'' host"

definition setUrl :: "string \<Rightarrow> HttpRequest \<Rightarrow> HttpRequest" where
  "setUrl url r = r\<lparr>rq_mUrl := url\<rparr>"

definition setCookie :: "string \<Rightarrow> HttpRequest \<Rightarrow> HttpRequest" where
  "setCookie v = rq_addHeadValue ''Cookie'' v"

definition rq_setContentType :: "string \<Rightarrow> HttpRequest \<Rightarrow> HttpRequest" where
  "rq_setContentType v = rq_addHeadValue ''Content-Type'' v"

definition setQuery :: "string \<Rightarrow> HttpRequest \<Rightarrow> HttpRequest" where
  "setQuery query r = r\<lparr>rq_mQuery := query\<rparr>"

text \<open>\<open>std::to_string\<close> of a size.\<close>

definition digit_char :: "nat \<Rightarrow> char" where
  "digit_char d = ''0123456789'' ! d"

fun to_string :: "nat \<Rightarrow> string" where
  "to_string n = (if n < 10 then [digit_char n] else to_string (n div 10) @ [digit_char (n mod 10)])"

declare to_string.simps [simp del]

definition rq_setBody :: "string \<Rightarrow> HttpRequest \<Rightarrow> HttpRequest" where
  "rq_setBody body r = rq_addHeadValue ''Content-Length'' (to_string (length body)) (r\<lparr>rq_mBody := body\<rparr>)"

text \<open>The loop over the header fields that both \<open>getResult\<close>s have.\<close>

definition head_lines :: "head_map \<Rightarrow> string" where
  "head_lines vs = concat (map (\<lambda>v. fst v @ '': '' @ snd v @ CRLF) vs)"

definition rq_getResult :: "(head_map \<Rightarrow> head_map) \<Rightarrow> HttpRequest \<Rightarrow> string" where
  "rq_getResult order r =
     (let ret = (if method_index (rq_mMethod r) < method_index HTTP_METHOD_MAX
                 then HttpMethodString ! method_index (rq_mMethod r) else []);
          ret = ret @ '' '' @ rq_mUrl r;
          ret = (if rq_mQuery r \<noteq> [] then ret @ ''?'' @ rq_mQuery r else ret);
          ret = ret @ '' HTTP/1.1'' @ CRLF;
          ret = ret @ head_lines (order (rq_mHeadField r)) @ CRLF
      in if rq_mBody r \<noteq> [] then ret @ rq_mBody r else ret)"

datatype HTTP_RESPONSE_STATUS = NONE | OK

fun status_number :: "HTTP_RESPONSE_STATUS \<Rightarrow> nat" where
  "status_number NONE = 0"
| "status_number OK = 200"

record HttpResponse =
  rp_mStatus :: HTTP_RESPONSE_STATUS
  rp_mHeadField :: head_map
  rp_mBody :: string

definition HttpResponse_new :: HttpResponse where
  "HttpResponse_new = \<lparr>rp_mStatus = OK, rp_mHeadField = [], rp_mBody = []\<rparr>"

definition rp_setStatus :: "HTTP_RESPONSE_STATUS \<Rightarrow> HttpResponse \<Rightarrow> HttpResponse" where
  "rp_setStatus status r = r\<lparr>rp_mStatus := status\<rparr>"

definition rp_addHeadValue :: "string \<Rightarrow> string \<Rightarrow> HttpResponse \<Rightarrow> HttpResponse" where
  "rp_addHeadValue field v r = r\<lparr>rp_mHeadField := head_put field v (rp_mHeadField r)\<rparr>"

definition rp_setContentType :: "string \<Rightarrow> HttpResponse \<Rightarrow> HttpResponse" where
  "rp_setContentType v = rp_addHeadValue ''Content-Type'' v"

definition rp_setBody :: "string \<Rightarrow> HttpResponse \<Rightarrow> HttpResponse" where
  "rp_setBody body r = rp_addHeadValue ''Content-Length'' (to_string (length body)) (r\<lparr>rp_mBody := body\<rparr>)"

text \<open>The case for \<open>OK\<close> has no \<open>break\<close> and runs into the default.\<close>

definition rp_getResult :: "(head_map \<Rightarrow> head_map) \<Rightarrow> HttpResponse \<Rightarrow> string" where
  "rp_getResult order r =
     (let ret = ''HTTP/1.1 '' @ to_string (status_number (rp_mStatus r));
          ret = (case rp_mStatus r of OK \<Rightarrow> ret @ '' OK'' @ ''UNKNOWN'' | _ \<Rightarrow> ret @ ''UNKNOWN'');
          ret = ret @ CRLF;
          ret = ret @ head_lines (order (rp_mHeadField r)) @ CRLF
      in if rp_mBody r \<noteq> [] then ret @ rp_mBody r else ret)"

section \<open>A reader of messages\<close>

fun read_line :: "string \<Rightarrow> (string \<times> string) option" where
  "read_line (c # d # s) =
     (if [c, d] = CRLF then Some ([], s)
      else map_option (\<lambda>(l, rest). (c # l, rest)) (read_line (d # s)))"
| "read_line _ = None"

text \<open>A header line: the name up to the first colon, a space, the value.\<close>

definition read_field :: "string \<Rightarrow> (string \<times> string) option" where
  "read_field l =
     (let k = takeWhile (\<lambda>c. c \<noteq> CHR '':'') l; rest = dropWhile (\<lambda>c. c \<noteq> CHR '':'') l
      in if take 2 rest = '': '' then Some (k, drop 2 rest) else None)"

lemma read_line_shorter: "read_line s = Some (l, rest) \<Longrightarrow> length rest < length s"
proof (induction s arbitrary: l rest rule: read_line.induct)
  case (1 c d s)
  then show ?case by (cases "read_line (d # s)") (auto split: if_splits)
qed simp_all

function read_fields :: "string \<Rightarrow> (head_map \<times> string) option" where
  "read_fields s =
     (case read_line s of
        None \<Rightarrow> None
      | Some ([], rest) \<Rightarrow> Some ([], rest)
      | Some (c # l, rest) \<Rightarrow>
          do { f \<leftarrow> read_field (c # l); (fs, body) \<leftarrow> read_fields rest; Some (f # fs, body) })"
  by pat_completeness auto
termination
  by (relation "measure length") (auto dest: read_line_shorter)

declare read_fields.simps [simp del]

definition read_message :: "string \<Rightarrow> (string \<times> head_map \<times> string) option" where
  "read_message s =
     do { (start, rest) \<leftarrow> read_line s; (fs, body) \<leftarrow> read_fields rest; Some (start, fs, body) }"

text \<open>The parts of a request line.\<close>

definition read_request_line :: "string \<Rightarrow> (string \<times> string \<times> string \<times> string) option" where
  "read_request_line l =
     (let method = takeWhile (\<lambda>c. c \<noteq> CHR '' '') l; rest = drop (length method + 1) l;
          target = takeWhile (\<lambda>c. c \<noteq> CHR '' '') rest; version = drop (length target + 1) rest;
          url = takeWhile (\<lambda>c. c \<noteq> CHR ''?'') target
      in if length method < length l \<and> length target < length rest
         then Some (method, url, drop (length url + 1) target, version) else None)"

text \<open>The number that a string of digits stands for.\<close>

definition digit_step :: "nat option \<Rightarrow> char \<Rightarrow> nat option" where
  "digit_step acc c =
     do { n \<leftarrow> acc; d \<leftarrow> List.find (\<lambda>d. digit_char d = c) [0..<10]; Some (10 * n + d) }"

definition number_of :: "string \<Rightarrow> nat option" where
  "number_of s = (if s = [] then None else foldl digit_step (Some 0) s)"

section \<open>Reading back\<close>

lemma read_line_clean:
  "CHR 0x0D \<notin> set l \<Longrightarrow> read_line (l @ CRLF @ s) = Some (l, s)"
proof (induction l)
  case Nil
  then show ?case by (simp add: CRLF_def)
next
  case (Cons c l)
  obtain d t where d: "l @ CRLF @ s = d # t" by (cases l) (auto simp: CRLF_def)
  have "[c, d] \<noteq> CRLF" using Cons.prems by (auto simp: CRLF_def)
  moreover have "read_line (d # t) = Some (l, s)" using Cons d by simp
  ultimately show ?case using d by simp
qed

lemma read_field_clean:
  "CHR '':'' \<notin> set k \<Longrightarrow> read_field (k @ '': '' @ v) = Some (k, v)"
proof -
  assume "CHR '':'' \<notin> set k"
  then have k: "\<And>c. c \<in> set k \<Longrightarrow> c \<noteq> CHR '':''" by auto
  have "takeWhile (\<lambda>c. c \<noteq> CHR '':'') (k @ '': '' @ v) = k @ takeWhile (\<lambda>c. c \<noteq> CHR '':'') ('': '' @ v)"
    using k by (rule takeWhile_append2)
  moreover have "dropWhile (\<lambda>c. c \<noteq> CHR '':'') (k @ '': '' @ v) = dropWhile (\<lambda>c. c \<noteq> CHR '':'') ('': '' @ v)"
    using k by (rule dropWhile_append2)
  ultimately show ?thesis unfolding read_field_def by simp
qed

definition clean_field :: "string \<times> string \<Rightarrow> bool" where
  "clean_field v \<longleftrightarrow> CHR '':'' \<notin> set (fst v) \<and> CHR 0x0D \<notin> set (fst v) \<and> CHR 0x0D \<notin> set (snd v)"

lemma read_fields_clean:
  "list_all clean_field vs \<Longrightarrow> read_fields (head_lines vs @ CRLF @ body) = Some (vs, body)"
proof (induction vs)
  case Nil
  then show ?case
    using read_line_clean [of "[]" body] by (simp add: head_lines_def read_fields.simps [of "CRLF @ body"])
next
  case (Cons v vs)
  let ?l = "fst v @ '': '' @ snd v"
  have l: "CHR 0x0D \<notin> set ?l" "CHR '':'' \<notin> set (fst v)" using Cons.prems by (auto simp: clean_field_def)
  have s: "head_lines (v # vs) @ CRLF @ body = ?l @ CRLF @ head_lines vs @ CRLF @ body"
    by (simp add: head_lines_def)
  have "?l \<noteq> []" by simp
  then obtain c t where ct: "?l = c # t" by (meson neq_Nil_conv)
  have "read_field (c # t) = Some v" using read_field_clean [OF l(2), of "snd v"] ct by simp
  moreover have "read_line (?l @ CRLF @ head_lines vs @ CRLF @ body) = Some (c # t, head_lines vs @ CRLF @ body)"
    using read_line_clean [OF l(1)] by (simp only: ct)
  ultimately show ?case
    unfolding s by (subst read_fields.simps) (use Cons in simp)
qed

lemma find_digit: "d < 10 \<Longrightarrow> List.find (\<lambda>e. digit_char e = digit_char d) [0..<10] = Some d"
proof -
  assume "d < 10"
  then have "d \<in> {0, 1, 2, 3, 4, 5, 6, 7, 8, 9}" by auto
  then show ?thesis by (elim insertE emptyE) (simp_all add: digit_char_def upt_rec)
qed

lemma foldl_to_string: "foldl digit_step (Some 0) (to_string n) = Some n"
proof (induction n rule: to_string.induct)
  case (1 n)
  show ?case
  proof (cases "n < 10")
    case True
    then show ?thesis by (simp add: to_string.simps [of n] digit_step_def find_digit)
  next
    case False
    then have "foldl digit_step (Some 0) (to_string n) = digit_step (Some (n div 10)) (digit_char (n mod 10))"
      using 1 by (simp add: to_string.simps [of n])
    also have "\<dots> = Some n" by (simp add: digit_step_def find_digit)
    finally show ?thesis .
  qed
qed

lemma number_to_string: "number_of (to_string n) = Some n"
proof -
  have "to_string n \<noteq> []" by (simp add: to_string.simps [of n])
  then show ?thesis using foldl_to_string by (simp add: number_of_def)
qed

lemma to_string_digits: "set (to_string n) \<subseteq> set ''0123456789''"
proof (induction n rule: to_string.induct)
  case (1 n)
  have "digit_char d \<in> set ''0123456789''" if "d < 10" for d
    unfolding digit_char_def by (rule nth_mem) (use that in simp)
  with 1 show ?case by (auto simp: to_string.simps [of n])
qed

lemma takeWhile_until:
  assumes "x \<notin> set k"
  shows "takeWhile (\<lambda>c. c \<noteq> x) (k @ x # v) = k"
proof -
  have "takeWhile (\<lambda>c. c \<noteq> x) (k @ x # v) = k @ takeWhile (\<lambda>c. c \<noteq> x) (x # v)"
    by (rule takeWhile_append2) (use assms in auto)
  then show ?thesis by simp
qed

definition target_of :: "string \<Rightarrow> string \<Rightarrow> string" where
  "target_of url query = (if query \<noteq> [] then url @ ''?'' @ query else url)"

lemma read_request_line_clean:
  assumes "CHR '' '' \<notin> set m" and "CHR '' '' \<notin> set url" and "CHR ''?'' \<notin> set url" and "CHR '' '' \<notin> set query"
  shows "read_request_line (m @ '' '' @ target_of url query @ '' HTTP/1.1'') = Some (m, url, query, ''HTTP/1.1'')"
proof -
  let ?t = "target_of url query"
  have t: "CHR '' '' \<notin> set ?t" using assms(2,4) by (auto simp: target_of_def)
  have m: "takeWhile (\<lambda>c. c \<noteq> CHR '' '') (m @ '' '' @ ?t @ '' HTTP/1.1'') = m"
    using takeWhile_until [OF assms(1)] by simp
  have d: "drop (length m + 1) (m @ '' '' @ ?t @ '' HTTP/1.1'') = ?t @ '' HTTP/1.1''" by simp
  have t': "takeWhile (\<lambda>c. c \<noteq> CHR '' '') (?t @ '' HTTP/1.1'') = ?t" using takeWhile_until [OF t] by simp
  have u: "takeWhile (\<lambda>c. c \<noteq> CHR ''?'') ?t = url"
  proof (cases "query = []")
    case True
    then show ?thesis using assms(3) by (auto simp: target_of_def takeWhile_eq_all_conv)
  next
    case False
    then show ?thesis using takeWhile_until [OF assms(3)] by (simp add: target_of_def)
  qed
  have q: "drop (length url + 1) ?t = query" by (simp add: target_of_def)
  show ?thesis unfolding read_request_line_def m d t' u q Let_def by simp
qed

section \<open>Messages that are built step by step\<close>

datatype rq_op =
    Set_method HTTP_METHOD | Set_host string | Set_url string | Set_cookie string
  | Set_content_type string | Set_query string | Set_body string | Add_head string string

fun rq_step :: "rq_op \<Rightarrow> HttpRequest \<Rightarrow> HttpRequest option" where
  "rq_step (Set_method m) r = setMethod m r"
| "rq_step (Set_host v) r = Some (setHost v r)"
| "rq_step (Set_url v) r = Some (setUrl v r)"
| "rq_step (Set_cookie v) r = Some (setCookie v r)"
| "rq_step (Set_content_type v) r = Some (rq_setContentType v r)"
| "rq_step (Set_query v) r = Some (setQuery v r)"
| "rq_step (Set_body v) r = Some (rq_setBody v r)"
| "rq_step (Add_head k v) r = Some (rq_addHeadValue k v r)"

fun rq_run :: "rq_op list \<Rightarrow> HttpRequest \<Rightarrow> HttpRequest option" where
  "rq_run [] r = Some r"
| "rq_run (p # ps) r = do { r' \<leftarrow> rq_step p r; rq_run ps r' }"

text \<open>The header that an operation sets, and whether its strings can stand in a message.\<close>

fun head_set :: "rq_op \<Rightarrow> (string \<times> string) option" where
  "head_set (Set_host v) = Some (''Host'', v)"
| "head_set (Set_cookie v) = Some (''Cookie'', v)"
| "head_set (Set_content_type v) = Some (''Content-Type'', v)"
| "head_set (Set_body v) = Some (''Content-Length'', to_string (length v))"
| "head_set (Add_head k v) = Some (k, v)"
| "head_set _ = None"

definition heads_spec :: "rq_op \<Rightarrow> (string \<rightharpoonup> string) \<Rightarrow> (string \<rightharpoonup> string)" where
  "heads_spec p m = (case head_set p of None \<Rightarrow> m | Some (k, v) \<Rightarrow> m(k \<mapsto> v))"

definition clean_op :: "rq_op \<Rightarrow> bool" where
  "clean_op p \<longleftrightarrow>
     (case p of
        Set_url v \<Rightarrow> {CHR '' '', CHR ''?'', CHR 0x0D} \<inter> set v = {}
      | Set_query v \<Rightarrow> {CHR '' '', CHR 0x0D} \<inter> set v = {}
      | _ \<Rightarrow> (case head_set p of None \<Rightarrow> True | Some v \<Rightarrow> clean_field v))"

lemma map_of_head_put: "map_of (head_put k v m) = (map_of m)(k \<mapsto> v)"
  by (induction k v m rule: head_put.induct) auto

lemma set_head_put: "set (head_put k v m) \<subseteq> insert (k, v) (set m)"
  by (induction k v m rule: head_put.induct) auto

lemma keys_head_put: "fst ` set (head_put k v m) = insert k (fst ` set m)"
  by (induction k v m rule: head_put.induct) auto

lemma distinct_head_put: "distinct (map fst m) \<Longrightarrow> distinct (map fst (head_put k v m))"
  by (induction k v m rule: head_put.induct) (auto simp: keys_head_put)

definition rq_ok :: "HttpRequest \<Rightarrow> bool" where
  "rq_ok r \<longleftrightarrow> distinct (map fst (rq_mHeadField r)) \<and> list_all clean_field (rq_mHeadField r) \<and>
     {CHR '' '', CHR ''?'', CHR 0x0D} \<inter> set (rq_mUrl r) = {} \<and> {CHR '' '', CHR 0x0D} \<inter> set (rq_mQuery r) = {} \<and>
     rq_mMethod r \<noteq> HTTP_METHOD_MAX"

lemmas rq_defs = setHost_def setUrl_def setCookie_def rq_setContentType_def setQuery_def rq_setBody_def
  rq_addHeadValue_def setMethod_def

lemma rq_ok_put:
  "rq_ok r \<Longrightarrow> clean_field (k, v) \<Longrightarrow> rq_ok (r\<lparr>rq_mHeadField := head_put k v (rq_mHeadField r)\<rparr>)"
  using set_head_put [of k v "rq_mHeadField r"] distinct_head_put [of "rq_mHeadField r" k v]
  by (auto simp: rq_ok_def list_all_iff)

lemma rq_step_ok:
  assumes "rq_ok r" and "clean_op p" and "rq_step p r = Some r'"
  shows "rq_ok r' \<and> map_of (rq_mHeadField r') = heads_spec p (map_of (rq_mHeadField r))"
proof (cases "head_set p")
  case None
  with assms show ?thesis
    by (cases p) (auto simp: rq_defs rq_ok_def heads_spec_def clean_op_def split: if_splits)
next
  case (Some kv)
  obtain k v where kv: "kv = (k, v)" by (cases kv)
  have "\<exists>b. r' = (r\<lparr>rq_mBody := b\<rparr>)\<lparr>rq_mHeadField := head_put k v (rq_mHeadField r)\<rparr>"
    using Some assms(3) kv by (cases p) (auto simp: rq_defs intro: exI [of _ "rq_mBody r"])
  then obtain b where r': "r' = (r\<lparr>rq_mBody := b\<rparr>)\<lparr>rq_mHeadField := head_put k v (rq_mHeadField r)\<rparr>" ..
  have "clean_field (k, v)" using assms(2) Some kv by (cases p) (auto simp: clean_op_def)
  moreover have "rq_ok (r\<lparr>rq_mBody := b\<rparr>)" using assms(1) by (simp add: rq_ok_def)
  ultimately have "rq_ok r'" using rq_ok_put [of "r\<lparr>rq_mBody := b\<rparr>" k v] by (simp add: r')
  then show ?thesis using Some kv by (simp add: r' map_of_head_put heads_spec_def)
qed

lemma rq_run_ok:
  assumes "rq_ok r" and "list_all clean_op ps" and "rq_run ps r = Some r'"
  shows "rq_ok r' \<and> map_of (rq_mHeadField r') = fold heads_spec ps (map_of (rq_mHeadField r))"
  using assms
proof (induction ps arbitrary: r)
  case (Cons p ps)
  then obtain r1 where "rq_step p r = Some r1" "rq_run ps r1 = Some r'" by (auto simp: bind_eq_Some_conv)
  with Cons rq_step_ok [of r p r1] show ?case by auto
qed simp

lemma map_of_permuted:
  assumes "mset xs = mset ys" and "distinct (map fst ys)"
  shows "map_of xs = map_of ys" and "distinct (map fst xs)"
proof -
  have "mset (map fst xs) = mset (map fst ys)" using assms(1) by simp
  then show d: "distinct (map fst xs)" using assms(2) mset_eq_imp_distinct_iff by blast
  have "set xs = set ys" using assms(1) by (rule mset_eq_setD)
  with d assms(2) show "map_of xs = map_of ys" by (simp add: map_of_inject_set)
qed

lemma read_message_clean:
  assumes "CHR 0x0D \<notin> set start" and "list_all clean_field vs"
  shows "read_message (start @ CRLF @ head_lines vs @ CRLF @ body) = Some (start, vs, body)"
  using read_line_clean [OF assms(1)] read_fields_clean [OF assms(2)] by (simp add: read_message_def)

lemma rq_getResult_parts:
  assumes "rq_mMethod r \<noteq> HTTP_METHOD_MAX"
  shows "rq_getResult order r =
    (HttpMethodString ! method_index (rq_mMethod r) @ '' '' @ target_of (rq_mUrl r) (rq_mQuery r) @ '' HTTP/1.1'') @
    CRLF @ head_lines (order (rq_mHeadField r)) @ CRLF @ rq_mBody r"
  using assms by (cases "rq_mMethod r") (simp_all add: rq_getResult_def target_of_def Let_def)

lemma method_strings:
  assumes "m \<noteq> HTTP_METHOD_MAX"
  shows "CHR '' '' \<notin> set (HttpMethodString ! method_index m) \<and> CHR 0x0D \<notin> set (HttpMethodString ! method_index m)"
  using assms by (cases m) (simp_all add: HttpMethodString_def)



text \<open>
  C40. A response carries the status line, the header fields and the body to the
  reader unchanged, but the status line is never a correct one: after the code
  200 stands \<open>OKUNKNOWN\<close>, and without a status the text follows the number with
  no space.
\<close>

theorem http_response_status_line:
  assumes "distinct (map fst (rp_mHeadField r))" and "list_all clean_field (rp_mHeadField r)"
    and "\<And>m. mset (order m) = mset m"
  shows "\<exists>fs. read_message (rp_getResult order r) =
      Some (case rp_mStatus r of OK \<Rightarrow> ''HTTP/1.1 200 OKUNKNOWN'' | NONE \<Rightarrow> ''HTTP/1.1 0UNKNOWN'', fs, rp_mBody r) \<and>
    map_of fs = map_of (rp_mHeadField r)"
proof -
  let ?start = "case rp_mStatus r of OK \<Rightarrow> ''HTTP/1.1 200 OKUNKNOWN'' | NONE \<Rightarrow> ''HTTP/1.1 0UNKNOWN''"
  let ?fs = "order (rp_mHeadField r)"
  have num: "to_string 200 = ''200''" "to_string 0 = ''0''"
    by (simp_all add: to_string.simps [of 200] to_string.simps [of 20] to_string.simps [of 2] to_string.simps [of 0] digit_char_def)
  have "rp_getResult order r = ?start @ CRLF @ head_lines ?fs @ CRLF @ rp_mBody r"
    using num by (cases "rp_mStatus r") (simp_all add: rp_getResult_def Let_def)
  moreover have "list_all clean_field ?fs"
    using assms(2) mset_eq_setD [OF assms(3) [of "rp_mHeadField r"]] by (simp add: list_all_iff)
  moreover have "CHR 0x0D \<notin> set ?start" by (cases "rp_mStatus r") simp_all
  ultimately have "read_message (rp_getResult order r) = Some (?start, ?fs, rp_mBody r)"
    using read_message_clean by simp
  with map_of_permuted(1) [OF assms(3,1)] show ?thesis by blast
qed

theorem http_response_status_line_witness:
  "\<exists>fs. read_message (rp_getResult id (rp_setBody ''hello'' HttpResponse_new)) =
     Some (''HTTP/1.1 200 OKUNKNOWN'', fs, ''hello'') \<and> map_of fs ''Content-Length'' = Some ''5''"
proof -
  let ?r = "rp_setBody ''hello'' HttpResponse_new"
  have five: "to_string (length ''hello'') = ''5''" by (simp add: to_string.simps digit_char_def)
  have "distinct (map fst (rp_mHeadField ?r))" "list_all clean_field (rp_mHeadField ?r)"
    using five by (simp_all add: rp_setBody_def rp_addHeadValue_def HttpResponse_new_def clean_field_def)
  from http_response_status_line [OF this, of id] five show ?thesis
    by (auto simp: rp_setBody_def rp_addHeadValue_def HttpResponse_new_def)
qed

end
