(* ===== verification/Ox_Buffer.thy ===== *)
theory Ox_Buffer
  imports Brynet_Prelude
begin

text \<open>
  The receive buffer of a connection (\<open>utils/buffer.c\<close>): one heap block with a
  read and a write position. Positions are 64-bit words and every sum wraps as
  in C; a copy that would leave the block makes the operation return \<open>None\<close>.
  The theory shows that under the buffer invariant no operation touches memory
  outside its block and that the buffer is a byte queue of bounded capacity.
\<close>

section \<open>The structure and its operations\<close>

record buffer_s =
  bs_data :: "byte list"
  bs_data_len :: size_t
  bs_write_pos :: size_t
  bs_read_pos :: size_t

text \<open>On a 64-bit platform the structure itself takes four words.\<close>

definition sizeof_buffer_s :: nat where
  "sizeof_buffer_s = 32"

definition ox_buffer_new :: "heap_env \<Rightarrow> size_t \<Rightarrow> buffer_s option" where
  "ox_buffer_new env buffer_size =
     do { malloc env sizeof_buffer_s;
          blk \<leftarrow> malloc env (unat buffer_size);
          Some \<lparr>bs_data = blk, bs_data_len = buffer_size, bs_write_pos = 0, bs_read_pos = 0\<rparr> }"

definition ox_buffer_init :: "buffer_s \<Rightarrow> buffer_s" where
  "ox_buffer_init self = self\<lparr>bs_read_pos := 0, bs_write_pos := 0\<rparr>"

definition ox_buffer_getwritepos :: "buffer_s \<Rightarrow> size_t" where
  "ox_buffer_getwritepos self = bs_write_pos self"

definition ox_buffer_getreadpos :: "buffer_s \<Rightarrow> size_t" where
  "ox_buffer_getreadpos self = bs_read_pos self"

definition ox_buffer_addwritepos :: "buffer_s \<Rightarrow> size_t \<Rightarrow> buffer_s" where
  "ox_buffer_addwritepos self val =
     (let temp = bs_write_pos self + val
      in if temp \<le> bs_data_len self then self\<lparr>bs_write_pos := temp\<rparr> else self)"

definition ox_buffer_addreadpos :: "buffer_s \<Rightarrow> size_t \<Rightarrow> buffer_s" where
  "ox_buffer_addreadpos self val =
     (let temp = bs_read_pos self + val
      in if temp \<le> bs_data_len self then self\<lparr>bs_read_pos := temp\<rparr> else self)"

definition ox_buffer_getreadvalidcount :: "buffer_s \<Rightarrow> size_t" where
  "ox_buffer_getreadvalidcount self = bs_write_pos self - bs_read_pos self"

definition ox_buffer_getwritevalidcount :: "buffer_s \<Rightarrow> size_t" where
  "ox_buffer_getwritevalidcount self = bs_data_len self - bs_write_pos self"

definition ox_buffer_getsize :: "buffer_s \<Rightarrow> size_t" where
  "ox_buffer_getsize self = bs_data_len self"

text \<open>A pointer into the block is its offset; the null pointer is \<open>None\<close>.\<close>

definition ox_buffer_getwriteptr :: "buffer_s \<Rightarrow> nat option" where
  "ox_buffer_getwriteptr self =
     (if bs_write_pos self < bs_data_len self then Some (unat (bs_write_pos self)) else None)"

definition ox_buffer_getreadptr :: "buffer_s \<Rightarrow> nat option" where
  "ox_buffer_getreadptr self =
     (if bs_read_pos self < bs_data_len self then Some (unat (bs_read_pos self)) else None)"

definition ox_buffer_adjustto_head :: "buffer_s \<Rightarrow> buffer_s option" where
  "ox_buffer_adjustto_head self =
     (if bs_read_pos self \<le> 0 then Some self
      else let len = ox_buffer_getreadvalidcount self in
        do { blk \<leftarrow> (if len > 0
                    then do { bs \<leftarrow> mem_read (bs_data self) (unat (bs_read_pos self)) (unat len);
                              mem_write (bs_data self) (Some 0) bs }
                    else Some (bs_data self));
             Some (self\<lparr>bs_data := blk, bs_read_pos := 0, bs_write_pos := len\<rparr>) })"

lemma adjustto_head_read_pos:
  "ox_buffer_adjustto_head self = Some self' \<Longrightarrow> bs_read_pos self' = 0"
  by (auto simp: ox_buffer_adjustto_head_def Let_def split: if_splits bind_splits)

lemma adjustto_head_at_head:
  "bs_read_pos self = 0 \<Longrightarrow> ox_buffer_adjustto_head self = Some self"
  by (simp add: ox_buffer_adjustto_head_def)

text \<open>
  \<open>ox_buffer_write\<close> calls itself after moving the unread bytes to the head of the
  block; the second call never moves again, because the read position is zero
  and then the room it tested is exactly the room behind the write position.
\<close>

function ox_buffer_write :: "buffer_s \<Rightarrow> byte list \<Rightarrow> size_t \<Rightarrow> (bool \<times> buffer_s) option" where
  "ox_buffer_write self src len =
     (if ox_buffer_getwritevalidcount self \<ge> len
      then do { bs \<leftarrow> mem_read src 0 (unat len);
                blk \<leftarrow> mem_write (bs_data self) (ox_buffer_getwriteptr self) bs;
                Some (True, ox_buffer_addwritepos (self\<lparr>bs_data := blk\<rparr>) len) }
      else let left_len = bs_data_len self - ox_buffer_getreadvalidcount self in
        if left_len \<ge> len
        then (case ox_buffer_adjustto_head self of
                None \<Rightarrow> None
              | Some self' \<Rightarrow>
                  (case ox_buffer_write self' src len of
                     None \<Rightarrow> None
                   | Some (_, self'') \<Rightarrow> Some (True, self'')))
        else Some (False, self))"
  by pat_completeness auto
termination
proof (relation "measure (\<lambda>(self, src, len). if bs_read_pos self = 0 then 0 else 1)",
       goal_cases)
  case 1
  show ?case by simp
next
  case (2 self src len left_len self')
  have "bs_read_pos self \<noteq> 0"
  proof
    assume "bs_read_pos self = 0"
    with 2 show False
      by (simp add: ox_buffer_getwritevalidcount_def ox_buffer_getreadvalidcount_def)
  qed
  with 2 show ?case by (simp add: adjustto_head_read_pos)
qed

declare ox_buffer_write.simps [simp del]

lemmas buffer_op_defs [buffer_defs] =
  ox_buffer_init_def ox_buffer_addwritepos_def ox_buffer_addreadpos_def
  ox_buffer_getreadvalidcount_def ox_buffer_getwritevalidcount_def ox_buffer_getsize_def
  ox_buffer_getwriteptr_def ox_buffer_getreadptr_def


section \<open>The buffer as a byte queue\<close>

definition buffer_inv :: "buffer_s \<Rightarrow> bool" where
  "buffer_inv b \<longleftrightarrow>
     unat (bs_data_len b) = length (bs_data b) \<and>
     bs_read_pos b \<le> bs_write_pos b \<and> bs_write_pos b \<le> bs_data_len b"

text \<open>The unread bytes.\<close>

definition buffer_contents :: "buffer_s \<Rightarrow> byte list" where
  "buffer_contents b =
     take (unat (bs_write_pos b) - unat (bs_read_pos b)) (drop (unat (bs_read_pos b)) (bs_data b))"

definition buffer_capacity :: "buffer_s \<Rightarrow> nat" where
  "buffer_capacity b = unat (bs_data_len b)"

lemma buffer_invD:
  assumes "buffer_inv b"
  shows "length (bs_data b) = unat (bs_data_len b)"
    and "unat (bs_read_pos b) \<le> unat (bs_write_pos b)"
    and "unat (bs_write_pos b) \<le> unat (bs_data_len b)"
  using assms by (simp_all add: buffer_inv_def word_le_nat_alt)

lemma readvalidcount_contents:
  assumes "buffer_inv b"
  shows "unat (ox_buffer_getreadvalidcount b) = length (buffer_contents b)"
  using assms buffer_invD [OF assms]
  by (auto simp: buffer_inv_def buffer_contents_def ox_buffer_getreadvalidcount_def unat_sub)

lemma writevalidcount_room:
  assumes "buffer_inv b"
  shows "unat (ox_buffer_getwritevalidcount b) = unat (bs_data_len b) - unat (bs_write_pos b)"
  using assms by (simp add: buffer_inv_def ox_buffer_getwritevalidcount_def unat_sub)

lemma contents_length_le:
  assumes "buffer_inv b"
  shows "length (buffer_contents b) \<le> buffer_capacity b"
  using buffer_invD [OF assms] by (simp add: buffer_contents_def buffer_capacity_def)

lemma left_len_room:
  assumes "buffer_inv b"
  shows "unat (bs_data_len b - ox_buffer_getreadvalidcount b) =
    buffer_capacity b - length (buffer_contents b)"
proof -
  have "ox_buffer_getreadvalidcount b \<le> bs_data_len b"
    using contents_length_le [OF assms] readvalidcount_contents [OF assms]
    by (simp add: word_le_nat_alt buffer_capacity_def)
  then show ?thesis
    by (simp add: unat_sub readvalidcount_contents [OF assms] buffer_capacity_def)
qed

lemma new_inv:
  assumes "ox_buffer_new env n = Some b"
  shows "buffer_inv b \<and> buffer_contents b = [] \<and> buffer_capacity b = unat n"
  using assms
  by (auto simp: ox_buffer_new_def buffer_inv_def buffer_contents_def buffer_capacity_def
      malloc_length split: bind_splits)

lemma init_inv:
  "buffer_inv b \<Longrightarrow> buffer_inv (ox_buffer_init b) \<and> buffer_contents (ox_buffer_init b) = []"
  by (simp add: buffer_inv_def ox_buffer_init_def buffer_contents_def)

text \<open>Moving to the head keeps the unread bytes and opens all the free room.\<close>

lemma adjustto_head_ok:
  assumes inv: "buffer_inv b"
  obtains b' where "ox_buffer_adjustto_head b = Some b'" and "buffer_inv b'"
    and "buffer_contents b' = buffer_contents b" and "buffer_capacity b' = buffer_capacity b"
    and "bs_read_pos b' = 0"
proof (cases "bs_read_pos b = 0")
  case True
  with inv show ?thesis by (intro that [of b]) (simp_all add: adjustto_head_at_head)
next
  case False
  note D = buffer_invD [OF inv]
  let ?n = "ox_buffer_getreadvalidcount b"
  let ?c = "buffer_contents b"
  have n: "unat ?n = length ?c" by (rule readvalidcount_contents [OF inv])
  have len: "length ?c = unat (bs_write_pos b) - unat (bs_read_pos b)"
    using D by (simp add: buffer_contents_def)
  have rd: "mem_read (bs_data b) (unat (bs_read_pos b)) (unat ?n) = Some ?c"
    using D unfolding n len by (simp add: mem_read_def buffer_contents_def)
  have fits: "0 + length ?c \<le> length (bs_data b)"
    using contents_length_le [OF inv] D(1) by (simp add: buffer_capacity_def)
  let ?blk = "?c @ drop (length ?c) (bs_data b)"
  let ?b' = "b\<lparr>bs_data := ?blk, bs_read_pos := 0, bs_write_pos := ?n\<rparr>"
  have empty: "?c = []" if "\<not> ?n > 0"
    using that n by (simp add: word_less_nat_alt)
  have eq: "ox_buffer_adjustto_head b = Some ?b'"
    using False rd mem_write_Some [OF fits] empty
    by (auto simp: ox_buffer_adjustto_head_def Let_def)
  have "?n \<le> bs_data_len b"
    using fits D(1) n by (simp add: word_le_nat_alt)
  then have "buffer_inv ?b'"
    using fits D(1) by (simp add: buffer_inv_def)
  moreover have "buffer_contents ?b' = ?c"
    unfolding buffer_contents_def [of ?b'] by (simp add: n)
  ultimately show ?thesis using eq by (intro that [of ?b']) (simp_all add: buffer_capacity_def)
qed


text \<open>Writing where the bytes fit behind the write position appends them.\<close>

lemma write_direct:
  assumes inv: "buffer_inv b"
    and fits: "unat (bs_write_pos b) + length bs \<le> buffer_capacity b"
  shows "\<exists>b'. ox_buffer_write b bs (of_nat (length bs)) = Some (True, b') \<and> buffer_inv b' \<and>
    buffer_contents b' = buffer_contents b @ bs \<and> buffer_capacity b' = buffer_capacity b"
proof -
  note D = buffer_invD [OF inv]
  let ?n = "of_nat (length bs) :: size_t"
  have cap: "buffer_capacity b = length (bs_data b)" using D(1) by (simp add: buffer_capacity_def)
  have "length bs < 2 ^ 64"
    using fits unat_bound [of "bs_data_len b"] by (simp add: buffer_capacity_def)
  then have n: "unat ?n = length bs" by (simp add: unat_of_nat take_bit_nat_eq_self)
  have room: "ox_buffer_getwritevalidcount b \<ge> ?n"
    using fits by (simp add: word_le_nat_alt writevalidcount_room [OF inv] n buffer_capacity_def)
  have wp: "unat (bs_write_pos b + ?n) = unat (bs_write_pos b) + length bs"
    using unat_add_le_no_wrap [of "bs_write_pos b" ?n "bs_data_len b"] fits n
    by (simp add: buffer_capacity_def)
  let ?blk = "take (unat (bs_write_pos b)) (bs_data b) @ bs @
    drop (unat (bs_write_pos b) + length bs) (bs_data b)"
  let ?b' = "b\<lparr>bs_data := ?blk, bs_write_pos := bs_write_pos b + ?n\<rparr>"
  have wr: "mem_write (bs_data b) (ox_buffer_getwriteptr b) bs = Some ?blk"
  proof (cases "bs_write_pos b < bs_data_len b")
    case True
    then show ?thesis using fits cap by (simp add: ox_buffer_getwriteptr_def mem_write_Some)
  next
    case False
    then have "unat (bs_write_pos b) = length (bs_data b)"
      using D by (simp add: word_less_nat_alt)
    moreover from this have "bs = []" using fits cap by simp
    ultimately show ?thesis using False by (simp add: ox_buffer_getwriteptr_def mem_write_empty)
  qed
  have le: "bs_write_pos b + ?n \<le> bs_data_len b"
    using fits by (simp add: word_le_nat_alt wp buffer_capacity_def)
  have eq: "ox_buffer_write b bs ?n = Some (True, ?b')"
    using room wr le n
    by (simp add: ox_buffer_write.simps [of b] mem_read_def ox_buffer_addwritepos_def)
  have "buffer_inv ?b'"
    using D fits le cap by (simp add: buffer_inv_def word_le_nat_alt wp)
  moreover have "buffer_contents ?b' = buffer_contents b @ bs"
    using D drop_take_write [of "unat (bs_read_pos b)" "unat (bs_write_pos b)" "bs_data b" bs]
    by (simp add: buffer_contents_def wp)
  ultimately show ?thesis using eq by (auto simp: buffer_capacity_def)
qed

lemma write_ok:
  assumes inv: "buffer_inv b"
    and fits: "length (buffer_contents b) + length bs \<le> buffer_capacity b"
  shows "\<exists>b'. ox_buffer_write b bs (of_nat (length bs)) = Some (True, b') \<and> buffer_inv b' \<and>
    buffer_contents b' = buffer_contents b @ bs \<and> buffer_capacity b' = buffer_capacity b"
proof (cases "unat (bs_write_pos b) + length bs \<le> buffer_capacity b")
  case True
  then show ?thesis by (rule write_direct [OF inv])
next
  case False
  let ?n = "of_nat (length bs) :: size_t"
  note D = buffer_invD [OF inv]
  have "length bs < 2 ^ 64"
    using fits unat_bound [of "bs_data_len b"] by (simp add: buffer_capacity_def)
  then have n: "unat ?n = length bs" by (simp add: unat_of_nat take_bit_nat_eq_self)
  have no_room: "\<not> ox_buffer_getwritevalidcount b \<ge> ?n"
    using False D by (simp add: word_le_nat_alt writevalidcount_room [OF inv] n buffer_capacity_def)
  have left: "bs_data_len b - ox_buffer_getreadvalidcount b \<ge> ?n"
    using fits by (simp add: word_le_nat_alt left_len_room [OF inv] n)
  obtain b' where b': "ox_buffer_adjustto_head b = Some b'" "buffer_inv b'"
      "buffer_contents b' = buffer_contents b" "buffer_capacity b' = buffer_capacity b"
      "bs_read_pos b' = 0"
    using adjustto_head_ok [OF inv] .
  have "unat (bs_write_pos b') = length (buffer_contents b')"
    using readvalidcount_contents [OF b'(2)] b'(5) by (simp add: ox_buffer_getreadvalidcount_def)
  then have "unat (bs_write_pos b') + length bs \<le> buffer_capacity b'"
    using fits b'(3,4) by simp
  from write_direct [OF b'(2) this] show ?thesis
    using no_room left b' by (auto simp: ox_buffer_write.simps [of b] Let_def)
qed

lemma write_full:
  assumes inv: "buffer_inv b" and small: "length bs < 2 ^ 64"
    and full: "buffer_capacity b < length (buffer_contents b) + length bs"
  shows "ox_buffer_write b bs (of_nat (length bs)) = Some (False, b)"
proof -
  let ?n = "of_nat (length bs) :: size_t"
  note D = buffer_invD [OF inv]
  from small have n: "unat ?n = length bs" by (simp add: unat_of_nat take_bit_nat_eq_self)
  have "length (buffer_contents b) \<le> unat (bs_write_pos b)"
    using D by (simp add: buffer_contents_def)
  then have "\<not> ox_buffer_getwritevalidcount b \<ge> ?n"
    using full D(3)
    by (simp add: word_le_nat_alt writevalidcount_room [OF inv] n buffer_capacity_def)
  moreover have "\<not> bs_data_len b - ox_buffer_getreadvalidcount b \<ge> ?n"
    using full contents_length_le [OF inv]
    by (simp add: word_le_nat_alt left_len_room [OF inv] n)
  ultimately show ?thesis by (simp add: ox_buffer_write.simps [of b] Let_def)
qed

lemma addreadpos_ok:
  assumes inv: "buffer_inv b" and n: "n \<le> length (buffer_contents b)"
  shows "buffer_inv (ox_buffer_addreadpos b (of_nat n)) \<and>
    buffer_contents (ox_buffer_addreadpos b (of_nat n)) = drop n (buffer_contents b) \<and>
    buffer_capacity (ox_buffer_addreadpos b (of_nat n)) = buffer_capacity b"
proof -
  note D = buffer_invD [OF inv]
  have len: "length (buffer_contents b) = unat (bs_write_pos b) - unat (bs_read_pos b)"
    using D by (simp add: buffer_contents_def)
  have "n < 2 ^ 64" using n len unat_bound [of "bs_write_pos b"] by simp
  then have u: "unat (of_nat n :: size_t) = n" by (simp add: unat_of_nat take_bit_nat_eq_self)
  have rp: "unat (bs_read_pos b + of_nat n) = unat (bs_read_pos b) + n"
    using unat_add_le_no_wrap [of "bs_read_pos b" "of_nat n" "bs_write_pos b"] n len D(2) u by simp
  have "bs_read_pos b + of_nat n \<le> bs_data_len b"
    using rp n len D by (simp add: word_le_nat_alt)
  then show ?thesis using D n len rp
    by (simp add: ox_buffer_addreadpos_def buffer_inv_def buffer_contents_def buffer_capacity_def
        word_le_nat_alt drop_take add.commute)
qed


section \<open>The interface the connection relies on\<close>

text \<open>
  A connection appends received bytes and drops the bytes its data callback
  took. The contract: while the bytes fit they are appended, otherwise the
  buffer is unchanged and the write reports failure; consuming drops a prefix.
\<close>

datatype buffer_op = Push "byte list" | Pop nat

fun queue_spec :: "nat \<Rightarrow> byte list \<Rightarrow> buffer_op \<Rightarrow> byte list" where
  "queue_spec cap c (Push bs) = (if length c + length bs \<le> cap then c @ bs else c)"
| "queue_spec cap c (Pop n) = drop n c"

text \<open>A script is legal when no step consumes more than what is unread.\<close>

fun legal_ops :: "nat \<Rightarrow> byte list \<Rightarrow> buffer_op list \<Rightarrow> bool" where
  "legal_ops cap c [] \<longleftrightarrow> True"
| "legal_ops cap c (x # xs) \<longleftrightarrow>
     (case x of Push bs \<Rightarrow> length bs < 2 ^ 64 | Pop n \<Rightarrow> n \<le> length c) \<and>
     legal_ops cap (queue_spec cap c x) xs"

text \<open>Running a script with the operations of a buffer; \<open>None\<close> is a memory error.\<close>

fun queue_run :: "('q \<Rightarrow> byte list \<Rightarrow> (bool \<times> 'q) option) \<Rightarrow> ('q \<Rightarrow> nat \<Rightarrow> 'q) \<Rightarrow>
    'q \<Rightarrow> buffer_op list \<Rightarrow> 'q option" where
  "queue_run put consume q [] = Some q"
| "queue_run put consume q (Push bs # xs) =
     (case put q bs of None \<Rightarrow> None | Some (_, q') \<Rightarrow> queue_run put consume q' xs)"
| "queue_run put consume q (Pop n # xs) = queue_run put consume (consume q n) xs"

locale byte_queue =
  fixes inv :: "'q \<Rightarrow> bool"
    and contents :: "'q \<Rightarrow> byte list"
    and capacity :: "'q \<Rightarrow> nat"
    and put :: "'q \<Rightarrow> byte list \<Rightarrow> (bool \<times> 'q) option"
    and consume :: "'q \<Rightarrow> nat \<Rightarrow> 'q"
  assumes put_fits: "inv q \<Longrightarrow> length (contents q) + length bs \<le> capacity q \<Longrightarrow>
      \<exists>q'. put q bs = Some (True, q') \<and> inv q' \<and> contents q' = contents q @ bs \<and>
           capacity q' = capacity q"
    and put_refused: "inv q \<Longrightarrow> length bs < 2 ^ 64 \<Longrightarrow>
      capacity q < length (contents q) + length bs \<Longrightarrow> put q bs = Some (False, q)"
    and consume_prefix: "inv q \<Longrightarrow> n \<le> length (contents q) \<Longrightarrow>
      inv (consume q n) \<and> contents (consume q n) = drop n (contents q) \<and>
      capacity (consume q n) = capacity q"
begin

lemma run_refines:
  assumes "inv q" and "legal_ops (capacity q) (contents q) xs"
  shows "\<exists>q'. queue_run put consume q xs = Some q' \<and> inv q' \<and> capacity q' = capacity q \<and>
    contents q' = foldl (queue_spec (capacity q)) (contents q) xs"
  using assms
proof (induction xs arbitrary: q)
  case Nil
  then show ?case by simp
next
  case (Cons x xs)
  show ?case
  proof (cases x)
    case (Push bs)
    show ?thesis
    proof (cases "length (contents q) + length bs \<le> capacity q")
      case True
      with put_fits [OF Cons.prems(1) this] obtain q' where
        "put q bs = Some (True, q')" "inv q'" "contents q' = contents q @ bs"
        "capacity q' = capacity q" by blast
      with Cons.IH [of q'] Cons.prems(2) Push True show ?thesis by simp
    next
      case False
      with put_refused [OF Cons.prems(1), of bs] Cons.IH [of q] Cons.prems Push
      show ?thesis by simp
    qed
  next
    case (Pop n)
    with consume_prefix [OF Cons.prems(1)] Cons.IH [of "consume q n"] Cons.prems(2)
    show ?thesis by simp
  qed
qed

end

definition buffer_push :: "buffer_s \<Rightarrow> byte list \<Rightarrow> (bool \<times> buffer_s) option" where
  "buffer_push b bs = ox_buffer_write b bs (of_nat (length bs))"

definition buffer_pop :: "buffer_s \<Rightarrow> nat \<Rightarrow> buffer_s" where
  "buffer_pop b n = ox_buffer_addreadpos b (of_nat n)"

interpretation ox: byte_queue buffer_inv buffer_contents buffer_capacity buffer_push buffer_pop
  by unfold_locales
    (auto simp: buffer_push_def buffer_pop_def write_ok write_full addreadpos_ok)

text \<open>
  C25. Every legal script of writes and consumptions on a fresh receive buffer
  runs without touching memory outside its block, and leaves exactly the bytes
  that the bounded byte queue of the same capacity holds.
\<close>

theorem buffer_refines_queue:
  assumes "ox_buffer_new env n = Some b" and "legal_ops (unat n) [] ops"
  shows "\<exists>b'. queue_run buffer_push buffer_pop b ops = Some b' \<and> buffer_inv b' \<and>
    buffer_contents b' = foldl (queue_spec (unat n)) [] ops"
  using ox.run_refines [of b ops] new_inv [OF assms(1)] assms(2) by auto

theorem buffer_refines_queue_witness:
  "\<exists>b b'. ox_buffer_new full_heap 4 = Some b \<and>
     queue_run buffer_push buffer_pop b [Push [1, 2, 3], Pop 2, Push [4, 5, 6], Push [7]] = Some b' \<and>
     buffer_contents b' = [3, 4, 5, 6]"
proof -
  obtain b where b: "ox_buffer_new full_heap 4 = Some b"
    by (simp add: ox_buffer_new_def full_heap_def malloc_def)
  have "legal_ops (unat (4 :: size_t)) [] [Push [1, 2, 3], Pop 2, Push [4, 5, 6], Push [7]]"
    by simp
  from buffer_refines_queue [OF b this] b show ?thesis by auto
qed

end
