(* ===== verification/Data_Socket.thy ===== *)
theory Data_Socket
  imports Ox_Buffer
begin

text \<open>
  A connection (\<open>net/DataSocket.cpp\<close>, the Linux build without OpenSSL), as its
  loop thread sees it. The state is the object with the two things it changes
  outside: the procs it has pushed to the loop's after-loop list, and whether
  its descriptor is registered for writability. System calls and user callbacks
  are arguments; what happens outside is a list of events.
\<close>

section \<open>The object\<close>

record pending_packet =
  pk_data :: "byte list"
  pk_left :: nat
  pk_callback :: "nat option"

text \<open>The closures the socket pushes to \<open>EventLoop::pushAfterLoopProc\<close>.\<close>

datatype sock_proc = Proc_flush | Proc_disconnect | Proc_shutdown

record data_socket =
  mSocket :: bool
  mIsPostFinalClose :: bool
  mCanWrite :: bool
  mRecvBuffer :: buffer_s
  mMaxRecvBufferSize :: size_t
  mSendList :: "pending_packet list"
  mIsPostFlush :: bool
  mRecvData :: bool
  hasDataCallback :: bool
  hasDisConnectCallback :: bool
  ds_epollout :: bool
  ds_after :: "sock_proc list"

datatype ds_event =
    Ev_received "byte list"
  | Ev_data "byte list" nat
  | Ev_submit "byte list"
  | Ev_sent "byte list"
  | Ev_complete nat
  | Ev_shutdown
  | Ev_disconnect

section \<open>The receive buffer\<close>

definition GROW_BUFFER_SIZE :: size_t where
  "GROW_BUFFER_SIZE = 1024"

definition first_buffer :: "heap_env \<Rightarrow> buffer_s option" where
  "first_buffer env = ox_buffer_new env (16 * 1024 + GROW_BUFFER_SIZE)"

text \<open>
  \<open>growRecvBuffer\<close> of an existing buffer. \<open>ox_buffer_new\<close> may return the null
  pointer, which \<open>ox_buffer_write\<close> would follow: \<open>None\<close>.
\<close>

definition growRecvBuffer :: "heap_env \<Rightarrow> size_t \<Rightarrow> buffer_s \<Rightarrow> buffer_s option" where
  "growRecvBuffer env maxsize b =
     (if ox_buffer_getsize b + GROW_BUFFER_SIZE \<le> maxsize
      then do {
        newBuffer \<leftarrow> ox_buffer_new env (ox_buffer_getsize b + GROW_BUFFER_SIZE);
        (_, newBuffer) \<leftarrow> ox_buffer_write newBuffer
          (case ox_buffer_getreadptr b of Some off \<Rightarrow> drop off (bs_data b) | None \<Rightarrow> [])
          (ox_buffer_getreadvalidcount b);
        Some newBuffer
      }
      else Some b)"

definition DataSocket_new :: "heap_env \<Rightarrow> size_t \<Rightarrow> bool \<Rightarrow> bool \<Rightarrow> data_socket option" where
  "DataSocket_new env maxsize dcb ccb =
     map_option (\<lambda>b. \<lparr>mSocket = True, mIsPostFinalClose = False, mCanWrite = True, mRecvBuffer = b,
       mMaxRecvBufferSize = maxsize, mSendList = [], mIsPostFlush = False, mRecvData = False,
       hasDataCallback = dcb, hasDisConnectCallback = ccb, ds_epollout = False, ds_after = []\<rparr>)
       (first_buffer env)"

section \<open>Closing\<close>

definition closeSocket :: "data_socket \<Rightarrow> data_socket" where
  "closeSocket ds = (if mSocket ds then ds\<lparr>mCanWrite := False, mSocket := False\<rparr> else ds)"

definition onClose :: "data_socket \<Rightarrow> data_socket" where
  "onClose ds =
     (if mIsPostFinalClose ds then ds
      else (closeSocket (ds\<lparr>ds_after := ds_after ds @ [Proc_disconnect]\<rparr>))\<lparr>mIsPostFinalClose := True\<rparr>)"

definition procCloseInLoop :: "data_socket \<Rightarrow> data_socket" where
  "procCloseInLoop ds = (if \<not> mSocket ds then ds else onClose ds)"

definition procShutdownInLoop :: "data_socket \<Rightarrow> data_socket \<times> ds_event list" where
  "procShutdownInLoop ds =
     (if mSocket ds then (ds\<lparr>mCanWrite := False\<rparr>, [Ev_shutdown]) else (ds, []))"

text \<open>\<open>postDisConnect\<close> and \<open>postShutdown\<close>, once their closures run in the loop thread.\<close>

definition postDisConnect :: "data_socket \<Rightarrow> data_socket" where
  "postDisConnect ds = procCloseInLoop ds"

definition postShutdown :: "data_socket \<Rightarrow> data_socket" where
  "postShutdown ds = (if mSocket ds then ds\<lparr>ds_after := ds_after ds @ [Proc_shutdown]\<rparr> else ds)"

section \<open>Sending\<close>

definition runAfterFlush :: "data_socket \<Rightarrow> data_socket" where
  "runAfterFlush ds =
     (if \<not> mIsPostFlush ds \<and> mSendList ds \<noteq> [] \<and> mSocket ds
      then ds\<lparr>ds_after := ds_after ds @ [Proc_flush], mIsPostFlush := True\<rparr> else ds)"

definition ds_send :: "byte list \<Rightarrow> nat option \<Rightarrow> data_socket \<Rightarrow> data_socket" where
  "ds_send packet cb ds =
     runAfterFlush (ds\<lparr>mSendList := mSendList ds @ [\<lparr>pk_data = packet, pk_left = length packet, pk_callback = cb\<rparr>]\<rparr>)"

text \<open>On Linux \<open>checkWrite\<close> registers for writability and reports success.\<close>

definition checkWrite :: "data_socket \<Rightarrow> data_socket" where
  "checkWrite ds = ds\<lparr>ds_epollout := True\<rparr>"

definition removeCheckWrite :: "data_socket \<Rightarrow> data_socket" where
  "removeCheckWrite ds = (if mSocket ds then ds\<lparr>ds_epollout := False\<rparr> else ds)"

definition canSend :: "data_socket \<Rightarrow> data_socket" where
  "canSend ds = runAfterFlush ((removeCheckWrite ds)\<lparr>mCanWrite := True\<rparr>)"

definition packet_rest :: "pending_packet \<Rightarrow> byte list" where
  "packet_rest b = drop (length (pk_data b) - pk_left b) (pk_data b)"

text \<open>What a call of \<open>writev\<close> or \<open>send\<close> gets and answers: a length, and whether the error is \<open>EWOULDBLOCK\<close>.\<close>

type_synonym 'k send_fn = "'k \<Rightarrow> byte list \<Rightarrow> (int \<times> bool) \<times> 'k"

definition MAX_IOVEC :: nat where
  "MAX_IOVEC = 1024"

definition SENDBUF_SIZE :: nat where
  "SENDBUF_SIZE = 1024 * 32"

definition quick_gather :: "pending_packet list \<Rightarrow> byte list option" where
  "quick_gather ps = Some (concat (map packet_rest (take MAX_IOVEC ps)))"

fun gather_loop :: "bool \<Rightarrow> byte list \<Rightarrow> pending_packet list \<Rightarrow> byte list" where
  "gather_loop begin_it buf [] = buf"
| "gather_loop begin_it buf (p # ps) =
     (if length buf + pk_left p > SENDBUF_SIZE
      then if begin_it then packet_rest p else buf
      else gather_loop False (buf @ packet_rest p) ps)"

definition normal_gather :: "pending_packet list \<Rightarrow> byte list option" where
  "normal_gather ps = (let bs = gather_loop True [] ps in if bs = [] then None else Some bs)"

text \<open>Whether all gathered bytes went: \<open>ready_send_len\<close> is an \<open>int\<close>, \<open>wait_send_size\<close> a \<open>size_t\<close>.\<close>

definition quick_whole :: "int \<Rightarrow> byte list \<Rightarrow> bool" where
  "quick_whole n bs \<longleftrightarrow> n = sint (of_nat (length bs) :: 32 word)"

definition normal_whole :: "int \<Rightarrow> byte list \<Rightarrow> bool" where
  "normal_whole n bs \<longleftrightarrow> n = int (length bs)"

text \<open>The second loop of both: packets that are sent completely leave the list, and their callback runs.\<close>

fun consume :: "nat \<Rightarrow> pending_packet list \<Rightarrow> pending_packet list \<times> ds_event list" where
  "consume n [] = ([], [])"
| "consume n (b # bs) =
     (if pk_left b > n then (b\<lparr>pk_left := pk_left b - n\<rparr> # bs, [])
      else let (rest, evs) = consume (n - pk_left b) bs
           in (rest, (case pk_callback b of None \<Rightarrow> [] | Some c \<Rightarrow> [Ev_complete c]) @ evs))"

definition packets_size :: "pending_packet list \<Rightarrow> nat" where
  "packets_size ps = (\<Sum>p\<leftarrow>ps. pk_left p + 1)"

lemma packets_size_simps [simp]:
  "packets_size [] = 0" "packets_size (p # ps) = pk_left p + 1 + packets_size ps"
  by (simp_all add: packets_size_def)

lemma consume_le: "packets_size (fst (consume n ps)) \<le> packets_size ps"
proof (induction n ps rule: consume.induct)
  case (2 n b bs)
  then show ?case by (cases "consume (n - pk_left b) bs") (auto split: if_splits)
qed simp

lemma consume_less: "0 < n \<Longrightarrow> ps \<noteq> [] \<Longrightarrow> packets_size (fst (consume n ps)) < packets_size ps"
proof (cases ps)
  case (Cons b bs)
  assume "0 < n"
  with Cons consume_le [of "n - pk_left b" bs] show ?thesis
    by (cases "consume (n - pk_left b) bs") auto
qed simp

lemma consume_pair_less:
  "consume n ps = (rest, evs) \<Longrightarrow> 0 < n \<Longrightarrow> ps \<noteq> [] \<Longrightarrow> packets_size rest < packets_size ps"
  using consume_less [of n ps] by simp

text \<open>The outer loop of \<open>quickFlush\<close> and of \<open>normalFlush\<close>; it returns \<open>must_close\<close>.\<close>

function flush_loop ::
    "(pending_packet list \<Rightarrow> byte list option) \<Rightarrow> (int \<Rightarrow> byte list \<Rightarrow> bool) \<Rightarrow> 'k send_fn \<Rightarrow> 'k \<Rightarrow>
     data_socket \<Rightarrow> bool \<times> 'k \<times> data_socket \<times> ds_event list" where
  "flush_loop gather whole sf k ds =
     (if mSendList ds = [] then (False, k, ds, [])
      else case gather (mSendList ds) of
        None \<Rightarrow> (False, k, ds, [])
      | Some bs \<Rightarrow>
          (case sf k bs of ((n, wouldblock), k') \<Rightarrow>
             if n \<le> 0
             then if wouldblock then (False, k', checkWrite (ds\<lparr>mCanWrite := False\<rparr>), [])
                  else (True, k', ds, [])
             else let (rest, evs) = consume (nat n) (mSendList ds);
                      ds' = ds\<lparr>mSendList := rest\<rparr>;
                      evs = Ev_sent (take (nat n) bs) # evs
                  in if \<not> whole n bs then (False, k', checkWrite (ds'\<lparr>mCanWrite := False\<rparr>), evs)
                     else case flush_loop gather whole sf k' ds' of
                       (close, k'', ds'', evs') \<Rightarrow> (close, k'', ds'', evs @ evs')))"
  by pat_completeness auto
termination
proof (relation "measure (\<lambda>(gather, whole, sf, k, ds). packets_size (mSendList ds))", goal_cases)
  case 2
  then show ?case by (auto simp: consume_pair_less [OF sym])
qed simp

declare flush_loop.simps [simp del]

definition quickFlush :: "'k send_fn \<Rightarrow> 'k \<Rightarrow> data_socket \<Rightarrow> 'k \<times> data_socket \<times> ds_event list" where
  "quickFlush sf k ds =
     (case flush_loop quick_gather quick_whole sf k ds of
        (close, k', ds', evs) \<Rightarrow> (k', if close then procCloseInLoop ds' else ds', evs))"

definition normalFlush :: "'k send_fn \<Rightarrow> 'k \<Rightarrow> data_socket \<Rightarrow> 'k \<times> data_socket \<times> ds_event list" where
  "normalFlush sf k ds =
     (case flush_loop normal_gather normal_whole sf k ds of
        (close, k', ds', evs) \<Rightarrow> (k', if close then procCloseInLoop ds' else ds', evs))"

definition ds_flush :: "'k send_fn \<Rightarrow> 'k \<Rightarrow> data_socket \<Rightarrow> 'k \<times> data_socket \<times> ds_event list" where
  "ds_flush sf k ds = (if \<not> mCanWrite ds \<or> \<not> mSocket ds then (k, ds, []) else quickFlush sf k ds)"

section \<open>The after-loop procs\<close>

definition run_proc :: "'k send_fn \<Rightarrow> sock_proc \<Rightarrow> 'k \<Rightarrow> data_socket \<Rightarrow> 'k \<times> data_socket \<times> ds_event list" where
  "run_proc sf p k ds =
     (case p of
        Proc_flush \<Rightarrow> ds_flush sf k (ds\<lparr>mIsPostFlush := False\<rparr>)
      | Proc_disconnect \<Rightarrow> (k, ds, if hasDisConnectCallback ds then [Ev_disconnect] else [])
      | Proc_shutdown \<Rightarrow> (case procShutdownInLoop ds of (ds', evs) \<Rightarrow> (k, ds', evs)))"

fun run_procs :: "'k send_fn \<Rightarrow> sock_proc list \<Rightarrow> 'k \<Rightarrow> data_socket \<Rightarrow> 'k \<times> data_socket \<times> ds_event list" where
  "run_procs sf [] k ds = (k, ds, [])"
| "run_procs sf (p # ps) k ds =
     (case run_proc sf p k ds of (k', ds', evs) \<Rightarrow>
        case run_procs sf ps k' ds' of (k'', ds'', evs') \<Rightarrow> (k'', ds'', evs @ evs'))"

text \<open>\<open>EventLoop::processAfterLoopProcs\<close> swaps the list out before it runs it.\<close>

definition processAfterLoopProcs :: "'k send_fn \<Rightarrow> 'k \<Rightarrow> data_socket \<Rightarrow> 'k \<times> data_socket \<times> ds_event list" where
  "processAfterLoopProcs sf k ds = run_procs sf (ds_after ds) k (ds\<lparr>ds_after := []\<rparr>)"

section \<open>Receiving\<close>

text \<open>What \<open>recv\<close> answers: bytes (none at the end of the stream), or an error, \<open>EWOULDBLOCK\<close> or another.\<close>

datatype recv_answer = Recv_bytes "byte list" | Recv_fail bool

type_synonym 'k recv_fn = "'k \<Rightarrow> int \<Rightarrow> recv_answer \<times> 'k"

text \<open>What a data callback may do to its own socket before it returns the number of bytes it took.\<close>

datatype ds_action = Act_send "byte list" "nat option" | Act_disconnect | Act_shutdown

type_synonym 'u data_cb = "'u \<Rightarrow> byte list \<Rightarrow> nat \<times> ds_action list \<times> 'u"

fun run_action :: "ds_action \<Rightarrow> data_socket \<Rightarrow> data_socket" where
  "run_action (Act_send bs cb) ds = ds_send bs cb ds"
| "run_action Act_disconnect ds = postDisConnect ds"
| "run_action Act_shutdown ds = postShutdown ds"

fun action_events :: "ds_action \<Rightarrow> ds_event list" where
  "action_events (Act_send bs cb) = [Ev_submit bs]"
| "action_events Act_disconnect = []"
| "action_events Act_shutdown = []"

text \<open>\<open>recv\<close> writes its bytes at the write pointer; then the write position moves.\<close>

definition store_bytes :: "byte list \<Rightarrow> buffer_s \<Rightarrow> buffer_s option" where
  "store_bytes bs b =
     do { blk \<leftarrow> mem_write (bs_data b) (ox_buffer_getwriteptr b) bs;
          Some (ox_buffer_addwritepos (b\<lparr>bs_data := blk\<rparr>) (of_nat (length bs))) }"

text \<open>The call of the data callback; its assertion fails when it claims too many bytes.\<close>

definition call_data_cb ::
    "'u data_cb \<Rightarrow> 'u \<Rightarrow> data_socket \<Rightarrow> ('u \<times> data_socket \<times> ds_event list) option" where
  "call_data_cb dcb u ds =
     (if \<not> hasDataCallback ds then Some (u, ds, [])
      else do {
        off \<leftarrow> ox_buffer_getreadptr (mRecvBuffer ds);
        shown \<leftarrow> mem_read (bs_data (mRecvBuffer ds)) off (unat (ox_buffer_getreadvalidcount (mRecvBuffer ds)));
        (case dcb u shown of (proclen, acts, u') \<Rightarrow>
           if proclen > unat (ox_buffer_getreadvalidcount (mRecvBuffer ds)) then None
           else let ds' = fold run_action acts (ds\<lparr>mRecvData := True\<rparr>)
                in Some (u', ds'\<lparr>mRecvBuffer := ox_buffer_addreadpos (mRecvBuffer ds') (of_nat proclen)\<rparr>,
                         Ev_data shown proclen # concat (map action_events acts)))
      })"

definition adjust_buffer :: "buffer_s \<Rightarrow> buffer_s option" where
  "adjust_buffer b =
     (if ox_buffer_getwritevalidcount b = 0 \<or> ox_buffer_getreadvalidcount b = 0
      then ox_buffer_adjustto_head b else Some b)"

text \<open>The body of the loop once bytes have arrived.\<close>

definition got_bytes ::
    "heap_env \<Rightarrow> 'u data_cb \<Rightarrow> byte list \<Rightarrow> 'u \<Rightarrow> data_socket \<Rightarrow> ('u \<times> data_socket \<times> ds_event list) option" where
  "got_bytes env dcb bs u ds =
     do {
       b \<leftarrow> store_bytes bs (mRecvBuffer ds);
       b \<leftarrow> (if ox_buffer_getreadvalidcount b = ox_buffer_getsize b
             then growRecvBuffer env (mMaxRecvBufferSize ds) b else Some b);
       (u, ds, evs) \<leftarrow> call_data_cb dcb u (ds\<lparr>mRecvBuffer := b\<rparr>);
       b \<leftarrow> adjust_buffer (mRecvBuffer ds);
       Some (u, ds\<lparr>mRecvBuffer := b\<rparr>, Ev_received bs # evs)
     }"

text \<open>The loop of \<open>recv\<close>; it returns \<open>must_close\<close>. Running out of fuel is \<open>None\<close>.\<close>

fun recv_loop ::
    "nat \<Rightarrow> heap_env \<Rightarrow> 'k recv_fn \<Rightarrow> 'u data_cb \<Rightarrow> 'k \<Rightarrow> 'u \<Rightarrow> data_socket \<Rightarrow>
     (bool \<times> 'k \<times> 'u \<times> data_socket \<times> ds_event list) option" where
  "recv_loop 0 env rf dcb k u ds = None"
| "recv_loop (Suc fuel) env rf dcb k u ds =
     (let tryRecvLen = ox_buffer_getwritevalidcount (mRecvBuffer ds) in
      if \<not> mSocket ds \<or> tryRecvLen = 0 then Some (False, k, u, ds, [])
      else case rf k (sint (ucast tryRecvLen :: 32 word)) of
        (Recv_fail wouldblock, k') \<Rightarrow> Some (\<not> wouldblock, k', u, ds, [])
      | (Recv_bytes bs, k') \<Rightarrow>
          if bs = [] then Some (True, k', u, ds, [])
          else case got_bytes env dcb bs u ds of
            None \<Rightarrow> None
          | Some (u', ds', evs) \<Rightarrow>
              if int (length bs) < sint (ucast tryRecvLen :: 32 word) then Some (False, k', u', ds', evs)
              else map_option (\<lambda>(close, k'', u'', ds'', evs'). (close, k'', u'', ds'', evs @ evs'))
                     (recv_loop fuel env rf dcb k' u' ds'))"

definition ds_recv ::
    "nat \<Rightarrow> heap_env \<Rightarrow> 'k recv_fn \<Rightarrow> 'u data_cb \<Rightarrow> 'k \<Rightarrow> 'u \<Rightarrow> data_socket \<Rightarrow>
     ('k \<times> 'u \<times> data_socket \<times> ds_event list) option" where
  "ds_recv fuel env rf dcb k u ds =
     map_option (\<lambda>(close, k', u', ds', evs). (k', u', if close then procCloseInLoop ds' else ds', evs))
       (recv_loop fuel env rf dcb k u ds)"

end
