(* ===== verification/Data_Socket_Send.thy ===== *)
theory Data_Socket_Send
  imports Data_Socket
begin

text \<open>
  The two flush loops send the pending packets as one byte stream: what the
  system accepted, followed by what is still pending, is what was pending, and
  a packet's callback runs when its last byte has been accepted.
\<close>

section \<open>Pending bytes\<close>

definition packets_ok :: "pending_packet list \<Rightarrow> bool" where
  "packets_ok ps \<longleftrightarrow> list_all (\<lambda>p. pk_left p \<le> length (pk_data p)) ps"

definition packets_full :: "pending_packet list \<Rightarrow> bool" where
  "packets_full ps \<longleftrightarrow> list_all (\<lambda>p. 0 < pk_left p) ps"

definition pending :: "pending_packet list \<Rightarrow> byte list" where
  "pending ps = concat (map packet_rest ps)"

definition sent_bytes :: "ds_event list \<Rightarrow> byte list" where
  "sent_bytes evs = concat (map (\<lambda>e. case e of Ev_sent bs \<Rightarrow> bs | _ \<Rightarrow> []) evs)"

definition completed :: "ds_event list \<Rightarrow> nat list" where
  "completed evs = concat (map (\<lambda>e. case e of Ev_complete c \<Rightarrow> [c] | _ \<Rightarrow> []) evs)"

definition callbacks :: "pending_packet list \<Rightarrow> nat list" where
  "callbacks ps = concat (map (\<lambda>p. case pk_callback p of None \<Rightarrow> [] | Some c \<Rightarrow> [c]) ps)"

lemma event_lists [simp]:
  "sent_bytes [] = []" "completed [] = []" "callbacks [] = []" "pending [] = []"
  "sent_bytes (e # evs) = (case e of Ev_sent bs \<Rightarrow> bs | _ \<Rightarrow> []) @ sent_bytes evs"
  "completed (e # evs) = (case e of Ev_complete c \<Rightarrow> [c] | _ \<Rightarrow> []) @ completed evs"
  "callbacks (p # ps) = (case pk_callback p of None \<Rightarrow> [] | Some c \<Rightarrow> [c]) @ callbacks ps"
  "pending (p # ps) = packet_rest p @ pending ps"
  "sent_bytes (evs @ evs') = sent_bytes evs @ sent_bytes evs'"
  "completed (evs @ evs') = completed evs @ completed evs'"
  "callbacks (ps @ ps') = callbacks ps @ callbacks ps'"
  "pending (ps @ ps') = pending ps @ pending ps'"
  by (simp_all add: sent_bytes_def completed_def callbacks_def pending_def)

lemma packets_lists [simp]:
  "packets_ok []" "packets_full []"
  "packets_ok (p # ps) \<longleftrightarrow> pk_left p \<le> length (pk_data p) \<and> packets_ok ps"
  "packets_full (p # ps) \<longleftrightarrow> 0 < pk_left p \<and> packets_full ps"
  "packets_ok (ps @ ps') \<longleftrightarrow> packets_ok ps \<and> packets_ok ps'"
  "packets_full (ps @ ps') \<longleftrightarrow> packets_full ps \<and> packets_full ps'"
  by (simp_all add: packets_ok_def packets_full_def)

lemma packet_rest_length [simp]: "pk_left p \<le> length (pk_data p) \<Longrightarrow> length (packet_rest p) = pk_left p"
  by (simp add: packet_rest_def)

lemma packet_rest_less:
  "n \<le> pk_left p \<Longrightarrow> pk_left p \<le> length (pk_data p) \<Longrightarrow>
     packet_rest (p\<lparr>pk_left := pk_left p - n\<rparr>) = drop n (packet_rest p)"
  by (simp add: packet_rest_def add.commute)

lemma pending_empty:
  "packets_ok ps \<Longrightarrow> packets_full ps \<Longrightarrow> pending ps = [] \<Longrightarrow> ps = []"
  by (cases ps) (auto dest: arg_cong [where f = length])

text \<open>
  \<open>advance ps ps' evs\<close>: the events send a prefix of what the packets \<open>ps\<close> have
  pending, the packets \<open>ps'\<close> are what is left, and the callbacks of the packets
  that left the list have run in order.
\<close>

definition packet_label :: "pending_packet \<Rightarrow> byte list \<times> nat option" where
  "packet_label p = (pk_data p, pk_callback p)"

definition flush_event :: "ds_event \<Rightarrow> bool" where
  "flush_event e \<longleftrightarrow> (case e of Ev_sent _ \<Rightarrow> True | Ev_complete _ \<Rightarrow> True | _ \<Rightarrow> False)"

definition advance :: "pending_packet list \<Rightarrow> pending_packet list \<Rightarrow> ds_event list \<Rightarrow> bool" where
  "advance ps ps' evs \<longleftrightarrow>
     list_all flush_event evs \<and> pending ps = sent_bytes evs @ pending ps' \<and> packets_ok ps' \<and> (packets_full ps \<longrightarrow> packets_full ps') \<and>
     (\<exists>m. map packet_label ps' = map packet_label (drop m ps) \<and> completed evs = callbacks (take m ps))"

lemma callbacks_label:
  assumes "map packet_label ps = map packet_label qs"
  shows "callbacks ps = callbacks qs"
proof -
  have eq: "callbacks ps = concat (map (\<lambda>(_, c). case c of None \<Rightarrow> [] | Some c \<Rightarrow> [c]) (map packet_label ps))" for ps
    by (simp add: callbacks_def packet_label_def comp_def)
  show ?thesis by (subst (1 2) eq) (simp only: assms)
qed

lemma advance_refl: "packets_ok ps \<Longrightarrow> advance ps ps []"
  by (auto simp: advance_def intro!: exI [of _ 0])

lemma advance_trans:
  assumes "advance ps qs evs" and "advance qs rs evs'"
  shows "advance ps rs (evs @ evs')"
proof -
  from assms obtain m l where m: "map packet_label qs = map packet_label (drop m ps)"
    "completed evs = callbacks (take m ps)" and l: "map packet_label rs = map packet_label (drop l qs)"
    "completed evs' = callbacks (take l qs)"
    by (auto simp: advance_def)
  have "map packet_label (take l qs) = map packet_label (take l (drop m ps))"
    using m(1) by (metis take_map)
  then have "callbacks (take l qs) = callbacks (take l (drop m ps))" by (rule callbacks_label)
  then have "completed (evs @ evs') = callbacks (take (m + l) ps)"
    using m(2) l(2) by (simp add: take_add)
  moreover have "map packet_label rs = map packet_label (drop (m + l) ps)"
    using m(1) l(1) by (metis add.commute drop_drop drop_map)
  ultimately show ?thesis using assms by (auto simp: advance_def)
qed

text \<open>Which packets a successful call completes.\<close>

lemma advance_partial:
  assumes "packets_ok (b # bs)" and "n < pk_left b"
  shows "advance (b # bs) (b\<lparr>pk_left := pk_left b - n\<rparr> # bs) [Ev_sent (take n (packet_rest b))]"
proof -
  have "packet_rest (b\<lparr>pk_left := pk_left b - n\<rparr>) = drop n (packet_rest b)"
    using assms by (simp add: packet_rest_less)
  moreover have "map packet_label (b\<lparr>pk_left := pk_left b - n\<rparr> # bs) = map packet_label (drop 0 (b # bs))"
    by (simp add: packet_label_def)
  ultimately show ?thesis using assms unfolding advance_def by (intro conjI exI [of _ 0]) (auto simp: flush_event_def)
qed

lemma advance_packet:
  assumes "packets_ok (b # bs)"
  shows "advance (b # bs) bs (Ev_sent (packet_rest b) #
    (case pk_callback b of None \<Rightarrow> [] | Some c \<Rightarrow> [Ev_complete c]))"
  using assms unfolding advance_def by (intro conjI exI [of _ 1]) (auto simp: flush_event_def split: option.splits)

lemma advance_sent:
  "advance ps qs evs \<Longrightarrow> sent_bytes evs' = sent_bytes evs \<Longrightarrow> completed evs' = completed evs \<Longrightarrow>
   list_all flush_event evs' \<Longrightarrow> advance ps qs evs'"
  by (simp add: advance_def)

lemma consume_events: "list_all flush_event (snd (consume n ps))"
  by (induction n ps rule: consume.induct)
    (auto simp: flush_event_def case_prod_unfold Let_def split: option.splits)

lemma consume_advance:
  assumes "packets_ok ps" and "n \<le> length (pending ps)" and "consume n ps = (rest, evs)"
  shows "advance ps rest (Ev_sent (take n (pending ps)) # evs)"
  using assms
proof (induction n ps arbitrary: rest evs rule: consume.induct)
  case (1 n)
  then show ?case by (simp add: advance_def flush_event_def)
next
  case (2 n b bs)
  show ?case
  proof (cases "pk_left b > n")
    case True
    with 2 show ?thesis using advance_partial [of b bs n] by simp
  next
    case False
    obtain rest' evs' where R: "consume (n - pk_left b) bs = (rest', evs')" by fastforce
    with False 2 have "advance bs rest (Ev_sent (take (n - pk_left b) (pending bs)) # evs')" by auto
    from advance_trans [OF advance_packet [OF 2(2)] this] show ?thesis
    proof (rule advance_sent)
      show "sent_bytes (Ev_sent (take n (pending (b # bs))) # evs) = sent_bytes ((Ev_sent (packet_rest b) #
          (case pk_callback b of None \<Rightarrow> [] | Some c \<Rightarrow> [Ev_complete c])) @
          Ev_sent (take (n - pk_left b) (pending bs)) # evs')"
        using R False 2 by (auto split: option.splits)
    next
      show "completed (Ev_sent (take n (pending (b # bs))) # evs) = completed ((Ev_sent (packet_rest b) #
          (case pk_callback b of None \<Rightarrow> [] | Some c \<Rightarrow> [Ev_complete c])) @
          Ev_sent (take (n - pk_left b) (pending bs)) # evs')"
        using R False 2 by (auto split: option.splits)
    next
      show "list_all flush_event (Ev_sent (take n (pending (b # bs))) # evs)"
        using consume_events [of n "b # bs"] 2(4) by (simp add: flush_event_def)
    qed
  qed
qed

section \<open>The contract of a gathering step\<close>

text \<open>A flush loop gathers a prefix of the pending bytes, and all packets have some.\<close>

definition send_law :: "'k send_fn \<Rightarrow> bool" where
  "send_law sf \<longleftrightarrow> (\<forall>k bs. fst (fst (sf k bs)) \<le> int (length bs))"

text \<open>A flush changes the list and the two writability flags only.\<close>

definition only_send :: "data_socket \<Rightarrow> data_socket \<Rightarrow> bool" where
  "only_send ds ds' \<longleftrightarrow>
     ds' = ds\<lparr>mSendList := mSendList ds', mCanWrite := mCanWrite ds', ds_epollout := ds_epollout ds'\<rparr>"

lemma only_send_simps [simp]:
  "only_send ds ds" "only_send ds (ds\<lparr>mSendList := ps\<rparr>)" "only_send ds (ds\<lparr>mCanWrite := w\<rparr>)"
  "only_send ds (ds\<lparr>ds_epollout := q\<rparr>)" "only_send ds (ds\<lparr>mCanWrite := w, ds_epollout := q\<rparr>)"
  "only_send ds (ds\<lparr>mSendList := ps, mCanWrite := w, ds_epollout := q\<rparr>)"
  by (simp_all add: only_send_def)

lemma only_send_trans: "only_send ds ds1 \<Longrightarrow> only_send ds1 ds2 \<Longrightarrow> only_send ds ds2"
  by (cases ds; cases ds1; cases ds2) (simp add: only_send_def)

lemma close_frame [simp]:
  "mSendList (procCloseInLoop ds) = mSendList ds" "mSendList (onClose ds) = mSendList ds"
  "mSendList (closeSocket ds) = mSendList ds"
  "mIsPostFinalClose ds = (\<not> mSocket ds) \<Longrightarrow> \<not> mSocket (procCloseInLoop ds)"
  by (simp_all add: procCloseInLoop_def onClose_def closeSocket_def)

lemma only_sendD [dest]:
  assumes "only_send ds ds'"
  shows "mSocket ds' = mSocket ds" "mIsPostFinalClose ds' = mIsPostFinalClose ds"
    "mRecvBuffer ds' = mRecvBuffer ds" "ds_after ds' = ds_after ds" "mIsPostFlush ds' = mIsPostFlush ds"
    "mMaxRecvBufferSize ds' = mMaxRecvBufferSize ds" "hasDisConnectCallback ds' = hasDisConnectCallback ds"
    "hasDataCallback ds' = hasDataCallback ds"
  using assms by (cases ds; cases ds'; simp add: only_send_def)+

locale flusher =
  fixes gather :: "pending_packet list \<Rightarrow> byte list option"
    and whole :: "int \<Rightarrow> byte list \<Rightarrow> bool"
  assumes gather_prefix: "packets_ok ps \<Longrightarrow> gather ps = Some bs \<Longrightarrow> \<exists>more. pending ps = bs @ more"
    and gather_none: "packets_ok ps \<Longrightarrow> packets_full ps \<Longrightarrow> gather ps = None \<Longrightarrow> ps = []"
begin

lemma flush_loop_ok:
  assumes "packets_ok (mSendList ds)" and "send_law sf"
    and "flush_loop gather whole sf k ds = (close, k', ds', evs)"
  shows "advance (mSendList ds) (mSendList ds') evs \<and>
    only_send ds ds' \<and> (mCanWrite ds \<or> ds_epollout ds \<longrightarrow> mCanWrite ds' \<or> ds_epollout ds') \<and>
    (packets_full (mSendList ds) \<and> \<not> close \<and> mSendList ds' \<noteq> [] \<longrightarrow> \<not> mCanWrite ds' \<and> ds_epollout ds')"
  using assms
proof (induction "packets_size (mSendList ds)" arbitrary: k ds close k' ds' evs rule: less_induct)
  case less
  note unfold = flush_loop.simps [of gather whole sf k ds]
  show ?case
  proof (cases "mSendList ds = [] \<or> gather (mSendList ds) = None")
    case True
    then have "flush_loop gather whole sf k ds = (False, k, ds, [])" by (auto simp: unfold)
    with less.prems(3) have "ds' = ds" "evs = []" by simp_all
    with True less.prems(1) gather_none [of "mSendList ds"] show ?thesis
      by (auto simp: advance_refl)
  next
    case False
    then obtain bs where bs: "gather (mSendList ds) = Some bs" and ne: "mSendList ds \<noteq> []" by auto
    obtain n wb k1 where S: "sf k bs = ((n, wb), k1)" by (cases "sf k bs") auto
    have n: "n \<le> int (length bs)" using less.prems(2) S unfolding send_law_def by (metis fst_conv)
    show ?thesis
    proof (cases "n \<le> 0")
      case True
      with less.prems bs ne S show ?thesis
        by (auto simp: unfold advance_refl checkWrite_def split: if_splits)
    next
      case pos: False
      obtain rest evs1 where C: "consume (nat n) (mSendList ds) = (rest, evs1)" by fastforce
      obtain more where more: "pending (mSendList ds) = bs @ more"
        using gather_prefix [OF less.prems(1) bs] by blast
      with n have A: "advance (mSendList ds) rest (Ev_sent (take (nat n) bs) # evs1)"
        using consume_advance [OF less.prems(1) _ C] by simp
      show ?thesis
      proof (cases "whole n bs")
        case False
        with less.prems bs ne S pos C A show ?thesis
          by (auto simp: unfold checkWrite_def)
      next
        case True
        let ?ds1 = "ds\<lparr>mSendList := rest\<rparr>"
        obtain c2 k2 ds2 evs2 where L: "flush_loop gather whole sf k1 ?ds1 = (c2, k2, ds2, evs2)"
          by (cases "flush_loop gather whole sf k1 ?ds1") auto
        have size: "packets_size (mSendList ?ds1) < packets_size (mSendList ds)"
          using consume_pair_less [OF C] pos ne by simp
        have ok: "packets_ok (mSendList ?ds1)" using A by (simp add: advance_def)
        from less.hyps [OF size ok less.prems(2) L]
        have IH: "advance rest (mSendList ds2) evs2"
          "only_send ?ds1 ds2" "mCanWrite ds \<or> ds_epollout ds \<longrightarrow> mCanWrite ds2 \<or> ds_epollout ds2"
          "packets_full rest \<and> \<not> c2 \<and> mSendList ds2 \<noteq> [] \<longrightarrow> \<not> mCanWrite ds2 \<and> ds_epollout ds2"
          by simp_all
        have "close = c2" "ds' = ds2" "evs = (Ev_sent (take (nat n) bs) # evs1) @ evs2"
          using less.prems(3) bs ne S pos C True L by (auto simp: unfold)
        with IH advance_trans [OF A IH(1)] only_send_trans [OF _ IH(2), of ds] A show ?thesis by (auto simp: advance_def)
      qed
    qed
  qed
qed

lemma flush_ok:
  assumes "packets_ok (mSendList ds)" and "send_law sf" and "mIsPostFinalClose ds = (\<not> mSocket ds)"
    and "(case flush_loop gather whole sf k ds of
            (close, k', ds', evs) \<Rightarrow> (k', if close then procCloseInLoop ds' else ds', evs)) = (k', ds', evs)"
  shows "advance (mSendList ds) (mSendList ds') evs \<and>
    (\<exists>ds1. only_send ds ds1 \<and> (ds' = ds1 \<or> ds' = procCloseInLoop ds1)) \<and>
    (mSocket ds' \<and> (mCanWrite ds \<or> ds_epollout ds) \<longrightarrow> mCanWrite ds' \<or> ds_epollout ds') \<and>
    (packets_full (mSendList ds) \<and> mSocket ds' \<and> mSendList ds' \<noteq> [] \<longrightarrow> \<not> mCanWrite ds' \<and> ds_epollout ds')"
proof -
  obtain close k1 ds1 evs1 where L: "flush_loop gather whole sf k ds = (close, k1, ds1, evs1)"
    by (cases "flush_loop gather whole sf k ds") auto
  note F = flush_loop_ok [OF assms(1,2) L]
  then have "only_send ds ds1" by blast
  from only_sendD(1,2) [OF this] assms(3) have "\<not> mSocket (procCloseInLoop ds1)" by (intro close_frame(4)) simp
  with F assms(4) L show ?thesis by (cases close) auto
qed

end

section \<open>The two gathering loops keep the contract\<close>

lemma pending_take_drop: "pending ps = pending (take n ps) @ pending (drop n ps)"
  by (metis append_take_drop_id event_lists(12))

lemma gather_loop_prefix:
  "packets_ok ps \<Longrightarrow> (first \<Longrightarrow> buf = []) \<Longrightarrow> \<exists>more. buf @ pending ps = gather_loop first buf ps @ more"
proof (induction first buf ps rule: gather_loop.induct)
  case (2 first buf p ps)
  then show ?case by auto
qed simp

lemma gather_loop_grows: "packets_ok ps \<Longrightarrow> length buf \<le> length (gather_loop False buf ps)"
proof (induction False buf ps rule: gather_loop.induct)
  case (2 buf p ps)
  then show ?case by auto
qed simp

lemma gather_loop_some:
  assumes "packets_ok ps" and "packets_full ps" and "gather_loop True [] ps = []"
  shows "ps = []"
proof (cases ps)
  case (Cons p qs)
  with assms have "packet_rest p \<noteq> []" by (auto dest!: arg_cong [where f = length])
  with assms Cons gather_loop_grows [of qs "packet_rest p"] show ?thesis by (auto split: if_splits)
qed

interpretation quick: flusher quick_gather quick_whole
  by unfold_locales (auto simp: quick_gather_def pending_def intro: pending_take_drop [unfolded pending_def])

interpretation normal: flusher normal_gather normal_whole
proof (unfold_locales, goal_cases)
  case (1 ps bs)
  then show ?case using gather_loop_prefix [of ps True "[]"]
    by (auto simp: normal_gather_def Let_def split: if_splits)
next
  case (2 ps)
  then show ?case using gather_loop_some [of ps] by (auto simp: normal_gather_def Let_def split: if_splits)
qed

text \<open>
  A flush, by gathered \<open>writev\<close> calls or through the 32 KB send buffer, sends
  the pending packets as one stream: the bytes the system accepted, call after
  call, followed by the bytes still pending, are the bytes that were pending; no
  byte is repeated, skipped or reordered by partial sends. The packets that left
  the list are a prefix of it, and exactly their callbacks ran, in order. If
  bytes are left and the socket is still open, it waits for writability. The
  system accepts at most what it is given.
\<close>

theorem flush_sends_stream:
  assumes "flush = quickFlush \<or> flush = normalFlush" and "send_law sf"
    and "packets_ok (mSendList ds)" and "mIsPostFinalClose ds = (\<not> mSocket ds)"
    and "flush sf k ds = (k', ds', evs)"
  shows "pending (mSendList ds) = sent_bytes evs @ pending (mSendList ds') \<and>
    (\<exists>m. map packet_label (mSendList ds') = map packet_label (drop m (mSendList ds)) \<and>
         completed evs = callbacks (take m (mSendList ds))) \<and>
    (packets_full (mSendList ds) \<and> mSocket ds' \<and> mSendList ds' \<noteq> [] \<longrightarrow> \<not> mCanWrite ds' \<and> ds_epollout ds')"
  using assms(1)
proof
  assume "flush = quickFlush"
  with quick.flush_ok [OF assms(3,2,4)] assms(5) show ?thesis by (auto simp: quickFlush_def advance_def)
next
  assume "flush = normalFlush"
  with normal.flush_ok [OF assms(3,2,4)] assms(5) show ?thesis by (auto simp: normalFlush_def advance_def)
qed

text \<open>The witness: a system that takes two bytes at most and then has no more room.\<close>

definition two_bytes :: "nat send_fn" where
  "two_bytes k bs = ((if k = 0 then min 2 (int (length bs)) else -1, True), k + 1)"

definition two_packets :: data_socket where
  "two_packets = \<lparr>mSocket = True, mIsPostFinalClose = False, mCanWrite = True,
     mRecvBuffer = \<lparr>bs_data = [], bs_data_len = 0, bs_write_pos = 0, bs_read_pos = 0\<rparr>,
     mMaxRecvBufferSize = 0,
     mSendList = [\<lparr>pk_data = [1], pk_left = 1, pk_callback = Some 7\<rparr>,
                  \<lparr>pk_data = [2, 3], pk_left = 2, pk_callback = Some 8\<rparr>],
     mIsPostFlush = False, mRecvData = False, hasDataCallback = True, hasDisConnectCallback = True,
     ds_epollout = False, ds_after = []\<rparr>"

theorem flush_sends_stream_witness:
  "\<exists>k' ds' evs. quickFlush two_bytes 0 two_packets = (k', ds', evs) \<and>
     [1, 2, 3] = sent_bytes evs @ pending (mSendList ds')"
proof -
  obtain k' ds' evs where F: "quickFlush two_bytes 0 two_packets = (k', ds', evs)"
    by (cases "quickFlush two_bytes 0 two_packets") auto
  have "send_law two_bytes" by (simp add: send_law_def two_bytes_def)
  moreover have "packets_ok (mSendList two_packets)" "mIsPostFinalClose two_packets = (\<not> mSocket two_packets)"
    by (simp_all add: two_packets_def)
  ultimately have "pending (mSendList two_packets) = sent_bytes evs @ pending (mSendList ds')"
    using flush_sends_stream [of quickFlush two_bytes two_packets 0 k' ds' evs] F by blast
  then have "[1, 2, 3] = sent_bytes evs @ pending (mSendList ds')"
    by (simp add: two_packets_def packet_rest_def)
  with F show ?thesis by blast
qed

end
