(* ===== verification/Data_Socket_Recv.thy ===== *)
theory Data_Socket_Recv
  imports Data_Socket_Send
begin

text \<open>
  The receive loop of a connection: it ends when the system has no more bytes,
  keeps the receive buffer well formed through growth and compaction, and shows
  the data callback the received bytes in order, each once until it is taken.
\<close>

section \<open>The buffer operations of the loop\<close>

lemma store_bytes_ok:
  assumes inv: "buffer_inv b" and fits: "length bs \<le> unat (ox_buffer_getwritevalidcount b)"
  shows "\<exists>b'. store_bytes bs b = Some b' \<and> buffer_inv b' \<and>
    buffer_contents b' = buffer_contents b @ bs \<and> buffer_capacity b' = buffer_capacity b"
proof -
  let ?n = "of_nat (length bs) :: size_t"
  have "length bs < 2 ^ 64" using fits unat_bound [of "ox_buffer_getwritevalidcount b"] by simp
  then have n: "unat ?n = length bs" by (simp add: unat_of_nat take_bit_nat_eq_self)
  have room: "ox_buffer_getwritevalidcount b \<ge> ?n" using fits n by (simp add: word_le_nat_alt)
  have "unat (bs_write_pos b) + length bs \<le> buffer_capacity b"
    using fits buffer_invD(3) [OF inv] by (simp add: writevalidcount_room [OF inv] buffer_capacity_def)
  from write_direct [OF inv this] obtain b' where b': "ox_buffer_write b bs ?n = Some (True, b')"
    "buffer_inv b'" "buffer_contents b' = buffer_contents b @ bs" "buffer_capacity b' = buffer_capacity b"
    by blast
  have "store_bytes bs b = Some b'"
    using b'(1) room n by (auto simp: ox_buffer_write.simps [of b] mem_read_def store_bytes_def split: bind_splits)
  with b' show ?thesis by blast
qed

lemma write_take:
  "unat len \<le> length src \<Longrightarrow> ox_buffer_write b src len = ox_buffer_write b (take (unat len) src) len"
proof (induction b src len rule: ox_buffer_write.induct)
  case (1 b src len)
  have "mem_read src 0 (unat len) = mem_read (take (unat len) src) 0 (unat len)"
    using 1 by (simp add: mem_read_def min_def)
  with 1 show ?case
    by (subst (1 2) ox_buffer_write.simps) (auto simp: Let_def split: option.splits)
qed

definition grow_limit :: "size_t \<Rightarrow> bool" where
  "grow_limit maxsize \<longleftrightarrow> unat maxsize < 2 ^ 31"

definition buffer_ok :: "size_t \<Rightarrow> buffer_s \<Rightarrow> bool" where
  "buffer_ok maxsize b \<longleftrightarrow> buffer_inv b \<and> buffer_capacity b \<le> max (17 * 1024) (unat maxsize)"

lemma read_source:
  assumes "buffer_inv b"
  shows "take (length (buffer_contents b))
      (case ox_buffer_getreadptr b of Some off \<Rightarrow> drop off (bs_data b) | None \<Rightarrow> []) = buffer_contents b"
proof (cases "bs_read_pos b < bs_data_len b")
  case True
  then show ?thesis using buffer_invD [OF assms]
    by (simp add: ox_buffer_getreadptr_def buffer_contents_def)
next
  case False
  then have "buffer_contents b = []" using buffer_invD [OF assms]
    by (simp add: buffer_contents_def word_less_nat_alt)
  with False show ?thesis by (simp add: ox_buffer_getreadptr_def)
qed

lemma grow_ok:
  assumes ok: "buffer_ok maxsize b" and lim: "grow_limit maxsize" and heap: "\<forall>n. malloc_ok env n"
  shows "\<exists>b'. growRecvBuffer env maxsize b = Some b' \<and> buffer_ok maxsize b' \<and>
    buffer_contents b' = buffer_contents b"
proof (cases "ox_buffer_getsize b + GROW_BUFFER_SIZE \<le> maxsize")
  case False
  with ok show ?thesis by (auto simp: growRecvBuffer_def)
next
  case True
  note inv = ok [unfolded buffer_ok_def, THEN conjunct1]
  let ?n = "ox_buffer_getsize b + GROW_BUFFER_SIZE"
  let ?src = "case ox_buffer_getreadptr b of Some off \<Rightarrow> drop off (bs_data b) | None \<Rightarrow> []"
  have cap: "buffer_capacity b < 2 ^ 31" using ok lim by (auto simp: buffer_ok_def grow_limit_def)
  have n: "unat ?n = buffer_capacity b + 1024"
    using cap by (simp add: ox_buffer_getsize_def GROW_BUFFER_SIZE_def buffer_capacity_def unat_add_lem [THEN iffD1])
  obtain b1 where b1: "ox_buffer_new env ?n = Some b1"
    using heap by (auto simp: ox_buffer_new_def malloc_def)
  note new = new_inv [OF b1]
  let ?c = "buffer_contents b"
  have "length ?c < 2 ^ 64" using contents_length_le [OF inv] cap by simp
  then have cnt: "ox_buffer_getreadvalidcount b = of_nat (length ?c)"
    using arg_cong [OF readvalidcount_contents [OF inv], of "of_nat :: nat \<Rightarrow> size_t"] by simp
  have src: "length ?c \<le> length ?src" using read_source [OF inv] by (metis length_take min.cobounded1)
  have "ox_buffer_write b1 ?src (ox_buffer_getreadvalidcount b) = ox_buffer_write b1 ?c (of_nat (length ?c))"
    using write_take [of "ox_buffer_getreadvalidcount b" ?src b1] src read_source [OF inv]
      readvalidcount_contents [OF inv] by (simp add: cnt)
  moreover have "length (buffer_contents b1) + length ?c \<le> buffer_capacity b1"
    using new n contents_length_le [OF inv] by simp
  from write_ok [OF _ this] new obtain b2 where "ox_buffer_write b1 ?c (of_nat (length ?c)) = Some (True, b2)"
    "buffer_inv b2" "buffer_contents b2 = ?c" "buffer_capacity b2 = buffer_capacity b1" by auto
  moreover have "unat ?n \<le> unat maxsize" using True by (simp add: word_le_nat_alt)
  ultimately show ?thesis using True b1 new n by (auto simp: growRecvBuffer_def buffer_ok_def)
qed

lemma adjust_ok:
  assumes "buffer_ok maxsize b"
  shows "\<exists>b'. adjust_buffer b = Some b' \<and> buffer_ok maxsize b' \<and> buffer_contents b' = buffer_contents b"
proof -
  obtain b' where "ox_buffer_adjustto_head b = Some b'" "buffer_inv b'" "buffer_contents b' = buffer_contents b"
    "buffer_capacity b' = buffer_capacity b"
    using adjustto_head_ok [of b] assms by (auto simp: buffer_ok_def)
  with assms show ?thesis by (auto simp: adjust_buffer_def buffer_ok_def)
qed

section \<open>The abstract connection\<close>

text \<open>
  What a connection promises: two byte streams. Received bytes are appended to
  the first, the data callback sees all of it and takes a prefix; submitted
  packets are appended to the second, and sent bytes are a prefix of it.
\<close>

type_synonym duplex = "byte list \<times> byte list"

fun duplex_step :: "ds_event \<Rightarrow> duplex \<Rightarrow> duplex option" where
  "duplex_step (Ev_received bs) (inp, out) = Some (inp @ bs, out)"
| "duplex_step (Ev_data shown n) (inp, out) =
     (if shown = inp \<and> n \<le> length inp then Some (drop n inp, out) else None)"
| "duplex_step (Ev_submit bs) (inp, out) = Some (inp, out @ bs)"
| "duplex_step (Ev_sent bs) (inp, out) =
     (if take (length bs) out = bs then Some (inp, drop (length bs) out) else None)"
| "duplex_step _ st = Some st"

fun duplex_run :: "ds_event list \<Rightarrow> duplex \<Rightarrow> duplex option" where
  "duplex_run [] st = Some st"
| "duplex_run (e # evs) st = Option.bind (duplex_step e st) (duplex_run evs)"

lemma duplex_run_append:
  "duplex_run (evs @ evs') st = Option.bind (duplex_run evs st) (duplex_run evs')"
proof (induction evs arbitrary: st)
  case (Cons e evs)
  then show ?case by (cases "duplex_step e st") simp_all
qed simp

definition ds_abs :: "data_socket \<Rightarrow> duplex" where
  "ds_abs ds = (buffer_contents (mRecvBuffer ds), pending (mSendList ds))"

section \<open>The data callback\<close>

text \<open>A data callback takes at most what it is shown.\<close>

definition cb_law :: "'u data_cb \<Rightarrow> bool" where
  "cb_law dcb \<longleftrightarrow> (\<forall>u bs. fst (dcb u bs) \<le> length bs)"

definition ds_ok :: "data_socket \<Rightarrow> bool" where
  "ds_ok ds \<longleftrightarrow> buffer_ok (mMaxRecvBufferSize ds) (mRecvBuffer ds) \<and> packets_ok (mSendList ds) \<and>
     mIsPostFinalClose ds = (\<not> mSocket ds)"

lemmas ds_proc_defs =
  ds_send_def runAfterFlush_def postDisConnect_def postShutdown_def procCloseInLoop_def onClose_def
  closeSocket_def

lemma action_frame [simp]:
  "mRecvBuffer (run_action a ds) = mRecvBuffer ds"
  "mMaxRecvBufferSize (run_action a ds) = mMaxRecvBufferSize ds"
  "hasDataCallback (run_action a ds) = hasDataCallback ds"
  "hasDisConnectCallback (run_action a ds) = hasDisConnectCallback ds"
  by (cases a; simp add: ds_proc_defs)+

lemma actions_frame [simp]:
  "mRecvBuffer (fold run_action acts ds) = mRecvBuffer ds"
  "mMaxRecvBufferSize (fold run_action acts ds) = mMaxRecvBufferSize ds"
  "hasDataCallback (fold run_action acts ds) = hasDataCallback ds"
  "hasDisConnectCallback (fold run_action acts ds) = hasDisConnectCallback ds"
  by (induction acts arbitrary: ds) simp_all

lemma action_ok:
  assumes "ds_ok ds"
  shows "ds_ok (run_action a ds) \<and> duplex_run (action_events a) (ds_abs ds) = Some (ds_abs (run_action a ds))"
  using assms by (cases a) (auto simp: ds_proc_defs ds_ok_def ds_abs_def packet_rest_def)

lemma actions_ok:
  "ds_ok ds \<Longrightarrow> ds_ok (fold run_action acts ds) \<and>
     duplex_run (concat (map action_events acts)) (ds_abs ds) = Some (ds_abs (fold run_action acts ds))"
proof (induction acts arbitrary: ds)
  case (Cons a acts)
  then show ?case using action_ok [of ds a] by (auto simp: duplex_run_append)
qed simp

lemma actions_out:
  "duplex_run (concat (map action_events acts)) (inp, out) = Some (inp', out') \<Longrightarrow>
   duplex_run (concat (map action_events acts)) (inp2, out) = Some (inp2, out')"
proof (induction acts arbitrary: out)
  case (Cons a acts)
  then show ?case by (cases a) (simp_all add: duplex_run_append)
qed simp

text \<open>What receiving may change: the buffer, the heartbeat flag, and what the callback's actions change.\<close>

definition recv_event :: "ds_event \<Rightarrow> bool" where
  "recv_event e \<longleftrightarrow> (case e of Ev_received _ \<Rightarrow> True | Ev_data _ _ \<Rightarrow> True | Ev_submit _ \<Rightarrow> True | _ \<Rightarrow> False)"

text \<open>The actions a callback may ever take.\<close>

definition cb_acts :: "'u data_cb \<Rightarrow> ds_action set" where
  "cb_acts dcb = {a. \<exists>u bs. a \<in> set (fst (snd (dcb u bs)))}"

definition recv_frame :: "ds_action set \<Rightarrow> data_socket \<Rightarrow> data_socket \<Rightarrow> ds_event list \<Rightarrow> bool" where
  "recv_frame A ds ds' evs \<longleftrightarrow> list_all recv_event evs \<and>
     (\<exists>acts b r. set acts \<subseteq> A \<and> ds' = (fold run_action acts ds)\<lparr>mRecvBuffer := b, mRecvData := r\<rparr>)"

lemma action_commute [simp]:
  "run_action a (ds\<lparr>mRecvBuffer := b\<rparr>) = (run_action a ds)\<lparr>mRecvBuffer := b\<rparr>"
  "run_action a (ds\<lparr>mRecvData := r\<rparr>) = (run_action a ds)\<lparr>mRecvData := r\<rparr>"
  by (cases a; simp add: ds_proc_defs)+

lemma actions_commute [simp]:
  "fold run_action acts (ds\<lparr>mRecvBuffer := b\<rparr>) = (fold run_action acts ds)\<lparr>mRecvBuffer := b\<rparr>"
  "fold run_action acts (ds\<lparr>mRecvData := r\<rparr>) = (fold run_action acts ds)\<lparr>mRecvData := r\<rparr>"
  by (induction acts arbitrary: ds) simp_all

lemma recv_frame_refl: "recv_frame A ds ds []"
  unfolding recv_frame_def
  by (intro conjI exI [of _ "[]"] exI [of _ "mRecvBuffer ds"] exI [of _ "mRecvData ds"]) simp_all

lemma recv_frame_trans:
  assumes "recv_frame A ds ds1 evs" and "recv_frame A ds1 ds2 evs'"
  shows "recv_frame A ds ds2 (evs @ evs')"
proof -
  from assms obtain acts b r acts' b' r' where
    "ds1 = (fold run_action acts ds)\<lparr>mRecvBuffer := b, mRecvData := r\<rparr>"
    "ds2 = (fold run_action acts' ds1)\<lparr>mRecvBuffer := b', mRecvData := r'\<rparr>"
    "set acts \<subseteq> A" "set acts' \<subseteq> A"
    unfolding recv_frame_def by blast
  then have "ds2 = (fold run_action (acts @ acts') ds)\<lparr>mRecvBuffer := b', mRecvData := r'\<rparr>"
    "set (acts @ acts') \<subseteq> A" by simp_all
  with assms show ?thesis unfolding recv_frame_def by (metis list_all_append)
qed

lemma action_events_recv: "list_all recv_event (concat (map action_events acts))"
proof (induction acts)
  case (Cons a acts)
  then show ?case by (cases a) (simp_all add: recv_event_def)
qed simp

lemma call_data_cb_ok:
  assumes ok: "ds_ok ds" and law: "cb_law dcb" and some: "buffer_contents (mRecvBuffer ds) \<noteq> []"
  shows "\<exists>u' ds' evs. call_data_cb dcb u ds = Some (u', ds', evs) \<and> ds_ok ds' \<and> recv_frame (cb_acts dcb) ds ds' evs \<and>
    mMaxRecvBufferSize ds' = mMaxRecvBufferSize ds \<and> duplex_run evs (ds_abs ds) = Some (ds_abs ds')"
proof (cases "hasDataCallback ds")
  case False
  with ok show ?thesis by (auto simp: call_data_cb_def recv_frame_refl)
next
  case True
  let ?b = "mRecvBuffer ds" and ?c = "buffer_contents (mRecvBuffer ds)"
  have inv: "buffer_inv ?b" using ok by (simp add: ds_ok_def buffer_ok_def)
  note D = buffer_invD [OF inv]
  have len: "length ?c = unat (bs_write_pos ?b) - unat (bs_read_pos ?b)"
    using D by (simp add: buffer_contents_def)
  with some have "unat (bs_read_pos ?b) < unat (bs_write_pos ?b)" by (cases "?c") auto
  then have ptr: "ox_buffer_getreadptr ?b = Some (unat (bs_read_pos ?b))"
    using D by (simp add: ox_buffer_getreadptr_def word_less_nat_alt)
  have cnt: "unat (ox_buffer_getreadvalidcount ?b) = length ?c" by (rule readvalidcount_contents [OF inv])
  have shown: "mem_read (bs_data ?b) (unat (bs_read_pos ?b)) (length ?c) = Some ?c"
    using D len by (simp add: mem_read_def) (simp add: buffer_contents_def)
  obtain n acts u' where C: "dcb u ?c = (n, acts, u')" by (cases "dcb u ?c") auto
  have n: "n \<le> length ?c" using law C unfolding cb_law_def by (metis fst_conv)
  let ?ds1 = "fold run_action acts (ds\<lparr>mRecvData := True\<rparr>)"
  have "ds_ok (ds\<lparr>mRecvData := True\<rparr>)" "ds_abs (ds\<lparr>mRecvData := True\<rparr>) = ds_abs ds"
    using ok by (simp_all add: ds_ok_def ds_abs_def)
  with actions_ok [of "ds\<lparr>mRecvData := True\<rparr>" acts] have A: "ds_ok ?ds1"
    "duplex_run (concat (map action_events acts)) (ds_abs ds) = Some (ds_abs ?ds1)" by simp_all
  let ?ds' = "?ds1\<lparr>mRecvBuffer := ox_buffer_addreadpos ?b (of_nat n)\<rparr>"
  note R = addreadpos_ok [OF inv n]
  have "call_data_cb dcb u ds = Some (u', ?ds', Ev_data ?c n # concat (map action_events acts))"
    using True n C by (simp add: call_data_cb_def ptr shown cnt Let_def)
  moreover have "ds_ok ?ds'" using A(1) R by (simp add: ds_ok_def buffer_ok_def)
  moreover have "recv_frame (cb_acts dcb) ds ?ds' (Ev_data ?c n # concat (map action_events acts))"
    unfolding recv_frame_def
    by (intro conjI exI [of _ acts] exI [of _ "ox_buffer_addreadpos ?b (of_nat n)"] exI [of _ True])
      (use C in \<open>auto simp: action_events_recv recv_event_def cb_acts_def intro!: exI [of _ u] exI [of _ ?c]\<close>)
  moreover have "duplex_run (concat (map action_events acts)) (drop n ?c, pending (mSendList ds)) =
      Some (ds_abs ?ds')"
    using actions_out [OF A(2) [unfolded ds_abs_def]] R by (simp add: ds_abs_def)
  ultimately show ?thesis using n by (auto simp: ds_abs_def)
qed

section \<open>The loop\<close>

lemma got_bytes_ok:
  assumes ok: "ds_ok ds" and law: "cb_law dcb" and lim: "grow_limit (mMaxRecvBufferSize ds)"
    and heap: "\<forall>n. malloc_ok env n" and some: "bs \<noteq> []"
    and fits: "length bs \<le> unat (ox_buffer_getwritevalidcount (mRecvBuffer ds))"
  shows "\<exists>u' ds' evs. got_bytes env dcb bs u ds = Some (u', ds', evs) \<and> ds_ok ds' \<and> recv_frame (cb_acts dcb) ds ds' evs \<and>
    mMaxRecvBufferSize ds' = mMaxRecvBufferSize ds \<and> duplex_run evs (ds_abs ds) = Some (ds_abs ds')"
proof -
  let ?m = "mMaxRecvBufferSize ds" and ?c = "buffer_contents (mRecvBuffer ds)"
  from ok have inv: "buffer_inv (mRecvBuffer ds)" by (simp add: ds_ok_def buffer_ok_def)
  obtain b1 where b1: "store_bytes bs (mRecvBuffer ds) = Some b1" "buffer_ok ?m b1" "buffer_contents b1 = ?c @ bs"
    using store_bytes_ok [OF inv fits] ok by (auto simp: ds_ok_def buffer_ok_def)
  obtain b2 where b2: "(if ox_buffer_getreadvalidcount b1 = ox_buffer_getsize b1
      then growRecvBuffer env ?m b1 else Some b1) = Some b2" "buffer_ok ?m b2" "buffer_contents b2 = ?c @ bs"
    using grow_ok [OF b1(2) lim heap] b1
    by (cases "ox_buffer_getreadvalidcount b1 = ox_buffer_getsize b1") auto
  let ?ds2 = "ds\<lparr>mRecvBuffer := b2\<rparr>"
  have "ds_ok ?ds2" using ok b2 by (simp add: ds_ok_def)
  moreover have "buffer_contents (mRecvBuffer ?ds2) \<noteq> []" using b2 some by simp
  ultimately obtain u3 ds3 evs where C: "call_data_cb dcb u ?ds2 = Some (u3, ds3, evs)" "ds_ok ds3" "recv_frame (cb_acts dcb) ?ds2 ds3 evs"
    "mMaxRecvBufferSize ds3 = ?m" "duplex_run evs (ds_abs ?ds2) = Some (ds_abs ds3)"
    using call_data_cb_ok [OF _ law, of ?ds2 u] by auto
  from C obtain b4 where b4: "adjust_buffer (mRecvBuffer ds3) = Some b4" "buffer_ok ?m b4"
    "buffer_contents b4 = buffer_contents (mRecvBuffer ds3)"
    using adjust_ok [of ?m "mRecvBuffer ds3"] by (auto simp: ds_ok_def)
  have "got_bytes env dcb bs u ds = Some (u3, ds3\<lparr>mRecvBuffer := b4\<rparr>, Ev_received bs # evs)"
    using b1(1) b2(1) C(1) b4(1) by (simp add: got_bytes_def)
  moreover have "ds_ok (ds3\<lparr>mRecvBuffer := b4\<rparr>)" using C b4 by (simp add: ds_ok_def)
  moreover have "duplex_run (Ev_received bs # evs) (ds_abs ds) = Some (ds_abs (ds3\<lparr>mRecvBuffer := b4\<rparr>))"
    using C(5) b2(3) b4(3) by (simp add: ds_abs_def)
  moreover have "recv_frame (cb_acts dcb) ds ?ds2 [Ev_received bs]" "recv_frame (cb_acts dcb) ds3 (ds3\<lparr>mRecvBuffer := b4\<rparr>) []"
    unfolding recv_frame_def
    by (intro conjI exI [of _ "[]"] exI [of _ b2] exI [of _ "mRecvData ds"]; simp add: recv_event_def)
      (intro conjI exI [of _ "[]"] exI [of _ b4] exI [of _ "mRecvData ds3"]; simp)
  from recv_frame_trans [OF recv_frame_trans [OF this(1) C(3)] this(2)]
  have "recv_frame (cb_acts dcb) ds (ds3\<lparr>mRecvBuffer := b4\<rparr>) (Ev_received bs # evs)" by simp
  ultimately show ?thesis using C(4) by auto
qed

text \<open>
  \<open>recv\<close> returns at most as many bytes as it is asked for, and what the system
  holds for the socket is finite: \<open>left\<close> counts it.
\<close>

definition recv_law :: "'k recv_fn \<Rightarrow> ('k \<Rightarrow> nat) \<Rightarrow> bool" where
  "recv_law rf left \<longleftrightarrow> (\<forall>k n bs k'. rf k n = (Recv_bytes bs, k') \<longrightarrow>
     length bs \<le> nat n \<and> left k' + length bs \<le> left k)"

lemma sint_ucast_small:
  fixes w :: size_t
  assumes "unat w < 2 ^ 31"
  shows "sint (ucast w :: 32 word) = int (unat w)"
proof -
  have "int (unat w) < int (2 ^ 31)" using assms by (simp only: of_nat_less_iff)
  then have w: "uint w < 2 ^ 31" by simp
  have "uint (ucast w :: 32 word) = take_bit 32 (uint w)" by (simp add: unsigned_ucast_eq)
  also have "\<dots> = uint w" using w by (intro take_bit_int_eq_self) simp_all
  finally have u: "uint (ucast w :: 32 word) = uint w" .
  have "sint (ucast w :: 32 word) = signed_take_bit 31 (uint (ucast w :: 32 word))"
    by (simp add: sint_uint)
  also have "\<dots> = uint w" unfolding u using w
    by (intro signed_take_bit_int_eq_self order_trans [OF _ unsigned_greater_eq]) simp_all
  finally show ?thesis by simp
qed

lemma room_int:
  assumes "ds_ok ds" and "grow_limit (mMaxRecvBufferSize ds)"
  shows "sint (ucast (ox_buffer_getwritevalidcount (mRecvBuffer ds)) :: 32 word) =
    int (unat (ox_buffer_getwritevalidcount (mRecvBuffer ds)))"
proof (rule sint_ucast_small)
  have "unat (ox_buffer_getwritevalidcount (mRecvBuffer ds)) \<le> buffer_capacity (mRecvBuffer ds)"
    using assms(1) by (simp add: ds_ok_def buffer_ok_def writevalidcount_room buffer_capacity_def)
  then show "unat (ox_buffer_getwritevalidcount (mRecvBuffer ds)) < 2 ^ 31"
    using assms by (auto simp: ds_ok_def buffer_ok_def grow_limit_def)
qed

lemma recv_loop_ok:
  assumes law: "cb_law dcb" "recv_law rf left" and heap: "\<forall>n. malloc_ok env n"
    and "ds_ok ds" and "grow_limit (mMaxRecvBufferSize ds)" and "left k < fuel"
  shows "\<exists>close k' u' ds' evs. recv_loop fuel env rf dcb k u ds = Some (close, k', u', ds', evs) \<and> ds_ok ds' \<and>
    recv_frame (cb_acts dcb) ds ds' evs \<and> mMaxRecvBufferSize ds' = mMaxRecvBufferSize ds \<and> duplex_run evs (ds_abs ds) = Some (ds_abs ds')"
  using assms(4-6)
proof (induction fuel arbitrary: k u ds)
  case (Suc fuel)
  let ?n = "ox_buffer_getwritevalidcount (mRecvBuffer ds)"
  note room = room_int [OF Suc.prems(1,2)]
  show ?case
  proof (cases "\<not> mSocket ds \<or> ?n = 0 \<or> (\<exists>w k'. rf k (int (unat ?n)) = (Recv_fail w, k')) \<or>
      (\<exists>k'. rf k (int (unat ?n)) = (Recv_bytes [], k'))")
    case True
    with Suc.prems(1) show ?thesis by (auto simp: Let_def room recv_frame_refl)
  next
    case False
    then obtain bs k' where R: "rf k (int (unat ?n)) = (Recv_bytes bs, k')" "bs \<noteq> []"
      by (cases "rf k (int (unat ?n))") (metis recv_answer.exhaust)
    with law(2) have bs: "length bs \<le> unat ?n" "left k' + length bs \<le> left k"
      unfolding recv_law_def by (metis nat_int)+
    from got_bytes_ok [OF Suc.prems(1) law(1) Suc.prems(2) heap R(2) bs(1), of u]
    obtain u1 ds1 evs1 where G: "got_bytes env dcb bs u ds = Some (u1, ds1, evs1)" "ds_ok ds1" "recv_frame (cb_acts dcb) ds ds1 evs1"
      "mMaxRecvBufferSize ds1 = mMaxRecvBufferSize ds" "duplex_run evs1 (ds_abs ds) = Some (ds_abs ds1)"
      by blast
    have "left k' < fuel" using bs(2) R(2) Suc.prems(3) by (cases bs) auto
    with Suc.IH [OF G(2), of k' u1] G(4) Suc.prems(2) obtain c2 k2 u2 ds2 evs2 where
      L: "recv_loop fuel env rf dcb k' u1 ds1 = Some (c2, k2, u2, ds2, evs2)" "ds_ok ds2" "recv_frame (cb_acts dcb) ds1 ds2 evs2"
      "mMaxRecvBufferSize ds2 = mMaxRecvBufferSize ds" "duplex_run evs2 (ds_abs ds1) = Some (ds_abs ds2)"
      by auto
    with False R G recv_frame_trans [OF G(3) L(3)] show ?thesis by (auto simp: Let_def room duplex_run_append)
  qed
qed simp

lemma close_ok:
  assumes "ds_ok ds"
  shows "ds_ok (procCloseInLoop ds) \<and> ds_ok (onClose ds)"
    "ds_abs (procCloseInLoop ds) = ds_abs ds" "ds_abs (onClose ds) = ds_abs ds"
    "mMaxRecvBufferSize (procCloseInLoop ds) = mMaxRecvBufferSize ds"
    "mMaxRecvBufferSize (onClose ds) = mMaxRecvBufferSize ds"
  using assms by (auto simp: ds_proc_defs ds_ok_def ds_abs_def)

lemma ds_recv_ok:
  assumes "cb_law dcb" and "recv_law rf left" and "\<forall>n. malloc_ok env n"
    and "ds_ok ds" and "grow_limit (mMaxRecvBufferSize ds)" and "left k < fuel"
  shows "\<exists>k' u' ds' evs ds1. ds_recv fuel env rf dcb k u ds = Some (k', u', ds', evs) \<and> ds_ok ds' \<and>
    recv_frame (cb_acts dcb) ds ds1 evs \<and> ds_ok ds1 \<and> (ds' = ds1 \<or> ds' = procCloseInLoop ds1) \<and>
    mMaxRecvBufferSize ds' = mMaxRecvBufferSize ds \<and> duplex_run evs (ds_abs ds) = Some (ds_abs ds')"
proof -
  obtain close k' u' ds1 evs where "recv_loop fuel env rf dcb k u ds = Some (close, k', u', ds1, evs)" "ds_ok ds1"
    "recv_frame (cb_acts dcb) ds ds1 evs" "mMaxRecvBufferSize ds1 = mMaxRecvBufferSize ds"
    "duplex_run evs (ds_abs ds) = Some (ds_abs ds1)"
    using recv_loop_ok [OF assms, of u] by blast
  with close_ok [of ds1] show ?thesis
    by (intro exI [of _ k'] exI [of _ u'] exI [of _ "if close then procCloseInLoop ds1 else ds1"] exI [of _ evs]
        exI [of _ ds1]) (simp add: ds_recv_def)
qed

lemma ds_recv_closed:
  "\<not> mSocket ds \<Longrightarrow> 0 < fuel \<Longrightarrow> ds_recv fuel env rf dcb k u ds = Some (k, u, ds, [])"
  by (cases fuel) (simp_all add: ds_recv_def Let_def)

end
