(* ===== verification/Connection.thy ===== *)
theory Connection
  imports Data_Socket_Recv
begin

text \<open>
  A connection over its life: the loop thread runs, in any order, the procs that
  other threads or callbacks posted (sends, disconnect, shutdown), the epoll
  events of the descriptor as \<open>EventLoop::loop\<close> dispatches them, and the
  after-loop procs. Every sequence of these keeps the two byte streams, closes
  at most once, and never leaves bytes waiting for nothing.
\<close>

section \<open>What the loop thread runs\<close>

datatype ds_op =
    Op_send "byte list" "nat option"
  | Op_disconnect
  | Op_shutdown
  | Op_epoll bool bool bool
  | Op_after

text \<open>The system and the user, as the connection meets them.\<close>

record ('k, 'u) ds_env =
  de_heap :: heap_env
  de_recv :: "'k recv_fn"
  de_send :: "'k send_fn"
  de_callback :: "'u data_cb"
  de_fuel :: "'k \<Rightarrow> nat"

type_synonym ('k, 'u) ds_world = "'k \<times> 'u \<times> data_socket"

definition canRecv :: "('k, 'u) ds_env \<Rightarrow> ('k, 'u) ds_world \<Rightarrow> (('k, 'u) ds_world \<times> ds_event list) option" where
  "canRecv env w =
     (case w of (k, u, ds) \<Rightarrow>
        map_option (\<lambda>(k', u', ds', evs). ((k', u', ds'), evs))
          (ds_recv (de_fuel env k) (de_heap env) (de_recv env) (de_callback env) k u ds))"

definition on_socket :: "(data_socket \<Rightarrow> data_socket) \<Rightarrow> ('k, 'u) ds_world \<Rightarrow> ('k, 'u) ds_world" where
  "on_socket f w = (case w of (k, u, ds) \<Rightarrow> (k, u, f ds))"

text \<open>The dispatch of one epoll event: hang-up, readable, writable.\<close>

definition dispatch_event ::
    "bool \<Rightarrow> bool \<Rightarrow> bool \<Rightarrow> ('k, 'u) ds_env \<Rightarrow> ('k, 'u) ds_world \<Rightarrow> (('k, 'u) ds_world \<times> ds_event list) option" where
  "dispatch_event rdhup readable writable env w =
     (if rdhup then map_option (\<lambda>(w', evs). (on_socket onClose w', evs)) (canRecv env w)
      else map_option (\<lambda>(w', evs). (if writable then on_socket canSend w' else w', evs))
             (if readable then canRecv env w else Some (w, [])))"

fun ds_step :: "('k, 'u) ds_env \<Rightarrow> ds_op \<Rightarrow> ('k, 'u) ds_world \<Rightarrow> (('k, 'u) ds_world \<times> ds_event list) option" where
  "ds_step env (Op_send bs cb) w = Some (on_socket (ds_send bs cb) w, [Ev_submit bs])"
| "ds_step env Op_disconnect w = Some (on_socket postDisConnect w, [])"
| "ds_step env Op_shutdown w = Some (on_socket postShutdown w, [])"
| "ds_step env (Op_epoll rdhup readable writable) w = dispatch_event rdhup readable writable env w"
| "ds_step env Op_after (k, u, ds) =
     (case processAfterLoopProcs (de_send env) k ds of (k', ds', evs) \<Rightarrow> Some ((k', u, ds'), evs))"

fun ds_run :: "('k, 'u) ds_env \<Rightarrow> ds_op list \<Rightarrow> ('k, 'u) ds_world \<Rightarrow> (('k, 'u) ds_world \<times> ds_event list) option" where
  "ds_run env [] w = Some (w, [])"
| "ds_run env (x # xs) w =
     (case ds_step env x w of
        None \<Rightarrow> None
      | Some (w', evs) \<Rightarrow> map_option (\<lambda>(w'', evs'). (w'', evs @ evs')) (ds_run env xs w'))"

text \<open>The setters, which the enter callback of the service calls.\<close>

definition ds_setDataCallback :: "bool \<Rightarrow> data_socket \<Rightarrow> data_socket" where
  [simp]: "ds_setDataCallback b ds = ds\<lparr>hasDataCallback := b\<rparr>"

definition ds_setDisConnectCallback :: "bool \<Rightarrow> data_socket \<Rightarrow> data_socket" where
  [simp]: "ds_setDisConnectCallback b ds = ds\<lparr>hasDisConnectCallback := b\<rparr>"

text \<open>What the connection relies on: the system calls and the callback keep to their bounds.\<close>

definition env_law :: "('k, 'u) ds_env \<Rightarrow> bool" where
  "env_law env \<longleftrightarrow> (\<forall>n. malloc_ok (de_heap env) n) \<and> send_law (de_send env) \<and> cb_law (de_callback env) \<and>
     (\<exists>left. recv_law (de_recv env) left \<and> (\<forall>k. left k < de_fuel env k))"

section \<open>Flushing keeps the output stream\<close>

lemma flush_events_run:
  "list_all flush_event evs \<Longrightarrow> out = sent_bytes evs @ rest \<Longrightarrow> duplex_run evs (inp, out) = Some (inp, rest)"
proof (induction evs arbitrary: out)
  case (Cons e evs)
  then show ?case by (cases e) (simp_all add: flush_event_def)
qed simp

section \<open>One step\<close>

text \<open>
  \<open>procs\<close> are the after-loop procs still to run of a list that was swapped out.
  A flush is posted exactly when the flag says so, and never twice.
\<close>

definition conn_inv :: "sock_proc list \<Rightarrow> data_socket \<Rightarrow> bool" where
  "conn_inv procs ds \<longleftrightarrow> ds_ok ds \<and> grow_limit (mMaxRecvBufferSize ds) \<and>
     count_list (procs @ ds_after ds) Proc_flush = of_bool (mIsPostFlush ds)"

text \<open>The disconnect callbacks posted and not yet run.\<close>

definition owed :: "sock_proc list \<Rightarrow> data_socket \<Rightarrow> nat" where
  "owed procs ds = count_list (procs @ ds_after ds) Proc_disconnect"

text \<open>Events that a closed socket may still have.\<close>

definition quiet_event :: "ds_event \<Rightarrow> bool" where
  "quiet_event e \<longleftrightarrow> (case e of Ev_disconnect \<Rightarrow> True | Ev_submit _ \<Rightarrow> True | _ \<Rightarrow> False)"

definition conn_step ::
    "sock_proc list \<Rightarrow> data_socket \<Rightarrow> sock_proc list \<Rightarrow> data_socket \<Rightarrow> ds_event list \<Rightarrow> bool" where
  "conn_step procs ds procs' ds' evs \<longleftrightarrow>
     conn_inv procs' ds' \<and> duplex_run evs (ds_abs ds) = Some (ds_abs ds') \<and>
     (hasDisConnectCallback ds \<longrightarrow>
        count_list evs Ev_disconnect + owed procs' ds' + of_bool (mIsPostFinalClose ds) =
        owed procs ds + of_bool (mIsPostFinalClose ds')) \<and>
     (\<not> mSocket ds \<longrightarrow> \<not> mSocket ds' \<and> list_all quiet_event evs) \<and>
     hasDisConnectCallback ds' = hasDisConnectCallback ds \<and> mMaxRecvBufferSize ds' = mMaxRecvBufferSize ds"

lemma conn_step_refl: "conn_inv procs ds \<Longrightarrow> conn_step procs ds procs ds []"
  by (simp add: conn_step_def)

lemma conn_step_trans:
  assumes "conn_step procs ds procs1 ds1 evs" and "conn_step procs1 ds1 procs2 ds2 evs'"
  shows "conn_step procs ds procs2 ds2 (evs @ evs')"
  using assms by (auto simp: conn_step_def duplex_run_append count_list_append)

lemma action_conn:
  assumes "conn_inv procs ds"
  shows "conn_step procs ds procs (run_action a ds) (action_events a)"
proof -
  have ok: "ds_ok ds" using assms by (simp add: conn_inv_def)
  from assms action_ok [OF ok, of a] show ?thesis
    by (cases a) (auto simp: conn_step_def conn_inv_def ds_proc_defs owed_def quiet_event_def ds_ok_def)
qed

lemma onClose_conn:
  assumes "conn_inv procs ds"
  shows "conn_step procs ds procs (onClose ds) []"
  using assms close_ok [of ds]
  by (auto simp: conn_step_def conn_inv_def ds_proc_defs owed_def ds_ok_def ds_abs_def)

lemma canSend_conn:
  assumes "conn_inv procs ds"
  shows "conn_step procs ds procs (canSend ds) []"
  using assms
  by (auto simp: conn_step_def conn_inv_def canSend_def removeCheckWrite_def runAfterFlush_def owed_def
      ds_ok_def ds_abs_def)

lemma procClose_conn:
  assumes "conn_inv procs ds"
  shows "conn_step procs ds procs (procCloseInLoop ds) []"
  using onClose_conn [OF assms] conn_step_refl [OF assms] by (simp add: procCloseInLoop_def)

lemma actions_conn:
  "conn_inv procs ds \<Longrightarrow> conn_step procs ds procs (fold run_action acts ds) (concat (map action_events acts))"
proof (induction acts arbitrary: ds)
  case Nil
  then show ?case by (simp add: conn_step_refl)
next
  case (Cons a acts)
  note step = action_conn [OF Cons.prems, of a]
  then have "conn_inv procs (run_action a ds)" by (simp add: conn_step_def)
  from conn_step_trans [OF step Cons.IH [OF this]] show ?case by simp
qed

lemma no_disconnect: "list_all recv_event evs \<Longrightarrow> count_list evs Ev_disconnect = 0"
  by (induction evs) (auto simp: recv_event_def)

lemma frame_conn:
  assumes "conn_inv procs ds" and "mSocket ds" and "recv_frame A ds ds1 evs" and "ds_ok ds1"
    and "duplex_run evs (ds_abs ds) = Some (ds_abs ds1)"
  shows "conn_step procs ds procs ds1 evs"
proof -
  obtain acts b r where ds1: "ds1 = (fold run_action acts ds)\<lparr>mRecvBuffer := b, mRecvData := r\<rparr>"
    and evs: "list_all recv_event evs" using assms(3) unfolding recv_frame_def by blast
  have "count_list (concat (map action_events acts)) Ev_disconnect = 0"
    by (rule no_disconnect [OF action_events_recv])
  with actions_conn [OF assms(1), of acts] assms(2,4,5) no_disconnect [OF evs] show ?thesis
    unfolding ds1 by (simp add: conn_step_def conn_inv_def owed_def)
qed

lemma canRecv_conn:
  assumes law: "env_law env" and inv: "conn_inv procs ds"
  shows "\<exists>k' u' ds' evs. canRecv env (k, u, ds) = Some ((k', u', ds'), evs) \<and> conn_step procs ds procs ds' evs"
proof -
  obtain left where left: "recv_law (de_recv env) left" "\<forall>k. left k < de_fuel env k"
    using law by (auto simp: env_law_def)
  have fuel: "left k < de_fuel env k" using left(2) by blast
  show ?thesis
  proof (cases "mSocket ds")
    case False
    then show ?thesis
      using conn_step_refl [OF inv] fuel ds_recv_closed [of ds "de_fuel env k" "de_heap env" "de_recv env" "de_callback env" k u]
      by (simp add: canRecv_def)
  next
    case True
    from ds_recv_ok [OF _ left(1) _ _ _ fuel, of "de_callback env" "de_heap env" ds u] law inv
    obtain k' u' ds' evs ds1 where
      R: "ds_recv (de_fuel env k) (de_heap env) (de_recv env) (de_callback env) k u ds = Some (k', u', ds', evs)"
      and F: "recv_frame (cb_acts (de_callback env)) ds ds1 evs" "ds_ok ds1" "ds' = ds1 \<or> ds' = procCloseInLoop ds1"
      and D: "duplex_run evs (ds_abs ds) = Some (ds_abs ds')"
      by (auto simp: env_law_def conn_inv_def)
    have "ds_abs ds' = ds_abs ds1" using F(2,3) close_ok(2) [of ds1] by auto
    with D have S: "conn_step procs ds procs ds1 evs" using frame_conn [OF inv True F(1,2)] by simp
    then have "conn_inv procs ds1" by (simp add: conn_step_def)
    from conn_step_trans [OF S procClose_conn [OF this]] S F(3) have "conn_step procs ds procs ds' evs" by auto
    with R show ?thesis by (simp add: canRecv_def)
  qed
qed

lemma flush_no_disconnect: "list_all flush_event evs \<Longrightarrow> count_list evs Ev_disconnect = 0"
  by (induction evs) (auto simp: flush_event_def)

context flusher
begin

lemma flushed_conn:
  assumes law: "send_law sf" and inv: "conn_inv procs ds" and open_: "mSocket ds"
    and F: "(case flush_loop gather whole sf k ds of
        (close, k', ds', evs) \<Rightarrow> (k', if close then procCloseInLoop ds' else ds', evs)) = (k', ds', evs)"
  shows "conn_step procs ds procs ds' evs \<and> list_all flush_event evs"
proof -
  have ok: "packets_ok (mSendList ds)" "mIsPostFinalClose ds = (\<not> mSocket ds)"
    using inv by (simp_all add: conn_inv_def ds_ok_def)
  from flush_ok [OF ok(1) law ok(2) F]
  obtain ds1 where A: "advance (mSendList ds) (mSendList ds') evs" and ds1: "only_send ds ds1"
    "ds' = ds1 \<or> ds' = procCloseInLoop ds1" by blast
  have m: "mSendList ds' = mSendList ds1" using ds1(2) by auto
  note frame = only_sendD [OF ds1(1)]
  have ev: "list_all flush_event evs" using A by (simp add: advance_def)
  have D: "duplex_run evs (ds_abs ds) = Some (ds_abs ds1)"
    using A m frame flush_events_run [OF ev] by (simp add: ds_abs_def advance_def)
  have "conn_step procs ds procs ds1 evs"
    using inv open_ D A m frame flush_no_disconnect [OF ev]
    by (simp add: conn_step_def conn_inv_def ds_ok_def owed_def advance_def)
  moreover from this have "conn_inv procs ds1" by (simp add: conn_step_def)
  ultimately show ?thesis using conn_step_trans [OF _ procClose_conn] ds1(2) ev by fastforce
qed

end

lemma flush_conn:
  assumes law: "send_law sf" and inv: "conn_inv procs ds" and F: "ds_flush sf k ds = (k', ds', evs)"
  shows "conn_step procs ds procs ds' evs"
proof (cases "mCanWrite ds \<and> mSocket ds")
  case False
  with F inv show ?thesis by (auto simp: ds_flush_def conn_step_refl)
next
  case True
  with F have "quickFlush sf k ds = (k', ds', evs)" by (simp add: ds_flush_def)
  from quick.flushed_conn [OF law inv _ this [unfolded quickFlush_def]] True show ?thesis by simp
qed

lemma proc_conn:
  assumes law: "send_law sf" and inv: "conn_inv (p # procs) ds" and P: "run_proc sf p k ds = (k', ds', evs)"
  shows "conn_step (p # procs) ds procs ds' evs"
proof (cases p)
  case Proc_flush
  let ?ds1 = "ds\<lparr>mIsPostFlush := False\<rparr>"
  have "conn_step (p # procs) ds procs ?ds1 []"
    using inv Proc_flush by (auto simp: conn_step_def conn_inv_def owed_def ds_ok_def ds_abs_def of_bool_def split: if_splits)
  moreover from this have "conn_inv procs ?ds1" by (simp add: conn_step_def)
  ultimately show ?thesis
    using P Proc_flush conn_step_trans [OF _ flush_conn [OF law]] by (fastforce simp: run_proc_def)
next
  case Proc_disconnect
  with inv P show ?thesis
    by (auto simp: run_proc_def conn_step_def conn_inv_def owed_def quiet_event_def split: if_splits)
next
  case Proc_shutdown
  with inv P show ?thesis
    by (auto simp: run_proc_def procShutdownInLoop_def conn_step_def conn_inv_def owed_def ds_ok_def ds_abs_def
        split: if_splits)
qed

lemma procs_conn:
  assumes law: "send_law sf"
  shows "conn_inv procs ds \<Longrightarrow> run_procs sf procs k ds = (k', ds', evs) \<Longrightarrow> conn_step procs ds [] ds' evs"
proof (induction procs arbitrary: k ds evs)
  case Nil
  then show ?case by (simp add: conn_step_refl)
next
  case (Cons p procs)
  obtain k1 ds1 evs1 where P: "run_proc sf p k ds = (k1, ds1, evs1)" by (cases "run_proc sf p k ds") auto
  obtain k2 ds2 evs2 where R: "run_procs sf procs k1 ds1 = (k2, ds2, evs2)"
    by (cases "run_procs sf procs k1 ds1") auto
  note S = proc_conn [OF law Cons.prems(1) P]
  then have "conn_inv procs ds1" by (simp add: conn_step_def)
  from conn_step_trans [OF S Cons.IH [OF this]] R P Cons.prems(2) show ?case by auto
qed

lemma after_conn:
  assumes "send_law sf" and inv: "conn_inv [] ds" and "processAfterLoopProcs sf k ds = (k', ds', evs)"
  shows "conn_step [] ds [] ds' evs"
proof -
  let ?ds1 = "ds\<lparr>ds_after := []\<rparr>"
  have "conn_step [] ds (ds_after ds) ?ds1 []"
    using inv by (simp add: conn_step_def conn_inv_def owed_def ds_ok_def ds_abs_def)
  moreover from this have "conn_inv (ds_after ds) ?ds1" by (simp add: conn_step_def)
  ultimately show ?thesis
    using conn_step_trans [OF _ procs_conn [OF assms(1)]] assms(3) by (fastforce simp: processAfterLoopProcs_def)
qed

lemma dispatch_conn:
  assumes law: "env_law env" and inv: "conn_inv [] ds"
  shows "\<exists>k' u' ds' evs. dispatch_event h r w env (k, u, ds) = Some ((k', u', ds'), evs) \<and> conn_step [] ds [] ds' evs"
proof -
  obtain k1 u1 ds1 evs where R: "canRecv env (k, u, ds) = Some ((k1, u1, ds1), evs)" "conn_step [] ds [] ds1 evs"
    using canRecv_conn [OF law inv] by blast
  then have inv1: "conn_inv [] ds1" by (simp add: conn_step_def)
  note close = conn_step_trans [OF R(2) onClose_conn [OF inv1]]
  note writable = conn_step_trans [OF R(2) canSend_conn [OF inv1]]
  from R close writable canSend_conn [OF inv] conn_step_refl [OF inv] show ?thesis
    by (simp add: dispatch_event_def on_socket_def)
qed

lemma step_conn:
  assumes law: "env_law env" and inv: "conn_inv [] ds"
  shows "\<exists>k' u' ds' evs. ds_step env x (k, u, ds) = Some ((k', u', ds'), evs) \<and> conn_step [] ds [] ds' evs"
proof (cases x)
  case (Op_send bs cb)
  with action_conn [OF inv, of "Act_send bs cb"] show ?thesis by (simp add: on_socket_def)
next
  case Op_disconnect
  with action_conn [OF inv, of Act_disconnect] show ?thesis by (simp add: on_socket_def)
next
  case Op_shutdown
  with action_conn [OF inv, of Act_shutdown] show ?thesis by (simp add: on_socket_def)
next
  case (Op_epoll h r w)
  with dispatch_conn [OF law inv] show ?thesis by simp
next
  case Op_after
  obtain k' ds' evs where P: "processAfterLoopProcs (de_send env) k ds = (k', ds', evs)"
    by (cases "processAfterLoopProcs (de_send env) k ds") auto
  with after_conn [OF _ inv P] law Op_after show ?thesis by (simp add: env_law_def)
qed

lemma run_conn:
  assumes law: "env_law env"
  shows "conn_inv [] ds \<Longrightarrow>
    \<exists>k' u' ds' evs. ds_run env xs (k, u, ds) = Some ((k', u', ds'), evs) \<and> conn_step [] ds [] ds' evs"
proof (induction xs arbitrary: k u ds)
  case Nil
  then show ?case by (simp add: conn_step_refl)
next
  case (Cons x xs)
  obtain k1 u1 ds1 evs1 where S: "ds_step env x (k, u, ds) = Some ((k1, u1, ds1), evs1)" "conn_step [] ds [] ds1 evs1"
    using step_conn [OF law Cons.prems] by blast
  then have "conn_inv [] ds1" by (simp add: conn_step_def)
  from Cons.IH [OF this] obtain k2 u2 ds2 evs2 where
    R: "ds_run env xs (k1, u1, ds1) = Some ((k2, u2, ds2), evs2)" "conn_step [] ds1 [] ds2 evs2" by blast
  from S R conn_step_trans [OF S(2) R(2)] show ?case by auto
qed

lemma new_conn:
  assumes "DataSocket_new env maxsize dcb ccb = Some ds" and "grow_limit maxsize"
  shows "conn_inv [] ds \<and> ds_abs ds = ([], []) \<and> owed [] ds = 0 \<and> mSocket ds \<and> \<not> mIsPostFinalClose ds \<and>
    hasDisConnectCallback ds = ccb"
proof -
  obtain b where b: "first_buffer env = Some b" using assms(1) by (auto simp: DataSocket_new_def)
  have "unat (16 * 1024 + GROW_BUFFER_SIZE) = 17 * 1024" by (simp add: GROW_BUFFER_SIZE_def)
  with new_inv [OF b [unfolded first_buffer_def]] b assms show ?thesis
    by (auto simp: DataSocket_new_def conn_inv_def ds_ok_def buffer_ok_def ds_abs_def owed_def)
qed

text \<open>
  C2. Over its whole life, under every sequence of sends, disconnects, shutdowns,
  epoll events and after-loop rounds, a connection is a pair of byte streams:
  each time the data callback runs it sees exactly the bytes received so far
  less those it took, and what is sent is a prefix of the submitted packets, in
  order. No step touches memory outside the receive buffer, through growth and
  compaction, and no assertion fails. System calls and callback keep to their
  bounds, memory is available, and the buffer may grow to less than \<open>2 ^ 31\<close> bytes.
\<close>

theorem connection_streams:
  assumes "env_law env" and "DataSocket_new (de_heap env) maxsize dcb ccb = Some ds" and "unat maxsize < 2 ^ 31"
  shows "\<exists>k' u' ds' evs. ds_run env xs (k, u, ds) = Some ((k', u', ds'), evs) \<and>
    duplex_run evs ([], []) = Some (buffer_contents (mRecvBuffer ds'), pending (mSendList ds'))"
proof -
  note new = new_conn [OF assms(2) assms(3) [folded grow_limit_def]]
  obtain k' u' ds' evs where "ds_run env xs (k, u, ds) = Some ((k', u', ds'), evs)" "conn_step [] ds [] ds' evs"
    using run_conn [OF assms(1)] new by blast
  with new show ?thesis by (auto simp: conn_step_def ds_abs_def)
qed

text \<open>
  C23. The receive buffer of a connection stays within its limit: whatever is
  received and however little the callback takes, the buffer never has more
  than the configured number of bytes, or the 17 kilobytes that it starts with when
  the limit is below that; the read and write positions stay inside it, in order.
\<close>

theorem recv_buffer_bounded:
  assumes "env_law env" and "DataSocket_new (de_heap env) maxsize dcb ccb = Some ds" and "unat maxsize < 2 ^ 31"
    and "ds_run env xs (k, u, ds) = Some ((k', u', ds'), evs)"
  shows "unat (ox_buffer_getsize (mRecvBuffer ds')) \<le> max (17 * 1024) (unat maxsize) \<and>
    bs_read_pos (mRecvBuffer ds') \<le> bs_write_pos (mRecvBuffer ds') \<and>
    bs_write_pos (mRecvBuffer ds') \<le> bs_data_len (mRecvBuffer ds') \<and>
    unat (ox_buffer_getreadvalidcount (mRecvBuffer ds')) + unat (ox_buffer_getwritevalidcount (mRecvBuffer ds')) \<le>
      max (17 * 1024) (unat maxsize)"
proof -
  note new = new_conn [OF assms(2) assms(3) [folded grow_limit_def]]
  have "mMaxRecvBufferSize ds = maxsize" using assms(2) by (auto simp: DataSocket_new_def)
  moreover have "conn_step [] ds [] ds' evs" using run_conn [OF assms(1), of ds xs k u] new assms(4) by auto
  ultimately have ok: "buffer_ok maxsize (mRecvBuffer ds')" by (auto simp: conn_step_def conn_inv_def ds_ok_def)
  then have inv: "buffer_inv (mRecvBuffer ds')" by (simp add: buffer_ok_def)
  from buffer_invD [OF inv] ok show ?thesis
    by (simp add: buffer_ok_def buffer_capacity_def ox_buffer_getsize_def writevalidcount_room [OF inv]
        readvalidcount_contents [OF inv] buffer_contents_def word_le_nat_alt le_diff_conv)
qed

section \<open>Closing happens once\<close>

lemma closed_procs:
  assumes "run_procs sf procs k ds = (k', ds', evs)" and "\<not> mSocket ds" and "hasDisConnectCallback ds"
  shows "ds_after ds' = ds_after ds \<and> count_list evs Ev_disconnect = count_list procs Proc_disconnect"
  using assms
proof (induction procs arbitrary: k ds evs)
  case (Cons p procs)
  then show ?case
    by (cases p) (fastforce simp: run_proc_def ds_flush_def procShutdownInLoop_def split: prod.splits)+
qed simp

lemma run_append:
  "ds_run env (xs @ ys) w = Option.bind (ds_run env xs w)
     (\<lambda>(w', evs). map_option (\<lambda>(w'', evs'). (w'', evs @ evs')) (ds_run env ys w'))"
proof (induction xs arbitrary: w)
  case Nil
  then show ?case by (simp add: option.map_ident case_prod_unfold)
next
  case (Cons x xs)
  then show ?case
    by (auto simp: option.map_comp comp_def case_prod_unfold split: option.splits Option.bind_splits)
qed

text \<open>
  C22. The disconnect callback of a connection runs at most once, and never while
  the socket is open; once the socket is closed, whoever closed it, the next
  after-loop round runs it. After that a closed connection neither receives nor
  sends, and shows no more data, whatever events the loop still has for it.
\<close>

theorem connection_disconnect_once:
  assumes "env_law env" and "DataSocket_new (de_heap env) maxsize dcb True = Some ds" and "unat maxsize < 2 ^ 31"
    and "ds_run env xs (k, u, ds) = Some ((k', u', ds'), evs)"
  shows "count_list evs Ev_disconnect \<le> 1 \<and> (mSocket ds' \<longrightarrow> count_list evs Ev_disconnect = 0) \<and>
    (\<not> mSocket ds' \<longrightarrow>
      (\<exists>w evs'. ds_run env (xs @ [Op_after]) (k, u, ds) = Some (w, evs') \<and> count_list evs' Ev_disconnect = 1) \<and>
      (\<forall>ys. \<exists>w evs'. ds_run env ys (k', u', ds') = Some (w, evs') \<and> list_all quiet_event evs'))"
proof -
  note new = new_conn [OF assms(2) assms(3) [folded grow_limit_def]]
  have S: "conn_step [] ds [] ds' evs" using run_conn [OF assms(1), of ds xs k u] new assms(4) by auto
  then have inv: "conn_inv [] ds'" and cnt: "count_list evs Ev_disconnect + owed [] ds' = of_bool (\<not> mSocket ds')"
    and cb: "hasDisConnectCallback ds'" using new by (auto simp: conn_step_def conn_inv_def ds_ok_def)
  have quiet: "\<exists>w evs'. ds_run env ys (k', u', ds') = Some (w, evs') \<and> list_all quiet_event evs'"
    if "\<not> mSocket ds'" for ys
    using run_conn [OF assms(1) inv, of ys k' u'] that by (auto simp: conn_step_def)
  obtain k2 ds2 evs2 where A: "processAfterLoopProcs (de_send env) k' ds' = (k2, ds2, evs2)"
    by (cases "processAfterLoopProcs (de_send env) k' ds'") auto
  then have "count_list evs2 Ev_disconnect = owed [] ds'" if "\<not> mSocket ds'"
    using closed_procs [of "de_send env" "ds_after ds'" k' "ds'\<lparr>ds_after := []\<rparr>" k2 ds2 evs2] that cb
    by (simp add: processAfterLoopProcs_def owed_def)
  with cnt quiet A assms(4) show ?thesis by (auto simp: run_append of_bool_def split: if_splits)
qed

section \<open>Pending bytes never wait for nothing\<close>

definition calm_action :: "ds_action \<Rightarrow> bool" where
  "calm_action a \<longleftrightarrow> (case a of Act_send bs _ \<Rightarrow> bs \<noteq> [] | Act_disconnect \<Rightarrow> True | Act_shutdown \<Rightarrow> False)"

definition calm_op :: "ds_op \<Rightarrow> bool" where
  "calm_op x \<longleftrightarrow> (case x of Op_send bs _ \<Rightarrow> bs \<noteq> [] | Op_shutdown \<Rightarrow> False | _ \<Rightarrow> True)"

definition lively :: "sock_proc list \<Rightarrow> data_socket \<Rightarrow> bool" where
  "lively procs ds \<longleftrightarrow> packets_full (mSendList ds) \<and> Proc_shutdown \<notin> set (procs @ ds_after ds) \<and>
     (mSocket ds \<longrightarrow> mCanWrite ds \<or> ds_epollout ds) \<and>
     (mSocket ds \<and> mSendList ds \<noteq> [] \<longrightarrow> mIsPostFlush ds \<or> \<not> mCanWrite ds)"

lemma action_lively: "calm_action a \<Longrightarrow> lively procs ds \<Longrightarrow> lively procs (run_action a ds)"
  by (cases a) (auto simp: calm_action_def lively_def ds_proc_defs)

lemma actions_lively: "list_all calm_action acts \<Longrightarrow> lively procs ds \<Longrightarrow> lively procs (fold run_action acts ds)"
  by (induction acts arbitrary: ds) (simp_all add: action_lively)

lemma close_lively:
  "lively procs ds \<Longrightarrow> lively procs (onClose ds)" "lively procs ds \<Longrightarrow> lively procs (procCloseInLoop ds)"
  by (auto simp: lively_def ds_proc_defs)

lemma canSend_lively: "lively procs ds \<Longrightarrow> lively procs (canSend ds)"
  by (auto simp: lively_def canSend_def removeCheckWrite_def runAfterFlush_def)

lemma frame_lively:
  assumes "recv_frame A ds ds1 evs" and "\<forall>a\<in>A. calm_action a" and "lively procs ds"
  shows "lively procs ds1"
proof -
  obtain acts b r where "set acts \<subseteq> A" and ds1: "ds1 = (fold run_action acts ds)\<lparr>mRecvBuffer := b, mRecvData := r\<rparr>"
    using assms(1) unfolding recv_frame_def by blast
  with assms(2) have "list_all calm_action acts" by (auto simp: list_all_iff)
  from actions_lively [OF this assms(3)] show ?thesis by (simp add: ds1 lively_def)
qed

lemma flush_lively:
  assumes law: "send_law sf" and inv: "conn_inv procs ds" and F: "ds_flush sf k ds = (k', ds', evs)"
    and full: "packets_full (mSendList ds)" "Proc_shutdown \<notin> set (procs @ ds_after ds)"
      "mSocket ds \<longrightarrow> mCanWrite ds \<or> ds_epollout ds"
  shows "lively procs ds'"
proof (cases "mCanWrite ds \<and> mSocket ds")
  case False
  with F full show ?thesis by (auto simp: ds_flush_def lively_def)
next
  case True
  have ok: "packets_ok (mSendList ds)" "mIsPostFinalClose ds = (\<not> mSocket ds)"
    using inv by (simp_all add: conn_inv_def ds_ok_def)
  from True F have "quickFlush sf k ds = (k', ds', evs)" by (simp add: ds_flush_def)
  from quick.flush_ok [OF ok(1) law ok(2) this [unfolded quickFlush_def]] full(1) True
  obtain ds1 where A: "packets_full (mSendList ds')" "mSocket ds' \<longrightarrow> mCanWrite ds' \<or> ds_epollout ds'"
      "mSocket ds' \<and> mSendList ds' \<noteq> [] \<longrightarrow> \<not> mCanWrite ds'"
    and ds1: "only_send ds ds1" "ds' = ds1 \<or> ds' = procCloseInLoop ds1" by (auto simp: advance_def)
  have "set (ds_after ds') \<subseteq> insert Proc_disconnect (set (ds_after ds))"
    using ds1(2) only_sendD(4) [OF ds1(1)] by (auto simp: ds_proc_defs split: if_splits)
  with A full(2) show ?thesis by (auto simp: lively_def)
qed

lemma proc_lively:
  assumes law: "send_law sf" and inv: "conn_inv (p # procs) ds" and live: "lively (p # procs) ds"
    and P: "run_proc sf p k ds = (k', ds', evs)"
  shows "lively procs ds'"
proof (cases p)
  case Proc_flush
  let ?ds1 = "ds\<lparr>mIsPostFlush := False\<rparr>"
  have "conn_inv procs ?ds1"
    using inv Proc_flush by (auto simp: conn_inv_def ds_ok_def of_bool_def split: if_splits)
  from flush_lively [OF law this] P Proc_flush live show ?thesis by (auto simp: run_proc_def lively_def)
next
  case Proc_disconnect
  with P live show ?thesis by (auto simp: run_proc_def lively_def)
next
  case Proc_shutdown
  with live show ?thesis by (simp add: lively_def)
qed

lemma procs_lively:
  assumes law: "send_law sf"
  shows "conn_inv procs ds \<Longrightarrow> lively procs ds \<Longrightarrow> run_procs sf procs k ds = (k', ds', evs) \<Longrightarrow> lively [] ds'"
proof (induction procs arbitrary: k ds evs)
  case (Cons p procs)
  obtain k1 ds1 evs1 where P: "run_proc sf p k ds = (k1, ds1, evs1)" by (cases "run_proc sf p k ds") auto
  have "conn_inv procs ds1" using proc_conn [OF law Cons.prems(1) P] by (simp add: conn_step_def)
  with Cons.IH [OF this proc_lively [OF law Cons.prems(1,2) P], of k1] P Cons.prems(3) show ?case
    by (auto split: prod.splits)
qed simp

lemma recv_lively:
  assumes law: "env_law env" and calm: "\<forall>a\<in>cb_acts (de_callback env). calm_action a"
    and inv: "conn_inv [] ds" and live: "lively [] ds" and R: "canRecv env (k, u, ds) = Some ((k', u', ds'), evs)"
  shows "lively [] ds'"
proof -
  obtain left where "recv_law (de_recv env) left" "left k < de_fuel env k" using law by (auto simp: env_law_def)
  with ds_recv_ok [of "de_callback env" "de_recv env" left "de_heap env" ds k "de_fuel env k" u] law inv R
  obtain ds1 where "recv_frame (cb_acts (de_callback env)) ds ds1 evs" "ds' = ds1 \<or> ds' = procCloseInLoop ds1"
    by (auto simp: env_law_def conn_inv_def canRecv_def)
  with frame_lively [OF _ calm live] close_lively(2) show ?thesis by auto
qed

lemma step_lively:
  assumes law: "env_law env" and calm: "\<forall>a\<in>cb_acts (de_callback env). calm_action a" "calm_op x"
    and inv: "conn_inv [] ds" and live: "lively [] ds" and S: "ds_step env x (k, u, ds) = Some ((k', u', ds'), evs)"
  shows "lively [] ds'"
proof (cases x)
  case (Op_send bs cb)
  with calm(2) S live show ?thesis using action_lively [of "Act_send bs cb" "[]" ds]
    by (auto simp: on_socket_def calm_op_def calm_action_def)
next
  case Op_disconnect
  with S live show ?thesis using close_lively by (auto simp: on_socket_def postDisConnect_def)
next
  case Op_shutdown
  with calm(2) show ?thesis by (simp add: calm_op_def)
next
  case (Op_epoll h r w)
  obtain k1 u1 ds1 evs1 where R: "canRecv env (k, u, ds) = Some ((k1, u1, ds1), evs1)"
    using canRecv_conn [OF law inv] by blast
  with recv_lively [OF law calm(1) inv live R] Op_epoll S live show ?thesis
    using close_lively(1) canSend_lively by (auto simp: dispatch_event_def on_socket_def split: if_splits)
next
  case Op_after
  have "conn_inv (ds_after ds) (ds\<lparr>ds_after := []\<rparr>)" "lively (ds_after ds) (ds\<lparr>ds_after := []\<rparr>)"
    using inv live by (simp_all add: conn_inv_def ds_ok_def lively_def)
  with procs_lively [OF _ this] law Op_after S show ?thesis
    by (auto simp: processAfterLoopProcs_def env_law_def split: prod.splits)
qed

lemma run_lively:
  assumes law: "env_law env" and calm: "\<forall>a\<in>cb_acts (de_callback env). calm_action a"
  shows "conn_inv [] ds \<Longrightarrow> lively [] ds \<Longrightarrow> list_all calm_op xs \<Longrightarrow>
    ds_run env xs (k, u, ds) = Some ((k', u', ds'), evs) \<Longrightarrow> lively [] ds' \<and> conn_inv [] ds'"
proof (induction xs arbitrary: k u ds evs)
  case (Cons x xs)
  obtain k1 u1 ds1 evs1 where S: "ds_step env x (k, u, ds) = Some ((k1, u1, ds1), evs1)" "conn_step [] ds [] ds1 evs1"
    using step_conn [OF law Cons.prems(1)] by blast
  then have "conn_inv [] ds1" by (simp add: conn_step_def)
  moreover have "lively [] ds1" using step_lively [OF law calm _ Cons.prems(1,2) S(1)] Cons.prems(3) by simp
  ultimately show ?case using Cons.IH [of ds1 k1 u1] Cons.prems(3,4) S(1) by auto
qed simp


section \<open>A concrete run\<close>

text \<open>
  A system that holds a list of segments for the socket and takes one byte at a
  time; a callback that answers every message it is shown and takes all of it.
\<close>

definition segment_recv :: "byte list list recv_fn" where
  "segment_recv k n =
     (case k of [] \<Rightarrow> (Recv_fail True, [])
      | bs # k' \<Rightarrow> if length bs \<le> nat n then (Recv_bytes bs, k') else (Recv_fail False, k))"

definition byte_send :: "'k send_fn" where
  "byte_send k bs = ((min 1 (int (length bs)), True), k)"

definition echo_cb :: "unit data_cb" where
  "echo_cb u bs = (length bs, [Act_send [42] None], u)"

definition sample_env :: "(byte list list, unit) ds_env" where
  "sample_env = \<lparr>de_heap = full_heap, de_recv = segment_recv, de_send = byte_send, de_callback = echo_cb,
     de_fuel = (\<lambda>k. Suc (length (concat k)))\<rparr>"

lemma sample_law: "env_law sample_env"
proof -
  have "recv_law segment_recv (\<lambda>k. length (concat k))"
    by (auto simp: recv_law_def segment_recv_def split: list.splits if_splits)
  then show ?thesis
    by (auto simp: env_law_def sample_env_def full_heap_def send_law_def byte_send_def cb_law_def echo_cb_def)
qed

lemma sample_calm: "\<forall>a\<in>cb_acts (de_callback sample_env). calm_action a"
  by (auto simp: cb_acts_def sample_env_def echo_cb_def calm_action_def)

lemma sample_new: "\<exists>ds. DataSocket_new (de_heap sample_env) 65536 True True = Some ds"
  by (simp add: DataSocket_new_def first_buffer_def ox_buffer_new_def sample_env_def full_heap_def malloc_def)

theorem connection_streams_witness:
  "\<exists>ds k' u' ds' evs. DataSocket_new full_heap 65536 True True = Some ds \<and>
     ds_run sample_env [Op_epoll False True False, Op_after] ([[1, 2], [3]], (), ds) = Some ((k', u', ds'), evs) \<and>
     duplex_run evs ([], []) = Some (buffer_contents (mRecvBuffer ds'), pending (mSendList ds'))"
proof -
  obtain ds where ds: "DataSocket_new (de_heap sample_env) 65536 True True = Some ds" using sample_new by blast
  from connection_streams [OF sample_law this, of "[Op_epoll False True False, Op_after]" "[[1, 2], [3]]" "()"] ds
  show ?thesis by (simp add: sample_env_def)
qed

theorem recv_buffer_bounded_witness:
  "\<exists>ds k' u' ds' evs. DataSocket_new full_heap 65536 True True = Some ds \<and>
     ds_run sample_env [Op_epoll False True False] ([[1, 2], [3]], (), ds) = Some ((k', u', ds'), evs) \<and>
     unat (ox_buffer_getsize (mRecvBuffer ds')) \<le> 65536"
proof -
  obtain ds where ds: "DataSocket_new (de_heap sample_env) 65536 True True = Some ds" using sample_new by blast
  obtain k' u' ds' evs where run: "ds_run sample_env [Op_epoll False True False] ([[1, 2], [3]], (), ds) = Some ((k', u', ds'), evs)"
    using run_conn [OF sample_law, of ds "[Op_epoll False True False]" "[[1, 2], [3]]" "()"] new_conn [OF ds]
    by (auto simp: grow_limit_def)
  from recv_buffer_bounded [OF sample_law ds _ run] run ds show ?thesis by (auto simp: sample_env_def)
qed

theorem connection_disconnect_once_witness:
  "\<exists>ds w evs. DataSocket_new full_heap 65536 True True = Some ds \<and>
     ds_run sample_env [Op_disconnect, Op_disconnect, Op_after] ([], (), ds) = Some (w, evs) \<and>
     count_list evs Ev_disconnect = 1"
proof -
  obtain ds where ds: "DataSocket_new (de_heap sample_env) 65536 True True = Some ds" using sample_new by blast
  then have "mSocket ds" "\<not> mIsPostFinalClose ds" by (auto simp: DataSocket_new_def)
  then have run: "ds_run sample_env [Op_disconnect, Op_disconnect] ([], (), ds) = Some (([], (), onClose ds), [])"
    "\<not> mSocket (onClose ds)" by (simp_all add: on_socket_def ds_proc_defs)
  from connection_disconnect_once [OF sample_law ds _ run(1)] run(2) ds show ?thesis
    by (auto simp: sample_env_def)
qed


end
