(* ===== verification/Stream_Callback.thy ===== *)
theory Stream_Callback
  imports Connection
begin

text \<open>
  Connections whose data callback parses a stream. The connection shows its
  callback the bytes that are there and keeps what it does not take; a parser
  that can be continued where it stopped then sees, through any segmentation of
  the stream, the same as if it had been given all bytes at once.
\<close>

section \<open>The calls of the data callback in a run\<close>

text \<open>
  The state of the callback after a run: received bytes are shown at once, and
  the callback is called for nothing else.
\<close>

fun cb_trace :: "'u data_cb \<Rightarrow> ds_event list \<Rightarrow> 'u \<Rightarrow> 'u option" where
  "cb_trace dcb [] u = Some u"
| "cb_trace dcb (Ev_received bs # Ev_data shown n # es) u =
     (case dcb u shown of (m, acts, u') \<Rightarrow> if m = n then cb_trace dcb es u' else None)"
| "cb_trace dcb (Ev_received bs # es) u = None"
| "cb_trace dcb (Ev_data shown n # es) u = None"
| "cb_trace dcb (e # es) u = cb_trace dcb es u"

lemma cb_trace_append: "cb_trace dcb es u = Some u1 \<Longrightarrow> cb_trace dcb (es @ fs) u = cb_trace dcb fs u1"
  by (induction dcb es u rule: cb_trace.induct) (auto split: prod.splits if_splits)

text \<open>Events that do not concern the callback.\<close>

definition other_event :: "ds_event \<Rightarrow> bool" where
  "other_event e \<longleftrightarrow> (case e of Ev_received _ \<Rightarrow> False | Ev_data _ _ \<Rightarrow> False | _ \<Rightarrow> True)"

lemma cb_trace_other: "list_all other_event es \<Longrightarrow> cb_trace dcb es u = Some u"
proof (induction es)
  case (Cons e es)
  then show ?case by (cases e) (simp_all add: other_event_def)
qed simp

lemma action_events_other: "list_all other_event (concat (map action_events acts))"
proof (induction acts)
  case (Cons a acts)
  then show ?case by (cases a) (simp_all add: other_event_def)
qed simp

lemma consume_other: "list_all other_event (snd (consume n ps))"
  by (induction n ps rule: consume.induct) (auto simp: other_event_def split: prod.splits option.splits)

text \<open>What a step keeps and shows as far as the callback is concerned.\<close>

definition calls :: "'u data_cb \<Rightarrow> data_socket \<Rightarrow> 'u \<Rightarrow> data_socket \<Rightarrow> 'u \<Rightarrow> ds_event list \<Rightarrow> bool" where
  "calls dcb ds u ds' u' evs \<longleftrightarrow> hasDataCallback ds' = hasDataCallback ds \<and>
     (hasDataCallback ds \<longrightarrow> cb_trace dcb evs u = Some u')"

lemma calls_other: "list_all other_event evs \<Longrightarrow> hasDataCallback ds' = hasDataCallback ds \<Longrightarrow> calls dcb ds u ds' u evs"
  by (simp add: calls_def cb_trace_other)

lemma calls_trans:
  assumes "calls dcb ds u ds1 u1 evs" and "calls dcb ds1 u1 ds2 u2 evs'"
  shows "calls dcb ds u ds2 u2 (evs @ evs')"
  using assms cb_trace_append [of dcb evs u u1 evs'] by (auto simp: calls_def)

lemma close_has [simp]:
  "hasDataCallback (onClose ds) = hasDataCallback ds" "hasDataCallback (procCloseInLoop ds) = hasDataCallback ds"
  by (simp_all add: ds_proc_defs)

lemma flush_loop_other:
  "flush_loop gather whole sf k ds = (close, k', ds', evs) \<Longrightarrow>
   list_all other_event evs \<and> hasDataCallback ds' = hasDataCallback ds"
proof (induction "packets_size (mSendList ds)" arbitrary: k ds close k' ds' evs rule: less_induct)
  case less
  note unfold = flush_loop.simps [of gather whole sf k ds]
  show ?case
  proof (cases "mSendList ds = [] \<or> gather (mSendList ds) = None")
    case True
    then have "flush_loop gather whole sf k ds = (False, k, ds, [])" by (auto simp: unfold)
    with less.prems show ?thesis by simp
  next
    case False
    then obtain bs where bs: "gather (mSendList ds) = Some bs" and ne: "mSendList ds \<noteq> []" by auto
    obtain n wb k1 where S: "sf k bs = ((n, wb), k1)" by (cases "sf k bs") auto
    obtain rest evs1 where C: "consume (nat n) (mSendList ds) = (rest, evs1)" by fastforce
    then have E: "list_all other_event (Ev_sent (take (nat n) bs) # evs1)"
      using consume_other [of "nat n" "mSendList ds"] by (simp add: other_event_def)
    show ?thesis
    proof (cases "0 < n \<and> whole n bs")
      case False
      with less.prems bs ne S C E show ?thesis by (auto simp: unfold checkWrite_def split: if_splits)
    next
      case True
      let ?ds1 = "ds\<lparr>mSendList := rest\<rparr>"
      obtain c2 k2 ds2 evs2 where L: "flush_loop gather whole sf k1 ?ds1 = (c2, k2, ds2, evs2)"
        by (cases "flush_loop gather whole sf k1 ?ds1") auto
      have "packets_size (mSendList ?ds1) < packets_size (mSendList ds)" using consume_pair_less [OF C] True ne by simp
      from less.hyps [OF this L] E True less.prems bs ne S C L show ?thesis by (auto simp: unfold)
    qed
  qed
qed

lemma run_proc_other:
  assumes "run_proc sf p k ds = (k', ds', evs)"
  shows "list_all other_event evs \<and> hasDataCallback ds' = hasDataCallback ds"
proof (cases p)
  case Proc_flush
  show ?thesis
  proof (cases "flush_loop quick_gather quick_whole sf k (ds\<lparr>mIsPostFlush := False\<rparr>)")
    case (fields close k1 ds1 evs1)
    with flush_loop_other [OF fields] assms Proc_flush show ?thesis
      by (auto simp: run_proc_def ds_flush_def quickFlush_def split: if_splits)
  qed
qed (use assms in \<open>auto simp: run_proc_def procShutdownInLoop_def other_event_def split: if_splits\<close>)

lemma run_procs_other:
  "run_procs sf ps k ds = (k', ds', evs) \<Longrightarrow> list_all other_event evs \<and> hasDataCallback ds' = hasDataCallback ds"
proof (induction ps arbitrary: k ds k' ds' evs)
  case (Cons p ps)
  obtain k1 ds1 evs1 where P: "run_proc sf p k ds = (k1, ds1, evs1)" by (cases "run_proc sf p k ds") auto
  obtain k2 ds2 evs2 where R: "run_procs sf ps k1 ds1 = (k2, ds2, evs2)" by (cases "run_procs sf ps k1 ds1") auto
  from run_proc_other [OF P] Cons.IH [OF R] Cons.prems P R show ?case by auto
qed simp

lemma got_bytes_calls:
  assumes "got_bytes env dcb bs u ds = Some (u', ds', evs)"
  shows "calls dcb ds u ds' u' evs"
  using assms cb_trace_other [OF action_events_other, of dcb]
  by (auto simp: got_bytes_def call_data_cb_def calls_def Let_def split: Option.bind_splits if_splits prod.splits)

lemma recv_loop_calls:
  "recv_loop fuel env rf dcb k u ds = Some (close, k', u', ds', evs) \<Longrightarrow> calls dcb ds u ds' u' evs"
proof (induction fuel arbitrary: k u ds close k' u' ds' evs)
  case (Suc fuel)
  let ?n = "sint (ucast (ox_buffer_getwritevalidcount (mRecvBuffer ds)) :: 32 word)"
  have refl: "calls dcb ds u ds u []" by (rule calls_other) simp_all
  show ?case
  proof (cases "\<exists>bs k1 u1 ds1 evs1. rf k ?n = (Recv_bytes bs, k1) \<and> got_bytes env dcb bs u ds = Some (u1, ds1, evs1)")
    case False
    with Suc.prems refl show ?thesis
      by (auto simp: Let_def split: if_splits prod.splits recv_answer.splits option.splits)
  next
    case True
    then obtain bs k1 u1 ds1 evs1 where R: "rf k ?n = (Recv_bytes bs, k1)"
      and G: "got_bytes env dcb bs u ds = Some (u1, ds1, evs1)" by blast
    show ?thesis
    proof (cases "recv_loop fuel env rf dcb k1 u1 ds1")
      case None
      with Suc.prems R G refl got_bytes_calls [OF G] show ?thesis by (auto simp: Let_def split: if_splits)
    next
      case (Some r)
      obtain c2 k2 u2 ds2 evs2 where r: "r = (c2, k2, u2, ds2, evs2)" by (cases r)
      from calls_trans [OF got_bytes_calls [OF G] Suc.IH [OF Some [unfolded r]]] Suc.prems R G Some r refl
        got_bytes_calls [OF G] show ?thesis by (auto simp: Let_def split: if_splits)
    qed
  qed
qed simp

lemma canRecv_calls:
  assumes "canRecv env (k, u, ds) = Some ((k', u', ds'), evs)"
  shows "calls (de_callback env) ds u ds' u' evs"
proof -
  from assms obtain close ds1 where
    "recv_loop (de_fuel env k) (de_heap env) (de_recv env) (de_callback env) k u ds = Some (close, k', u', ds1, evs)"
    "ds' = (if close then procCloseInLoop ds1 else ds1)"
    by (auto simp: canRecv_def ds_recv_def)
  with recv_loop_calls [OF this(1)] show ?thesis by (simp add: calls_def)
qed

lemma step_calls:
  assumes "ds_step env x (k, u, ds) = Some ((k', u', ds'), evs)"
  shows "calls (de_callback env) ds u ds' u' evs"
proof (cases x)
  case (Op_send bs cb)
  with assms show ?thesis by (auto simp: on_socket_def ds_proc_defs calls_def split: if_splits)
next
  case Op_disconnect
  with assms show ?thesis by (auto simp: on_socket_def postDisConnect_def calls_def)
next
  case Op_shutdown
  with assms show ?thesis by (auto simp: on_socket_def postShutdown_def calls_def split: if_splits)
next
  case (Op_epoll rdhup readable writable)
  have cs: "hasDataCallback (canSend d) = hasDataCallback d" for d
    by (simp add: canSend_def removeCheckWrite_def runAfterFlush_def)
  from Op_epoll assms canRecv_calls [of env k u ds] show ?thesis
    by (auto simp: dispatch_event_def on_socket_def calls_def cs split: if_splits)
next
  case Op_after
  obtain k1 ds1 evs1 where R: "run_procs (de_send env) (ds_after ds) k (ds\<lparr>ds_after := []\<rparr>) = (k1, ds1, evs1)"
    by (cases "run_procs (de_send env) (ds_after ds) k (ds\<lparr>ds_after := []\<rparr>)") auto
  from run_procs_other [OF R] Op_after assms R show ?thesis
    by (auto simp: processAfterLoopProcs_def calls_def cb_trace_other)
qed

lemma run_calls:
  "ds_run env xs (k, u, ds) = Some ((k', u', ds'), evs) \<Longrightarrow> calls (de_callback env) ds u ds' u' evs"
proof (induction xs arbitrary: k u ds evs)
  case Nil
  then show ?case by (simp add: calls_def)
next
  case (Cons x xs)
  then obtain k1 u1 ds1 evs1 evs2 where S: "ds_step env x (k, u, ds) = Some ((k1, u1, ds1), evs1)"
    "ds_run env xs (k1, u1, ds1) = Some ((k', u', ds'), evs2)" "evs = evs1 @ evs2"
    by (auto split: option.splits)
  from calls_trans [OF step_calls [OF S(1)] Cons.IH [OF S(2)]] S(3) show ?case by simp
qed

section \<open>Parsers that can be continued\<close>

definition received_bytes :: "ds_event list \<Rightarrow> byte list" where
  "received_bytes evs = concat (map (\<lambda>e. case e of Ev_received bs \<Rightarrow> bs | _ \<Rightarrow> []) evs)"

lemma received_bytes_simps [simp]:
  "received_bytes [] = []" "received_bytes (Ev_received bs # evs) = bs @ received_bytes evs"
  "received_bytes (Ev_data a n # evs) = received_bytes evs" "received_bytes (Ev_submit a # evs) = received_bytes evs"
  "received_bytes (Ev_sent a # evs) = received_bytes evs" "received_bytes (Ev_complete c # evs) = received_bytes evs"
  "received_bytes (Ev_shutdown # evs) = received_bytes evs" "received_bytes (Ev_disconnect # evs) = received_bytes evs"
  by (simp_all add: received_bytes_def)

text \<open>
  The contract of a callback that parses, in the states it can be trusted in: it
  takes at most what it is shown; being shown more later, from where it stopped,
  is the same as being shown all at once. States that look alike behave alike.
\<close>

locale stream_parser =
  fixes parse :: "'u data_cb"
    and obs :: "'u \<Rightarrow> 'o"
    and good :: "'u \<Rightarrow> bool"
  assumes takes_shown: "parse u bs = (n, acts, u') \<Longrightarrow> n \<le> length bs"
    and keeps_good: "good u \<Longrightarrow> parse u bs = (n, acts, u') \<Longrightarrow> good u'"
    and same_obs: "good u \<Longrightarrow> good v \<Longrightarrow> obs u = obs v \<Longrightarrow> parse u bs = (n, acts, u') \<Longrightarrow>
      \<exists>v'. parse v bs = (n, acts, v') \<and> obs v' = obs u'"
    and continued: "good u \<Longrightarrow> parse u a = (n, acts, u') \<Longrightarrow> parse u' (drop n a @ b) = (m, acts', u'') \<Longrightarrow>
      \<exists>v. parse u (a @ b) = (n + m, acts @ acts', v) \<and> obs v = obs u''"
begin

lemma law: "cb_law parse"
  unfolding cb_law_def using takes_shown by (metis prod.exhaust_sel)

text \<open>
  Whatever the segmentation: the state after a run is the one after a single
  call with all bytes received, and the bytes not yet taken are the same.
\<close>

lemma segmentation:
  "dcb = parse \<Longrightarrow> duplex_run evs (inp, out) = Some (inp', out') \<Longrightarrow> cb_trace dcb evs u = Some u' \<Longrightarrow>
   good u0 \<Longrightarrow> good u \<Longrightarrow> parse u0 R = (n, acts, v) \<Longrightarrow> obs v = obs u \<Longrightarrow> inp = drop n R \<Longrightarrow>
   \<exists>m acts' v'. parse u0 (R @ received_bytes evs) = (m, acts', v') \<and> obs v' = obs u' \<and>
     inp' = drop m (R @ received_bytes evs)"
proof (induction dcb evs u arbitrary: inp out R n acts v rule: cb_trace.induct)
  case (2 dcb bs shown k es u)
  note prems = "2.prems" [unfolded "2.prems"(1)]
  obtain acts2 u1 where P: "parse u shown = (k, acts2, u1)" "cb_trace parse es u1 = Some u'"
    using prems(3) by (auto split: prod.splits if_splits)
  have shown: "shown = drop n R @ bs" and k: "k \<le> length shown"
    and run: "duplex_run es (drop k shown, out) = Some (inp', out')"
    using prems(2,8) by (auto split: if_splits)
  obtain v1 where V: "parse v shown = (k, acts2, v1)" "obs v1 = obs u1"
    using same_obs [OF prems(5) keeps_good [OF prems(4,6)] prems(7) [symmetric] P(1)] by blast
  then obtain w where W: "parse u0 (R @ bs) = (n + k, acts @ acts2, w)" "obs w = obs u1"
    using continued [OF prems(4,6)] shown by metis
  have "drop k shown = drop (n + k) (R @ bs)" using takes_shown [OF prems(6)] by (simp add: shown add.commute)
  from "2.IH" [OF _ refl _ "2.prems"(1) run _ prems(4) keeps_good [OF prems(5) P(1)] W this] P "2.prems"(1)
  show ?case by simp
qed (auto simp del: append_assoc drop_append take_append split: if_splits)

text \<open>A connection whose callback is the parser, from its creation on.\<close>

lemma over_connection:
  assumes "env_law env" and "de_callback env = parse"
    and "DataSocket_new (de_heap env) maxsize True ccb = Some ds" and "unat maxsize < 2 ^ 31"
    and "ds_run env xs (k, u, ds) = Some ((k', u', ds'), evs)"
    and "good u" and "parse u [] = (0, [], u)"
  shows "\<exists>n acts v. parse u (received_bytes evs) = (n, acts, v) \<and> obs v = obs u' \<and>
    buffer_contents (mRecvBuffer ds') = drop n (received_bytes evs)"
proof -
  note new = new_conn [OF assms(3) assms(4) [folded grow_limit_def]]
  have has: "hasDataCallback ds" using assms(3) by (auto simp: DataSocket_new_def)
  have "conn_step [] ds [] ds' evs" using run_conn [OF assms(1), of ds xs k u] new assms(5) by auto
  then have D: "duplex_run evs ([], []) = Some (buffer_contents (mRecvBuffer ds'), pending (mSendList ds'))"
    using new by (simp add: conn_step_def ds_abs_def)
  have "cb_trace parse evs u = Some u'" using run_calls [OF assms(5)] has assms(2) by (simp add: calls_def)
  from segmentation [OF refl D this assms(6,6,7) refl, simplified] show ?thesis by blast
qed

end

section \<open>A connection that gets one segment\<close>

definition segment_env :: "'u data_cb \<Rightarrow> (byte list list, 'u) ds_env" where
  "segment_env dcb = \<lparr>de_heap = full_heap, de_recv = segment_recv, de_send = byte_send,
     de_callback = dcb, de_fuel = (\<lambda>k. Suc (length (concat k)))\<rparr>"

lemma segment_env_law:
  assumes "cb_law dcb"
  shows "env_law (segment_env dcb)"
proof -
  have "recv_law segment_recv (\<lambda>k. length (concat k))"
    by (auto simp: recv_law_def segment_recv_def split: list.splits if_splits)
  then show ?thesis
    by (auto simp: env_law_def segment_env_def full_heap_def send_law_def byte_send_def assms)
qed

lemma received_other: "list_all other_event evs \<Longrightarrow> received_bytes evs = []"
proof (induction evs)
  case (Cons e evs)
  then show ?case by (cases e) (simp_all add: other_event_def)
qed simp

lemma got_bytes_received: "got_bytes env dcb bs u ds = Some (u', ds', evs) \<Longrightarrow> received_bytes evs = bs"
  by (auto simp: got_bytes_def call_data_cb_def Let_def received_other [OF action_events_other]
      split: Option.bind_splits if_splits prod.splits)

lemma first_segment:
  assumes "cb_law dcb" and "DataSocket_new full_heap 65536 True True = Some ds" and "seg \<noteq> []" and "length seg < 17408"
  shows "\<exists>k' u' ds' evs. ds_run (segment_env dcb) [Op_epoll False True False] ([seg], u, ds) =
      Some ((k', u', ds'), evs) \<and> received_bytes evs = seg"
proof -
  have lim: "grow_limit 65536" by (simp add: grow_limit_def)
  note new = new_conn [OF assms(2) lim]
  have ok: "ds_ok ds" "mMaxRecvBufferSize ds = 65536" "mSocket ds"
    using new assms(2) by (auto simp: conn_inv_def DataSocket_new_def)
  have room: "ox_buffer_getwritevalidcount (mRecvBuffer ds) = 17408"
    using assms(2) by (auto simp: DataSocket_new_def first_buffer_def ox_buffer_new_def malloc_def full_heap_def
        ox_buffer_getwritevalidcount_def GROW_BUFFER_SIZE_def)
  have "length seg \<le> unat (ox_buffer_getwritevalidcount (mRecvBuffer ds))" using room assms(4) by simp
  from got_bytes_ok [OF ok(1) assms(1) _ _ assms(3) this, of full_heap u] ok(2) lim
  obtain u' ds' evs where G: "got_bytes full_heap dcb seg u ds = Some (u', ds', evs)"
    by (auto simp: full_heap_def)
  have rl: "recv_loop (Suc (length seg)) full_heap segment_recv dcb [seg] u ds = Some (False, [], u', ds', evs)"
    using assms(3,4) ok(3) room G by (simp add: Let_def segment_recv_def)
  have "ds_run (segment_env dcb) [Op_epoll False True False] ([seg], u, ds) = Some (([], u', ds'), evs)"
    by (simp add: dispatch_event_def canRecv_def ds_recv_def segment_env_def rl del: recv_loop.simps)
  with got_bytes_received [OF G] show ?thesis by blast
qed

end
