(* ===== verification/Http_Parser_Types.thy ===== *)
theory Http_Parser_Types
  imports Brynet_Prelude
begin

text \<open>
  The data of the HTTP parser (\<open>net/http/http_parser.h\<close> and the declarations of
  \<open>http_parser.c\<close>): methods, error numbers, parser and header states, flags, the
  character tables and classes, the parser structure and the callback table.
  The build is the default one, \<open>HTTP_PARSER_STRICT = 1\<close> and
  \<open>HTTP_MAX_HEADER_SIZE = 80 * 1024\<close>. Bit fields are words of their width;
  a field that holds an enumeration is a value of the corresponding datatype.
\<close>

section \<open>Enumerations\<close>

datatype http_method =
    HTTP_DELETE | HTTP_GET | HTTP_HEAD | HTTP_POST | HTTP_PUT
  | HTTP_CONNECT | HTTP_OPTIONS | HTTP_TRACE | HTTP_COPY | HTTP_LOCK
  | HTTP_MKCOL | HTTP_MOVE | HTTP_PROPFIND | HTTP_PROPPATCH | HTTP_SEARCH
  | HTTP_UNLOCK | HTTP_BIND | HTTP_REBIND | HTTP_UNBIND | HTTP_ACL
  | HTTP_REPORT | HTTP_MKACTIVITY | HTTP_CHECKOUT | HTTP_MERGE | HTTP_MSEARCH
  | HTTP_NOTIFY | HTTP_SUBSCRIBE | HTTP_UNSUBSCRIBE | HTTP_PATCH | HTTP_PURGE
  | HTTP_MKCALENDAR

primrec method_strings :: "http_method \<Rightarrow> string" where
  "method_strings HTTP_DELETE = ''DELETE''"
| "method_strings HTTP_GET = ''GET''"
| "method_strings HTTP_HEAD = ''HEAD''"
| "method_strings HTTP_POST = ''POST''"
| "method_strings HTTP_PUT = ''PUT''"
| "method_strings HTTP_CONNECT = ''CONNECT''"
| "method_strings HTTP_OPTIONS = ''OPTIONS''"
| "method_strings HTTP_TRACE = ''TRACE''"
| "method_strings HTTP_COPY = ''COPY''"
| "method_strings HTTP_LOCK = ''LOCK''"
| "method_strings HTTP_MKCOL = ''MKCOL''"
| "method_strings HTTP_MOVE = ''MOVE''"
| "method_strings HTTP_PROPFIND = ''PROPFIND''"
| "method_strings HTTP_PROPPATCH = ''PROPPATCH''"
| "method_strings HTTP_SEARCH = ''SEARCH''"
| "method_strings HTTP_UNLOCK = ''UNLOCK''"
| "method_strings HTTP_BIND = ''BIND''"
| "method_strings HTTP_REBIND = ''REBIND''"
| "method_strings HTTP_UNBIND = ''UNBIND''"
| "method_strings HTTP_ACL = ''ACL''"
| "method_strings HTTP_REPORT = ''REPORT''"
| "method_strings HTTP_MKACTIVITY = ''MKACTIVITY''"
| "method_strings HTTP_CHECKOUT = ''CHECKOUT''"
| "method_strings HTTP_MERGE = ''MERGE''"
| "method_strings HTTP_MSEARCH = ''M-SEARCH''"
| "method_strings HTTP_NOTIFY = ''NOTIFY''"
| "method_strings HTTP_SUBSCRIBE = ''SUBSCRIBE''"
| "method_strings HTTP_UNSUBSCRIBE = ''UNSUBSCRIBE''"
| "method_strings HTTP_PATCH = ''PATCH''"
| "method_strings HTTP_PURGE = ''PURGE''"
| "method_strings HTTP_MKCALENDAR = ''MKCALENDAR''"

text \<open>\<open>http_method_str\<close> on an enumerator; out-of-range numbers do not exist here.\<close>

definition http_method_str :: "http_method \<Rightarrow> string" where
  "http_method_str m = method_strings m"

datatype http_parser_type = HTTP_REQUEST | HTTP_RESPONSE | HTTP_BOTH

datatype http_errno =
    HPE_OK | HPE_CB_message_begin | HPE_CB_url
  | HPE_CB_header_field | HPE_CB_header_value | HPE_CB_headers_complete
  | HPE_CB_body | HPE_CB_message_complete | HPE_CB_status
  | HPE_CB_chunk_header | HPE_CB_chunk_complete | HPE_INVALID_EOF_STATE
  | HPE_HEADER_OVERFLOW | HPE_CLOSED_CONNECTION | HPE_INVALID_VERSION
  | HPE_INVALID_STATUS | HPE_INVALID_METHOD | HPE_INVALID_URL
  | HPE_INVALID_HOST | HPE_INVALID_PORT | HPE_INVALID_PATH
  | HPE_INVALID_QUERY_STRING | HPE_INVALID_FRAGMENT | HPE_LF_EXPECTED
  | HPE_INVALID_HEADER_TOKEN | HPE_INVALID_CONTENT_LENGTH | HPE_INVALID_CHUNK_SIZE
  | HPE_INVALID_CONSTANT | HPE_INVALID_INTERNAL_STATE | HPE_STRICT
  | HPE_PAUSED | HPE_UNKNOWN

primrec http_errno_name :: "http_errno \<Rightarrow> string" where
  "http_errno_name HPE_OK = ''HPE_OK''"
| "http_errno_name HPE_CB_message_begin = ''HPE_CB_message_begin''"
| "http_errno_name HPE_CB_url = ''HPE_CB_url''"
| "http_errno_name HPE_CB_header_field = ''HPE_CB_header_field''"
| "http_errno_name HPE_CB_header_value = ''HPE_CB_header_value''"
| "http_errno_name HPE_CB_headers_complete = ''HPE_CB_headers_complete''"
| "http_errno_name HPE_CB_body = ''HPE_CB_body''"
| "http_errno_name HPE_CB_message_complete = ''HPE_CB_message_complete''"
| "http_errno_name HPE_CB_status = ''HPE_CB_status''"
| "http_errno_name HPE_CB_chunk_header = ''HPE_CB_chunk_header''"
| "http_errno_name HPE_CB_chunk_complete = ''HPE_CB_chunk_complete''"
| "http_errno_name HPE_INVALID_EOF_STATE = ''HPE_INVALID_EOF_STATE''"
| "http_errno_name HPE_HEADER_OVERFLOW = ''HPE_HEADER_OVERFLOW''"
| "http_errno_name HPE_CLOSED_CONNECTION = ''HPE_CLOSED_CONNECTION''"
| "http_errno_name HPE_INVALID_VERSION = ''HPE_INVALID_VERSION''"
| "http_errno_name HPE_INVALID_STATUS = ''HPE_INVALID_STATUS''"
| "http_errno_name HPE_INVALID_METHOD = ''HPE_INVALID_METHOD''"
| "http_errno_name HPE_INVALID_URL = ''HPE_INVALID_URL''"
| "http_errno_name HPE_INVALID_HOST = ''HPE_INVALID_HOST''"
| "http_errno_name HPE_INVALID_PORT = ''HPE_INVALID_PORT''"
| "http_errno_name HPE_INVALID_PATH = ''HPE_INVALID_PATH''"
| "http_errno_name HPE_INVALID_QUERY_STRING = ''HPE_INVALID_QUERY_STRING''"
| "http_errno_name HPE_INVALID_FRAGMENT = ''HPE_INVALID_FRAGMENT''"
| "http_errno_name HPE_LF_EXPECTED = ''HPE_LF_EXPECTED''"
| "http_errno_name HPE_INVALID_HEADER_TOKEN = ''HPE_INVALID_HEADER_TOKEN''"
| "http_errno_name HPE_INVALID_CONTENT_LENGTH = ''HPE_INVALID_CONTENT_LENGTH''"
| "http_errno_name HPE_INVALID_CHUNK_SIZE = ''HPE_INVALID_CHUNK_SIZE''"
| "http_errno_name HPE_INVALID_CONSTANT = ''HPE_INVALID_CONSTANT''"
| "http_errno_name HPE_INVALID_INTERNAL_STATE = ''HPE_INVALID_INTERNAL_STATE''"
| "http_errno_name HPE_STRICT = ''HPE_STRICT''"
| "http_errno_name HPE_PAUSED = ''HPE_PAUSED''"
| "http_errno_name HPE_UNKNOWN = ''HPE_UNKNOWN''"

primrec http_errno_description :: "http_errno \<Rightarrow> string" where
  "http_errno_description HPE_OK = ''success''"
| "http_errno_description HPE_CB_message_begin = ''the on_message_begin callback failed''"
| "http_errno_description HPE_CB_url = ''the on_url callback failed''"
| "http_errno_description HPE_CB_header_field = ''the on_header_field callback failed''"
| "http_errno_description HPE_CB_header_value = ''the on_header_value callback failed''"
| "http_errno_description HPE_CB_headers_complete = ''the on_headers_complete callback failed''"
| "http_errno_description HPE_CB_body = ''the on_body callback failed''"
| "http_errno_description HPE_CB_message_complete = ''the on_message_complete callback failed''"
| "http_errno_description HPE_CB_status = ''the on_status callback failed''"
| "http_errno_description HPE_CB_chunk_header = ''the on_chunk_header callback failed''"
| "http_errno_description HPE_CB_chunk_complete = ''the on_chunk_complete callback failed''"
| "http_errno_description HPE_INVALID_EOF_STATE = ''stream ended at an unexpected time''"
| "http_errno_description HPE_HEADER_OVERFLOW = ''too many header bytes seen; overflow detected''"
| "http_errno_description HPE_CLOSED_CONNECTION = ''data received after completed connection: close message''"
| "http_errno_description HPE_INVALID_VERSION = ''invalid HTTP version''"
| "http_errno_description HPE_INVALID_STATUS = ''invalid HTTP status code''"
| "http_errno_description HPE_INVALID_METHOD = ''invalid HTTP method''"
| "http_errno_description HPE_INVALID_URL = ''invalid URL''"
| "http_errno_description HPE_INVALID_HOST = ''invalid host''"
| "http_errno_description HPE_INVALID_PORT = ''invalid port''"
| "http_errno_description HPE_INVALID_PATH = ''invalid path''"
| "http_errno_description HPE_INVALID_QUERY_STRING = ''invalid query string''"
| "http_errno_description HPE_INVALID_FRAGMENT = ''invalid fragment''"
| "http_errno_description HPE_LF_EXPECTED = ''LF character expected''"
| "http_errno_description HPE_INVALID_HEADER_TOKEN = ''invalid character in header''"
| "http_errno_description HPE_INVALID_CONTENT_LENGTH = ''invalid character in content-length header''"
| "http_errno_description HPE_INVALID_CHUNK_SIZE = ''invalid character in chunk size header''"
| "http_errno_description HPE_INVALID_CONSTANT = ''invalid constant string''"
| "http_errno_description HPE_INVALID_INTERNAL_STATE = ''encountered unexpected internal state''"
| "http_errno_description HPE_STRICT = ''strict mode assertion failed''"
| "http_errno_description HPE_PAUSED = ''parser is paused''"
| "http_errno_description HPE_UNKNOWN = ''an unknown error occurred''"

datatype (plugins only: code size) state =
    s_dead | s_start_req_or_res | s_res_or_resp_H
  | s_start_res | s_res_H | s_res_HT
  | s_res_HTT | s_res_HTTP | s_res_first_http_major
  | s_res_http_major | s_res_first_http_minor | s_res_http_minor
  | s_res_first_status_code | s_res_status_code | s_res_status_start
  | s_res_status | s_res_line_almost_done | s_start_req
  | s_req_method | s_req_spaces_before_url | s_req_schema
  | s_req_schema_slash | s_req_schema_slash_slash | s_req_server_start
  | s_req_server | s_req_server_with_at | s_req_path
  | s_req_query_string_start | s_req_query_string | s_req_fragment_start
  | s_req_fragment | s_req_http_start | s_req_http_H
  | s_req_http_HT | s_req_http_HTT | s_req_http_HTTP
  | s_req_first_http_major | s_req_http_major | s_req_first_http_minor
  | s_req_http_minor | s_req_line_almost_done | s_header_field_start
  | s_header_field | s_header_value_discard_ws | s_header_value_discard_ws_almost_done
  | s_header_value_discard_lws | s_header_value_start | s_header_value
  | s_header_value_lws | s_header_almost_done | s_chunk_size_start
  | s_chunk_size | s_chunk_parameters | s_chunk_size_almost_done
  | s_headers_almost_done | s_headers_done | s_chunk_data
  | s_chunk_data_almost_done | s_chunk_data_done | s_body_identity
  | s_body_identity_eof | s_message_done

primrec state_val :: "state \<Rightarrow> nat" where
  "state_val s_dead = 1"
| "state_val s_start_req_or_res = 2"
| "state_val s_res_or_resp_H = 3"
| "state_val s_start_res = 4"
| "state_val s_res_H = 5"
| "state_val s_res_HT = 6"
| "state_val s_res_HTT = 7"
| "state_val s_res_HTTP = 8"
| "state_val s_res_first_http_major = 9"
| "state_val s_res_http_major = 10"
| "state_val s_res_first_http_minor = 11"
| "state_val s_res_http_minor = 12"
| "state_val s_res_first_status_code = 13"
| "state_val s_res_status_code = 14"
| "state_val s_res_status_start = 15"
| "state_val s_res_status = 16"
| "state_val s_res_line_almost_done = 17"
| "state_val s_start_req = 18"
| "state_val s_req_method = 19"
| "state_val s_req_spaces_before_url = 20"
| "state_val s_req_schema = 21"
| "state_val s_req_schema_slash = 22"
| "state_val s_req_schema_slash_slash = 23"
| "state_val s_req_server_start = 24"
| "state_val s_req_server = 25"
| "state_val s_req_server_with_at = 26"
| "state_val s_req_path = 27"
| "state_val s_req_query_string_start = 28"
| "state_val s_req_query_string = 29"
| "state_val s_req_fragment_start = 30"
| "state_val s_req_fragment = 31"
| "state_val s_req_http_start = 32"
| "state_val s_req_http_H = 33"
| "state_val s_req_http_HT = 34"
| "state_val s_req_http_HTT = 35"
| "state_val s_req_http_HTTP = 36"
| "state_val s_req_first_http_major = 37"
| "state_val s_req_http_major = 38"
| "state_val s_req_first_http_minor = 39"
| "state_val s_req_http_minor = 40"
| "state_val s_req_line_almost_done = 41"
| "state_val s_header_field_start = 42"
| "state_val s_header_field = 43"
| "state_val s_header_value_discard_ws = 44"
| "state_val s_header_value_discard_ws_almost_done = 45"
| "state_val s_header_value_discard_lws = 46"
| "state_val s_header_value_start = 47"
| "state_val s_header_value = 48"
| "state_val s_header_value_lws = 49"
| "state_val s_header_almost_done = 50"
| "state_val s_chunk_size_start = 51"
| "state_val s_chunk_size = 52"
| "state_val s_chunk_parameters = 53"
| "state_val s_chunk_size_almost_done = 54"
| "state_val s_headers_almost_done = 55"
| "state_val s_headers_done = 56"
| "state_val s_chunk_data = 57"
| "state_val s_chunk_data_almost_done = 58"
| "state_val s_chunk_data_done = 59"
| "state_val s_body_identity = 60"
| "state_val s_body_identity_eof = 61"
| "state_val s_message_done = 62"

datatype header_states =
    h_general | h_C | h_CO
  | h_CON | h_matching_connection | h_matching_proxy_connection
  | h_matching_content_length | h_matching_transfer_encoding | h_matching_upgrade
  | h_connection | h_content_length | h_transfer_encoding
  | h_upgrade | h_matching_transfer_encoding_chunked | h_matching_connection_token_start
  | h_matching_connection_keep_alive | h_matching_connection_close | h_matching_connection_upgrade
  | h_matching_connection_token | h_transfer_encoding_chunked | h_connection_keep_alive
  | h_connection_close | h_connection_upgrade

text \<open>The enumerators in order, the inverse of the numbering.\<close>

definition all_states :: "state list" where
  "all_states =
     [s_dead, s_start_req_or_res, s_res_or_resp_H, s_start_res,
      s_res_H, s_res_HT, s_res_HTT, s_res_HTTP,
      s_res_first_http_major, s_res_http_major, s_res_first_http_minor, s_res_http_minor,
      s_res_first_status_code, s_res_status_code, s_res_status_start, s_res_status,
      s_res_line_almost_done, s_start_req, s_req_method, s_req_spaces_before_url,
      s_req_schema, s_req_schema_slash, s_req_schema_slash_slash, s_req_server_start,
      s_req_server, s_req_server_with_at, s_req_path, s_req_query_string_start,
      s_req_query_string, s_req_fragment_start, s_req_fragment, s_req_http_start,
      s_req_http_H, s_req_http_HT, s_req_http_HTT, s_req_http_HTTP,
      s_req_first_http_major, s_req_http_major, s_req_first_http_minor, s_req_http_minor,
      s_req_line_almost_done, s_header_field_start, s_header_field, s_header_value_discard_ws,
      s_header_value_discard_ws_almost_done, s_header_value_discard_lws, s_header_value_start, s_header_value,
      s_header_value_lws, s_header_almost_done, s_chunk_size_start, s_chunk_size,
      s_chunk_parameters, s_chunk_size_almost_done, s_headers_almost_done, s_headers_done,
      s_chunk_data, s_chunk_data_almost_done, s_chunk_data_done, s_body_identity,
      s_body_identity_eof, s_message_done]"

lemma state_of_val: "all_states ! (state_val s - 1) = s"
  by (cases s) (simp_all add: all_states_def)

lemma state_val_inj: "state_val s = state_val t \<Longrightarrow> s = t"
  by (metis state_of_val)

instantiation state :: linorder
begin

definition less_eq_state :: "state \<Rightarrow> state \<Rightarrow> bool" where
  "s \<le> t \<longleftrightarrow> state_val s \<le> state_val t"

definition less_state :: "state \<Rightarrow> state \<Rightarrow> bool" where
  "s < t \<longleftrightarrow> state_val s < state_val t"

instance
proof (intro_classes, goal_cases)
  case (4 s t)
  then show ?case by (intro state_val_inj) (simp add: less_eq_state_def)
qed (auto simp: less_eq_state_def less_state_def)

end

text \<open>Up to and including \<open>s_headers_done\<close> the parser is reading a header.\<close>

definition PARSING_HEADER :: "state \<Rightarrow> bool" where
  "PARSING_HEADER s \<longleftrightarrow> s \<le> s_headers_done"

section \<open>Flags and limits\<close>

type_synonym parser_flags = "7 word"

definition F_CHUNKED :: parser_flags where "F_CHUNKED = 1"
definition F_CONNECTION_KEEP_ALIVE :: parser_flags where "F_CONNECTION_KEEP_ALIVE = 2"
definition F_CONNECTION_CLOSE :: parser_flags where "F_CONNECTION_CLOSE = 4"
definition F_CONNECTION_UPGRADE :: parser_flags where "F_CONNECTION_UPGRADE = 8"
definition F_TRAILING :: parser_flags where "F_TRAILING = 16"
definition F_UPGRADE :: parser_flags where "F_UPGRADE = 32"
definition F_SKIPBODY :: parser_flags where "F_SKIPBODY = 64"

text \<open>The test \<open>flags & F\<close> of the code for a single flag.\<close>

definition has_flag :: "parser_flags \<Rightarrow> parser_flags \<Rightarrow> bool" where
  "has_flag fl f \<longleftrightarrow> fl AND f \<noteq> 0"

definition HTTP_MAX_HEADER_SIZE :: "32 word" where
  "HTTP_MAX_HEADER_SIZE = 80 * 1024"

definition ULLONG_MAX :: "64 word" where
  "ULLONG_MAX = - 1"

definition http_parser_version :: "64 word" where
  "http_parser_version = (2 * 0x10000) OR (5 * 0x100) OR (0 * 1)"

section \<open>Character tables and classes\<close>

abbreviation NUL :: char where "NUL \<equiv> CHR 0x00"
abbreviation CR :: char where "CR \<equiv> CHR 0x0D"
abbreviation LF :: char where "LF \<equiv> CHR 0x0A"
abbreviation SP :: char where "SP \<equiv> CHR 0x20"
abbreviation HT :: char where "HT \<equiv> CHR 0x09"

text \<open>The unsigned value of a character.\<close>

definition ord :: "char \<Rightarrow> nat" where
  "ord c = of_char c"

text \<open>
  The three tables have room for 256 (or 32) entries and initialisers for the
  first half only; C fills the rest with zero. For \<open>tokens\<close> and
  \<open>normal_url_char\<close> zero means "no", for \<open>unhex\<close> it means the digit 0.
\<close>

definition tokens :: "char list" where
  "tokens =
     replicate 32 NUL @
     [NUL, CHR ''!'', NUL, CHR ''#'', CHR ''$'', CHR ''%'', CHR ''&'', CHR 0x27] @
     [NUL, NUL, CHR ''*'', CHR ''+'', NUL, CHR ''-'', CHR ''.'', NUL] @
     ''01234567'' @
     ''89'' @ replicate 6 NUL @
     [NUL] @ ''abcdefg'' @
     ''hijklmno'' @
     ''pqrstuvw'' @
     ''xyz'' @ [NUL, NUL, NUL, CHR ''^'', CHR ''_''] @
     [CHR 0x60] @ ''abcdefg'' @
     ''hijklmno'' @
     ''pqrstuvw'' @
     ''xyz'' @ [NUL, CHR ''|'', NUL, CHR ''~'', NUL]"

definition unhex_tab :: "int list" where
  "unhex_tab =
    [-1, -1, -1, -1, -1, -1, -1, -1, -1, -1, -1, -1, -1, -1, -1, -1,
     -1, -1, -1, -1, -1, -1, -1, -1, -1, -1, -1, -1, -1, -1, -1, -1,
     -1, -1, -1, -1, -1, -1, -1, -1, -1, -1, -1, -1, -1, -1, -1, -1,
     0, 1, 2, 3, 4, 5, 6, 7, 8, 9, -1, -1, -1, -1, -1, -1,
     -1, 10, 11, 12, 13, 14, 15, -1, -1, -1, -1, -1, -1, -1, -1, -1,
     -1, -1, -1, -1, -1, -1, -1, -1, -1, -1, -1, -1, -1, -1, -1, -1,
     -1, 10, 11, 12, 13, 14, 15, -1, -1, -1, -1, -1, -1, -1, -1, -1,
     -1, -1, -1, -1, -1, -1, -1, -1, -1, -1, -1, -1, -1, -1, -1, -1]"

definition normal_url_char :: "nat list" where
  "normal_url_char =
    [0 OR 0 OR 0 OR 0 OR 0 OR 0 OR 0 OR 0,
     0 OR 0 OR 0 OR 0 OR 0 OR 0 OR 0 OR 0,
     0 OR 0 OR 0 OR 0 OR 0 OR 0 OR 0 OR 0,
     0 OR 0 OR 0 OR 0 OR 0 OR 0 OR 0 OR 0,
     0 OR 2 OR 4 OR 0 OR 16 OR 32 OR 64 OR 128,
     1 OR 2 OR 4 OR 8 OR 16 OR 32 OR 64 OR 128,
     1 OR 2 OR 4 OR 8 OR 16 OR 32 OR 64 OR 128,
     1 OR 2 OR 4 OR 8 OR 16 OR 32 OR 64 OR 0,
     1 OR 2 OR 4 OR 8 OR 16 OR 32 OR 64 OR 128,
     1 OR 2 OR 4 OR 8 OR 16 OR 32 OR 64 OR 128,
     1 OR 2 OR 4 OR 8 OR 16 OR 32 OR 64 OR 128,
     1 OR 2 OR 4 OR 8 OR 16 OR 32 OR 64 OR 128,
     1 OR 2 OR 4 OR 8 OR 16 OR 32 OR 64 OR 128,
     1 OR 2 OR 4 OR 8 OR 16 OR 32 OR 64 OR 128,
     1 OR 2 OR 4 OR 8 OR 16 OR 32 OR 64 OR 128,
     1 OR 2 OR 4 OR 8 OR 16 OR 32 OR 64 OR 0]"

definition TOKEN :: "char \<Rightarrow> char" where
  "TOKEN c = (if ord c < length tokens then tokens ! ord c else NUL)"

definition unhex :: "char \<Rightarrow> int" where
  "unhex c = (if ord c < length unhex_tab then unhex_tab ! ord c else 0)"

text \<open>\<open>BIT_AT(normal_url_char, c)\<close>.\<close>

definition IS_URL_CHAR :: "char \<Rightarrow> bool" where
  "IS_URL_CHAR c =
     (ord c div 8 < length normal_url_char \<and> bit (normal_url_char ! (ord c div 8)) (ord c mod 8))"

definition LOWER :: "char \<Rightarrow> char" where
  "LOWER c = char_of (ord c OR 0x20)"

definition IS_ALPHA :: "char \<Rightarrow> bool" where
  "IS_ALPHA c \<longleftrightarrow> ord CHR ''a'' \<le> ord (LOWER c) \<and> ord (LOWER c) \<le> ord CHR ''z''"

definition IS_NUM :: "char \<Rightarrow> bool" where
  "IS_NUM c \<longleftrightarrow> ord CHR ''0'' \<le> ord c \<and> ord c \<le> ord CHR ''9''"

definition IS_ALPHANUM :: "char \<Rightarrow> bool" where
  "IS_ALPHANUM c \<longleftrightarrow> IS_ALPHA c \<or> IS_NUM c"

definition IS_HEX :: "char \<Rightarrow> bool" where
  "IS_HEX c \<longleftrightarrow> IS_NUM c \<or> ord CHR ''a'' \<le> ord (LOWER c) \<and> ord (LOWER c) \<le> ord CHR ''f''"

definition IS_MARK :: "char \<Rightarrow> bool" where
  "IS_MARK c \<longleftrightarrow> c \<in> set ''-_.!~*'' \<or> c = CHR 0x27 \<or> c = CHR ''('' \<or> c = CHR '')''"

definition IS_USERINFO_CHAR :: "char \<Rightarrow> bool" where
  "IS_USERINFO_CHAR c \<longleftrightarrow> IS_ALPHANUM c \<or> IS_MARK c \<or> c \<in> set ''%;:&=+$,''"

definition IS_HOST_CHAR :: "char \<Rightarrow> bool" where
  "IS_HOST_CHAR c \<longleftrightarrow> IS_ALPHANUM c \<or> c = CHR ''.'' \<or> c = CHR ''-''"

text \<open>\<open>ch - '0'\<close> for a digit, at the width of the field it goes to.\<close>

definition digit_val :: "char \<Rightarrow> nat" where
  "digit_val c = ord c - ord CHR ''0''"

lemmas char_class_defs =
  ord_def LOWER_def IS_ALPHA_def IS_NUM_def IS_ALPHANUM_def IS_HEX_def IS_MARK_def
  IS_USERINFO_CHAR_def IS_HOST_CHAR_def digit_val_def

section \<open>The parser structure and its callbacks\<close>

record 'u http_parser =
  hp_type :: http_parser_type
  hp_flags :: parser_flags
  hp_state :: state
  hp_header_state :: header_states
  hp_index :: "8 word"
  hp_nread :: "32 word"
  hp_content_length :: "64 word"
  hp_http_major :: "16 word"
  hp_http_minor :: "16 word"
  hp_status_code :: "16 word"
  hp_method :: http_method
  hp_http_errno :: http_errno
  hp_upgrade :: bool
  hp_data :: 'u

text \<open>
  A callback gets the parser and returns its result code and the parser as it
  left it: it may change the application data, pause the parser, or in fact
  write any field. A data callback also gets the bytes from its mark on.
\<close>

type_synonym 'u http_cb = "'u http_parser \<Rightarrow> int \<times> 'u http_parser"
type_synonym 'u http_data_cb = "'u http_parser \<Rightarrow> string \<Rightarrow> int \<times> 'u http_parser"

record 'u http_parser_settings =
  on_message_begin :: "'u http_cb option"
  on_url :: "'u http_data_cb option"
  on_status :: "'u http_data_cb option"
  on_header_field :: "'u http_data_cb option"
  on_header_value :: "'u http_data_cb option"
  on_headers_complete :: "'u http_cb option"
  on_body :: "'u http_data_cb option"
  on_message_complete :: "'u http_cb option"
  on_chunk_header :: "'u http_cb option"
  on_chunk_complete :: "'u http_cb option"

definition http_parser_settings_init :: "'u http_parser_settings" where
  "http_parser_settings_init =
     \<lparr>on_message_begin = None, on_url = None, on_status = None, on_header_field = None,
      on_header_value = None, on_headers_complete = None, on_body = None,
      on_message_complete = None, on_chunk_header = None, on_chunk_complete = None\<rparr>"

text \<open>
  \<open>http_parser_init\<close>: everything is cleared but the application data. The
  enumerators with value 0 are \<open>h_general\<close> and \<open>HTTP_DELETE\<close>.
\<close>

definition http_parser_init :: "'u http_parser \<Rightarrow> http_parser_type \<Rightarrow> 'u http_parser" where
  "http_parser_init prs t =
     \<lparr>hp_type = t, hp_flags = 0,
      hp_state = (case t of HTTP_REQUEST \<Rightarrow> s_start_req | HTTP_RESPONSE \<Rightarrow> s_start_res
                          | HTTP_BOTH \<Rightarrow> s_start_req_or_res),
      hp_header_state = h_general, hp_index = 0, hp_nread = 0, hp_content_length = 0,
      hp_http_major = 0, hp_http_minor = 0, hp_status_code = 0, hp_method = HTTP_DELETE,
      hp_http_errno = HPE_OK, hp_upgrade = False, hp_data = hp_data prs\<rparr>"

definition http_message_needs_eof :: "'u http_parser \<Rightarrow> bool" where
  "http_message_needs_eof prs =
     (if hp_type prs = HTTP_REQUEST then False
      else if hp_status_code prs div 100 = 1 \<or> hp_status_code prs = 204 \<or>
              hp_status_code prs = 304 \<or> has_flag (hp_flags prs) F_SKIPBODY then False
      else if has_flag (hp_flags prs) F_CHUNKED \<or> hp_content_length prs \<noteq> ULLONG_MAX then False
      else True)"

definition http_should_keep_alive :: "'u http_parser \<Rightarrow> bool" where
  "http_should_keep_alive prs =
     (if hp_http_major prs > 0 \<and> hp_http_minor prs > 0
      then if has_flag (hp_flags prs) F_CONNECTION_CLOSE then False
           else \<not> http_message_needs_eof prs
      else if \<not> has_flag (hp_flags prs) F_CONNECTION_KEEP_ALIVE then False
           else \<not> http_message_needs_eof prs)"

text \<open>\<open>start_state\<close> and, in strict mode, \<open>NEW_MESSAGE()\<close>.\<close>

definition start_state :: "'u http_parser \<Rightarrow> state" where
  "start_state prs = (if hp_type prs = HTTP_REQUEST then s_start_req else s_start_res)"

definition NEW_MESSAGE :: "'u http_parser \<Rightarrow> state" where
  "NEW_MESSAGE prs = (if http_should_keep_alive prs then start_state prs else s_dead)"

text \<open>Pausing a parser that is in an error state fails the assertion: \<open>None\<close>.\<close>

definition http_parser_pause :: "'u http_parser \<Rightarrow> bool \<Rightarrow> 'u http_parser option" where
  "http_parser_pause prs paused =
     (if hp_http_errno prs = HPE_OK \<or> hp_http_errno prs = HPE_PAUSED
      then Some (prs\<lparr>hp_http_errno := (if paused then HPE_PAUSED else HPE_OK)\<rparr>) else None)"

definition http_body_is_final :: "'u http_parser \<Rightarrow> bool" where
  "http_body_is_final prs \<longleftrightarrow> hp_state prs = s_message_done"

end
