(* ===== verification/Http_Url.thy ===== *)
theory Http_Url
  imports Http_Parser_Types
begin

text \<open>
  The URL parser of \<open>http_parser.c\<close>: the character automaton \<open>parse_url_char\<close>
  that the message parser shares, the host automaton, and
  \<open>http_parser_parse_url\<close>, which turns their transitions into field offsets.
  Offsets and lengths are the 16-bit fields of \<open>struct http_parser_url\<close>.
\<close>

section \<open>The URL automaton\<close>

definition parse_url_char :: "state \<Rightarrow> char \<Rightarrow> state" where
  "parse_url_char s ch =
     (if ch = SP \<or> ch = CR \<or> ch = LF then s_dead
      else if ch = HT \<or> ch = CHR 0x0C then s_dead
      else case s of
        s_req_spaces_before_url \<Rightarrow>
          if ch = CHR ''/'' \<or> ch = CHR ''*'' then s_req_path
          else if IS_ALPHA ch then s_req_schema else s_dead
      | s_req_schema \<Rightarrow>
          if IS_ALPHA ch then s
          else if ch = CHR '':'' then s_req_schema_slash else s_dead
      | s_req_schema_slash \<Rightarrow>
          if ch = CHR ''/'' then s_req_schema_slash_slash else s_dead
      | s_req_schema_slash_slash \<Rightarrow>
          if ch = CHR ''/'' then s_req_server_start else s_dead
      | s_req_server_with_at \<Rightarrow>
          if ch = CHR ''@'' then s_dead
          else if ch = CHR ''/'' then s_req_path
          else if ch = CHR ''?'' then s_req_query_string_start
          else if IS_USERINFO_CHAR ch \<or> ch = CHR ''['' \<or> ch = CHR '']'' then s_req_server
          else s_dead
      | s_req_server_start \<Rightarrow>
          if ch = CHR ''/'' then s_req_path
          else if ch = CHR ''?'' then s_req_query_string_start
          else if ch = CHR ''@'' then s_req_server_with_at
          else if IS_USERINFO_CHAR ch \<or> ch = CHR ''['' \<or> ch = CHR '']'' then s_req_server
          else s_dead
      | s_req_server \<Rightarrow>
          if ch = CHR ''/'' then s_req_path
          else if ch = CHR ''?'' then s_req_query_string_start
          else if ch = CHR ''@'' then s_req_server_with_at
          else if IS_USERINFO_CHAR ch \<or> ch = CHR ''['' \<or> ch = CHR '']'' then s_req_server
          else s_dead
      | s_req_path \<Rightarrow>
          if IS_URL_CHAR ch then s
          else if ch = CHR ''?'' then s_req_query_string_start
          else if ch = CHR ''#'' then s_req_fragment_start else s_dead
      | s_req_query_string_start \<Rightarrow>
          if IS_URL_CHAR ch then s_req_query_string
          else if ch = CHR ''?'' then s_req_query_string
          else if ch = CHR ''#'' then s_req_fragment_start else s_dead
      | s_req_query_string \<Rightarrow>
          if IS_URL_CHAR ch then s_req_query_string
          else if ch = CHR ''?'' then s_req_query_string
          else if ch = CHR ''#'' then s_req_fragment_start else s_dead
      | s_req_fragment_start \<Rightarrow>
          if IS_URL_CHAR ch then s_req_fragment
          else if ch = CHR ''?'' then s_req_fragment
          else if ch = CHR ''#'' then s else s_dead
      | s_req_fragment \<Rightarrow>
          if IS_URL_CHAR ch then s
          else if ch = CHR ''?'' \<or> ch = CHR ''#'' then s else s_dead
      | _ \<Rightarrow> s_dead)"

section \<open>The host automaton\<close>

datatype http_host_state =
    s_http_host_dead | s_http_userinfo_start | s_http_userinfo
  | s_http_host_start | s_http_host_v6_start | s_http_host
  | s_http_host_v6 | s_http_host_v6_end | s_http_host_v6_zone_start
  | s_http_host_v6_zone | s_http_host_port_start | s_http_host_port

definition http_parse_host_char :: "http_host_state \<Rightarrow> char \<Rightarrow> http_host_state" where
  "http_parse_host_char s ch =
     (let zone = (\<lambda>ch. IS_ALPHANUM ch \<or> ch = CHR ''%'' \<or> ch = CHR ''.'' \<or> ch = CHR ''-'' \<or>
                       ch = CHR ''_'' \<or> ch = CHR ''~'') in
      case s of
        s_http_userinfo \<Rightarrow>
          if ch = CHR ''@'' then s_http_host_start
          else if IS_USERINFO_CHAR ch then s_http_userinfo else s_http_host_dead
      | s_http_userinfo_start \<Rightarrow>
          if ch = CHR ''@'' then s_http_host_start
          else if IS_USERINFO_CHAR ch then s_http_userinfo else s_http_host_dead
      | s_http_host_start \<Rightarrow>
          if ch = CHR ''['' then s_http_host_v6_start
          else if IS_HOST_CHAR ch then s_http_host else s_http_host_dead
      | s_http_host \<Rightarrow>
          if IS_HOST_CHAR ch then s_http_host
          else if ch = CHR '':'' then s_http_host_port_start else s_http_host_dead
      | s_http_host_v6_end \<Rightarrow>
          if ch = CHR '':'' then s_http_host_port_start else s_http_host_dead
      | s_http_host_v6 \<Rightarrow>
          if ch = CHR '']'' then s_http_host_v6_end
          else if IS_HEX ch \<or> ch = CHR '':'' \<or> ch = CHR ''.'' then s_http_host_v6
          else if ch = CHR ''%'' then s_http_host_v6_zone_start else s_http_host_dead
      | s_http_host_v6_start \<Rightarrow>
          if IS_HEX ch \<or> ch = CHR '':'' \<or> ch = CHR ''.'' then s_http_host_v6
          else s_http_host_dead
      | s_http_host_v6_zone \<Rightarrow>
          if ch = CHR '']'' then s_http_host_v6_end
          else if zone ch then s_http_host_v6_zone else s_http_host_dead
      | s_http_host_v6_zone_start \<Rightarrow>
          if zone ch then s_http_host_v6_zone else s_http_host_dead
      | s_http_host_port \<Rightarrow> if IS_NUM ch then s_http_host_port else s_http_host_dead
      | s_http_host_port_start \<Rightarrow> if IS_NUM ch then s_http_host_port else s_http_host_dead
      | _ \<Rightarrow> s_http_host_dead)"

section \<open>The URL structure\<close>

datatype http_parser_url_fields =
  UF_SCHEMA | UF_HOST | UF_PORT | UF_PATH | UF_QUERY | UF_FRAGMENT | UF_USERINFO

record url_field =
  uf_off :: "16 word"
  uf_len :: "16 word"

text \<open>
  \<open>field_set\<close> is the bit mask of the fields that were found, here the set of
  them; \<open>field_data\<close> is indexed by the field.
\<close>

record http_parser_url =
  url_field_set :: "http_parser_url_fields set"
  url_port :: "16 word"
  url_field_data :: "http_parser_url_fields \<Rightarrow> url_field"

definition set_off :: "http_parser_url_fields \<Rightarrow> nat \<Rightarrow> http_parser_url \<Rightarrow> http_parser_url" where
  "set_off f n u = u\<lparr>url_field_data :=
     (url_field_data u)(f := (url_field_data u f)\<lparr>uf_off := of_nat n\<rparr>)\<rparr>"

definition set_len :: "http_parser_url_fields \<Rightarrow> 16 word \<Rightarrow> http_parser_url \<Rightarrow> http_parser_url" where
  "set_len f n u = u\<lparr>url_field_data :=
     (url_field_data u)(f := (url_field_data u f)\<lparr>uf_len := n\<rparr>)\<rparr>"

definition inc_len :: "http_parser_url_fields \<Rightarrow> http_parser_url \<Rightarrow> http_parser_url" where
  "inc_len f u = set_len f (uf_len (url_field_data u f) + 1) u"

definition add_field :: "http_parser_url_fields \<Rightarrow> http_parser_url \<Rightarrow> http_parser_url" where
  "add_field f u = u\<lparr>url_field_set := insert f (url_field_set u)\<rparr>"

text \<open>The body of the loop of \<open>http_parse_host\<close> for a live new state.\<close>

definition host_update ::
    "http_host_state \<Rightarrow> http_host_state \<Rightarrow> nat \<Rightarrow> http_parser_url \<Rightarrow> http_parser_url" where
  "host_update s new_s pos u =
     (case new_s of
        s_http_host \<Rightarrow>
          inc_len UF_HOST (if s \<noteq> s_http_host then set_off UF_HOST pos u else u)
      | s_http_host_v6 \<Rightarrow>
          inc_len UF_HOST (if s \<noteq> s_http_host_v6 then set_off UF_HOST pos u else u)
      | s_http_host_v6_zone_start \<Rightarrow> inc_len UF_HOST u
      | s_http_host_v6_zone \<Rightarrow> inc_len UF_HOST u
      | s_http_host_port \<Rightarrow>
          inc_len UF_PORT
            (if s \<noteq> s_http_host_port
             then add_field UF_PORT (set_len UF_PORT 0 (set_off UF_PORT pos u)) else u)
      | s_http_userinfo \<Rightarrow>
          inc_len UF_USERINFO
            (if s \<noteq> s_http_userinfo
             then add_field UF_USERINFO (set_len UF_USERINFO 0 (set_off UF_USERINFO pos u)) else u)
      | _ \<Rightarrow> u)"

fun host_loop ::
    "string \<Rightarrow> http_host_state \<Rightarrow> nat \<Rightarrow> http_parser_url \<Rightarrow>
     (http_host_state \<times> http_parser_url) option" where
  "host_loop [] s pos u = Some (s, u)"
| "host_loop (x # xs) s pos u =
     (let new_s = http_parse_host_char s x in
      if new_s = s_http_host_dead then None
      else host_loop xs new_s (Suc pos) (host_update s new_s pos u))"

definition host_end_ok :: "http_host_state \<Rightarrow> bool" where
  "host_end_ok s \<longleftrightarrow> s \<notin> {s_http_host_start, s_http_host_v6_start, s_http_host_v6,
     s_http_host_v6_zone_start, s_http_host_v6_zone, s_http_host_port_start,
     s_http_userinfo, s_http_userinfo_start}"

text \<open>\<open>None\<close> stands for the non-zero result of the C functions below.\<close>

definition http_parse_host :: "string \<Rightarrow> http_parser_url \<Rightarrow> bool \<Rightarrow> http_parser_url option" where
  "http_parse_host buf u found_at =
     (let off = unat (uf_off (url_field_data u UF_HOST));
          buflen = off + unat (uf_len (url_field_data u UF_HOST));
          s = (if found_at then s_http_userinfo_start else s_http_host_start)
      in case host_loop (take (buflen - off) (drop off buf)) s off (set_len UF_HOST 0 u) of
           None \<Rightarrow> None
         | Some (s', u') \<Rightarrow> if host_end_ok s' then Some u' else None)"

text \<open>The field a state of the URL automaton belongs to; delimiters have none.\<close>

datatype url_class = UC_dead | UC_delim | UC_field http_parser_url_fields | UC_unexpected

definition url_classify :: "state \<Rightarrow> url_class" where
  "url_classify s =
     (case s of
        s_dead \<Rightarrow> UC_dead
      | s_req_schema_slash \<Rightarrow> UC_delim
      | s_req_schema_slash_slash \<Rightarrow> UC_delim
      | s_req_server_start \<Rightarrow> UC_delim
      | s_req_query_string_start \<Rightarrow> UC_delim
      | s_req_fragment_start \<Rightarrow> UC_delim
      | s_req_schema \<Rightarrow> UC_field UF_SCHEMA
      | s_req_server_with_at \<Rightarrow> UC_field UF_HOST
      | s_req_server \<Rightarrow> UC_field UF_HOST
      | s_req_path \<Rightarrow> UC_field UF_PATH
      | s_req_query_string \<Rightarrow> UC_field UF_QUERY
      | s_req_fragment \<Rightarrow> UC_field UF_FRAGMENT
      | _ \<Rightarrow> UC_unexpected)"

text \<open>
  The loop of \<open>http_parser_parse_url\<close>; \<open>old_uf\<close> is \<open>None\<close> for \<open>UF_MAX\<close>. The
  unexpected states fail an assertion in the code and then return 1 as well.
\<close>

fun url_loop ::
    "string \<Rightarrow> state \<Rightarrow> nat \<Rightarrow> http_parser_url_fields option \<Rightarrow> bool \<Rightarrow> http_parser_url \<Rightarrow>
     (bool \<times> http_parser_url) option" where
  "url_loop [] s pos old_uf found_at u = Some (found_at, u)"
| "url_loop (x # xs) s pos old_uf found_at u =
     (let s' = parse_url_char s x; found_at' = (found_at \<or> s' = s_req_server_with_at) in
      case url_classify s' of
        UC_dead \<Rightarrow> None
      | UC_delim \<Rightarrow> url_loop xs s' (Suc pos) old_uf found_at u
      | UC_unexpected \<Rightarrow> None
      | UC_field uf \<Rightarrow>
          if old_uf = Some uf
          then url_loop xs s' (Suc pos) old_uf found_at' (inc_len uf u)
          else url_loop xs s' (Suc pos) (Some uf) found_at'
                 (add_field uf (set_len uf 1 (set_off uf pos u))))"

text \<open>\<open>strtoul\<close> in base ten on the digits at the start of a string, saturating.\<close>

fun strtoul_digits :: "string \<Rightarrow> nat \<Rightarrow> nat" where
  "strtoul_digits [] acc = acc"
| "strtoul_digits (x # xs) acc =
     (if IS_NUM x then strtoul_digits xs (10 * acc + digit_val x) else acc)"

definition strtoul :: "string \<Rightarrow> 64 word" where
  "strtoul cs = (let v = strtoul_digits cs 0 in if v < 2 ^ 64 then of_nat v else - 1)"

definition http_parser_parse_url ::
    "string \<Rightarrow> bool \<Rightarrow> http_parser_url \<Rightarrow> http_parser_url option" where
  "http_parser_parse_url buf is_connect u0 =
     (let u = u0\<lparr>url_port := 0, url_field_set := {}\<rparr>;
          s = (if is_connect then s_req_server_start else s_req_spaces_before_url)
      in case url_loop buf s 0 None False u of
           None \<Rightarrow> None
         | Some (found_at, u1) \<Rightarrow>
             if UF_SCHEMA \<in> url_field_set u1 \<and> UF_HOST \<notin> url_field_set u1 then None
             else
               (case (if UF_HOST \<in> url_field_set u1 then http_parse_host buf u1 found_at
                      else Some u1) of
                  None \<Rightarrow> None
                | Some u2 \<Rightarrow>
                    if is_connect \<and> url_field_set u2 \<noteq> {UF_HOST, UF_PORT} then None
                    else if UF_PORT \<in> url_field_set u2
                    then let v = strtoul (drop (unat (uf_off (url_field_data u2 UF_PORT))) buf)
                         in if v > 0xffff then None else Some (u2\<lparr>url_port := ucast v\<rparr>)
                    else Some u2))"

end
