(* ===== verification/Http_Parser_Exec.thy ===== *)
theory Http_Parser_Exec
  imports Http_Url
begin

text \<open>
  \<open>http_parser_execute\<close> of \<open>http_parser.c\<close>, one definition per \<open>case\<close> of its
  switch. The local variables of the C function are a record: the pointer \<open>p\<close>
  and the marks are offsets into the input, \<open>ch\<close> is the current character and
  \<open>p_state\<close> the cached state. A case ends in one of four ways: it leaves the
  switch, jumps to \<open>reexecute\<close>, returns from the function, or fails an
  assertion. Every macro of the source has its own definition.
\<close>

section \<open>Local state and control flow\<close>

datatype mark = M_header_field | M_header_value | M_url | M_body | M_status

record 'u exec =
  ex_parser :: "'u http_parser"
  ex_state :: state
  ex_p :: nat
  ex_ch :: char
  ex_mark :: "mark \<Rightarrow> nat option"

datatype 'u outcome =
    Next "'u exec"
  | Again "'u exec"
  | Ret nat "'u http_parser"
  | Abort

text \<open>Sequencing of statements: only a statement that falls through is continued.\<close>

fun seq :: "'u outcome \<Rightarrow> ('u exec \<Rightarrow> 'u outcome) \<Rightarrow> 'u outcome" where
  "seq (Next ex) f = f ex"
| "seq (Again ex) f = Again ex"
| "seq (Ret n prs) f = Ret n prs"
| "seq Abort f = Abort"

definition UPDATE_STATE :: "state \<Rightarrow> 'u exec \<Rightarrow> 'u exec" where
  "UPDATE_STATE s ex = ex\<lparr>ex_state := s\<rparr>"

definition on_parser :: "('u http_parser \<Rightarrow> 'u http_parser) \<Rightarrow> 'u exec \<Rightarrow> 'u exec" where
  "on_parser f ex = ex\<lparr>ex_parser := f (ex_parser ex)\<rparr>"

definition SET_ERRNO :: "http_errno \<Rightarrow> 'u exec \<Rightarrow> 'u exec" where
  "SET_ERRNO e = on_parser (\<lambda>prs. prs\<lparr>hp_http_errno := e\<rparr>)"

text \<open>\<open>RETURN(V)\<close> stores the cached state first.\<close>

definition RETURN :: "nat \<Rightarrow> 'u exec \<Rightarrow> 'u outcome" where
  "RETURN v ex = Ret v ((ex_parser ex)\<lparr>hp_state := ex_state ex\<rparr>)"

text \<open>\<open>SET_ERRNO(e); goto error;\<close> where the label \<open>error\<close> returns \<open>p - data\<close>.\<close>

definition error_label :: "'u exec \<Rightarrow> 'u outcome" where
  "error_label ex =
     (let ex' = (if hp_http_errno (ex_parser ex) = HPE_OK then SET_ERRNO HPE_UNKNOWN ex else ex)
      in RETURN (ex_p ex') ex')"

definition fail :: "http_errno \<Rightarrow> 'u exec \<Rightarrow> 'u outcome" where
  "fail e ex = error_label (SET_ERRNO e ex)"

definition STRICT_CHECK :: "bool \<Rightarrow> 'u exec \<Rightarrow> 'u outcome" where
  "STRICT_CHECK cond ex = (if cond then fail HPE_STRICT ex else Next ex)"

definition COUNT_HEADER_SIZE :: "nat \<Rightarrow> 'u exec \<Rightarrow> 'u outcome" where
  "COUNT_HEADER_SIZE v ex =
     (let ex' = on_parser (\<lambda>prs. prs\<lparr>hp_nread := hp_nread prs + of_nat v\<rparr>) ex
      in if hp_nread (ex_parser ex') > HTTP_MAX_HEADER_SIZE then fail HPE_HEADER_OVERFLOW ex'
         else Next ex')"

definition assert_that :: "bool \<Rightarrow> 'u exec \<Rightarrow> 'u outcome" where
  "assert_that cond ex = (if cond then Next ex else Abort)"

definition MARK :: "mark \<Rightarrow> 'u exec \<Rightarrow> 'u exec" where
  "MARK m ex =
     (if ex_mark ex m = None then ex\<lparr>ex_mark := (ex_mark ex)(m \<mapsto> ex_p ex)\<rparr> else ex)"

section \<open>Callbacks\<close>

text \<open>
  \<open>CALLBACK_NOTIFY_(FOR, ER)\<close>: the parser gets the cached state, the callback
  runs, a non-zero result sets the error number, the state is read back, and
  any error number, also a pause, ends the call with the value \<open>ER\<close>.
\<close>

definition callback_result ::
    "http_errno \<Rightarrow> nat \<Rightarrow> int \<times> 'u http_parser \<Rightarrow> 'u exec \<Rightarrow> 'u outcome" where
  "callback_result e er res ex =
     (let prs = (if fst res \<noteq> 0 then (snd res)\<lparr>hp_http_errno := e\<rparr> else snd res)
      in if hp_http_errno prs \<noteq> HPE_OK then Ret er prs
         else Next (ex\<lparr>ex_parser := prs, ex_state := hp_state prs\<rparr>))"

definition CALLBACK_NOTIFY_ER ::
    "'u http_cb option \<Rightarrow> http_errno \<Rightarrow> nat \<Rightarrow> 'u exec \<Rightarrow> 'u outcome" where
  "CALLBACK_NOTIFY_ER cb e er ex =
     (if hp_http_errno (ex_parser ex) \<noteq> HPE_OK then Abort
      else case cb of
        None \<Rightarrow> Next ex
      | Some f \<Rightarrow> callback_result e er (f ((ex_parser ex)\<lparr>hp_state := ex_state ex\<rparr>)) ex)"

definition CALLBACK_NOTIFY :: "'u http_cb option \<Rightarrow> http_errno \<Rightarrow> 'u exec \<Rightarrow> 'u outcome" where
  "CALLBACK_NOTIFY cb e ex = CALLBACK_NOTIFY_ER cb e (ex_p ex + 1) ex"

definition CALLBACK_NOTIFY_NOADVANCE :: "'u http_cb option \<Rightarrow> http_errno \<Rightarrow> 'u exec \<Rightarrow> 'u outcome" where
  "CALLBACK_NOTIFY_NOADVANCE cb e ex = CALLBACK_NOTIFY_ER cb e (ex_p ex) ex"

definition data_cb :: "'u http_parser_settings \<Rightarrow> mark \<Rightarrow> 'u http_data_cb option" where
  "data_cb st m =
     (case m of M_header_field \<Rightarrow> on_header_field st | M_header_value \<Rightarrow> on_header_value st
      | M_url \<Rightarrow> on_url st | M_body \<Rightarrow> on_body st | M_status \<Rightarrow> on_status st)"

definition data_errno :: "mark \<Rightarrow> http_errno" where
  "data_errno m =
     (case m of M_header_field \<Rightarrow> HPE_CB_header_field | M_header_value \<Rightarrow> HPE_CB_header_value
      | M_url \<Rightarrow> HPE_CB_url | M_body \<Rightarrow> HPE_CB_body | M_status \<Rightarrow> HPE_CB_status)"

text \<open>
  \<open>CALLBACK_DATA_(FOR, LEN, ER)\<close>: nothing happens without a mark; the callback
  gets the bytes from the mark up to the position \<open>q\<close>, and the mark is cleared.
\<close>

definition CALLBACK_DATA_ER ::
    "'u http_parser_settings \<Rightarrow> string \<Rightarrow> mark \<Rightarrow> nat \<Rightarrow> nat \<Rightarrow> 'u exec \<Rightarrow> 'u outcome" where
  "CALLBACK_DATA_ER st buf m q er ex =
     (if hp_http_errno (ex_parser ex) \<noteq> HPE_OK then Abort
      else case ex_mark ex m of
        None \<Rightarrow> Next ex
      | Some a \<Rightarrow>
          seq (case data_cb st m of
                 None \<Rightarrow> Next ex
               | Some f \<Rightarrow>
                   callback_result (data_errno m) er
                     (f ((ex_parser ex)\<lparr>hp_state := ex_state ex\<rparr>) (take (q - a) (drop a buf))) ex)
            (\<lambda>ex. Next (ex\<lparr>ex_mark := (ex_mark ex)(m := None)\<rparr>)))"

definition CALLBACK_DATA ::
    "'u http_parser_settings \<Rightarrow> string \<Rightarrow> mark \<Rightarrow> 'u exec \<Rightarrow> 'u outcome" where
  "CALLBACK_DATA st buf m ex = CALLBACK_DATA_ER st buf m (ex_p ex) (ex_p ex + 1) ex"

definition CALLBACK_DATA_NOADVANCE ::
    "'u http_parser_settings \<Rightarrow> string \<Rightarrow> mark \<Rightarrow> 'u exec \<Rightarrow> 'u outcome" where
  "CALLBACK_DATA_NOADVANCE st buf m ex = CALLBACK_DATA_ER st buf m (ex_p ex) (ex_p ex) ex"

lemmas flow_defs =
  UPDATE_STATE_def on_parser_def SET_ERRNO_def RETURN_def error_label_def fail_def
  STRICT_CHECK_def COUNT_HEADER_SIZE_def assert_that_def MARK_def

lemmas callback_defs =
  callback_result_def CALLBACK_NOTIFY_ER_def CALLBACK_NOTIFY_def CALLBACK_NOTIFY_NOADVANCE_def
  CALLBACK_DATA_ER_def CALLBACK_DATA_def CALLBACK_DATA_NOADVANCE_def

section \<open>Start of a message and the status line\<close>

definition case_dead :: "'u exec \<Rightarrow> 'u outcome" where
  "case_dead ex =
     (if ex_ch ex = CR \<or> ex_ch ex = LF then Next ex else fail HPE_CLOSED_CONNECTION ex)"

text \<open>The first lines of the three start states: no flags, no content length yet.\<close>

definition reset_message :: "'u exec \<Rightarrow> 'u exec" where
  "reset_message = on_parser (\<lambda>prs. prs\<lparr>hp_flags := 0, hp_content_length := ULLONG_MAX\<rparr>)"

definition case_start_req_or_res :: "'u http_parser_settings \<Rightarrow> 'u exec \<Rightarrow> 'u outcome" where
  "case_start_req_or_res st ex =
     (if ex_ch ex = CR \<or> ex_ch ex = LF then Next ex
      else let ex = reset_message ex in
        if ex_ch ex = CHR ''H''
        then CALLBACK_NOTIFY (on_message_begin st) HPE_CB_message_begin
               (UPDATE_STATE s_res_or_resp_H ex)
        else Again (UPDATE_STATE s_start_req (on_parser (\<lambda>prs. prs\<lparr>hp_type := HTTP_REQUEST\<rparr>) ex)))"

definition case_res_or_resp_H :: "'u exec \<Rightarrow> 'u outcome" where
  "case_res_or_resp_H ex =
     (if ex_ch ex = CHR ''T''
      then Next (UPDATE_STATE s_res_HT (on_parser (\<lambda>prs. prs\<lparr>hp_type := HTTP_RESPONSE\<rparr>) ex))
      else if ex_ch ex \<noteq> CHR ''E'' then fail HPE_INVALID_CONSTANT ex
      else Next (UPDATE_STATE s_req_method
             (on_parser (\<lambda>prs. prs\<lparr>hp_type := HTTP_REQUEST, hp_method := HTTP_HEAD,
                                  hp_index := 2\<rparr>) ex)))"

definition case_start_res :: "'u http_parser_settings \<Rightarrow> 'u exec \<Rightarrow> 'u outcome" where
  "case_start_res st ex =
     (let ex = reset_message ex in
      seq (if ex_ch ex = CHR ''H'' then Next (UPDATE_STATE s_res_H ex)
           else if ex_ch ex = CR \<or> ex_ch ex = LF then Next ex
           else fail HPE_INVALID_CONSTANT ex)
        (CALLBACK_NOTIFY (on_message_begin st) HPE_CB_message_begin))"

text \<open>The states that spell out a constant: one character, strictly checked.\<close>

definition case_expect :: "char \<Rightarrow> state \<Rightarrow> 'u exec \<Rightarrow> 'u outcome" where
  "case_expect c s ex = seq (STRICT_CHECK (ex_ch ex \<noteq> c) ex) (\<lambda>ex. Next (UPDATE_STATE s ex))"

definition set_major :: "16 word \<Rightarrow> 'u exec \<Rightarrow> 'u exec" where
  "set_major v = on_parser (\<lambda>prs. prs\<lparr>hp_http_major := v\<rparr>)"

definition set_minor :: "16 word \<Rightarrow> 'u exec \<Rightarrow> 'u exec" where
  "set_minor v = on_parser (\<lambda>prs. prs\<lparr>hp_http_minor := v\<rparr>)"

definition set_status :: "16 word \<Rightarrow> 'u exec \<Rightarrow> 'u exec" where
  "set_status v = on_parser (\<lambda>prs. prs\<lparr>hp_status_code := v\<rparr>)"

definition case_res_first_http_major :: "'u exec \<Rightarrow> 'u outcome" where
  "case_res_first_http_major ex =
     (if \<not> IS_NUM (ex_ch ex) then fail HPE_INVALID_VERSION ex
      else Next (UPDATE_STATE s_res_http_major (set_major (of_nat (digit_val (ex_ch ex))) ex)))"

text \<open>
  The digit loops of version numbers and status codes share their shape: one
  more decimal digit, and an error above 999.
\<close>

definition more_digits ::
    "('u http_parser \<Rightarrow> 16 word) \<Rightarrow> (16 word \<Rightarrow> 'u exec \<Rightarrow> 'u exec) \<Rightarrow> http_errno \<Rightarrow>
     'u exec \<Rightarrow> 'u outcome" where
  "more_digits get upd e ex =
     (let v = get (ex_parser ex) * 10 + of_nat (digit_val (ex_ch ex)); ex' = upd v ex
      in if v > 999 then fail e ex' else Next ex')"

definition case_res_http_major :: "'u exec \<Rightarrow> 'u outcome" where
  "case_res_http_major ex =
     (if ex_ch ex = CHR ''.'' then Next (UPDATE_STATE s_res_first_http_minor ex)
      else if \<not> IS_NUM (ex_ch ex) then fail HPE_INVALID_VERSION ex
      else more_digits hp_http_major set_major HPE_INVALID_VERSION ex)"

definition case_res_first_http_minor :: "'u exec \<Rightarrow> 'u outcome" where
  "case_res_first_http_minor ex =
     (if \<not> IS_NUM (ex_ch ex) then fail HPE_INVALID_VERSION ex
      else Next (UPDATE_STATE s_res_http_minor (set_minor (of_nat (digit_val (ex_ch ex))) ex)))"

definition case_res_http_minor :: "'u exec \<Rightarrow> 'u outcome" where
  "case_res_http_minor ex =
     (if ex_ch ex = SP then Next (UPDATE_STATE s_res_first_status_code ex)
      else if \<not> IS_NUM (ex_ch ex) then fail HPE_INVALID_VERSION ex
      else more_digits hp_http_minor set_minor HPE_INVALID_VERSION ex)"

definition case_res_first_status_code :: "'u exec \<Rightarrow> 'u outcome" where
  "case_res_first_status_code ex =
     (if \<not> IS_NUM (ex_ch ex)
      then if ex_ch ex = SP then Next ex else fail HPE_INVALID_STATUS ex
      else Next (UPDATE_STATE s_res_status_code
                  (set_status (of_nat (digit_val (ex_ch ex))) ex)))"

definition case_res_status_code :: "'u exec \<Rightarrow> 'u outcome" where
  "case_res_status_code ex =
     (if \<not> IS_NUM (ex_ch ex)
      then if ex_ch ex = SP then Next (UPDATE_STATE s_res_status_start ex)
           else if ex_ch ex = CR then Next (UPDATE_STATE s_res_line_almost_done ex)
           else if ex_ch ex = LF then Next (UPDATE_STATE s_header_field_start ex)
           else fail HPE_INVALID_STATUS ex
      else more_digits hp_status_code set_status HPE_INVALID_STATUS ex)"

definition case_res_status_start :: "'u exec \<Rightarrow> 'u outcome" where
  "case_res_status_start ex =
     (if ex_ch ex = CR then Next (UPDATE_STATE s_res_line_almost_done ex)
      else if ex_ch ex = LF then Next (UPDATE_STATE s_header_field_start ex)
      else Next (on_parser (\<lambda>prs. prs\<lparr>hp_index := 0\<rparr>)
                  (UPDATE_STATE s_res_status (MARK M_status ex))))"

definition case_res_status :: "'u http_parser_settings \<Rightarrow> string \<Rightarrow> 'u exec \<Rightarrow> 'u outcome" where
  "case_res_status st buf ex =
     (if ex_ch ex = CR then CALLBACK_DATA st buf M_status (UPDATE_STATE s_res_line_almost_done ex)
      else if ex_ch ex = LF then CALLBACK_DATA st buf M_status (UPDATE_STATE s_header_field_start ex)
      else Next ex)"


section \<open>The request line\<close>

text \<open>The method a first letter stands for until a later letter tells it apart.\<close>

definition first_method :: "char \<Rightarrow> http_method option" where
  "first_method ch =
     (if ch = CHR ''A'' then Some HTTP_ACL
      else if ch = CHR ''B'' then Some HTTP_BIND
      else if ch = CHR ''C'' then Some HTTP_CONNECT
      else if ch = CHR ''D'' then Some HTTP_DELETE
      else if ch = CHR ''G'' then Some HTTP_GET
      else if ch = CHR ''H'' then Some HTTP_HEAD
      else if ch = CHR ''L'' then Some HTTP_LOCK
      else if ch = CHR ''M'' then Some HTTP_MKCOL
      else if ch = CHR ''N'' then Some HTTP_NOTIFY
      else if ch = CHR ''O'' then Some HTTP_OPTIONS
      else if ch = CHR ''P'' then Some HTTP_POST
      else if ch = CHR ''R'' then Some HTTP_REPORT
      else if ch = CHR ''S'' then Some HTTP_SUBSCRIBE
      else if ch = CHR ''T'' then Some HTTP_TRACE
      else if ch = CHR ''U'' then Some HTTP_UNLOCK
      else None)"

definition case_start_req :: "'u http_parser_settings \<Rightarrow> 'u exec \<Rightarrow> 'u outcome" where
  "case_start_req st ex =
     (if ex_ch ex = CR \<or> ex_ch ex = LF then Next ex
      else let ex = reset_message ex in
        if \<not> IS_ALPHA (ex_ch ex) then fail HPE_INVALID_METHOD ex
        else let ex = on_parser (\<lambda>prs. prs\<lparr>hp_method := HTTP_DELETE, hp_index := 1\<rparr>) ex in
          case first_method (ex_ch ex) of
            None \<Rightarrow> fail HPE_INVALID_METHOD ex
          | Some m \<Rightarrow>
              CALLBACK_NOTIFY (on_message_begin st) HPE_CB_message_begin
                (UPDATE_STATE s_req_method (on_parser (\<lambda>prs. prs\<lparr>hp_method := m\<rparr>) ex)))"

text \<open>\<open>matcher[index]\<close>: the terminating zero of the C string ends every name.\<close>

definition matcher_at :: "string \<Rightarrow> nat \<Rightarrow> char option" where
  "matcher_at cs i = (if i < length cs then Some (cs ! i) else if i = length cs then Some NUL else None)"

text \<open>
  The chain of conditions of \<open>s_req_method\<close> that switches to another method
  when the current letter does not match; \<open>None\<close> is \<open>HPE_INVALID_METHOD\<close>.
\<close>

definition other_method :: "http_method \<Rightarrow> nat \<Rightarrow> char \<Rightarrow> http_method option" where
  "other_method m i ch =
     (if m = HTTP_CONNECT then
        if i = 1 \<and> ch = CHR ''H'' then Some HTTP_CHECKOUT
        else if i = 2 \<and> ch = CHR ''P'' then Some HTTP_COPY else None
      else if m = HTTP_MKCOL then
        if i = 1 \<and> ch = CHR ''O'' then Some HTTP_MOVE
        else if i = 1 \<and> ch = CHR ''E'' then Some HTTP_MERGE
        else if i = 1 \<and> ch = CHR ''-'' then Some HTTP_MSEARCH
        else if i = 2 \<and> ch = CHR ''A'' then Some HTTP_MKACTIVITY
        else if i = 3 \<and> ch = CHR ''A'' then Some HTTP_MKCALENDAR else None
      else if m = HTTP_SUBSCRIBE then
        if i = 1 \<and> ch = CHR ''E'' then Some HTTP_SEARCH else None
      else if m = HTTP_REPORT then
        if i = 2 \<and> ch = CHR ''B'' then Some HTTP_REBIND else None
      else if i = 1 \<and> m = HTTP_POST then
        if ch = CHR ''R'' then Some HTTP_PROPFIND
        else if ch = CHR ''U'' then Some HTTP_PUT
        else if ch = CHR ''A'' then Some HTTP_PATCH else None
      else if i = 2 then
        if m = HTTP_PUT then if ch = CHR ''R'' then Some HTTP_PURGE else None
        else if m = HTTP_UNLOCK then
          if ch = CHR ''S'' then Some HTTP_UNSUBSCRIBE
          else if ch = CHR ''B'' then Some HTTP_UNBIND else None
        else None
      else if i = 4 \<and> m = HTTP_PROPFIND \<and> ch = CHR ''P'' then Some HTTP_PROPPATCH
      else None)"

text \<open>
  A read of the method name behind its terminating zero would leave the string;
  it is an \<open>Abort\<close> here, and the invariant of the parser excludes it.
\<close>

definition case_req_method :: "'u exec \<Rightarrow> 'u outcome" where
  "case_req_method ex =
     (let prs = ex_parser ex; i = unat (hp_index prs);
          bump = on_parser (\<lambda>prs. prs\<lparr>hp_index := hp_index prs + 1\<rparr>)
      in if ex_ch ex = NUL then fail HPE_INVALID_METHOD ex
         else case matcher_at (method_strings (hp_method prs)) i of
           None \<Rightarrow> Abort
         | Some mc \<Rightarrow>
             if ex_ch ex = SP \<and> mc = NUL
             then Next (bump (UPDATE_STATE s_req_spaces_before_url ex))
             else if ex_ch ex = mc then Next (bump ex)
             else (case other_method (hp_method prs) i (ex_ch ex) of
                     None \<Rightarrow> fail HPE_INVALID_METHOD ex
                   | Some m \<Rightarrow> Next (bump (on_parser (\<lambda>prs. prs\<lparr>hp_method := m\<rparr>) ex))))"

text \<open>One character of the URL through the shared automaton.\<close>

definition url_char :: "'u exec \<Rightarrow> 'u outcome" where
  "url_char ex =
     (let ex = UPDATE_STATE (parse_url_char (ex_state ex) (ex_ch ex)) ex
      in if ex_state ex = s_dead then fail HPE_INVALID_URL ex else Next ex)"

definition case_req_spaces_before_url :: "'u exec \<Rightarrow> 'u outcome" where
  "case_req_spaces_before_url ex =
     (if ex_ch ex = SP then Next ex
      else let ex = MARK M_url ex in
        url_char (if hp_method (ex_parser ex) = HTTP_CONNECT
                  then UPDATE_STATE s_req_server_start ex else ex))"

definition case_req_url_start :: "'u exec \<Rightarrow> 'u outcome" where
  "case_req_url_start ex =
     (if ex_ch ex = SP \<or> ex_ch ex = CR \<or> ex_ch ex = LF then fail HPE_INVALID_URL ex
      else url_char ex)"

definition case_req_url :: "'u http_parser_settings \<Rightarrow> string \<Rightarrow> 'u exec \<Rightarrow> 'u outcome" where
  "case_req_url st buf ex =
     (if ex_ch ex = SP then CALLBACK_DATA st buf M_url (UPDATE_STATE s_req_http_start ex)
      else if ex_ch ex = CR \<or> ex_ch ex = LF
      then CALLBACK_DATA st buf M_url
             (UPDATE_STATE (if ex_ch ex = CR then s_req_line_almost_done else s_header_field_start)
               (set_minor 9 (set_major 0 ex)))
      else url_char ex)"

definition case_req_http_start :: "'u exec \<Rightarrow> 'u outcome" where
  "case_req_http_start ex =
     (if ex_ch ex = CHR ''H'' then Next (UPDATE_STATE s_req_http_H ex)
      else if ex_ch ex = SP then Next ex
      else fail HPE_INVALID_CONSTANT ex)"

definition case_req_first_http_major :: "'u exec \<Rightarrow> 'u outcome" where
  "case_req_first_http_major ex =
     (if ord (ex_ch ex) < ord CHR ''1'' \<or> ord (ex_ch ex) > ord CHR ''9''
      then fail HPE_INVALID_VERSION ex
      else Next (UPDATE_STATE s_req_http_major (set_major (of_nat (digit_val (ex_ch ex))) ex)))"

definition case_req_http_major :: "'u exec \<Rightarrow> 'u outcome" where
  "case_req_http_major ex =
     (if ex_ch ex = CHR ''.'' then Next (UPDATE_STATE s_req_first_http_minor ex)
      else if \<not> IS_NUM (ex_ch ex) then fail HPE_INVALID_VERSION ex
      else more_digits hp_http_major set_major HPE_INVALID_VERSION ex)"

definition case_req_first_http_minor :: "'u exec \<Rightarrow> 'u outcome" where
  "case_req_first_http_minor ex =
     (if \<not> IS_NUM (ex_ch ex) then fail HPE_INVALID_VERSION ex
      else Next (UPDATE_STATE s_req_http_minor (set_minor (of_nat (digit_val (ex_ch ex))) ex)))"

definition case_req_http_minor :: "'u exec \<Rightarrow> 'u outcome" where
  "case_req_http_minor ex =
     (if ex_ch ex = CR then Next (UPDATE_STATE s_req_line_almost_done ex)
      else if ex_ch ex = LF then Next (UPDATE_STATE s_header_field_start ex)
      else if \<not> IS_NUM (ex_ch ex) then fail HPE_INVALID_VERSION ex
      else more_digits hp_http_minor set_minor HPE_INVALID_VERSION ex)"

definition case_req_line_almost_done :: "'u exec \<Rightarrow> 'u outcome" where
  "case_req_line_almost_done ex =
     (if ex_ch ex \<noteq> LF then fail HPE_LF_EXPECTED ex
      else Next (UPDATE_STATE s_header_field_start ex))"

section \<open>Header fields\<close>

definition set_header_state :: "header_states \<Rightarrow> 'u exec \<Rightarrow> 'u exec" where
  "set_header_state h = on_parser (\<lambda>prs. prs\<lparr>hp_header_state := h\<rparr>)"

definition case_header_field_start :: "'u exec \<Rightarrow> 'u outcome" where
  "case_header_field_start ex =
     (if ex_ch ex = CR then Next (UPDATE_STATE s_headers_almost_done ex)
      else if ex_ch ex = LF then Again (UPDATE_STATE s_headers_almost_done ex)
      else let c = TOKEN (ex_ch ex) in
        if c = NUL then fail HPE_INVALID_HEADER_TOKEN ex
        else let ex = UPDATE_STATE s_header_field
                        (on_parser (\<lambda>prs. prs\<lparr>hp_index := 0\<rparr>) (MARK M_header_field ex)) in
          Next (set_header_state
            (if c = CHR ''c'' then h_C
             else if c = CHR ''p'' then h_matching_proxy_connection
             else if c = CHR ''t'' then h_matching_transfer_encoding
             else if c = CHR ''u'' then h_matching_upgrade
             else h_general) ex))"

text \<open>
  One step of matching a fixed lower-case name. The C test compares with
  \<open>name[index]\<close> after incrementing the 8-bit index, where \<open>sizeof(name) - 1\<close> is
  the length and the character at the length is the terminating zero.
\<close>

definition match_name ::
    "string \<Rightarrow> header_states \<Rightarrow> header_states \<Rightarrow> header_states \<Rightarrow> 8 word \<Rightarrow> char \<Rightarrow>
     header_states" where
  "match_name name same found lost i c =
     (if unat i > length name \<or> matcher_at name (unat i) \<noteq> Some c then lost
      else if unat i + 1 = length name then found else same)"

definition header_field_char :: "'u http_parser \<Rightarrow> char \<Rightarrow> char \<Rightarrow> 'u http_parser option" where
  "header_field_char prs ch c =
     (let bump = (\<lambda>prs. prs\<lparr>hp_index := hp_index prs + 1\<rparr>);
          i = hp_index prs + 1;
          go = (\<lambda>h. Some (bump prs\<lparr>hp_header_state := h\<rparr>))
      in case hp_header_state prs of
           h_general \<Rightarrow> Some prs
         | h_C \<Rightarrow> go (if c = CHR ''o'' then h_CO else h_general)
         | h_CO \<Rightarrow> go (if c = CHR ''n'' then h_CON else h_general)
         | h_CON \<Rightarrow>
             go (if c = CHR ''n'' then h_matching_connection
                 else if c = CHR ''t'' then h_matching_content_length else h_general)
         | h_matching_connection \<Rightarrow>
             go (match_name ''connection'' h_matching_connection h_connection h_general i c)
         | h_matching_proxy_connection \<Rightarrow>
             go (match_name ''proxy-connection'' h_matching_proxy_connection h_connection
                   h_general i c)
         | h_matching_content_length \<Rightarrow>
             go (match_name ''content-length'' h_matching_content_length h_content_length
                   h_general i c)
         | h_matching_transfer_encoding \<Rightarrow>
             go (match_name ''transfer-encoding'' h_matching_transfer_encoding h_transfer_encoding
                   h_general i c)
         | h_matching_upgrade \<Rightarrow>
             go (match_name ''upgrade'' h_matching_upgrade h_upgrade h_general i c)
         | h_connection \<Rightarrow> Some (if ch \<noteq> SP then prs\<lparr>hp_header_state := h_general\<rparr> else prs)
         | h_content_length \<Rightarrow> Some (if ch \<noteq> SP then prs\<lparr>hp_header_state := h_general\<rparr> else prs)
         | h_transfer_encoding \<Rightarrow> Some (if ch \<noteq> SP then prs\<lparr>hp_header_state := h_general\<rparr> else prs)
         | h_upgrade \<Rightarrow> Some (if ch \<noteq> SP then prs\<lparr>hp_header_state := h_general\<rparr> else prs)
         | _ \<Rightarrow> None)"

text \<open>The inner loop over the rest of the input; it stops at the first non-token.\<close>

fun header_field_loop :: "string \<Rightarrow> 'u exec \<Rightarrow> 'u outcome" where
  "header_field_loop [] ex = Next ex"
| "header_field_loop (x # xs) ex =
     (let ex = ex\<lparr>ex_ch := x\<rparr>; c = TOKEN x in
      if c = NUL then Next ex
      else case header_field_char (ex_parser ex) x c of
        None \<Rightarrow> Abort
      | Some prs \<Rightarrow> header_field_loop xs (ex\<lparr>ex_parser := prs, ex_p := ex_p ex + 1\<rparr>))"

definition case_header_field :: "'u http_parser_settings \<Rightarrow> string \<Rightarrow> 'u exec \<Rightarrow> 'u outcome" where
  "case_header_field st buf ex =
     (let start = ex_p ex in
      seq (seq (header_field_loop (drop start buf) ex)
               (\<lambda>ex. COUNT_HEADER_SIZE (ex_p ex - start) ex))
        (\<lambda>ex. if ex_p ex = length buf then Next (ex\<lparr>ex_p := ex_p ex - 1\<rparr>)
              else if ex_ch ex = CHR '':''
              then CALLBACK_DATA st buf M_header_field (UPDATE_STATE s_header_value_discard_ws ex)
              else fail HPE_INVALID_HEADER_TOKEN ex))"


section \<open>Header values\<close>

definition add_flag :: "parser_flags \<Rightarrow> 'u http_parser \<Rightarrow> 'u http_parser" where
  "add_flag f prs = prs\<lparr>hp_flags := hp_flags prs OR f\<rparr>"

definition case_header_value_start :: "'u exec \<Rightarrow> 'u outcome" where
  "case_header_value_start ex =
     (let ex = on_parser (\<lambda>prs. prs\<lparr>hp_index := 0\<rparr>)
                 (UPDATE_STATE s_header_value (MARK M_header_value ex));
          c = LOWER (ex_ch ex)
      in case hp_header_state (ex_parser ex) of
           h_upgrade \<Rightarrow> Next (set_header_state h_general (on_parser (add_flag F_UPGRADE) ex))
         | h_transfer_encoding \<Rightarrow>
             Next (set_header_state
               (if c = CHR ''c'' then h_matching_transfer_encoding_chunked else h_general) ex)
         | h_content_length \<Rightarrow>
             if \<not> IS_NUM (ex_ch ex) then fail HPE_INVALID_CONTENT_LENGTH ex
             else Next (on_parser
                    (\<lambda>prs. prs\<lparr>hp_content_length := of_nat (digit_val (ex_ch ex))\<rparr>) ex)
         | h_connection \<Rightarrow>
             Next (set_header_state
               (if c = CHR ''k'' then h_matching_connection_keep_alive
                else if c = CHR ''c'' then h_matching_connection_close
                else if c = CHR ''u'' then h_matching_connection_upgrade
                else h_matching_connection_token) ex)
         | h_matching_connection_token_start \<Rightarrow> Next ex
         | _ \<Rightarrow> Next (set_header_state h_general ex))"

text \<open>White space before a value is skipped, then the value starts (fall-through).\<close>

definition case_header_value_discard_ws :: "'u exec \<Rightarrow> 'u outcome" where
  "case_header_value_discard_ws ex =
     (if ex_ch ex = SP \<or> ex_ch ex = HT then Next ex
      else if ex_ch ex = CR then Next (UPDATE_STATE s_header_value_discard_ws_almost_done ex)
      else if ex_ch ex = LF then Next (UPDATE_STATE s_header_value_discard_lws ex)
      else case_header_value_start ex)"

text \<open>
  One character of a header value. The loop works on a local copy \<open>h_state\<close> of
  the header state; \<open>HV_fail\<close> is an error jump that stores the copy first.
\<close>

datatype 'u hv_step = HV_go header_states "'u exec" | HV_fail http_errno | HV_abort

definition header_value_char :: "header_states \<Rightarrow> 'u exec \<Rightarrow> 'u hv_step" where
  "header_value_char h ex =
     (let ch = ex_ch ex; c = LOWER ch;
          i = hp_index (ex_parser ex) + 1;
          bump = on_parser (\<lambda>prs. prs\<lparr>hp_index := hp_index prs + 1\<rparr>);
          zero = on_parser (\<lambda>prs. prs\<lparr>hp_index := 0\<rparr>)
      in case h of
           h_connection \<Rightarrow> HV_abort
         | h_transfer_encoding \<Rightarrow> HV_abort
         | h_content_length \<Rightarrow>
             if ch = SP then HV_go h ex
             else if \<not> IS_NUM ch then HV_fail HPE_INVALID_CONTENT_LENGTH
             else let cl = hp_content_length (ex_parser ex);
                      t = cl * 10 + of_nat (digit_val ch)
                  in if (ULLONG_MAX - 10) div 10 < cl then HV_fail HPE_INVALID_CONTENT_LENGTH
                     else HV_go h (on_parser (\<lambda>prs. prs\<lparr>hp_content_length := t\<rparr>) ex)
         | h_matching_transfer_encoding_chunked \<Rightarrow>
             HV_go (match_name ''chunked'' h h_transfer_encoding_chunked h_general i c) (bump ex)
         | h_matching_connection_token_start \<Rightarrow>
             if c = CHR ''k'' then HV_go h_matching_connection_keep_alive ex
             else if c = CHR ''c'' then HV_go h_matching_connection_close ex
             else if c = CHR ''u'' then HV_go h_matching_connection_upgrade ex
             else if TOKEN c \<noteq> NUL then HV_go h_matching_connection_token ex
             else if c = SP \<or> c = HT then HV_go h ex
             else HV_go h_general ex
         | h_matching_connection_keep_alive \<Rightarrow>
             HV_go (match_name ''keep-alive'' h h_connection_keep_alive
                      h_matching_connection_token i c) (bump ex)
         | h_matching_connection_close \<Rightarrow>
             HV_go (match_name ''close'' h h_connection_close
                      h_matching_connection_token i c) (bump ex)
         | h_matching_connection_upgrade \<Rightarrow>
             HV_go (match_name ''upgrade'' h h_connection_upgrade
                      h_matching_connection_token i c) (bump ex)
         | h_matching_connection_token \<Rightarrow>
             if ch = CHR '','' then HV_go h_matching_connection_token_start (zero ex)
             else HV_go h ex
         | h_transfer_encoding_chunked \<Rightarrow> HV_go (if ch \<noteq> SP then h_general else h) ex
         | h_connection_keep_alive \<Rightarrow>
             if ch = CHR '',''
             then HV_go h_matching_connection_token_start
                    (zero (on_parser (add_flag F_CONNECTION_KEEP_ALIVE) ex))
             else HV_go (if ch \<noteq> SP then h_matching_connection_token else h) ex
         | h_connection_close \<Rightarrow>
             if ch = CHR '',''
             then HV_go h_matching_connection_token_start
                    (zero (on_parser (add_flag F_CONNECTION_CLOSE) ex))
             else HV_go (if ch \<noteq> SP then h_matching_connection_token else h) ex
         | h_connection_upgrade \<Rightarrow>
             if ch = CHR '',''
             then HV_go h_matching_connection_token_start
                    (zero (on_parser (add_flag F_CONNECTION_UPGRADE) ex))
             else HV_go (if ch \<noteq> SP then h_matching_connection_token else h) ex
         | _ \<Rightarrow> HV_go h_general (UPDATE_STATE s_header_value ex))"

text \<open>\<open>memchr\<close>: the offset of the first occurrence.\<close>

fun memchr :: "char \<Rightarrow> string \<Rightarrow> nat option" where
  "memchr c [] = None"
| "memchr c (x # xs) = (if x = c then Some 0 else map_option Suc (memchr c xs))"

text \<open>
  In state \<open>h_general\<close> the loop jumps to the next line end, looking at no more
  than \<open>HTTP_MAX_HEADER_SIZE\<close> bytes; without one it jumps to the end of the input.
  The result is where the next round of the loop looks.
\<close>

definition skip_value :: "string \<Rightarrow> nat \<Rightarrow> nat" where
  "skip_value buf p =
     (let limit = min (length buf - p) (unat HTTP_MAX_HEADER_SIZE);
          p_cr = memchr CR (take limit (drop p buf));
          p_lf = memchr LF (take limit (drop p buf))
      in case p_cr of
           Some a \<Rightarrow> (case p_lf of Some b \<Rightarrow> if a \<ge> b then p + b else p + a | None \<Rightarrow> p + a)
         | None \<Rightarrow> (case p_lf of Some b \<Rightarrow> p + b | None \<Rightarrow> length buf))"

lemma memchr_0: "memchr c xs = Some 0 \<Longrightarrow> \<exists>ys. xs = c # ys"
  by (cases xs) (auto split: if_splits)

lemma memchr_pos:
  assumes "p < length buf" and "buf ! p \<noteq> c" and "memchr c (take k (drop p buf)) = Some a"
  shows "0 < a"
proof (rule ccontr)
  assume "\<not> 0 < a"
  with assms(3) obtain ys where "take k (drop p buf) = c # ys" using memchr_0 by auto
  then have "take k (drop p buf) \<noteq> [] \<and> hd (take k (drop p buf)) = c" by simp
  with assms(1,2) show False by (auto simp: hd_take hd_drop_conv_nth)
qed

lemma skip_value_progress:
  assumes "p < length buf" and "buf ! p \<noteq> CR" and "buf ! p \<noteq> LF"
  shows "p < skip_value buf p"
  using assms memchr_pos [OF assms(1,2)] memchr_pos [OF assms(1,3)]
  by (auto simp: skip_value_def Let_def split: option.splits)

text \<open>After the loop: store the header state, count the bytes, step back at the end.\<close>

definition header_value_done :: "string \<Rightarrow> nat \<Rightarrow> header_states \<Rightarrow> 'u exec \<Rightarrow> 'u outcome" where
  "header_value_done buf start h ex =
     (let ex = set_header_state h ex in
      seq (COUNT_HEADER_SIZE (ex_p ex - start) ex)
        (\<lambda>ex. Next (if ex_p ex = length buf then ex\<lparr>ex_p := ex_p ex - 1\<rparr> else ex)))"

lemma header_value_char_p:
  "header_value_char h ex = HV_go h' ex' \<Longrightarrow> ex_p ex' = ex_p ex"
  by (cases h)
    (auto simp: header_value_char_def Let_def on_parser_def UPDATE_STATE_def split: if_splits)

function header_value_loop ::
    "'u http_parser_settings \<Rightarrow> string \<Rightarrow> nat \<Rightarrow> header_states \<Rightarrow> 'u exec \<Rightarrow> 'u outcome" where
  "header_value_loop st buf start h ex =
     (if ex_p ex \<ge> length buf then header_value_done buf start h ex
      else let ch = buf ! ex_p ex; ex = ex\<lparr>ex_ch := ch\<rparr> in
        if ch = CR
        then seq (CALLBACK_DATA st buf M_header_value
                   (set_header_state h (UPDATE_STATE s_header_almost_done ex)))
               (header_value_done buf start h)
        else if ch = LF
        then seq (seq (COUNT_HEADER_SIZE (ex_p ex - start) (UPDATE_STATE s_header_almost_done ex))
                   (\<lambda>ex. CALLBACK_DATA_NOADVANCE st buf M_header_value (set_header_state h ex)))
               Again
        else if h = h_general
        then header_value_loop st buf start h (ex\<lparr>ex_p := skip_value buf (ex_p ex)\<rparr>)
        else (case header_value_char h ex of
                HV_abort \<Rightarrow> Abort
              | HV_fail e \<Rightarrow> error_label (set_header_state h (SET_ERRNO e ex))
              | HV_go h' ex' \<Rightarrow> header_value_loop st buf start h' (ex'\<lparr>ex_p := ex_p ex' + 1\<rparr>)))"
  by pat_completeness auto
termination
proof (relation "measure (\<lambda>(st, buf, start, h, ex). length buf - ex_p ex)", goal_cases)
  case 1
  show ?case by simp
next
  case (2 st buf start h ex ch ex')
  then show ?case using skip_value_progress [of "ex_p ex" buf] by (simp add: diff_less_mono2)
next
  case (3 st buf start h ex ch ex' h' ex'')
  then show ?case using header_value_char_p [of h ex' h' ex''] by simp
qed

declare header_value_loop.simps [simp del]

definition case_header_value :: "'u http_parser_settings \<Rightarrow> string \<Rightarrow> 'u exec \<Rightarrow> 'u outcome" where
  "case_header_value st buf ex =
     header_value_loop st buf (ex_p ex) (hp_header_state (ex_parser ex)) ex"

text \<open>The flag a finished value sets.\<close>

definition value_flag :: "'u http_parser \<Rightarrow> 'u http_parser" where
  "value_flag prs =
     (case hp_header_state prs of
        h_connection_keep_alive \<Rightarrow> add_flag F_CONNECTION_KEEP_ALIVE prs
      | h_connection_close \<Rightarrow> add_flag F_CONNECTION_CLOSE prs
      | h_transfer_encoding_chunked \<Rightarrow> add_flag F_CHUNKED prs
      | h_connection_upgrade \<Rightarrow> add_flag F_CONNECTION_UPGRADE prs
      | _ \<Rightarrow> prs)"

definition case_header_value_lws :: "'u exec \<Rightarrow> 'u outcome" where
  "case_header_value_lws ex =
     (if ex_ch ex = SP \<or> ex_ch ex = HT then Again (UPDATE_STATE s_header_value_start ex)
      else Again (UPDATE_STATE s_header_field_start (on_parser value_flag ex)))"

definition case_header_value_discard_lws ::
    "'u http_parser_settings \<Rightarrow> string \<Rightarrow> 'u exec \<Rightarrow> 'u outcome" where
  "case_header_value_discard_lws st buf ex =
     (if ex_ch ex = SP \<or> ex_ch ex = HT then Next (UPDATE_STATE s_header_value_discard_ws ex)
      else seq (CALLBACK_DATA_NOADVANCE st buf M_header_value
                 (UPDATE_STATE s_header_field_start
                   (MARK M_header_value (on_parser value_flag ex))))
             Again)"

section \<open>End of the headers\<close>

definition upgrade_requested :: "'u http_parser \<Rightarrow> bool" where
  "upgrade_requested prs \<longleftrightarrow>
     hp_flags prs AND (F_UPGRADE OR F_CONNECTION_UPGRADE) = F_UPGRADE OR F_CONNECTION_UPGRADE \<or>
     hp_method prs = HTTP_CONNECT"

text \<open>
  \<open>on_headers_complete\<close> is called with the parser as it is, without storing the
  cached state: 1 means "no body", any other non-zero value is an error.
\<close>

definition headers_complete :: "'u http_parser_settings \<Rightarrow> 'u exec \<Rightarrow> 'u outcome" where
  "headers_complete st ex =
     (case on_headers_complete st of
        None \<Rightarrow> Next ex
      | Some f \<Rightarrow>
          (let (rc, prs) = f (ex_parser ex); ex = ex\<lparr>ex_parser := prs\<rparr> in
           if rc = 0 then Next ex
           else if rc = 1 then Next (on_parser (add_flag F_SKIPBODY) ex)
           else RETURN (ex_p ex) (SET_ERRNO HPE_CB_headers_complete ex)))"

definition case_headers_almost_done :: "'u http_parser_settings \<Rightarrow> 'u exec \<Rightarrow> 'u outcome" where
  "case_headers_almost_done st ex =
     seq (STRICT_CHECK (ex_ch ex \<noteq> LF) ex)
       (\<lambda>ex. if has_flag (hp_flags (ex_parser ex)) F_TRAILING
         then seq (CALLBACK_NOTIFY_NOADVANCE (on_chunk_complete st) HPE_CB_chunk_complete
                    (UPDATE_STATE s_message_done ex)) Again
         else seq (headers_complete st
                (on_parser (\<lambda>prs. prs\<lparr>hp_upgrade := upgrade_requested prs\<rparr>)
                  (UPDATE_STATE s_headers_done ex)))
              (\<lambda>ex. if hp_http_errno (ex_parser ex) \<noteq> HPE_OK then RETURN (ex_p ex) ex
                    else Again ex))"

definition message_complete :: "'u http_parser_settings \<Rightarrow> 'u exec \<Rightarrow> 'u outcome" where
  "message_complete st ex =
     CALLBACK_NOTIFY (on_message_complete st) HPE_CB_message_complete
       (UPDATE_STATE (NEW_MESSAGE (ex_parser ex)) ex)"

definition has_body :: "'u http_parser \<Rightarrow> bool" where
  "has_body prs \<longleftrightarrow> has_flag (hp_flags prs) F_CHUNKED \<or>
     (hp_content_length prs > 0 \<and> hp_content_length prs \<noteq> ULLONG_MAX)"

definition case_headers_done :: "'u http_parser_settings \<Rightarrow> 'u exec \<Rightarrow> 'u outcome" where
  "case_headers_done st ex =
     seq (STRICT_CHECK (ex_ch ex \<noteq> LF) ex)
       (\<lambda>ex. let ex = on_parser (\<lambda>prs. prs\<lparr>hp_nread := 0\<rparr>) ex; prs = ex_parser ex in
         if hp_upgrade prs \<and>
            (hp_method prs = HTTP_CONNECT \<or> has_flag (hp_flags prs) F_SKIPBODY \<or> \<not> has_body prs)
         then seq (message_complete st ex) (\<lambda>ex. RETURN (ex_p ex + 1) ex)
         else if has_flag (hp_flags prs) F_SKIPBODY then message_complete st ex
         else if has_flag (hp_flags prs) F_CHUNKED then Next (UPDATE_STATE s_chunk_size_start ex)
         else if hp_content_length prs = 0 then message_complete st ex
         else if hp_content_length prs \<noteq> ULLONG_MAX then Next (UPDATE_STATE s_body_identity ex)
         else if \<not> http_message_needs_eof prs then message_complete st ex
         else Next (UPDATE_STATE s_body_identity_eof ex))"

section \<open>Bodies\<close>

text \<open>\<open>to_read\<close>: what is left of the body or of the input, whichever is less.\<close>

definition to_read :: "string \<Rightarrow> 'u exec \<Rightarrow> 64 word" where
  "to_read buf ex = min (hp_content_length (ex_parser ex)) (of_nat (length buf - ex_p ex))"

text \<open>Common to \<open>s_body_identity\<close> and \<open>s_chunk_data\<close>: mark, count down, move on.\<close>

definition read_body :: "string \<Rightarrow> 'u exec \<Rightarrow> 'u exec" where
  "read_body buf ex =
     (let n = to_read buf ex;
          ex = on_parser (\<lambda>prs. prs\<lparr>hp_content_length := hp_content_length prs - n\<rparr>) (MARK M_body ex)
      in ex\<lparr>ex_p := ex_p ex + unat n - 1\<rparr>)"

definition body_length_ok :: "'u exec \<Rightarrow> bool" where
  "body_length_ok ex \<longleftrightarrow> hp_content_length (ex_parser ex) \<noteq> 0 \<and>
     hp_content_length (ex_parser ex) \<noteq> ULLONG_MAX"

definition is_chunked :: "'u exec \<Rightarrow> bool" where
  "is_chunked ex \<longleftrightarrow> has_flag (hp_flags (ex_parser ex)) F_CHUNKED"

definition case_body_identity :: "'u http_parser_settings \<Rightarrow> string \<Rightarrow> 'u exec \<Rightarrow> 'u outcome" where
  "case_body_identity st buf ex =
     seq (assert_that (body_length_ok ex) ex)
       (\<lambda>ex. let ex = read_body buf ex in
         if hp_content_length (ex_parser ex) = 0
         then seq (CALLBACK_DATA_ER st buf M_body (ex_p ex + 1) (ex_p ex)
                    (UPDATE_STATE s_message_done ex)) Again
         else Next ex)"

definition case_body_identity_eof :: "string \<Rightarrow> 'u exec \<Rightarrow> 'u outcome" where
  "case_body_identity_eof buf ex = Next ((MARK M_body ex)\<lparr>ex_p := length buf - 1\<rparr>)"

definition case_message_done :: "'u http_parser_settings \<Rightarrow> 'u exec \<Rightarrow> 'u outcome" where
  "case_message_done st ex =
     seq (message_complete st ex)
       (\<lambda>ex. if hp_upgrade (ex_parser ex) then RETURN (ex_p ex + 1) ex else Next ex)"

definition case_chunk_size_start :: "'u exec \<Rightarrow> 'u outcome" where
  "case_chunk_size_start ex =
     seq (assert_that (hp_nread (ex_parser ex) = 1 \<and> is_chunked ex) ex)
       (\<lambda>ex. if unhex (ex_ch ex) = -1 then fail HPE_INVALID_CHUNK_SIZE ex
         else Next (UPDATE_STATE s_chunk_size
                (on_parser (\<lambda>prs. prs\<lparr>hp_content_length := of_int (unhex (ex_ch ex))\<rparr>) ex)))"

definition case_chunk_size :: "'u exec \<Rightarrow> 'u outcome" where
  "case_chunk_size ex =
     seq (assert_that (is_chunked ex) ex)
       (\<lambda>ex. if ex_ch ex = CR then Next (UPDATE_STATE s_chunk_size_almost_done ex)
         else if unhex (ex_ch ex) = -1
         then if ex_ch ex = CHR '';'' \<or> ex_ch ex = SP
              then Next (UPDATE_STATE s_chunk_parameters ex)
              else fail HPE_INVALID_CHUNK_SIZE ex
         else let cl = hp_content_length (ex_parser ex);
                  t = cl * 16 + of_int (unhex (ex_ch ex))
              in if (ULLONG_MAX - 16) div 16 < cl then fail HPE_INVALID_CONTENT_LENGTH ex
                 else Next (on_parser (\<lambda>prs. prs\<lparr>hp_content_length := t\<rparr>) ex))"

definition case_chunk_parameters :: "'u exec \<Rightarrow> 'u outcome" where
  "case_chunk_parameters ex =
     seq (assert_that (is_chunked ex) ex)
       (\<lambda>ex. if ex_ch ex = CR then Next (UPDATE_STATE s_chunk_size_almost_done ex) else Next ex)"

definition case_chunk_size_almost_done :: "'u http_parser_settings \<Rightarrow> 'u exec \<Rightarrow> 'u outcome" where
  "case_chunk_size_almost_done st ex =
     seq (seq (assert_that (is_chunked ex) ex) (\<lambda>ex. STRICT_CHECK (ex_ch ex \<noteq> LF) ex))
       (\<lambda>ex. let ex = on_parser (\<lambda>prs. prs\<lparr>hp_nread := 0\<rparr>) ex in
         CALLBACK_NOTIFY (on_chunk_header st) HPE_CB_chunk_header
           (if hp_content_length (ex_parser ex) = 0
            then UPDATE_STATE s_header_field_start (on_parser (add_flag F_TRAILING) ex)
            else UPDATE_STATE s_chunk_data ex))"

definition case_chunk_data :: "string \<Rightarrow> 'u exec \<Rightarrow> 'u outcome" where
  "case_chunk_data buf ex =
     seq (assert_that (is_chunked ex \<and> body_length_ok ex) ex)
       (\<lambda>ex. let ex = read_body buf ex in
         Next (if hp_content_length (ex_parser ex) = 0
               then UPDATE_STATE s_chunk_data_almost_done ex else ex))"

definition case_chunk_data_almost_done ::
    "'u http_parser_settings \<Rightarrow> string \<Rightarrow> 'u exec \<Rightarrow> 'u outcome" where
  "case_chunk_data_almost_done st buf ex =
     seq (seq (assert_that (is_chunked ex \<and> hp_content_length (ex_parser ex) = 0) ex)
              (\<lambda>ex. STRICT_CHECK (ex_ch ex \<noteq> CR) ex))
       (\<lambda>ex. CALLBACK_DATA st buf M_body (UPDATE_STATE s_chunk_data_done ex))"

definition case_chunk_data_done :: "'u http_parser_settings \<Rightarrow> 'u exec \<Rightarrow> 'u outcome" where
  "case_chunk_data_done st ex =
     seq (seq (assert_that (is_chunked ex) ex) (\<lambda>ex. STRICT_CHECK (ex_ch ex \<noteq> LF) ex))
       (\<lambda>ex. CALLBACK_NOTIFY (on_chunk_complete st) HPE_CB_chunk_complete
         (UPDATE_STATE s_chunk_size_start (on_parser (\<lambda>prs. prs\<lparr>hp_nread := 0\<rparr>) ex)))"


section \<open>The switch and the loops\<close>

definition dispatch :: "'u http_parser_settings \<Rightarrow> string \<Rightarrow> 'u exec \<Rightarrow> 'u outcome" where
  "dispatch st buf ex =
     (case ex_state ex of
        s_dead \<Rightarrow> case_dead ex
      | s_start_req_or_res \<Rightarrow> case_start_req_or_res st ex
      | s_res_or_resp_H \<Rightarrow> case_res_or_resp_H ex
      | s_start_res \<Rightarrow> case_start_res st ex
      | s_res_H \<Rightarrow> case_expect CHR ''T'' s_res_HT ex
      | s_res_HT \<Rightarrow> case_expect CHR ''T'' s_res_HTT ex
      | s_res_HTT \<Rightarrow> case_expect CHR ''P'' s_res_HTTP ex
      | s_res_HTTP \<Rightarrow> case_expect CHR ''/'' s_res_first_http_major ex
      | s_res_first_http_major \<Rightarrow> case_res_first_http_major ex
      | s_res_http_major \<Rightarrow> case_res_http_major ex
      | s_res_first_http_minor \<Rightarrow> case_res_first_http_minor ex
      | s_res_http_minor \<Rightarrow> case_res_http_minor ex
      | s_res_first_status_code \<Rightarrow> case_res_first_status_code ex
      | s_res_status_code \<Rightarrow> case_res_status_code ex
      | s_res_status_start \<Rightarrow> case_res_status_start ex
      | s_res_status \<Rightarrow> case_res_status st buf ex
      | s_res_line_almost_done \<Rightarrow> case_expect LF s_header_field_start ex
      | s_start_req \<Rightarrow> case_start_req st ex
      | s_req_method \<Rightarrow> case_req_method ex
      | s_req_spaces_before_url \<Rightarrow> case_req_spaces_before_url ex
      | s_req_schema \<Rightarrow> case_req_url_start ex
      | s_req_schema_slash \<Rightarrow> case_req_url_start ex
      | s_req_schema_slash_slash \<Rightarrow> case_req_url_start ex
      | s_req_server_start \<Rightarrow> case_req_url_start ex
      | s_req_server \<Rightarrow> case_req_url st buf ex
      | s_req_server_with_at \<Rightarrow> case_req_url st buf ex
      | s_req_path \<Rightarrow> case_req_url st buf ex
      | s_req_query_string_start \<Rightarrow> case_req_url st buf ex
      | s_req_query_string \<Rightarrow> case_req_url st buf ex
      | s_req_fragment_start \<Rightarrow> case_req_url st buf ex
      | s_req_fragment \<Rightarrow> case_req_url st buf ex
      | s_req_http_start \<Rightarrow> case_req_http_start ex
      | s_req_http_H \<Rightarrow> case_expect CHR ''T'' s_req_http_HT ex
      | s_req_http_HT \<Rightarrow> case_expect CHR ''T'' s_req_http_HTT ex
      | s_req_http_HTT \<Rightarrow> case_expect CHR ''P'' s_req_http_HTTP ex
      | s_req_http_HTTP \<Rightarrow> case_expect CHR ''/'' s_req_first_http_major ex
      | s_req_first_http_major \<Rightarrow> case_req_first_http_major ex
      | s_req_http_major \<Rightarrow> case_req_http_major ex
      | s_req_first_http_minor \<Rightarrow> case_req_first_http_minor ex
      | s_req_http_minor \<Rightarrow> case_req_http_minor ex
      | s_req_line_almost_done \<Rightarrow> case_req_line_almost_done ex
      | s_header_field_start \<Rightarrow> case_header_field_start ex
      | s_header_field \<Rightarrow> case_header_field st buf ex
      | s_header_value_discard_ws \<Rightarrow> case_header_value_discard_ws ex
      | s_header_value_start \<Rightarrow> case_header_value_start ex
      | s_header_value \<Rightarrow> case_header_value st buf ex
      | s_header_almost_done \<Rightarrow> case_expect LF s_header_value_lws ex
      | s_header_value_lws \<Rightarrow> case_header_value_lws ex
      | s_header_value_discard_ws_almost_done \<Rightarrow> case_expect LF s_header_value_discard_lws ex
      | s_header_value_discard_lws \<Rightarrow> case_header_value_discard_lws st buf ex
      | s_headers_almost_done \<Rightarrow> case_headers_almost_done st ex
      | s_headers_done \<Rightarrow> case_headers_done st ex
      | s_body_identity \<Rightarrow> case_body_identity st buf ex
      | s_body_identity_eof \<Rightarrow> case_body_identity_eof buf ex
      | s_message_done \<Rightarrow> case_message_done st ex
      | s_chunk_size_start \<Rightarrow> case_chunk_size_start ex
      | s_chunk_size \<Rightarrow> case_chunk_size ex
      | s_chunk_parameters \<Rightarrow> case_chunk_parameters ex
      | s_chunk_size_almost_done \<Rightarrow> case_chunk_size_almost_done st ex
      | s_chunk_data \<Rightarrow> case_chunk_data buf ex
      | s_chunk_data_almost_done \<Rightarrow> case_chunk_data_almost_done st buf ex
      | s_chunk_data_done \<Rightarrow> case_chunk_data_done st ex)"

datatype 'u exec_result = Returned nat "'u http_parser" | Assertion_failed | Out_of_fuel

fun result_of :: "'u outcome \<Rightarrow> 'u exec_result" where
  "result_of (Ret n prs) = Returned n prs"
| "result_of _ = Assertion_failed"

text \<open>After the loop: at most one mark is left, and its callback runs.\<close>

definition marks_set :: "'u exec \<Rightarrow> nat" where
  "marks_set ex = length (filter (\<lambda>m. ex_mark ex m \<noteq> None)
     [M_header_field, M_header_value, M_url, M_body, M_status])"

definition finish :: "'u http_parser_settings \<Rightarrow> string \<Rightarrow> 'u exec \<Rightarrow> 'u outcome" where
  "finish st buf ex =
     seq (seq (seq (seq (seq (seq
       (assert_that (marks_set ex \<le> 1) ex)
       (CALLBACK_DATA_NOADVANCE st buf M_header_field))
       (CALLBACK_DATA_NOADVANCE st buf M_header_value))
       (CALLBACK_DATA_NOADVANCE st buf M_url))
       (CALLBACK_DATA_NOADVANCE st buf M_body))
       (CALLBACK_DATA_NOADVANCE st buf M_status))
       (RETURN (length buf))"

text \<open>The head of the \<open>for\<close> loop: read the character, count it inside headers.\<close>

definition read_char :: "string \<Rightarrow> 'u exec \<Rightarrow> 'u outcome" where
  "read_char buf ex =
     (let ex = ex\<lparr>ex_ch := buf ! ex_p ex\<rparr> in
      if PARSING_HEADER (ex_state ex) then COUNT_HEADER_SIZE 1 ex else Next ex)"

text \<open>
  \<open>exec_switch\<close> is the switch with its label \<open>reexecute\<close>, \<open>exec_loop\<close> the loop
  over the input. Each takes fuel, because a callback that rewrites the parser
  could make either run forever; \<open>exec_fuel\<close> is enough for all others.
\<close>

fun exec_loop :: "nat \<Rightarrow> 'u http_parser_settings \<Rightarrow> string \<Rightarrow> 'u exec \<Rightarrow> 'u exec_result"
and exec_switch :: "nat \<Rightarrow> 'u http_parser_settings \<Rightarrow> string \<Rightarrow> 'u exec \<Rightarrow> 'u exec_result" where
  "exec_loop 0 st buf ex = Out_of_fuel"
| "exec_loop (Suc k) st buf ex =
     (if ex_p ex = length buf then result_of (finish st buf ex)
      else case read_char buf ex of
        Next ex' \<Rightarrow> exec_switch k st buf ex'
      | out \<Rightarrow> result_of out)"
| "exec_switch 0 st buf ex = Out_of_fuel"
| "exec_switch (Suc k) st buf ex =
     (case dispatch st buf ex of
        Next ex' \<Rightarrow> exec_loop k st buf (ex'\<lparr>ex_p := ex_p ex' + 1\<rparr>)
      | Again ex' \<Rightarrow> exec_switch k st buf ex'
      | out \<Rightarrow> result_of out)"

definition exec_fuel :: "string \<Rightarrow> nat" where
  "exec_fuel buf = 6 * length buf + 6"

text \<open>The marks a call starts with, for a state in the middle of an element.\<close>

definition initial_marks :: "state \<Rightarrow> mark \<Rightarrow> nat option" where
  "initial_marks s =
     (case s of
        s_header_field \<Rightarrow> [M_header_field \<mapsto> 0]
      | s_header_value \<Rightarrow> [M_header_value \<mapsto> 0]
      | s_req_path \<Rightarrow> [M_url \<mapsto> 0]
      | s_req_schema \<Rightarrow> [M_url \<mapsto> 0]
      | s_req_schema_slash \<Rightarrow> [M_url \<mapsto> 0]
      | s_req_schema_slash_slash \<Rightarrow> [M_url \<mapsto> 0]
      | s_req_server_start \<Rightarrow> [M_url \<mapsto> 0]
      | s_req_server \<Rightarrow> [M_url \<mapsto> 0]
      | s_req_server_with_at \<Rightarrow> [M_url \<mapsto> 0]
      | s_req_query_string_start \<Rightarrow> [M_url \<mapsto> 0]
      | s_req_query_string \<Rightarrow> [M_url \<mapsto> 0]
      | s_req_fragment_start \<Rightarrow> [M_url \<mapsto> 0]
      | s_req_fragment \<Rightarrow> [M_url \<mapsto> 0]
      | s_res_status \<Rightarrow> [M_status \<mapsto> 0]
      | _ \<Rightarrow> Map.empty)"

definition initial_exec :: "'u http_parser \<Rightarrow> 'u exec" where
  "initial_exec prs =
     \<lparr>ex_parser = prs, ex_state = hp_state prs, ex_p = 0, ex_ch = NUL,
      ex_mark = initial_marks (hp_state prs)\<rparr>"

text \<open>A call with no input tells the parser that the stream has ended.\<close>

definition execute_eof :: "'u http_parser_settings \<Rightarrow> 'u http_parser \<Rightarrow> 'u exec_result" where
  "execute_eof st prs =
     (let ex = initial_exec prs in
      if hp_state prs = s_body_identity_eof
      then (case CALLBACK_NOTIFY_NOADVANCE (on_message_complete st) HPE_CB_message_complete ex of
              Next ex' \<Rightarrow> Returned 0 (ex_parser ex')
            | out \<Rightarrow> result_of out)
      else if hp_state prs \<in> {s_dead, s_start_req_or_res, s_start_res, s_start_req}
      then Returned 0 prs
      else Returned 1 (prs\<lparr>hp_http_errno := HPE_INVALID_EOF_STATE\<rparr>))"

definition http_parser_execute ::
    "'u http_parser \<Rightarrow> 'u http_parser_settings \<Rightarrow> string \<Rightarrow> 'u exec_result" where
  "http_parser_execute prs st buf =
     (if hp_http_errno prs \<noteq> HPE_OK then Returned 0 prs
      else if buf = [] then execute_eof st prs
      else exec_loop (exec_fuel buf) st buf (initial_exec prs))"

end
