(* ===== verification/Http_Parser_Inv.thy ===== *)
theory Http_Parser_Inv
  imports Http_Parser_Exec
begin

text \<open>
  The invariant of the HTTP parser and its preservation by every case of the
  switch. Callbacks are a contract, the locale \<open>lawful_settings\<close>: a callback may
  change the application data and the error number of the parser (return an
  error, pause it) and nothing else. Under it no assertion of
  \<open>http_parser_execute\<close> fails, no method name is read behind its end, no more than the
  given bytes are consumed, and the call returns.
\<close>

section \<open>The contract of the callbacks\<close>

definition cb_frame :: "'u http_parser \<Rightarrow> 'u http_parser \<Rightarrow> bool" where
  "cb_frame prs prs' \<longleftrightarrow>
     prs' = prs\<lparr>hp_data := hp_data prs', hp_http_errno := hp_http_errno prs'\<rparr>"

definition notify_cbs :: "'u http_parser_settings \<Rightarrow> 'u http_cb option set" where
  "notify_cbs st = {on_message_begin st, on_headers_complete st, on_message_complete st,
     on_chunk_header st, on_chunk_complete st}"

lemma notify_cbsI [simp]:
  "on_message_begin st \<in> notify_cbs st" "on_headers_complete st \<in> notify_cbs st"
  "on_message_complete st \<in> notify_cbs st" "on_chunk_header st \<in> notify_cbs st"
  "on_chunk_complete st \<in> notify_cbs st"
  by (simp_all add: notify_cbs_def)

section \<open>The invariant\<close>

definition field_states :: "header_states set" where
  "field_states = {h_general, h_C, h_CO, h_CON, h_matching_connection,
     h_matching_proxy_connection, h_matching_content_length, h_matching_transfer_encoding,
     h_matching_upgrade, h_connection, h_content_length, h_transfer_encoding, h_upgrade}"

definition chunk_states :: "state set" where
  "chunk_states = {s_chunk_size_start, s_chunk_size, s_chunk_parameters,
     s_chunk_size_almost_done, s_chunk_data, s_chunk_data_almost_done, s_chunk_data_done}"

text \<open>
  What holds of the parser in state \<open>s\<close>; \<open>n\<close> counts the header bytes that the
  current round of the loop has already added when a chunk size starts.
\<close>

definition state_inv :: "nat \<Rightarrow> state \<Rightarrow> 'u http_parser \<Rightarrow> bool" where
  "state_inv n s prs \<longleftrightarrow>
     hp_http_major prs \<le> 999 \<and> hp_http_minor prs \<le> 999 \<and> hp_status_code prs \<le> 999 \<and>
     (s = s_req_method \<longrightarrow> unat (hp_index prs) \<le> length (method_strings (hp_method prs))) \<and>
     (s = s_header_field \<longrightarrow> hp_header_state prs \<in> field_states) \<and>
     (s = s_header_value \<longrightarrow> hp_header_state prs \<notin> {h_connection, h_transfer_encoding}) \<and>
     (s \<in> chunk_states \<longrightarrow> has_flag (hp_flags prs) F_CHUNKED) \<and>
     (s = s_chunk_size_start \<longrightarrow> hp_nread prs = of_nat n) \<and>
     (s \<in> {s_chunk_size, s_chunk_parameters, s_chunk_size_almost_done, s_chunk_data,
           s_body_identity} \<longrightarrow> hp_content_length prs \<noteq> ULLONG_MAX) \<and>
     (s \<in> {s_chunk_data, s_body_identity} \<longrightarrow> hp_content_length prs \<noteq> 0) \<and>
     (s = s_chunk_data_almost_done \<longrightarrow> hp_content_length prs = 0)"

text \<open>The states in which a mark can be set; no two marks share one.\<close>

definition mark_states :: "mark \<Rightarrow> state set" where
  "mark_states m =
     (case m of
        M_header_field \<Rightarrow> {s_header_field}
      | M_header_value \<Rightarrow> {s_header_value}
      | M_url \<Rightarrow> {s_req_schema, s_req_schema_slash, s_req_schema_slash_slash, s_req_server_start,
                 s_req_server, s_req_server_with_at, s_req_path, s_req_query_string_start,
                 s_req_query_string, s_req_fragment_start, s_req_fragment}
      | M_body \<Rightarrow> {s_body_identity, s_body_identity_eof, s_chunk_data, s_chunk_data_almost_done}
      | M_status \<Rightarrow> {s_res_status})"

definition marks_ok :: "'u exec \<Rightarrow> bool" where
  "marks_ok ex \<longleftrightarrow>
     (\<forall>m a. ex_mark ex m = Some a \<longrightarrow> ex_state ex \<in> mark_states m \<and> a \<le> ex_p ex)"

definition exec_inv :: "nat \<Rightarrow> 'u exec \<Rightarrow> bool" where
  "exec_inv n ex \<longleftrightarrow>
     hp_http_errno (ex_parser ex) = HPE_OK \<and> state_inv n (ex_state ex) (ex_parser ex) \<and> marks_ok ex"

text \<open>The invariant of a parser between two calls.\<close>

definition parser_inv :: "'u http_parser \<Rightarrow> bool" where
  "parser_inv prs \<longleftrightarrow>
     (hp_http_errno prs \<in> {HPE_OK, HPE_PAUSED} \<longrightarrow> state_inv 0 (hp_state prs) prs)"

text \<open>How many jumps to \<open>reexecute\<close> a state can still cause, plus one.\<close>

definition rank :: "state \<Rightarrow> nat" where
  "rank s =
     (case s of
        s_header_value_lws \<Rightarrow> 4
      | s_header_value_discard_lws \<Rightarrow> 4
      | s_header_field_start \<Rightarrow> 3
      | s_headers_almost_done \<Rightarrow> 2
      | s_start_req_or_res \<Rightarrow> 2
      | s_header_value \<Rightarrow> 2
      | s_body_identity \<Rightarrow> 2
      | _ \<Rightarrow> 1)"

text \<open>What each case of the switch owes.\<close>

fun good :: "string \<Rightarrow> 'u exec \<Rightarrow> 'u outcome \<Rightarrow> bool" where
  "good buf ex (Next ex') \<longleftrightarrow> ex_p ex \<le> ex_p ex' \<and> ex_p ex' < length buf \<and> exec_inv 0 ex'"
| "good buf ex (Again ex') \<longleftrightarrow> ex_p ex \<le> ex_p ex' \<and> ex_p ex' < length buf \<and> exec_inv 1 ex' \<and>
     rank (ex_state ex') < rank (ex_state ex)"
| "good buf ex (Ret n prs) \<longleftrightarrow> n \<le> length buf \<and> parser_inv prs \<and>
     (hp_http_errno prs = HPE_OK \<longrightarrow> hp_upgrade prs)"
| "good buf ex Abort \<longleftrightarrow> False"

section \<open>Frame lemmas\<close>

lemma state_inv_frame [simp]:
  "state_inv n s (prs\<lparr>hp_state := x\<rparr>) = state_inv n s prs"
  "state_inv n s (prs\<lparr>hp_data := d\<rparr>) = state_inv n s prs"
  "state_inv n s (prs\<lparr>hp_http_errno := e\<rparr>) = state_inv n s prs"
  "state_inv n s (prs\<lparr>hp_type := t\<rparr>) = state_inv n s prs"
  "state_inv n s (prs\<lparr>hp_upgrade := b\<rparr>) = state_inv n s prs"
  by (simp_all add: state_inv_def)

lemma rank_bounds: "1 \<le> rank s" "rank s \<le> 4"
  by (simp_all add: rank_def split: state.split)

lemma mark_states_disjoint: "s \<in> mark_states m \<Longrightarrow> s \<in> mark_states m' \<Longrightarrow> m = m'"
  by (cases m; cases m') (auto simp: mark_states_def)

lemma marks_ok_parser [simp]: "marks_ok (ex\<lparr>ex_parser := prs\<rparr>) = marks_ok ex"
  by (simp add: marks_ok_def)

lemma marks_ok_ch [simp]: "marks_ok (ex\<lparr>ex_ch := c\<rparr>) = marks_ok ex"
  by (simp add: marks_ok_def)

text \<open>A state in which no mark can be set has none.\<close>

lemma marks_ok_empty:
  "marks_ok ex \<Longrightarrow> (\<And>m. ex_state ex \<notin> mark_states m) \<Longrightarrow> ex_mark ex = Map.empty"
  by (rule ext) (metis marks_ok_def option.exhaust)

lemma seq_fail [simp]: "seq (fail e ex) k = fail e ex"
  by (simp add: fail_def error_label_def RETURN_def Let_def)

lemma good_fail:
  "ex_p ex' \<le> length buf \<Longrightarrow> e \<noteq> HPE_OK \<Longrightarrow> e \<noteq> HPE_PAUSED \<Longrightarrow> good buf ex (fail e ex')"
  by (simp add: flow_defs Let_def parser_inv_def)

locale lawful_settings =
  fixes st :: "'u http_parser_settings"
  assumes notify_frame:
      "Some f \<in> notify_cbs st \<Longrightarrow> f prs = (rc, prs') \<Longrightarrow> cb_frame prs prs'"
    and data_frame:
      "data_cb st m = Some g \<Longrightarrow> g prs bs = (rc, prs') \<Longrightarrow> cb_frame prs prs'"
begin

text \<open>
  A callback either continues with the same local state, up to the saved state
  and the application data, or ends the call with an error number.
\<close>

lemma callback_result_cases:
  assumes "cb_frame ((ex_parser ex)\<lparr>hp_state := ex_state ex\<rparr>) prs'" and "e \<noteq> HPE_OK"
    and "hp_http_errno (ex_parser ex) = HPE_OK"
  obtains (cont) d where
      "callback_result e er (rc, prs') ex =
         Next (ex\<lparr>ex_parser := (ex_parser ex)\<lparr>hp_state := ex_state ex, hp_data := d\<rparr>\<rparr>)"
  | (stop) e' d where "e' \<noteq> HPE_OK"
      "callback_result e er (rc, prs') ex =
         Ret er ((ex_parser ex)\<lparr>hp_state := ex_state ex, hp_http_errno := e', hp_data := d\<rparr>)"
proof -
  obtain d e0 where prs': "prs' = (ex_parser ex)\<lparr>hp_state := ex_state ex,
      hp_data := d, hp_http_errno := e0\<rparr>"
    using assms(1) by (auto simp: cb_frame_def)
  consider "rc \<noteq> 0" | "rc = 0" "e0 \<noteq> HPE_OK" | "rc = 0" "e0 = HPE_OK" by blast
  then show ?thesis
  proof cases
    case 1
    with assms(2) show ?thesis
      by (intro stop [of e d]) (simp_all add: callback_result_def prs')
  next
    case 2
    then show ?thesis by (intro stop [of e0 d]) (simp_all add: callback_result_def prs')
  next
    case 3
    with assms(3) show ?thesis by (intro cont [of d]) (simp add: callback_result_def prs')
  qed
qed

lemma notify_cases:
  assumes "cb \<in> notify_cbs st" and "hp_http_errno (ex_parser ex) = HPE_OK" and "e \<noteq> HPE_OK"
  obtains (cont) s d where
      "CALLBACK_NOTIFY_ER cb e er ex =
         Next (ex\<lparr>ex_parser := (ex_parser ex)\<lparr>hp_state := s, hp_data := d\<rparr>\<rparr>)"
  | (stop) e' d where "e' \<noteq> HPE_OK"
      "CALLBACK_NOTIFY_ER cb e er ex =
         Ret er ((ex_parser ex)\<lparr>hp_state := ex_state ex, hp_http_errno := e', hp_data := d\<rparr>)"
proof (cases cb)
  case None
  with assms(2) show ?thesis
    by (intro cont [where s = "hp_state (ex_parser ex)" and d = "hp_data (ex_parser ex)"])
      (simp add: CALLBACK_NOTIFY_ER_def)
next
  case (Some f)
  obtain rc prs' where f: "f ((ex_parser ex)\<lparr>hp_state := ex_state ex\<rparr>) = (rc, prs')"
    by (cases "f ((ex_parser ex)\<lparr>hp_state := ex_state ex\<rparr>)")
  with Some assms(1) have "cb_frame ((ex_parser ex)\<lparr>hp_state := ex_state ex\<rparr>) prs'"
    by (auto intro: notify_frame)
  from callback_result_cases [OF this assms(3,2), of er rc] show ?thesis
    by cases (use Some f assms(2) cont stop in \<open>auto simp: CALLBACK_NOTIFY_ER_def\<close>)
qed

lemma data_cases:
  assumes "hp_http_errno (ex_parser ex) = HPE_OK"
  obtains (cont) s d where
      "CALLBACK_DATA_ER st buf m q er ex =
         Next (ex\<lparr>ex_parser := (ex_parser ex)\<lparr>hp_state := s, hp_data := d\<rparr>,
                  ex_mark := (ex_mark ex)(m := None)\<rparr>)"
  | (stop) e' d where "e' \<noteq> HPE_OK"
      "CALLBACK_DATA_ER st buf m q er ex =
         Ret er ((ex_parser ex)\<lparr>hp_state := ex_state ex, hp_http_errno := e', hp_data := d\<rparr>)"
proof (cases "ex_mark ex m")
  case None
  then have "(ex_mark ex)(m := None) = ex_mark ex" by (simp add: fun_upd_idem)
  with None assms show ?thesis
    by (intro cont [where s = "hp_state (ex_parser ex)" and d = "hp_data (ex_parser ex)"])
      (simp add: CALLBACK_DATA_ER_def)
next
  case (Some a)
  show ?thesis
  proof (cases "data_cb st m")
    case None
    with Some assms show ?thesis
      by (intro cont [where s = "hp_state (ex_parser ex)" and d = "hp_data (ex_parser ex)"])
        (simp add: CALLBACK_DATA_ER_def)
  next
    case (Some g)
    let ?bs = "take (q - a) (drop a buf)"
    obtain rc prs' where g: "g ((ex_parser ex)\<lparr>hp_state := ex_state ex\<rparr>) ?bs = (rc, prs')"
      by (cases "g ((ex_parser ex)\<lparr>hp_state := ex_state ex\<rparr>) ?bs")
    with Some have frame: "cb_frame ((ex_parser ex)\<lparr>hp_state := ex_state ex\<rparr>) prs'"
      by (auto intro: data_frame)
    have "data_errno m \<noteq> HPE_OK" by (simp add: data_errno_def split: mark.split)
    from callback_result_cases [OF frame this assms, of er rc] show ?thesis
      by cases (use Some g \<open>ex_mark ex m = Some a\<close> assms that in
          \<open>auto simp: CALLBACK_DATA_ER_def\<close>)
  qed
qed

text \<open>Rules that carry \<open>good\<close> over a callback and whatever follows it.\<close>

lemma good_notify:
  assumes "cb \<in> notify_cbs st" and "hp_http_errno (ex_parser ex) = HPE_OK" and "e \<noteq> HPE_OK"
    and "er \<le> length buf" and "state_inv 0 (ex_state ex) (ex_parser ex)"
    and "\<And>s d. good buf ex0 (k (ex\<lparr>ex_parser := (ex_parser ex)\<lparr>hp_state := s, hp_data := d\<rparr>\<rparr>))"
  shows "good buf ex0 (seq (CALLBACK_NOTIFY_ER cb e er ex) k)"
  using notify_cases [OF assms(1-3), of er] assms(4-6) by (cases) (auto simp: parser_inv_def)

lemma good_data:
  assumes "hp_http_errno (ex_parser ex) = HPE_OK"
    and "er \<le> length buf" and "state_inv 0 (ex_state ex) (ex_parser ex)"
    and "\<And>s d. good buf ex0 (k (ex\<lparr>ex_parser := (ex_parser ex)\<lparr>hp_state := s, hp_data := d\<rparr>,
                                  ex_mark := (ex_mark ex)(m := None)\<rparr>))"
  shows "good buf ex0 (seq (CALLBACK_DATA_ER st buf m q er ex) k)"
  using data_cases [OF assms(1), of buf m q er] assms(2-4) by (cases) (auto simp: parser_inv_def)

end

lemma seq_Next [simp]: "seq out Next = out"
  by (cases out) simp_all


section \<open>Cases without marks\<close>

text \<open>
  Most states carry no mark. For them the invariant is the one of the parser,
  and a case that touches no mark leaves none.
\<close>

lemma unmarked:
  assumes "exec_inv n ex" and "\<forall>m. ex_state ex \<notin> mark_states m"
  shows "ex_mark ex = Map.empty" and "hp_http_errno (ex_parser ex) = HPE_OK"
    and "state_inv n (ex_state ex) (ex_parser ex)"
  using assms marks_ok_empty [of ex] by (auto simp: exec_inv_def)

lemma exec_inv_unmarked:
  "ex_mark ex = Map.empty \<Longrightarrow> exec_inv n ex \<longleftrightarrow>
     hp_http_errno (ex_parser ex) = HPE_OK \<and> state_inv n (ex_state ex) (ex_parser ex)"
  by (simp add: exec_inv_def marks_ok_def)

lemma all_mark_iff: "(\<forall>m. P m) \<longleftrightarrow>
    P M_header_field \<and> P M_header_value \<and> P M_url \<and> P M_body \<and> P M_status"
  by (metis mark.exhaust)

text \<open>The states this section is about.\<close>

definition plain_states :: "state set" where
  "plain_states = {s. \<forall>m. s \<notin> mark_states m}"

lemma plain_states_iff:
  "s \<in> plain_states \<longleftrightarrow> s \<notin> mark_states M_header_field \<union> mark_states M_header_value \<union>
     mark_states M_url \<union> mark_states M_body \<union> mark_states M_status"
  by (simp add: plain_states_def all_mark_iff)

lemmas inv_simps = state_inv_def chunk_states_def plain_states_iff mark_states_def rank_def

lemma plain_inv:
  assumes "exec_inv n ex" and "ex_state ex \<in> plain_states"
  shows "ex_mark ex = Map.empty" and "hp_http_errno (ex_parser ex) = HPE_OK"
    and "state_inv n (ex_state ex) (ex_parser ex)"
  using assms unmarked [of n ex] by (simp_all add: plain_states_def)

lemma good_expect:
  assumes "exec_inv 1 ex" and "ex_state ex \<in> plain_states" and "ex_p ex < length buf"
    and "\<And>prs :: 'u http_parser. state_inv 1 (ex_state ex) prs \<Longrightarrow> state_inv 0 s prs"
  shows "good buf ex (case_expect c s (ex :: 'u exec))"
  using plain_inv [OF assms(1,2)] assms(3,4)
  by (simp add: case_expect_def STRICT_CHECK_def good_fail UPDATE_STATE_def exec_inv_unmarked)

lemma good_dead:
  assumes "exec_inv 1 ex" and "ex_state ex = s_dead" and "ex_p ex < length buf"
  shows "good buf ex (case_dead ex)"
  using plain_inv [of 1 ex] assms
  by (simp add: case_dead_def good_fail exec_inv_unmarked inv_simps)

lemma digit_val_le: "IS_NUM c \<Longrightarrow> digit_val c \<le> 9"
  by (auto simp: IS_NUM_def digit_val_def ord_def)

lemma digit_le_999: "IS_NUM c \<Longrightarrow> (of_nat (digit_val c) :: 16 word) \<le> 999"
  using digit_val_le [of c] by (simp add: word_le_nat_alt unat_of_nat take_bit_nat_eq_self)

lemmas plain_simps = good_fail exec_inv_unmarked inv_simps UPDATE_STATE_def on_parser_def
  set_major_def set_minor_def set_status_def Let_def

lemma good_more_digits:
  assumes "ex_p ex < length buf" and "e \<noteq> HPE_OK" "e \<noteq> HPE_PAUSED"
    and "\<And>v. ex_p (upd v ex) = ex_p ex" and "\<And>v. v \<le> 999 \<Longrightarrow> exec_inv 0 (upd v ex)"
  shows "good buf ex (more_digits get upd e ex)"
  using assms by (auto simp: more_digits_def Let_def good_fail)

lemma good_res_first_http_major:
  assumes "exec_inv 1 ex" and "ex_state ex = s_res_first_http_major" and "ex_p ex < length buf"
  shows "good buf ex (case_res_first_http_major ex)"
  using plain_inv [of 1 ex] assms digit_le_999 [of "ex_ch ex"]
  by (simp add: case_res_first_http_major_def plain_simps)

lemma good_res_http_major:
  assumes "exec_inv 1 ex" and "ex_state ex = s_res_http_major" and "ex_p ex < length buf"
  shows "good buf ex (case_res_http_major ex)"
  using plain_inv [of 1 ex] assms
  by (auto simp: case_res_http_major_def plain_simps intro!: good_more_digits)

lemma good_res_first_http_minor:
  assumes "exec_inv 1 ex" and "ex_state ex = s_res_first_http_minor" and "ex_p ex < length buf"
  shows "good buf ex (case_res_first_http_minor ex)"
  using plain_inv [of 1 ex] assms digit_le_999 [of "ex_ch ex"]
  by (simp add: case_res_first_http_minor_def plain_simps)

lemma good_res_http_minor:
  assumes "exec_inv 1 ex" and "ex_state ex = s_res_http_minor" and "ex_p ex < length buf"
  shows "good buf ex (case_res_http_minor ex)"
  using plain_inv [of 1 ex] assms
  by (auto simp: case_res_http_minor_def plain_simps intro!: good_more_digits)

lemma good_res_first_status_code:
  assumes "exec_inv 1 ex" and "ex_state ex = s_res_first_status_code" and "ex_p ex < length buf"
  shows "good buf ex (case_res_first_status_code ex)"
  using plain_inv [of 1 ex] assms digit_le_999 [of "ex_ch ex"]
  by (simp add: case_res_first_status_code_def plain_simps)

lemma good_res_status_code:
  assumes "exec_inv 1 ex" and "ex_state ex = s_res_status_code" and "ex_p ex < length buf"
  shows "good buf ex (case_res_status_code ex)"
  using plain_inv [of 1 ex] assms
  by (auto simp: case_res_status_code_def plain_simps intro!: good_more_digits)

lemma good_res_or_resp_H:
  assumes "exec_inv 1 ex" and "ex_state ex = s_res_or_resp_H" and "ex_p ex < length buf"
  shows "good buf ex (case_res_or_resp_H ex)"
  using plain_inv [of 1 ex] assms by (simp add: case_res_or_resp_H_def plain_simps)

lemma good_req_http_start:
  assumes "exec_inv 1 ex" and "ex_state ex = s_req_http_start" and "ex_p ex < length buf"
  shows "good buf ex (case_req_http_start ex)"
  using plain_inv [of 1 ex] assms by (simp add: case_req_http_start_def plain_simps)

lemma good_req_first_http_major:
  assumes "exec_inv 1 ex" and "ex_state ex = s_req_first_http_major" and "ex_p ex < length buf"
  shows "good buf ex (case_req_first_http_major ex)"
proof -
  have "IS_NUM (ex_ch ex)" if "\<not> (ord (ex_ch ex) < ord CHR ''1'' \<or> ord (ex_ch ex) > ord CHR ''9'')"
    using that by (simp add: IS_NUM_def ord_def)
  with plain_inv [of 1 ex] assms digit_le_999 [of "ex_ch ex"] show ?thesis
    by (simp add: case_req_first_http_major_def plain_simps)
qed

lemma good_req_http_major:
  assumes "exec_inv 1 ex" and "ex_state ex = s_req_http_major" and "ex_p ex < length buf"
  shows "good buf ex (case_req_http_major ex)"
  using plain_inv [of 1 ex] assms
  by (auto simp: case_req_http_major_def plain_simps intro!: good_more_digits)

lemma good_req_first_http_minor:
  assumes "exec_inv 1 ex" and "ex_state ex = s_req_first_http_minor" and "ex_p ex < length buf"
  shows "good buf ex (case_req_first_http_minor ex)"
  using plain_inv [of 1 ex] assms digit_le_999 [of "ex_ch ex"]
  by (simp add: case_req_first_http_minor_def plain_simps)

lemma good_req_http_minor:
  assumes "exec_inv 1 ex" and "ex_state ex = s_req_http_minor" and "ex_p ex < length buf"
  shows "good buf ex (case_req_http_minor ex)"
  using plain_inv [of 1 ex] assms
  by (auto simp: case_req_http_minor_def plain_simps intro!: good_more_digits)

lemma good_req_line_almost_done:
  assumes "exec_inv 1 ex" and "ex_state ex = s_req_line_almost_done" and "ex_p ex < length buf"
  shows "good buf ex (case_req_line_almost_done ex)"
  using plain_inv [of 1 ex] assms by (simp add: case_req_line_almost_done_def plain_simps)

lemma good_header_value_lws:
  assumes "exec_inv 1 ex" and "ex_state ex = s_header_value_lws" and "ex_p ex < length buf"
  shows "good buf ex (case_header_value_lws ex)"
proof -
  have "state_inv 1 s_header_field_start (value_flag (ex_parser ex))"
    "hp_http_errno (value_flag (ex_parser ex)) = hp_http_errno (ex_parser ex)"
    using plain_inv(3) [OF assms(1)] assms(2)
    by (auto simp: inv_simps value_flag_def add_flag_def split: header_states.split)
  with plain_inv [of 1 ex] assms show ?thesis
    by (simp add: case_header_value_lws_def plain_simps)
qed

section \<open>Method names\<close>

text \<open>Switching to another method keeps the index inside the new name.\<close>

lemma other_method_index:
  assumes "other_method m i ch = Some m'"
  shows "i < length (method_strings m')"
  using assms by (auto simp: other_method_def split: if_splits)

lemma method_name_length: "length (method_strings m) \<le> 11"
  by (cases m) simp_all

lemma index_bump:
  assumes "i < (12 :: nat)" and "unat (w :: 8 word) = i"
  shows "unat (w + 1) = Suc i"
  using assms by (simp add: unat_word_ariths)

lemma good_req_method:
  assumes "exec_inv 1 ex" and "ex_state ex = s_req_method" and "ex_p ex < length buf"
  shows "good buf ex (case_req_method ex)"
proof -
  let ?prs = "ex_parser ex" and ?i = "unat (hp_index (ex_parser ex))"
  let ?name = "method_strings (hp_method ?prs)"
  have inv: "ex_mark ex = Map.empty" "hp_http_errno ?prs = HPE_OK" "?i \<le> length ?name"
    and nums: "hp_http_major ?prs \<le> 999" "hp_http_minor ?prs \<le> 999" "hp_status_code ?prs \<le> 999"
    using plain_inv [OF assms(1)] assms(2) by (simp_all add: inv_simps)
  have bump: "unat (hp_index ?prs + 1) = Suc ?i"
    using inv(3) method_name_length [of "hp_method ?prs"] by (intro index_bump) auto
  show ?thesis
  proof (cases "ex_ch ex = NUL")
    case True
    with assms(3) show ?thesis by (simp add: case_req_method_def good_fail)
  next
    case False
    obtain mc where mc: "matcher_at ?name ?i = Some mc"
      using inv(3) by (cases "matcher_at ?name ?i") (auto simp: matcher_at_def split: if_splits)
    have "?i < length ?name" if "ex_ch ex = mc"
      using mc that False by (auto simp: matcher_at_def split: if_splits)
    with False mc inv nums bump assms other_method_index [of "hp_method ?prs" ?i "ex_ch ex"]
    show ?thesis
      by (auto simp: case_req_method_def plain_simps Suc_le_eq split: option.split)
  qed
qed


section \<open>Header fields\<close>

lemma only_mark:
  assumes "exec_inv n ex" and "ex_state ex \<in> mark_states m"
  shows "(ex_mark ex)(m := None) = Map.empty"
proof
  fix m'
  show "((ex_mark ex)(m := None)) m' = None"
    using assms mark_states_disjoint [OF assms(2), of m']
    by (cases "ex_mark ex m'") (auto simp: exec_inv_def marks_ok_def)
qed

lemma marked_inv:
  assumes "exec_inv n ex"
  shows "hp_http_errno (ex_parser ex) = HPE_OK" and "state_inv n (ex_state ex) (ex_parser ex)"
    and "ex_mark ex m = Some a \<Longrightarrow> ex_state ex \<in> mark_states m \<and> a \<le> ex_p ex"
  using assms by (auto simp: exec_inv_def marks_ok_def)

lemma good_header_field_start:
  assumes "exec_inv 1 ex" and "ex_state ex = s_header_field_start" and "ex_p ex < length buf"
  shows "good buf ex (case_header_field_start ex)"
proof (cases "ex_ch ex = CR \<or> ex_ch ex = LF \<or> TOKEN (ex_ch ex) = NUL")
  case True
  with plain_inv [of 1 ex] assms show ?thesis
    by (auto simp: case_header_field_start_def plain_simps)
next
  case False
  with plain_inv [of 1 ex] assms show ?thesis
    by (auto simp: case_header_field_start_def plain_simps MARK_def set_header_state_def
        exec_inv_def marks_ok_def field_states_def split: if_splits)
qed

lemma match_name_range: "match_name name a b c i x \<in> {a, b, c}"
  by (simp add: match_name_def)

lemma header_field_char_step:
  assumes "hp_header_state prs \<in> field_states"
  shows "\<exists>h i. header_field_char prs ch c = Some (prs\<lparr>hp_header_state := h, hp_index := i\<rparr>) \<and>
    h \<in> field_states"
proof -
  have self: "\<exists>h i. prs = prs\<lparr>hp_header_state := h, hp_index := i\<rparr> \<and> h \<in> field_states"
    using assms by (intro exI [of _ "hp_header_state prs"] exI [of _ "hp_index prs"]) simp
  have gen: "\<exists>h i. prs\<lparr>hp_header_state := h_general\<rparr> = prs\<lparr>hp_header_state := h, hp_index := i\<rparr> \<and>
      h \<in> field_states"
    by (intro exI [of _ h_general] exI [of _ "hp_index prs"]) (simp add: field_states_def)
  have go: "\<exists>h i. prs\<lparr>hp_index := j, hp_header_state := h0\<rparr> =
      prs\<lparr>hp_header_state := h, hp_index := i\<rparr> \<and> h \<in> field_states" if "h0 \<in> field_states" for j h0
    using that by (intro exI [of _ h0] exI [of _ j]) simp
  show ?thesis
    using assms self gen go
    by (cases "hp_header_state prs")
      (auto simp: header_field_char_def Let_def match_name_def field_states_def)
qed

lemma header_field_loop_step:
  assumes "hp_header_state (ex_parser ex) \<in> field_states"
  shows "\<exists>h i q c. header_field_loop xs ex =
      Next (ex\<lparr>ex_parser := (ex_parser ex)\<lparr>hp_header_state := h, hp_index := i\<rparr>,
               ex_p := q, ex_ch := c\<rparr>) \<and>
    h \<in> field_states \<and> ex_p ex \<le> q \<and> q \<le> ex_p ex + length xs"
  using assms
proof (induction xs arbitrary: ex)
  case Nil
  then show ?case
    by (intro exI [of _ "hp_header_state (ex_parser ex)"] exI [of _ "hp_index (ex_parser ex)"]
        exI [of _ "ex_p ex"] exI [of _ "ex_ch ex"]) simp
next
  case (Cons x xs)
  show ?case
  proof (cases "TOKEN x = NUL")
    case True
    with Cons.prems show ?thesis
      by (intro exI [of _ "hp_header_state (ex_parser ex)"] exI [of _ "hp_index (ex_parser ex)"]
          exI [of _ "ex_p ex"] exI [of _ x]) simp
  next
    case False
    obtain h i where hi: "h \<in> field_states"
        "header_field_char (ex_parser ex) x (TOKEN x) =
           Some ((ex_parser ex)\<lparr>hp_header_state := h, hp_index := i\<rparr>)"
      using header_field_char_step [OF Cons.prems] by blast
    let ?ex' = "ex\<lparr>ex_ch := x, ex_parser := (ex_parser ex)\<lparr>hp_header_state := h, hp_index := i\<rparr>,
      ex_p := ex_p ex + 1\<rparr>"
    have "hp_header_state (ex_parser ?ex') \<in> field_states" using hi(1) by simp
    from Cons.IH [OF this] obtain h' i' q c where
      "header_field_loop xs ?ex' =
         Next (?ex'\<lparr>ex_parser := (ex_parser ?ex')\<lparr>hp_header_state := h', hp_index := i'\<rparr>,
                    ex_p := q, ex_ch := c\<rparr>)"
      "h' \<in> field_states" "ex_p ?ex' \<le> q" "q \<le> ex_p ?ex' + length xs" by blast
    with False hi(2) show ?thesis
      by (intro exI [of _ h'] exI [of _ i'] exI [of _ q] exI [of _ c]) simp
  qed
qed

lemma count_cases:
  obtains (over) ex' where "COUNT_HEADER_SIZE v ex = fail HPE_HEADER_OVERFLOW ex'"
      "ex_p ex' = ex_p ex"
  | (fine) n where "COUNT_HEADER_SIZE v ex =
      Next (ex\<lparr>ex_parser := (ex_parser ex)\<lparr>hp_nread := n\<rparr>\<rparr>)"
proof (cases "hp_nread (ex_parser ex) + of_nat v > HTTP_MAX_HEADER_SIZE")
  case True
  then show ?thesis
    by (intro over [of "on_parser (\<lambda>prs. prs\<lparr>hp_nread := hp_nread prs + of_nat v\<rparr>) ex"])
      (simp_all add: COUNT_HEADER_SIZE_def on_parser_def Let_def)
next
  case False
  then show ?thesis
    by (intro fine [of "hp_nread (ex_parser ex) + of_nat v"])
      (simp add: COUNT_HEADER_SIZE_def on_parser_def Let_def)
qed

lemma state_inv_nread:
  "s \<noteq> s_chunk_size_start \<Longrightarrow> state_inv n s (prs\<lparr>hp_nread := k\<rparr>) = state_inv n s prs"
  "s \<noteq> s_chunk_size_start \<Longrightarrow> state_inv n s prs \<Longrightarrow> state_inv m s prs"
  by (simp_all add: state_inv_def)

context lawful_settings
begin

lemma good_header_field:
  assumes inv: "exec_inv 1 ex" and s: "ex_state ex = s_header_field" and p: "ex_p ex < length buf"
  shows "good buf ex (case_header_field st buf ex)"
proof -
  note I = marked_inv [OF inv]
  have nums: "hp_http_major (ex_parser ex) \<le> 999" "hp_http_minor (ex_parser ex) \<le> 999"
      "hp_status_code (ex_parser ex) \<le> 999"
    and hs: "hp_header_state (ex_parser ex) \<in> field_states"
    using I(2) s by (simp_all add: state_inv_def)
  have mark: "(ex_mark ex)(M_header_field := None) = Map.empty"
    using only_mark [OF inv] s by (simp add: mark_states_def)
  obtain h i q c where loop: "header_field_loop (drop (ex_p ex) buf) ex =
      Next (ex\<lparr>ex_parser := (ex_parser ex)\<lparr>hp_header_state := h, hp_index := i\<rparr>,
               ex_p := q, ex_ch := c\<rparr>)"
    and h: "h \<in> field_states" and q: "ex_p ex \<le> q" "q \<le> length buf"
    using header_field_loop_step [OF hs, of "drop (ex_p ex) buf"] p by fastforce
  let ?ex1 = "ex\<lparr>ex_parser := (ex_parser ex)\<lparr>hp_header_state := h, hp_index := i\<rparr>,
    ex_p := q, ex_ch := c\<rparr>"
  show ?thesis
  proof (cases rule: count_cases [of "ex_p ?ex1 - ex_p ex" ?ex1])
    case (over ex')
    with loop q show ?thesis by (simp add: case_header_field_def good_fail)
  next
    case (fine n)
    let ?ex2 = "?ex1\<lparr>ex_parser := (ex_parser ?ex1)\<lparr>hp_nread := n\<rparr>\<rparr>"
    have st2: "state_inv 0 s_header_field (ex_parser ?ex2)"
      "state_inv 0 s_header_value_discard_ws (ex_parser ?ex2)"
      using nums h by (simp_all add: state_inv_def chunk_states_def)
    consider "q = length buf" | "q < length buf" "c = CHR '':''" | "q < length buf" "c \<noteq> CHR '':''"
      using q(2) by linarith
    then show ?thesis
    proof cases
      case 1
      with loop fine st2 I s p show ?thesis
        by (auto simp: case_header_field_def exec_inv_def marks_ok_def le_diff_conv2
            intro: le_trans dest!: I(3))
    next
      case 2
      with loop fine st2 I(1) mark q show ?thesis
        by (simp add: case_header_field_def CALLBACK_DATA_def UPDATE_STATE_def
            good_data [where k = Next, simplified] exec_inv_unmarked)
    next
      case 3
      with loop fine q show ?thesis by (simp add: case_header_field_def good_fail)
    qed
  qed
qed

end

lemma exec_inv_weaken: "exec_inv n ex \<Longrightarrow> ex_state ex \<noteq> s_chunk_size_start \<Longrightarrow> exec_inv m ex"
  by (auto simp: exec_inv_def state_inv_nread)

text \<open>Most states ask nothing but three-digit numbers of the parser.\<close>

definition special_states :: "state set" where
  "special_states = {s_req_method, s_header_field, s_header_value, s_body_identity} \<union> chunk_states"

lemma quiet_state:
  "s \<notin> special_states \<Longrightarrow> state_inv n s prs \<longleftrightarrow>
     hp_http_major prs \<le> 999 \<and> hp_http_minor prs \<le> 999 \<and> hp_status_code prs \<le> 999"
  by (auto simp: state_inv_def special_states_def chunk_states_def)

lemma state_inv_nums:
  assumes "state_inv n s prs"
  shows "hp_http_major prs \<le> 999" "hp_http_minor prs \<le> 999" "hp_status_code prs \<le> 999"
  using assms by (simp_all add: state_inv_def)

end
