(* ===== verification/Http_Parser_Safe.thy ===== *)
theory Http_Parser_Safe
  imports Http_Parser_Inv
begin

text \<open>
  The cases of the switch that run callbacks, carry marks or read bodies keep
  the invariant; so the loops of \<open>http_parser_execute\<close> end with the fuel they are
  given, no assertion fails, and the call consumes no more than it was given.
\<close>

text \<open>What a call owes when it returns.\<close>

fun finished :: "string \<Rightarrow> 'u outcome \<Rightarrow> bool" where
  "finished buf (Ret n prs) \<longleftrightarrow> n \<le> length buf \<and> parser_inv prs \<and>
     (hp_http_errno prs = HPE_OK \<longrightarrow> hp_upgrade prs \<or> n = length buf)"
| "finished buf _ \<longleftrightarrow> False"

fun result_ok :: "string \<Rightarrow> 'u exec_result \<Rightarrow> bool" where
  "result_ok buf (Returned n prs) \<longleftrightarrow> finished buf (Ret n prs)"
| "result_ok buf _ \<longleftrightarrow> False"

context lawful_settings
begin

section \<open>Callbacks at the start of a message and after the URL\<close>

lemmas notify_simps = CALLBACK_NOTIFY_def CALLBACK_NOTIFY_NOADVANCE_def
  good_notify [where k = Next, simplified]

lemmas data_simps = CALLBACK_DATA_def CALLBACK_DATA_NOADVANCE_def
  good_data [where k = Next, simplified]

lemma good_start_req_or_res:
  assumes "exec_inv 1 ex" and "ex_state ex = s_start_req_or_res" and "ex_p ex < length buf"
  shows "good buf ex (case_start_req_or_res st ex)"
  using plain_inv [of 1 ex] assms
  by (simp add: case_start_req_or_res_def plain_simps reset_message_def notify_simps)

lemma good_start_res:
  assumes "exec_inv 1 ex" and "ex_state ex = s_start_res" and "ex_p ex < length buf"
  shows "good buf ex (case_start_res st ex)"
  using plain_inv [of 1 ex] assms
  by (simp add: case_start_res_def plain_simps reset_message_def notify_simps)

lemma good_start_req:
  assumes "exec_inv 1 ex" and "ex_state ex = s_start_req" and "ex_p ex < length buf"
  shows "good buf ex (case_start_req st ex)"
proof -
  have "1 \<le> length (method_strings m)" for m by (cases m) simp_all
  with plain_inv [of 1 ex] assms show ?thesis
    by (simp add: case_start_req_def plain_simps reset_message_def notify_simps
        split: option.split)
qed

lemma good_res_status:
  assumes "exec_inv 1 ex" and "ex_state ex = s_res_status" and "ex_p ex < length buf"
  shows "good buf ex (case_res_status st buf ex)"
proof -
  have "(ex_mark ex)(M_status := None) = Map.empty"
    using only_mark [OF assms(1)] assms(2) by (simp add: mark_states_def)
  with marked_inv(1,2) [OF assms(1)] exec_inv_weaken [OF assms(1)] assms show ?thesis
    by (simp add: case_res_status_def plain_simps data_simps)
qed

end

lemma good_res_status_start:
  assumes "exec_inv 1 ex" and "ex_state ex = s_res_status_start" and "ex_p ex < length buf"
  shows "good buf ex (case_res_status_start ex)"
  using plain_inv [of 1 ex] assms
  by (auto simp: case_res_status_start_def plain_simps MARK_def exec_inv_def marks_ok_def
      split: if_splits)

text \<open>The URL automaton stays among the states that may carry the mark of a URL.\<close>

lemma parse_url_char_range:
  "s \<in> mark_states M_url \<or> s = s_req_spaces_before_url \<Longrightarrow>
   parse_url_char s ch \<in> mark_states M_url \<union> {s_dead}"
  by (cases s) (simp_all add: parse_url_char_def mark_states_def)

lemma url_state_inv:
  assumes "s \<in> mark_states M_url" and "state_inv n s' prs"
  shows "state_inv m s prs"
proof -
  have "s \<notin> special_states"
    using assms(1) by (cases s) (simp_all add: mark_states_def special_states_def chunk_states_def)
  with assms(2) show ?thesis by (auto simp: quiet_state state_inv_nums)
qed

lemma good_url_char:
  assumes "hp_http_errno (ex_parser ex) = HPE_OK" and "state_inv n s' (ex_parser ex)"
    and "ex_state ex \<in> mark_states M_url \<or> ex_state ex = s_req_spaces_before_url"
    and "\<And>m a. ex_mark ex m = Some a \<Longrightarrow> m = M_url \<and> a \<le> ex_p ex"
    and "ex_p ex0 \<le> ex_p ex" "ex_p ex < length buf"
  shows "good buf ex0 (url_char ex)"
  using assms parse_url_char_range [OF assms(3), of "ex_ch ex"]
    url_state_inv [OF _ assms(2), of "parse_url_char (ex_state ex) (ex_ch ex)" 0]
  by (auto simp: url_char_def Let_def UPDATE_STATE_def good_fail exec_inv_def marks_ok_def)

lemma good_req_spaces_before_url:
  assumes "exec_inv 1 ex" and "ex_state ex = s_req_spaces_before_url" and "ex_p ex < length buf"
  shows "good buf ex (case_req_spaces_before_url ex)"
proof (cases "ex_ch ex = SP")
  case True
  with plain_inv [of 1 ex] assms show ?thesis
    by (simp add: case_req_spaces_before_url_def plain_simps)
next
  case False
  have "s_req_server_start \<in> mark_states M_url" by (simp add: mark_states_def)
  moreover have "ex_mark ex = Map.empty" "hp_http_errno (ex_parser ex) = HPE_OK"
    "state_inv 1 s_req_spaces_before_url (ex_parser ex)"
    using plain_inv [OF assms(1)] assms(2) by (simp_all add: inv_simps)
  ultimately show ?thesis using False assms
    by (auto simp: case_req_spaces_before_url_def Let_def UPDATE_STATE_def MARK_def
        intro!: good_url_char split: if_splits)
qed

lemma marks_of_url:
  assumes "exec_inv n ex" and "ex_state ex \<in> mark_states M_url" and "ex_mark ex m = Some a"
  shows "m = M_url \<and> a \<le> ex_p ex"
  using marked_inv(3) [OF assms(1,3)] mark_states_disjoint [OF assms(2), of m] by auto

lemma good_req_url_start:
  assumes "exec_inv 1 ex" and "ex_state ex \<in> mark_states M_url" and "ex_p ex < length buf"
  shows "good buf ex (case_req_url_start ex)"
  using marked_inv [OF assms(1)] marks_of_url [OF assms(1,2)] assms
  by (auto simp: case_req_url_start_def good_fail intro!: good_url_char)

context lawful_settings
begin

lemma good_req_url:
  assumes "exec_inv 1 ex" and "ex_state ex \<in> mark_states M_url" and "ex_p ex < length buf"
  shows "good buf ex (case_req_url st buf ex)"
proof -
  note I = marked_inv [OF assms(1)]
  have nums: "hp_http_major (ex_parser ex) \<le> 999" "hp_http_minor (ex_parser ex) \<le> 999"
      "hp_status_code (ex_parser ex) \<le> 999"
    using I(2) by (simp_all add: state_inv_def)
  have "good buf ex (url_char ex)"
    using I assms marks_of_url [OF assms(1,2)] by (auto intro!: good_url_char)
  with I(1) nums only_mark [OF assms(1,2)] assms(3) show ?thesis
    by (simp add: case_req_url_def plain_simps data_simps)
qed

end

section \<open>Header values\<close>

lemma good_header_value_start:
  assumes "exec_inv 1 ex" and "ex_state ex \<in> {s_header_value_start, s_header_value_discard_ws}"
    and "ex_p ex < length buf"
  shows "good buf ex (case_header_value_start ex)"
proof -
  have "ex_state ex \<in> plain_states" using assms(2) by (auto simp: plain_states_iff mark_states_def)
  note I = plain_inv [OF assms(1) this]
  let ?ex = "\<lambda>prs. ex\<lparr>ex_mark := [M_header_value \<mapsto> ex_p ex], ex_state := s_header_value,
    ex_parser := prs\<rparr>"
  have marks: "exec_inv 0 (?ex prs)"
    if "hp_http_errno prs = HPE_OK" "state_inv 0 s_header_value prs" for prs
    using that by (simp add: exec_inv_def marks_ok_def mark_states_def)
  show ?thesis
    using assms(3) I state_inv_nums [OF I(3)]
    by (cases "hp_header_state (ex_parser ex)")
      (simp_all add: case_header_value_start_def on_parser_def MARK_def UPDATE_STATE_def Let_def
        set_header_state_def add_flag_def good_fail marks state_inv_def chunk_states_def)
qed

lemma good_header_value_discard_ws:
  assumes "exec_inv 1 ex" and "ex_state ex = s_header_value_discard_ws" and "ex_p ex < length buf"
  shows "good buf ex (case_header_value_discard_ws ex)"
  using plain_inv [of 1 ex] good_header_value_start [of ex] assms
  by (simp add: case_header_value_discard_ws_def plain_simps)

lemma value_flag_frame [simp]:
  "hp_http_errno (value_flag prs) = hp_http_errno prs"
  "hp_http_major (value_flag prs) = hp_http_major prs"
  "hp_http_minor (value_flag prs) = hp_http_minor prs"
  "hp_status_code (value_flag prs) = hp_status_code prs"
  by (simp_all add: value_flag_def add_flag_def split: header_states.split)

text \<open>What the value loop keeps of its local state.\<close>

definition value_inv :: "nat \<Rightarrow> nat \<Rightarrow> header_states \<Rightarrow> 'u exec \<Rightarrow> bool" where
  "value_inv len start h ex \<longleftrightarrow>
     hp_http_errno (ex_parser ex) = HPE_OK \<and> ex_state ex = s_header_value \<and>
     hp_http_major (ex_parser ex) \<le> 999 \<and> hp_http_minor (ex_parser ex) \<le> 999 \<and>
     hp_status_code (ex_parser ex) \<le> 999 \<and>
     (\<forall>m a. ex_mark ex m = Some a \<longrightarrow> m = M_header_value \<and> a \<le> start) \<and>
     start \<le> ex_p ex \<and> ex_p ex \<le> len \<and> h \<notin> {h_connection, h_transfer_encoding}"

lemma header_value_char_inv:
  assumes "value_inv len start h ex" and "ex_p ex < len"
  shows "(case header_value_char h ex of
      HV_abort \<Rightarrow> False
    | HV_fail e \<Rightarrow> e = HPE_INVALID_CONTENT_LENGTH
    | HV_go h' ex' \<Rightarrow> value_inv len start h' (ex'\<lparr>ex_p := ex_p ex' + 1\<rparr>))"
proof -
  let ?prs = "ex_parser ex"
  have step: "value_inv len start h' (ex\<lparr>ex_p := Suc (ex_p ex)\<rparr>)"
    "value_inv len start h' (ex\<lparr>ex_state := s_header_value, ex_p := Suc (ex_p ex)\<rparr>)"
    "value_inv len start h' (ex\<lparr>ex_parser := ?prs\<lparr>hp_index := i\<rparr>, ex_p := Suc (ex_p ex)\<rparr>)"
    "value_inv len start h' (ex\<lparr>ex_parser := ?prs\<lparr>hp_content_length := w\<rparr>, ex_p := Suc (ex_p ex)\<rparr>)"
    "value_inv len start h' (ex\<lparr>ex_parser := ?prs\<lparr>hp_flags := f, hp_index := i\<rparr>, ex_p := Suc (ex_p ex)\<rparr>)"
    if "h' \<notin> {h_connection, h_transfer_encoding}" for h' i w f
    using assms that by (auto simp: value_inv_def)
  have "h \<noteq> h_connection" "h \<noteq> h_transfer_encoding" using assms(1) by (auto simp: value_inv_def)
  then show ?thesis
    by (cases h) (simp_all add: header_value_char_def Let_def on_parser_def step
        UPDATE_STATE_def add_flag_def match_name_def)
qed

lemma memchr_less: "memchr c xs = Some a \<Longrightarrow> a < length xs"
  by (induction xs arbitrary: a) (auto split: if_splits)

lemma skip_value_bound:
  assumes "p \<le> length buf"
  shows "skip_value buf p \<le> length buf"
proof -
  define xs where "xs = take (min (length buf - p) (unat HTTP_MAX_HEADER_SIZE)) (drop p buf)"
  have "length xs \<le> length buf - p" by (simp add: xs_def)
  then have "p + a \<le> length buf" if "memchr c xs = Some a" for a c
    using memchr_less [OF that] assms by linarith
  then show ?thesis
    by (simp add: skip_value_def Let_def flip: xs_def split: option.split)
qed

lemma value_mark [simp]: "s_header_value \<in> mark_states m \<longleftrightarrow> m = M_header_value"
  by (cases m) (simp_all add: mark_states_def)

lemma almost_done_inv:
  "state_inv n s_header_almost_done prs \<longleftrightarrow>
     hp_http_major prs \<le> 999 \<and> hp_http_minor prs \<le> 999 \<and> hp_status_code prs \<le> 999"
  by (rule quiet_state) (simp add: special_states_def chunk_states_def)

lemma good_header_value_done:
  assumes "hp_http_errno (ex_parser ex) = HPE_OK" and "start \<le> ex_p ex" "ex_p ex \<le> length buf"
    and "ex_p ex0 = start" "start < length buf"
    and "state_inv 0 (ex_state ex) ((ex_parser ex)\<lparr>hp_header_state := h\<rparr>)"
    and "ex_state ex \<noteq> s_chunk_size_start"
    and "\<And>m a. ex_mark ex m = Some a \<Longrightarrow> ex_state ex \<in> mark_states m \<and> a \<le> start"
  shows "good buf ex0 (header_value_done buf start h ex)"
proof (cases rule: count_cases [of "ex_p ex - start" "set_header_state h ex"])
  case (over ex')
  with assms(3) show ?thesis
    by (simp add: header_value_done_def Let_def set_header_state_def on_parser_def good_fail)
next
  case (fine n)
  let ?ex = "ex\<lparr>ex_parser := (ex_parser ex)\<lparr>hp_header_state := h, hp_nread := n\<rparr>\<rparr>"
  have inv: "exec_inv 0 (?ex\<lparr>ex_p := q\<rparr>)" if "start \<le> q" for q
  proof -
    have "state_inv 0 (ex_state ex) ((ex_parser ex)\<lparr>hp_header_state := h, hp_nread := n\<rparr>)"
      using assms(6) by (simp only: state_inv_nread(1) [OF assms(7)])
    moreover have "ex_state ex \<in> mark_states m \<and> a \<le> q" if "ex_mark ex m = Some a" for m a
      using assms(8) [OF that] \<open>start \<le> q\<close> by auto
    ultimately show ?thesis using assms(1) by (simp add: exec_inv_def marks_ok_def)
  qed
  have "header_value_done buf start h ex =
      Next (?ex\<lparr>ex_p := if ex_p ex = length buf then ex_p ex - 1 else ex_p ex\<rparr>)"
    using fine by (simp add: header_value_done_def Let_def set_header_state_def on_parser_def)
  moreover have "start \<le> length buf - 1" "length buf - 1 < length buf" using assms(5) by linarith+
  ultimately show ?thesis using inv [of "ex_p ex"] inv [of "length buf - 1"] assms(2-5) by simp
qed

context lawful_settings
begin

lemma good_header_value_loop:
  assumes "value_inv (length buf) start h ex" and "ex_p ex0 = start" "start < length buf"
    and "ex_state ex0 = s_header_value"
  shows "good buf ex0 (header_value_loop st buf start h ex)"
  using assms(1)
proof (induction "length buf - ex_p ex" arbitrary: h ex rule: less_induct)
  case less
  note V = less.prems [unfolded value_inv_def]
  have mark: "(ex_mark ex)(M_header_value := None) = Map.empty"
  proof
    fix m show "((ex_mark ex)(M_header_value := None)) m = None"
      using V by (cases "ex_mark ex m") auto
  qed
  let ?ch = "buf ! ex_p ex"
  consider (stop) "ex_p ex \<ge> length buf" | (cr) "ex_p ex < length buf" "?ch = CR"
    | (lf) "ex_p ex < length buf" "?ch = LF"
    | (general) "ex_p ex < length buf" "?ch \<noteq> CR" "?ch \<noteq> LF" "h = h_general"
    | (char) "ex_p ex < length buf" "?ch \<noteq> CR" "?ch \<noteq> LF" "h \<noteq> h_general"
    by linarith
  then show ?case
  proof cases
    case stop
    with V assms(2,3) show ?thesis
      by (subst header_value_loop.simps)
        (auto intro!: good_header_value_done simp: state_inv_def chunk_states_def)
  next
    case cr
    with V assms(2,3) mark show ?thesis
      by (subst header_value_loop.simps)
        (auto simp: CALLBACK_DATA_def UPDATE_STATE_def set_header_state_def on_parser_def
          almost_done_inv intro!: good_data good_header_value_done)
  next
    case lf
    show ?thesis
    proof (cases rule: count_cases [of "ex_p ex - start"
          "UPDATE_STATE s_header_almost_done (ex\<lparr>ex_ch := ?ch\<rparr>)"])
      case (over ex')
      with lf V show ?thesis
        by (subst header_value_loop.simps) (simp add: UPDATE_STATE_def good_fail)
    next
      case (fine n)
      with lf V assms(2,4) mark show ?thesis
        by (subst header_value_loop.simps)
          (auto simp: CALLBACK_DATA_NOADVANCE_def UPDATE_STATE_def set_header_state_def
            on_parser_def rank_def exec_inv_unmarked almost_done_inv intro!: good_data)
    qed
  next
    case general
    have "value_inv (length buf) start h (ex\<lparr>ex_ch := ?ch, ex_p := skip_value buf (ex_p ex)\<rparr>)"
      using V skip_value_bound [of "ex_p ex" buf] skip_value_progress [OF general(1-3)]
      by (auto simp: value_inv_def)
    from less.hyps [OF _ this] general skip_value_progress [OF general(1-3)] show ?thesis
      by (subst header_value_loop.simps) (simp add: diff_less_mono2)
  next
    case char
    have inv: "value_inv (length buf) start h (ex\<lparr>ex_ch := ?ch\<rparr>)"
      using V by (auto simp: value_inv_def)
    show ?thesis
    proof (cases "header_value_char h (ex\<lparr>ex_ch := ?ch\<rparr>)")
      case (HV_go h' ex')
      have p: "ex_p ex' = ex_p ex" using header_value_char_p [OF HV_go] by simp
      have "value_inv (length buf) start h' (ex'\<lparr>ex_p := ex_p ex' + 1\<rparr>)"
        using header_value_char_inv [OF inv] char(1) HV_go by simp
      from less.hyps [OF _ this] p char HV_go show ?thesis
        by (subst header_value_loop.simps) simp
    next
      case (HV_fail e)
      with header_value_char_inv [OF inv] char V show ?thesis
        by (subst header_value_loop.simps)
          (simp add: error_label_def SET_ERRNO_def set_header_state_def on_parser_def RETURN_def
            Let_def parser_inv_def)
    next
      case HV_abort
      with header_value_char_inv [OF inv] char show ?thesis by simp
    qed
  qed
qed

lemma good_header_value:
  assumes "exec_inv 1 ex" and "ex_state ex = s_header_value" and "ex_p ex < length buf"
  shows "good buf ex (case_header_value st buf ex)"
proof -
  have "value_inv (length buf) (ex_p ex) (hp_header_state (ex_parser ex)) ex"
    using marked_inv [OF assms(1)] assms(2,3)
    by (auto simp: value_inv_def state_inv_def)
  then show ?thesis using assms by (simp add: case_header_value_def good_header_value_loop)
qed

lemma good_header_value_discard_lws:
  assumes "exec_inv 1 ex" and "ex_state ex = s_header_value_discard_lws" and "ex_p ex < length buf"
  shows "good buf ex (case_header_value_discard_lws st buf ex)"
  using plain_inv [of 1 ex] assms
  by (auto simp: case_header_value_discard_lws_def plain_simps CALLBACK_DATA_NOADVANCE_def MARK_def
      intro!: good_data)

end

section \<open>The end of the headers and the body\<close>

lemma message_start_inv:
  assumes "state_inv n s prs"
  shows "state_inv m (NEW_MESSAGE prs) prs"
proof -
  have "NEW_MESSAGE prs \<notin> special_states"
    by (simp add: NEW_MESSAGE_def start_state_def special_states_def chunk_states_def
        split: http_parser_type.split)
  with assms show ?thesis by (simp add: quiet_state state_inv_nums)
qed

lemma good_body_identity_eof:
  assumes "exec_inv 1 ex" and "ex_state ex = s_body_identity_eof" and "ex_p ex < length buf"
  shows "good buf ex (case_body_identity_eof buf ex)"
proof -
  have "ex_p ex \<le> length buf - 1" "length buf - 1 < length buf" using assms(3) by linarith+
  with marked_inv [OF assms(1)] assms show ?thesis
    by (auto simp: case_body_identity_eof_def MARK_def exec_inv_def marks_ok_def inv_simps
        intro: le_trans)
qed

lemma unhex_range: "unhex c \<noteq> -1 \<Longrightarrow> 0 \<le> unhex c \<and> unhex c \<le> 15"
proof -
  have "\<forall>v \<in> set unhex_tab. v = -1 \<or> 0 \<le> v \<and> v \<le> 15" by (simp add: unhex_tab_def)
  moreover assume "unhex c \<noteq> -1"
  ultimately show ?thesis by (auto simp: unhex_def dest: nth_mem split: if_splits)
qed

lemma unat_ULLONG_MAX: "unat ULLONG_MAX = 2 ^ 64 - 1"
  by (simp add: ULLONG_MAX_def unsigned_minus_1_eq_mask mask_eq_exp_minus_1)

text \<open>The overflow guard of a chunk size leaves room for one more hexadecimal digit.\<close>

lemma hex_digit_fits:
  assumes "\<not> (ULLONG_MAX - 16) div 16 < cl" and "0 \<le> d" "d \<le> 15"
  shows "unat (cl * 16 + of_int d) = unat cl * 16 + nat d"
    and "cl * 16 + of_int d \<noteq> ULLONG_MAX"
proof -
  have cl: "unat cl \<le> 2 ^ 60 - 2"
    using assms(1) by (simp add: ULLONG_MAX_def word_less_nat_alt unat_div)
  have "(of_int d :: 64 word) = of_nat (nat d)" using assms(2) by simp
  with assms(3) have d: "unat (of_int d :: 64 word) = nat d" "nat d \<le> 15"
    by (simp_all only: unat_of_nat, simp_all add: take_bit_nat_eq_self)
  have "unat (cl * 16) = unat cl * 16" using cl by (simp add: unat_word_ariths)
  with cl d show *: "unat (cl * 16 + of_int d) = unat cl * 16 + nat d"
    by (simp add: unat_word_ariths)
  show "cl * 16 + of_int d \<noteq> ULLONG_MAX"
  proof
    assume "cl * 16 + of_int d = ULLONG_MAX"
    then have "unat (cl * 16 + of_int d) = 2 ^ 64 - 1" by (simp add: unat_ULLONG_MAX)
    with * cl d(2) show False by simp
  qed
qed

lemma good_chunk_size_start:
  assumes "exec_inv 1 ex" and "ex_state ex = s_chunk_size_start" and "ex_p ex < length buf"
  shows "good buf ex (case_chunk_size_start ex)"
proof -
  have "of_int v \<noteq> ULLONG_MAX" if "0 \<le> v" "v \<le> 15" for v
    using hex_digit_fits(2) [of 0 v] that by (simp add: ULLONG_MAX_def)
  with unhex_range [of "ex_ch ex"] plain_inv [of 1 ex] assms show ?thesis
    by (simp add: case_chunk_size_start_def plain_simps assert_that_def is_chunked_def)
qed

lemma good_chunk_size:
  assumes "exec_inv 1 ex" and "ex_state ex = s_chunk_size" and "ex_p ex < length buf"
  shows "good buf ex (case_chunk_size ex)"
  using unhex_range [of "ex_ch ex"] plain_inv [of 1 ex] assms hex_digit_fits(2)
  by (simp add: case_chunk_size_def plain_simps assert_that_def is_chunked_def)

lemma good_chunk_parameters:
  assumes "exec_inv 1 ex" and "ex_state ex = s_chunk_parameters" and "ex_p ex < length buf"
  shows "good buf ex (case_chunk_parameters ex)"
  using plain_inv [of 1 ex] assms
  by (simp add: case_chunk_parameters_def plain_simps assert_that_def is_chunked_def)

text \<open>Reading a part of a body: at least one byte, and never past the end of the input.\<close>

lemma to_read_bounds:
  assumes "hp_content_length (ex_parser ex) \<noteq> 0" and "ex_p ex < length buf" and "length buf < 2 ^ 64"
  shows "unat (to_read buf ex) = min (unat (hp_content_length (ex_parser ex))) (length buf - ex_p ex)"
    and "0 < unat (to_read buf ex)" and "to_read buf ex \<le> hp_content_length (ex_parser ex)"
proof -
  have "unat (of_nat (length buf - ex_p ex) :: 64 word) = length buf - ex_p ex"
    using assms(3) by (simp add: unat_of_nat take_bit_nat_eq_self)
  then show *: "unat (to_read buf ex) =
      min (unat (hp_content_length (ex_parser ex))) (length buf - ex_p ex)"
    by (simp add: to_read_def min_def word_le_nat_alt)
  with assms(1,2) show "0 < unat (to_read buf ex)" by (simp add: unat_gt_0)
  from * show "to_read buf ex \<le> hp_content_length (ex_parser ex)"
    by (simp add: word_le_nat_alt)
qed

lemma read_body_inv:
  assumes "exec_inv n ex" and "ex_state ex \<in> {s_body_identity, s_chunk_data}"
    and "ex_p ex < length buf" and "length buf < 2 ^ 64"
  obtains w q mk where
    "read_body buf ex = ex\<lparr>ex_parser := (ex_parser ex)\<lparr>hp_content_length := w\<rparr>, ex_mark := mk, ex_p := q\<rparr>"
    "w \<noteq> ULLONG_MAX" "ex_p ex \<le> q" "q < length buf"
    "mk(M_body := None) = Map.empty" "\<And>m a. mk m = Some a \<Longrightarrow> m = M_body \<and> a \<le> ex_p ex"
proof -
  note I = marked_inv [OF assms(1)]
  let ?cl = "hp_content_length (ex_parser ex)"
  have cl: "?cl \<noteq> 0" "?cl \<noteq> ULLONG_MAX" using I(2) assms(2) by (auto simp: state_inv_def)
  note R = to_read_bounds [OF cl(1) assms(3,4)]
  have "?cl - to_read buf ex \<le> ?cl" using R(3) by (simp add: word_sub_le)
  with cl(2) have w: "?cl - to_read buf ex \<noteq> ULLONG_MAX"
    by (auto simp: ULLONG_MAX_def word_order.extremum_unique)
  have body: "ex_state ex \<in> mark_states M_body" using assms(2) by (auto simp: mark_states_def)
  define mk where "mk = ex_mark (MARK M_body ex)"
  have marks: "m = M_body \<and> a \<le> ex_p ex" if "ex_mark ex m = Some a" for m a
    using I(3) [OF that] mark_states_disjoint [OF body, of m] by auto
  then have "m = M_body \<and> a \<le> ex_p ex" if "mk m = Some a" for m a
    using that by (auto simp: mk_def MARK_def split: if_splits)
  moreover have "mk(M_body := None) = Map.empty"
    using only_mark [OF assms(1) body] by (auto simp: mk_def MARK_def)
  moreover have "read_body buf ex = ex\<lparr>ex_parser := (ex_parser ex)\<lparr>hp_content_length := ?cl - to_read buf ex\<rparr>,
      ex_mark := mk, ex_p := ex_p ex + unat (to_read buf ex) - 1\<rparr>"
    by (simp add: read_body_def Let_def on_parser_def mk_def MARK_def)
  ultimately show ?thesis using R(1,2) assms(3) w
    by (intro that [where w = "?cl - to_read buf ex" and mk = mk
          and q = "ex_p ex + unat (to_read buf ex) - 1"]) auto
qed

lemma good_chunk_data:
  assumes "exec_inv 1 ex" and "ex_state ex = s_chunk_data" and "ex_p ex < length buf"
    and "length buf < 2 ^ 64"
  shows "good buf ex (case_chunk_data buf ex)"
proof -
  note I = marked_inv [OF assms(1)]
  have body: "ex_state ex \<in> {s_body_identity, s_chunk_data}" using assms(2) by simp
  obtain w q mk where R:
    "read_body buf ex = ex\<lparr>ex_parser := (ex_parser ex)\<lparr>hp_content_length := w\<rparr>, ex_mark := mk, ex_p := q\<rparr>"
    "w \<noteq> ULLONG_MAX" "ex_p ex \<le> q" "q < length buf" "mk(M_body := None) = Map.empty"
    "\<And>m a. mk m = Some a \<Longrightarrow> m = M_body \<and> a \<le> ex_p ex"
    by (rule read_body_inv [OF assms(1) body assms(3,4)]) (rule that)
  have marks: "marks_ok (ex\<lparr>ex_parser := prs, ex_mark := mk, ex_p := q, ex_state := s\<rparr>)"
    if "s \<in> {s_chunk_data, s_chunk_data_almost_done}" for prs s
    unfolding marks_ok_def using R(3,6) that by (fastforce simp: mark_states_def)
  have "marks_ok (ex\<lparr>ex_parser := prs, ex_mark := mk, ex_p := q\<rparr>)" for prs
    unfolding marks_ok_def using R(3,6) assms(2) by (fastforce simp: mark_states_def)
  with marks I(1,2) R(1-4) assms show ?thesis
    by (simp add: case_chunk_data_def assert_that_def is_chunked_def body_length_ok_def Let_def
        UPDATE_STATE_def exec_inv_def state_inv_def chunk_states_def)
qed

context lawful_settings
begin

lemma good_body_identity:
  assumes "exec_inv 1 ex" and "ex_state ex = s_body_identity" and "ex_p ex < length buf"
    and "length buf < 2 ^ 64"
  shows "good buf ex (case_body_identity st buf ex)"
proof -
  note I = marked_inv [OF assms(1)]
  have body: "ex_state ex \<in> {s_body_identity, s_chunk_data}" using assms(2) by simp
  obtain w q mk where R:
    "read_body buf ex = ex\<lparr>ex_parser := (ex_parser ex)\<lparr>hp_content_length := w\<rparr>, ex_mark := mk, ex_p := q\<rparr>"
    "w \<noteq> ULLONG_MAX" "ex_p ex \<le> q" "q < length buf" "mk(M_body := None) = Map.empty"
    "\<And>m a. mk m = Some a \<Longrightarrow> m = M_body \<and> a \<le> ex_p ex"
    by (rule read_body_inv [OF assms(1) body assms(3,4)]) (rule that)
  have marks: "marks_ok (ex\<lparr>ex_parser := prs, ex_mark := mk, ex_p := q\<rparr>)" for prs
    unfolding marks_ok_def using R(3,6) assms(2) by (fastforce simp: mark_states_def)
  have ok: "body_length_ok ex" using I(2) assms(2) by (simp add: body_length_ok_def state_inv_def)
  show ?thesis
  proof (cases "w = 0")
    case True
    with R(1-5) I(1,2) ok assms(2) show ?thesis
      by (simp add: case_body_identity_def assert_that_def UPDATE_STATE_def good_data
          exec_inv_unmarked inv_simps)
  next
    case False
    with R(1-4) I(1,2) ok assms(2) marks show ?thesis
      by (simp add: case_body_identity_def assert_that_def exec_inv_def state_inv_def
          chunk_states_def)
  qed
qed

lemma good_message_complete:
  assumes "hp_http_errno (ex_parser ex) = HPE_OK" and "state_inv n (ex_state ex) (ex_parser ex)"
    and "ex_p ex < length buf"
    and "\<And>s d. good buf ex0 (k (ex\<lparr>ex_state := NEW_MESSAGE (ex_parser ex),
           ex_parser := (ex_parser ex)\<lparr>hp_state := s, hp_data := d\<rparr>\<rparr>))"
  shows "good buf ex0 (seq (message_complete st ex) k)"
  unfolding message_complete_def CALLBACK_NOTIFY_def
  using assms message_start_inv [OF assms(2), of 0]
  by (intro good_notify) (simp_all add: UPDATE_STATE_def)

lemma good_message_done:
  assumes "exec_inv 1 ex" and "ex_state ex = s_message_done" and "ex_p ex < length buf"
  shows "good buf ex (case_message_done st ex)"
proof -
  have "ex_state ex \<in> plain_states" using assms(2) by (simp add: inv_simps)
  note I = plain_inv [OF assms(1) this]
  note M = message_start_inv [OF I(3), of 0]
  show ?thesis
    unfolding case_message_done_def
    by (rule good_message_complete [OF I(2,3) assms(3)])
      (use I M assms(3) in \<open>simp add: RETURN_def parser_inv_def exec_inv_unmarked\<close>)
qed

lemma good_headers_done:
  assumes "exec_inv 1 ex" and "ex_state ex = s_headers_done" and "ex_p ex < length buf"
  shows "good buf ex (case_headers_done st ex)"
proof -
  have plain: "ex_state ex \<in> plain_states" using assms(2) by (simp add: inv_simps)
  note I = plain_inv [OF assms(1) plain]
  define ex1 where "ex1 = ex\<lparr>ex_parser := (ex_parser ex)\<lparr>hp_nread := 0\<rparr>\<rparr>"
  have I1: "hp_http_errno (ex_parser ex1) = HPE_OK" "state_inv 0 (ex_state ex1) (ex_parser ex1)"
    "ex_mark ex1 = Map.empty" "ex_p ex1 = ex_p ex" "hp_nread (ex_parser ex1) = 0"
    using I assms(2) by (simp_all add: ex1_def state_inv_def chunk_states_def)
  note M = message_start_inv [OF I1(2), of 0]
  have ret: "good buf ex (seq (message_complete st ex1) (\<lambda>ex. RETURN (ex_p ex + 1) ex))"
    if "hp_upgrade (ex_parser ex)"
  proof -
    have "hp_upgrade (ex_parser ex1)" using that by (simp add: ex1_def)
    with I1 M assms(3) show ?thesis
      by (intro good_message_complete [OF I1(1,2)]) (simp_all add: RETURN_def parser_inv_def)
  qed
  have cont: "good buf ex (message_complete st ex1)"
    by (rule good_message_complete [OF I1(1,2), where k = Next, simplified])
      (use I1 M assms(3) in \<open>simp_all add: exec_inv_unmarked\<close>)
  show ?thesis
    unfolding case_headers_done_def on_parser_def ex1_def [symmetric]
    using ret cont I1 assms state_inv_nums [OF I1(2)]
    by (simp add: STRICT_CHECK_def good_fail Let_def UPDATE_STATE_def exec_inv_unmarked
        state_inv_def chunk_states_def flip: ex1_def)
qed

lemma good_headers_almost_done:
  assumes "exec_inv 1 ex" and "ex_state ex = s_headers_almost_done" and "ex_p ex < length buf"
  shows "good buf ex (case_headers_almost_done st ex)"
proof (cases "ex_ch ex = LF \<and> \<not> has_flag (hp_flags (ex_parser ex)) F_TRAILING")
  case False
  with plain_inv [of 1 ex] assms show ?thesis
    by (auto simp: case_headers_almost_done_def STRICT_CHECK_def plain_simps
        CALLBACK_NOTIFY_NOADVANCE_def intro!: good_notify)
next
  case True
  have plain: "ex_state ex \<in> plain_states" using assms(2) by (simp add: inv_simps)
  note I = plain_inv [OF assms(1) plain]
  note nums = state_inv_nums [OF I(3)]
  show ?thesis
  proof (cases "on_headers_complete st")
    case None
    with True I nums assms show ?thesis
      by (simp add: case_headers_almost_done_def STRICT_CHECK_def headers_complete_def plain_simps)
  next
    case (Some f)
    let ?prs = "(ex_parser ex)\<lparr>hp_upgrade := upgrade_requested (ex_parser ex)\<rparr>"
    obtain rc prs' where f: "f ?prs = (rc, prs')" by (cases "f ?prs")
    have "cb_frame ?prs prs'" using f Some notify_frame notify_cbsI(2) by metis
    then obtain d e where "prs' = ?prs\<lparr>hp_data := d, hp_http_errno := e\<rparr>"
      by (auto simp: cb_frame_def)
    with f Some True I nums assms show ?thesis
      by (simp add: case_headers_almost_done_def STRICT_CHECK_def headers_complete_def plain_simps
          RETURN_def SET_ERRNO_def add_flag_def parser_inv_def)
  qed
qed

lemma good_chunk_size_almost_done:
  assumes "exec_inv 1 ex" and "ex_state ex = s_chunk_size_almost_done" and "ex_p ex < length buf"
  shows "good buf ex (case_chunk_size_almost_done st ex)"
  using plain_inv [of 1 ex] assms
  by (simp add: case_chunk_size_almost_done_def STRICT_CHECK_def assert_that_def is_chunked_def
      plain_simps add_flag_def notify_simps)

lemma good_chunk_data_almost_done:
  assumes "exec_inv 1 ex" and "ex_state ex = s_chunk_data_almost_done" and "ex_p ex < length buf"
  shows "good buf ex (case_chunk_data_almost_done st buf ex)"
proof -
  have "(ex_mark ex)(M_body := None) = Map.empty"
    using only_mark [OF assms(1)] assms(2) by (simp add: mark_states_def)
  with marked_inv(1,2) [OF assms(1)] assms show ?thesis
    by (simp add: case_chunk_data_almost_done_def STRICT_CHECK_def assert_that_def is_chunked_def
        plain_simps data_simps)
qed

lemma good_chunk_data_done:
  assumes "exec_inv 1 ex" and "ex_state ex = s_chunk_data_done" and "ex_p ex < length buf"
  shows "good buf ex (case_chunk_data_done st ex)"
  using plain_inv [of 1 ex] assms
  by (simp add: case_chunk_data_done_def STRICT_CHECK_def assert_that_def is_chunked_def
      plain_simps notify_simps)

section \<open>The switch\<close>

lemma good_expect_quiet:
  assumes "exec_inv 1 ex" and "ex_state ex \<in> plain_states" and "ex_p ex < length buf"
    and "s \<notin> special_states"
  shows "good buf ex (case_expect c s ex)"
  using good_expect [OF assms(1-3), of s c] assms(4) by (auto simp: quiet_state dest: state_inv_nums)

lemma good_dispatch:
  assumes "exec_inv 1 ex" and "ex_p ex < length buf" and "length buf < 2 ^ 64"
  shows "good buf ex (dispatch st buf ex)"
proof -
  note G = good_dead good_start_req_or_res good_res_or_resp_H good_start_res
    good_res_first_http_major good_res_http_major good_res_first_http_minor good_res_http_minor
    good_res_first_status_code good_res_status_code good_res_status_start good_res_status
    good_start_req good_req_method good_req_spaces_before_url good_req_url_start good_req_url
    good_req_http_start good_req_first_http_major good_req_http_major good_req_first_http_minor
    good_req_http_minor good_req_line_almost_done good_header_field_start good_header_field
    good_header_value_discard_ws good_header_value_start good_header_value good_header_value_lws
    good_header_value_discard_lws good_headers_almost_done good_headers_done good_body_identity
    good_body_identity_eof good_message_done good_chunk_size_start good_chunk_size
    good_chunk_parameters good_chunk_size_almost_done good_chunk_data good_chunk_data_almost_done
    good_chunk_data_done good_expect_quiet
  show ?thesis
    using assms
    by (cases "ex_state ex")
      (simp_all add: dispatch_def G plain_states_iff mark_states_def quiet_state special_states_def
        chunk_states_def)
qed

section \<open>The end of the input\<close>

lemma marks_set_one:
  assumes "exec_inv n ex"
  shows "marks_set ex \<le> 1"
proof -
  have one: "length (filter P xs) \<le> 1" if "\<And>x y. P x \<Longrightarrow> P y \<Longrightarrow> x = y" "distinct xs"
    for P and xs :: "mark list"
  proof -
    have "x = y" if "x \<in> set (filter P xs)" "y \<in> set (filter P xs)" for x y
      using that \<open>\<And>x y. P x \<Longrightarrow> P y \<Longrightarrow> x = y\<close> by auto
    moreover have "distinct (filter P xs)" using that(2) by simp
    ultimately show ?thesis
      by (metis One_nat_def card_le_Suc0_iff_eq distinct_card finite_set)
  qed
  have uniq: "m = m'" if "ex_mark ex m \<noteq> None" "ex_mark ex m' \<noteq> None" for m m'
    using that assms mark_states_disjoint [of "ex_state ex" m m']
    by (auto simp: exec_inv_def marks_ok_def)
  show ?thesis unfolding marks_set_def by (rule one) (use uniq in auto)
qed

lemma finished_data:
  assumes "exec_inv 0 ex" and "ex_p ex = length buf"
    and "\<And>ex'. exec_inv 0 ex' \<Longrightarrow> ex_p ex' = length buf \<Longrightarrow> finished buf (k ex')"
  shows "finished buf (seq (CALLBACK_DATA_NOADVANCE st buf m ex) k)"
proof -
  note I = marked_inv [OF assms(1)]
  show ?thesis
    unfolding CALLBACK_DATA_NOADVANCE_def
  proof (rule data_cases [OF I(1), of buf m "ex_p ex" "ex_p ex"], goal_cases)
    case (1 s d)
    let ?ex' = "ex\<lparr>ex_parser := (ex_parser ex)\<lparr>hp_state := s, hp_data := d\<rparr>,
      ex_mark := (ex_mark ex)(m := None)\<rparr>"
    have "exec_inv 0 ?ex'" using assms(1) by (auto simp: exec_inv_def marks_ok_def)
    from assms(3) [OF this] 1 assms(2) show ?case by simp
  next
    case (2 e' d)
    with I(2) assms(2) show ?case by (simp add: parser_inv_def)
  qed
qed

lemma seq_assoc: "seq (seq out f) g = seq out (\<lambda>ex. seq (f ex) g)"
  by (cases out) simp_all

lemma finish_ok:
  assumes "exec_inv 0 ex" and "ex_p ex = length buf"
  shows "finished buf (finish st buf ex)"
proof -
  have ret: "finished buf (RETURN (length buf) ex')" if "exec_inv 0 ex'" for ex' :: "'u exec"
    using that by (simp add: RETURN_def parser_inv_def exec_inv_def)
  show ?thesis
    unfolding finish_def seq_assoc
    using marks_set_one [OF assms(1)] assms ret
    by (simp add: assert_that_def finished_data)
qed

section \<open>The loops\<close>

text \<open>Counting the byte just read turns the invariant of the loop into that of the switch.\<close>

lemma read_char_inv:
  assumes "exec_inv 0 ex" and "ex_p ex < length buf"
  shows "(case read_char buf ex of
      Next ex' \<Rightarrow> exec_inv 1 ex' \<and> ex_p ex' = ex_p ex \<and> ex_state ex' = ex_state ex
    | Ret n prs \<Rightarrow> finished buf (Ret n prs) | _ \<Rightarrow> False)"
proof (cases "PARSING_HEADER (ex_state ex)")
  case False
  then have "ex_state ex \<noteq> s_chunk_size_start" by (auto simp: PARSING_HEADER_def less_eq_state_def)
  from exec_inv_weaken [OF assms(1) this, of 1] False show ?thesis
    by (simp add: read_char_def exec_inv_def)
next
  case True
  let ?n = "hp_nread (ex_parser ex) + 1"
  have "state_inv 1 (ex_state ex) ((ex_parser ex)\<lparr>hp_nread := ?n\<rparr>)"
    using assms(1) by (auto simp: exec_inv_def state_inv_def)
  with True assms show ?thesis
    by (simp add: read_char_def COUNT_HEADER_SIZE_def on_parser_def Let_def exec_inv_def
        fail_def error_label_def SET_ERRNO_def RETURN_def parser_inv_def)
qed

lemma loop_ok:
  assumes "length buf < 2 ^ 64"
  shows "exec_inv 0 ex \<Longrightarrow> ex_p ex \<le> length buf \<Longrightarrow> 6 * (length buf - ex_p ex) + 1 \<le> k \<Longrightarrow>
      result_ok buf (exec_loop k st buf ex)"
    and "exec_inv 1 ex \<Longrightarrow> ex_p ex < length buf \<Longrightarrow>
      6 * (length buf - ex_p ex - 1) + 1 + rank (ex_state ex) \<le> k \<Longrightarrow>
      result_ok buf (exec_switch k st buf ex)"
proof (induction k arbitrary: ex)
  case 0
  case 1 then show ?case by simp
next
  case 0
  case 2 then show ?case by simp
next
  case (Suc k)
  case 1
  show ?case
  proof (cases "ex_p ex = length buf")
    case True
    with finish_ok [OF "1"(1), of buf] show ?thesis by (cases "finish st buf ex") simp_all
  next
    case False
    with 1 have p: "ex_p ex < length buf" by simp
    note R = read_char_inv [OF "1"(1) p]
    show ?thesis
    proof (cases "read_char buf ex")
      case (Next ex')
      with R have "exec_inv 1 ex'" "ex_p ex' = ex_p ex" by auto
      moreover have "6 * (length buf - ex_p ex - 1) + 1 + rank (ex_state ex') \<le> k"
        using rank_bounds(2) [of "ex_state ex'"] "1"(3) p by linarith
      ultimately have "result_ok buf (exec_switch k st buf ex')" using p Suc.IH(2) [of ex'] by simp
      with Next False show ?thesis by simp
    qed (use R False in simp_all)
  qed
next
  case (Suc k)
  case 2
  note G = good_dispatch [OF "2"(1,2) assms]
  show ?case
  proof (cases "dispatch st buf ex")
    case (Next ex')
    let ?ex = "ex'\<lparr>ex_p := ex_p ex' + 1\<rparr>"
    have n: "ex_p ex \<le> ex_p ex'" "ex_p ex' < length buf" "exec_inv 0 ex'" using G Next by auto
    have "exec_inv 0 ?ex" using n(3) by (auto simp: exec_inv_def marks_ok_def intro: le_SucI)
    moreover have "6 * (length buf - ex_p ?ex) + 1 \<le> k"
      using n(1) rank_bounds(1) [of "ex_state ex"] "2"(3) by simp
    ultimately show ?thesis using n(2) Next Suc.IH(1) [of ?ex] by simp
  next
    case (Again ex')
    have n: "ex_p ex \<le> ex_p ex'" "ex_p ex' < length buf" "exec_inv 1 ex'"
      "rank (ex_state ex') < rank (ex_state ex)" using G Again by auto
    have "6 * (length buf - ex_p ex' - 1) + 1 + rank (ex_state ex') \<le> k"
      using n(1,4) "2"(3) by linarith
    with n Again Suc.IH(2) [of ex'] show ?thesis by simp
  qed (use G in auto)
qed

lemma initial_inv:
  assumes "parser_inv prs" and "hp_http_errno prs = HPE_OK"
  shows "exec_inv 0 (initial_exec prs)"
  using assms
  by (cases "hp_state prs")
    (auto simp: initial_exec_def initial_marks_def exec_inv_def marks_ok_def parser_inv_def
      mark_states_def)

theorem execute_ok:
  assumes "parser_inv prs" and "hp_http_errno prs = HPE_OK" and "buf \<noteq> []"
    and "length buf < 2 ^ 64"
  shows "result_ok buf (http_parser_execute prs st buf)"
  using loop_ok(1) [OF assms(4) initial_inv [OF assms(1,2)], of "exec_fuel buf"] assms(2,3)
  by (simp add: http_parser_execute_def exec_fuel_def initial_exec_def)

end

lemma parser_inv_init: "parser_inv (http_parser_init prs t)"
  by (cases t) (simp_all add: parser_inv_def http_parser_init_def state_inv_def chunk_states_def)

section \<open>Safety of the parser\<close>

text \<open>
  C1. For callbacks that change nothing but their own data and the error number
  (a pause included), a parser that satisfies its invariant, and every non-empty
  input of a length that fits \<open>size_t\<close>, \<open>http_parser_execute\<close> returns: the loops
  end, no assertion fails and no method name is read behind its end. It reports
  at most the bytes given, all of them unless it stopped with an error or for an
  upgrade, and leaves a parser that satisfies the invariant again.
\<close>

theorem http_parser_execute_safe:
  assumes "lawful_settings st" and "parser_inv prs" and "hp_http_errno prs = HPE_OK"
    and "buf \<noteq> []" and "length buf < 2 ^ 64"
  shows "\<exists>n prs'. http_parser_execute prs st buf = Returned n prs' \<and> n \<le> length buf \<and>
    parser_inv prs' \<and> (hp_http_errno prs' = HPE_OK \<longrightarrow> hp_upgrade prs' \<or> n = length buf)"
  using lawful_settings.execute_ok [OF assms]
  by (cases "http_parser_execute prs st buf") auto

text \<open>The witness: callbacks that collect the URL and pause at the end of the headers.\<close>

definition collect_url :: "string http_data_cb" where
  "collect_url prs bs = (0, prs\<lparr>hp_data := hp_data prs @ bs\<rparr>)"

definition pause_cb :: "string http_cb" where
  "pause_cb prs = (0, prs\<lparr>hp_http_errno := HPE_PAUSED\<rparr>)"

definition sample_settings :: "string http_parser_settings" where
  "sample_settings = http_parser_settings_init\<lparr>on_url := Some collect_url,
     on_message_complete := Some pause_cb\<rparr>"

interpretation sample: lawful_settings sample_settings
proof (unfold_locales, goal_cases)
  case (1 f prs rc prs')
  then show ?case
    by (auto simp: notify_cbs_def sample_settings_def http_parser_settings_init_def pause_cb_def
        cb_frame_def)
next
  case (2 m g prs bs rc prs')
  then show ?case
    by (cases m) (auto simp: data_cb_def sample_settings_def http_parser_settings_init_def
        collect_url_def cb_frame_def)
qed

definition sample_parser :: "string http_parser" where
  "sample_parser =
     http_parser_init
       \<lparr>hp_type = HTTP_BOTH, hp_flags = 0, hp_state = s_dead, hp_header_state = h_general,
        hp_index = 0, hp_nread = 0, hp_content_length = 0, hp_http_major = 0, hp_http_minor = 0,
        hp_status_code = 0, hp_method = HTTP_GET, hp_http_errno = HPE_OK, hp_upgrade = False,
        hp_data = []\<rparr> HTTP_REQUEST"

theorem http_parser_execute_safe_witness:
  "\<exists>n prs'. http_parser_execute sample_parser sample_settings ''GET /a HTTP/1.1 '' = Returned n prs' \<and>
     n \<le> 16 \<and> parser_inv prs'"
proof -
  have "parser_inv sample_parser" "hp_http_errno sample_parser = HPE_OK"
    by (simp_all add: sample_parser_def parser_inv_init) (simp add: http_parser_init_def)
  from http_parser_execute_safe [OF sample.lawful_settings_axioms this,
      of "''GET /a HTTP/1.1 ''"] show ?thesis by auto
qed

end
