(* ===== verification/Websocket_Format.thy ===== *)
theory Websocket_Format
  imports Brynet_Prelude
begin

text \<open>
  The WebSocket frame codec of \<open>net/http/WebSocketFormat.h\<close>. Building a frame and
  extracting one are modelled with their 32-bit and 64-bit lengths; every read
  of the input buffer is checked, an access outside it is \<open>None\<close>. A locale states
  what a stream reader needs of a codec: frames can be read back with anything
  behind them, and no proper prefix of a frame is taken for a frame.
\<close>

section \<open>Frame types\<close>

type_synonym ws_frame_type = int

definition ERROR_FRAME :: ws_frame_type where "ERROR_FRAME = 0xff"
definition CONTINUATION_FRAME :: ws_frame_type where "CONTINUATION_FRAME = 0x00"
definition TEXT_FRAME :: ws_frame_type where "TEXT_FRAME = 0x01"
definition BINARY_FRAME :: ws_frame_type where "BINARY_FRAME = 0x02"
definition CLOSE_FRAME :: ws_frame_type where "CLOSE_FRAME = 0x08"
definition PING_FRAME :: ws_frame_type where "PING_FRAME = 0x09"
definition PONG_FRAME :: ws_frame_type where "PONG_FRAME = 0x0A"

section \<open>Building\<close>

text \<open>The masking loop from index \<open>j\<close> of the payload on.\<close>

fun mask_from :: "byte list \<Rightarrow> nat \<Rightarrow> byte list \<Rightarrow> byte list" where
  "mask_from key j [] = []"
| "mask_from key j (b # bs) = (b XOR key ! (j mod 4)) # mask_from key (Suc j) bs"

definition length_bytes :: "size_t \<Rightarrow> byte list" where
  "length_bytes payloadLen =
     (if payloadLen \<le> 125 then [ucast payloadLen]
      else if payloadLen \<le> 0xFFFF
      then [126, ucast (drop_bit 8 (payloadLen AND 0xFF00)), ucast (payloadLen AND 0x00FF)]
      else [127, 0x00, 0x00, 0x00, 0x00,
            ucast (drop_bit 24 (payloadLen AND 0xFF000000)),
            ucast (drop_bit 16 (payloadLen AND 0x00FF0000)),
            ucast (drop_bit 8 (payloadLen AND 0x0000FF00)),
            ucast (payloadLen AND 0x000000FF)])"

text \<open>The four results of \<open>rand()\<close> that make the mask are an argument.\<close>

definition wsFrameBuild ::
    "byte list \<Rightarrow> byte list \<Rightarrow> ws_frame_type \<Rightarrow> bool \<Rightarrow> bool \<Rightarrow> byte list" where
  "wsFrameBuild rnd payload frame_type isFin masking =
     (let head = (of_int frame_type :: byte) OR (if isFin then 0x80 else 0x00);
          frame = head # length_bytes (of_nat (length payload))
      in if masking
         then frame[1 := frame ! 1 OR 0x80] @ take 4 rnd @ mask_from (take 4 rnd) 0 payload
         else frame @ payload)"

section \<open>Extracting\<close>

text \<open>The output parameters of the C++ function.\<close>

record ws_out =
  ws_payload :: "byte list"
  ws_opcode :: ws_frame_type
  ws_frameSize :: nat
  ws_fin :: bool

definition byte_at :: "byte list \<Rightarrow> nat \<Rightarrow> byte option" where
  "byte_at buf i = (if i < length buf then Some (buf ! i) else None)"

text \<open>
  The extended length: its value and the position behind it; the inner \<open>None\<close> is
  the early return of \<open>false\<close>.
\<close>

definition extract_length :: "byte list \<Rightarrow> 32 word \<Rightarrow> (32 word \<times> 32 word) option option" where
  "extract_length buf payloadlen =
     (if payloadlen = 126 then
        if length buf < 4 then Some None
        else do {
          b2 \<leftarrow> byte_at buf 2; b3 \<leftarrow> byte_at buf 3;
          Some (Some (push_bit 8 (ucast b2) + ucast b3, 4))
        }
      else if payloadlen = 127 then
        if length buf < 10 then Some None
        else do {
          b2 \<leftarrow> byte_at buf 2; b3 \<leftarrow> byte_at buf 3; b4 \<leftarrow> byte_at buf 4; b5 \<leftarrow> byte_at buf 5;
          b6 \<leftarrow> byte_at buf 6; b7 \<leftarrow> byte_at buf 7; b8 \<leftarrow> byte_at buf 8; b9 \<leftarrow> byte_at buf 9;
          if b2 \<noteq> 0 \<or> b3 \<noteq> 0 \<or> b4 \<noteq> 0 \<or> b5 \<noteq> 0 then Some None
          else if b6 AND 0x80 \<noteq> 0 then Some None
          else Some (Some (push_bit 24 (ucast b6) + push_bit 16 (ucast b7) + push_bit 8 (ucast b8) +
                           ucast b9, 10))
        }
      else Some (Some (payloadlen, 2)))"

definition wsFrameExtractBuffer :: "byte list \<Rightarrow> ws_out \<Rightarrow> (bool \<times> ws_out) option" where
  "wsFrameExtractBuffer buf out =
     (if length buf < 2 then Some (False, out)
      else do {
        b0 \<leftarrow> byte_at buf 0; b1 \<leftarrow> byte_at buf 1;
        let out = out\<lparr>ws_fin := b0 AND 0x80 \<noteq> 0, ws_opcode := uint (b0 AND 0x0F)\<rparr>;
        let isMasking = (b1 AND 0x80 \<noteq> 0);
        len \<leftarrow> extract_length buf (ucast (b1 AND 0x7F));
        case len of
          None \<Rightarrow> Some (False, out)
        | Some (payloadlen, pos) \<Rightarrow>
            if isMasking \<and> length buf < unat (pos + 4) then Some (False, out)
            else do {
              key \<leftarrow> (if isMasking then mem_read buf (unat pos) 4 else Some []);
              let pos = (if isMasking then pos + 4 else pos);
              if length buf < unat (pos + payloadlen) then Some (False, out)
              else do {
                bs \<leftarrow> mem_read buf (unat pos) (unat payloadlen);
                Some (True, out\<lparr>ws_payload := ws_payload out @ (if isMasking then mask_from key 0 bs else bs),
                                ws_frameSize := unat (payloadlen + pos)\<rparr>)
              }
            }
      })"

section \<open>Lengths\<close>

lemma mask_from_length [simp]: "length (mask_from key j bs) = length bs"
  by (induction bs arbitrary: j) simp_all

lemma mask_from_twice: "mask_from key j (mask_from key j bs) = bs"
  by (induction bs arbitrary: j) (simp_all add: xor.assoc)

lemma mask_from_take: "take n (mask_from key j bs) = mask_from key j (take n bs)"
  by (induction bs arbitrary: j n) (auto simp: take_Cons split: nat.split)

text \<open>The bytes of a length, as numbers.\<close>

lemma length_byte:
  assumes "n < 2 ^ 64"
  shows "ucast (drop_bit k (of_nat n AND push_bit k 0xFF) :: size_t) = (of_nat (n div 2 ^ k) :: byte)"
proof -
  have "(ucast (drop_bit k (of_nat n AND push_bit k 0xFF) :: size_t) :: byte) =
      ucast (drop_bit k (of_nat n :: size_t))"
  proof -
    have m: "(0xFF :: size_t) = mask 8" by (simp add: mask_eq_exp_minus_1)
    show ?thesis unfolding m by (rule bit_word_eqI) (auto simp: bit_simps)
  qed
  also have "\<dots> = of_nat (unat (drop_bit k (of_nat n :: size_t)))" by simp
  also have "unat (drop_bit k (of_nat n :: size_t)) = n div 2 ^ k"
  proof -
    have "unat (of_nat n :: size_t) = n" "take_bit 64 n = n"
      using assms by (simp_all add: unat_of_nat take_bit_nat_eq_self)
    moreover have "unat (drop_bit k (of_nat n :: size_t)) =
        drop_bit k (take_bit LENGTH(64) (unat (of_nat n :: size_t)))"
      by (rule unsigned_drop_bit_eq)
    ultimately show ?thesis by (simp add: drop_bit_eq_div)
  qed
  finally show ?thesis .
qed

lemma length_bytes_nat:
  assumes "n < 2 ^ 64"
  shows "length_bytes (of_nat n) =
    (if n \<le> 125 then [of_nat n]
     else if n \<le> 0xFFFF then [126, of_nat (n div 2 ^ 8), of_nat n]
     else [127, 0, 0, 0, 0, of_nat (n div 2 ^ 24), of_nat (n div 2 ^ 16), of_nat (n div 2 ^ 8), of_nat n])"
proof -
  have n: "unat (of_nat n :: size_t) = n" using assms by (simp add: unat_of_nat take_bit_nat_eq_self)
  have b: "ucast (of_nat n AND 0xFF :: size_t) = (of_nat n :: byte)"
    "ucast (drop_bit 8 (of_nat n AND 0xFF00) :: size_t) = (of_nat (n div 2 ^ 8) :: byte)"
    "ucast (drop_bit 16 (of_nat n AND 0xFF0000) :: size_t) = (of_nat (n div 2 ^ 16) :: byte)"
    "ucast (drop_bit 24 (of_nat n AND 0xFF000000) :: size_t) = (of_nat (n div 2 ^ 24) :: byte)"
    using length_byte [OF assms, of 0] length_byte [OF assms, of 8] length_byte [OF assms, of 16]
      length_byte [OF assms, of 24] by simp_all
  have "ucast (of_nat n :: size_t) = (of_nat n :: byte)"
    using n by (metis of_nat_unat)
  with b n show ?thesis by (simp add: length_bytes_def word_le_nat_alt)
qed

text \<open>The two ways to put a length together again.\<close>

lemma byte_word: "ucast (of_nat m :: byte) = (of_nat (m mod 256) :: 32 word)"
proof -
  have "unat (of_nat m :: byte) = m mod 256" by (simp add: unat_of_nat take_bit_eq_mod)
  then show ?thesis by (metis of_nat_unat)
qed

lemma shift_byte:
  "push_bit k (of_nat m :: 32 word) = of_nat (m * 2 ^ k)"
  by (simp add: push_bit_eq_mult)

lemma join_16:
  assumes "n \<le> 0xFFFF"
  shows "push_bit 8 (ucast (of_nat (n div 2 ^ 8) :: byte)) + ucast (of_nat n :: byte) = (of_nat n :: 32 word)"
proof -
  have "n div 2 ^ 8 mod 256 = n div 2 ^ 8" using assms by simp
  then have "(n div 2 ^ 8 mod 256) * 2 ^ 8 + n mod 256 = n" by (simp add: div_mult_mod_eq)
  then show ?thesis by (simp only: byte_word shift_byte flip: of_nat_add)
qed

lemma horner_256:
  "q2 = q3 * 256 + m2 \<Longrightarrow> q1 = q2 * 256 + m1 \<Longrightarrow> n = q1 * 256 + m0 \<Longrightarrow>
   q3 * 2 ^ 24 + m2 * 2 ^ 16 + m1 * 2 ^ 8 + m0 = (n :: nat)"
  by simp

lemma join_32:
  assumes "n < 2 ^ 32"
  shows "push_bit 24 (ucast (of_nat (n div 2 ^ 24) :: byte)) + push_bit 16 (ucast (of_nat (n div 2 ^ 16) :: byte)) +
    push_bit 8 (ucast (of_nat (n div 2 ^ 8) :: byte)) + ucast (of_nat n :: byte) = (of_nat n :: 32 word)"
proof -
  have top: "n div 2 ^ 24 mod 256 = n div 2 ^ 24" using assms by simp
  have "n div 2 ^ 16 = n div 2 ^ 24 * 256 + n div 2 ^ 16 mod 256"
    using div_mult_mod_eq [of "n div 2 ^ 16" 256] by (simp add: div_mult2_eq [symmetric])
  moreover have "n div 2 ^ 8 = n div 2 ^ 16 * 256 + n div 2 ^ 8 mod 256"
    using div_mult_mod_eq [of "n div 2 ^ 8" 256] by (simp add: div_mult2_eq [symmetric])
  moreover have "n = n div 2 ^ 8 * 256 + n mod 256"
    using div_mult_mod_eq [of n 256] by simp
  ultimately have "(n div 2 ^ 24 mod 256) * 2 ^ 24 + (n div 2 ^ 16 mod 256) * 2 ^ 16 +
      (n div 2 ^ 8 mod 256) * 2 ^ 8 + n mod 256 = n" unfolding top by (rule horner_256)
  then show ?thesis by (simp only: byte_word shift_byte flip: of_nat_add)
qed

section \<open>Reading back\<close>

lemma low_byte:
  fixes b :: byte
  assumes "unat b < 128"
  shows "b AND 0x80 = 0" and "b AND 0x7F = b" and "(b OR 0x80) AND 0x7F = b"
    and "(b OR 0x80) AND 0x80 \<noteq> 0"
proof -
  have "unat (take_bit 7 b) = unat b"
    using assms by (simp add: unsigned_take_bit_eq take_bit_nat_eq_self)
  then have "take_bit 7 b = b" by (simp only: word_unat_eq_iff)
  then have hi: "\<not> bit b 7" by (metis bit_take_bit_iff less_irrefl)
  show "b AND 0x80 = 0" "b AND 0x7F = b" "(b OR 0x80) AND 0x7F = b"
    by (rule byte_eqI; use hi in \<open>simp add: bit_simps\<close>)+
  have "bit ((b OR 0x80) AND 0x80) 7" by (simp add: bit_simps)
  then show "(b OR 0x80) AND 0x80 \<noteq> 0" by (metis bit_0_eq bot_apply bot_bool_def)
qed

lemma of_nat_byte: "m < 256 \<Longrightarrow> unat (of_nat m :: byte) = m"
  by (simp add: unat_of_nat take_bit_nat_eq_self)

lemma of_nat_32: "m < 2 ^ 32 \<Longrightarrow> unat (of_nat m :: 32 word) = m"
  by (simp add: unat_of_nat take_bit_nat_eq_self)

lemma extract_length_ok:
  assumes "n < 2 ^ 31" and "length_bytes (of_nat n) = l0 # ext"
  shows "extract_length (b0 # b1 # ext @ rest) (ucast l0) = Some (Some (of_nat n, of_nat (2 + length ext)))"
    and "unat l0 < 128" and "length ext \<le> 8"
    and "j < length ext \<Longrightarrow> extract_length (b0 # b1 # take j ext) (ucast l0) = Some None"
proof -
  have n: "n < 2 ^ 64" "n < 2 ^ 32" using assms(1) by auto
  note L = assms(2) [unfolded length_bytes_nat [OF n(1)]]
  consider (short) "n \<le> 125" | (mid) "125 < n" "n \<le> 0xFFFF" | (long) "0xFFFF < n" by linarith
  then have "extract_length (b0 # b1 # ext @ rest) (ucast l0) =
      Some (Some (of_nat n, of_nat (2 + length ext))) \<and> unat l0 < 128 \<and> length ext \<le> 8 \<and>
      (j < length ext \<longrightarrow> extract_length (b0 # b1 # take j ext) (ucast l0) = Some None)"
  proof cases
    case short
    with L have l: "l0 = of_nat n" "ext = []" by auto
    have "(of_nat n :: 32 word) \<noteq> 126" "(of_nat n :: 32 word) \<noteq> 127"
      using short of_nat_32 [OF n(2)] by auto
    with short l show ?thesis by (simp add: extract_length_def byte_word of_nat_byte)
  next
    case mid
    with L have l: "l0 = 126" "ext = [of_nat (n div 2 ^ 8), of_nat n]" by auto
    with mid join_16 [OF mid(2)] show ?thesis by (simp add: extract_length_def byte_at_def)
  next
    case long
    with L have l: "l0 = 127" "ext = [0, 0, 0, 0, of_nat (n div 2 ^ 24), of_nat (n div 2 ^ 16),
        of_nat (n div 2 ^ 8), of_nat n]" by auto
    have "n div 2 ^ 24 < 128" using assms(1) by (simp add: div_less_iff_less_mult)
    then have "(of_nat (n div 2 ^ 24) :: byte) AND 0x80 = 0"
      by (intro low_byte(1)) (simp add: of_nat_byte)
    with l join_32 [OF n(2)] show ?thesis by (simp add: extract_length_def byte_at_def)
  qed
  then show "extract_length (b0 # b1 # ext @ rest) (ucast l0) = Some (Some (of_nat n, of_nat (2 + length ext)))"
    and "unat l0 < 128" and "length ext \<le> 8"
    and "j < length ext \<Longrightarrow> extract_length (b0 # b1 # take j ext) (ucast l0) = Some None" by auto
qed

definition set_head :: "byte \<Rightarrow> ws_out \<Rightarrow> ws_out" where
  "set_head b0 out = out\<lparr>ws_fin := b0 AND 0x80 \<noteq> 0, ws_opcode := uint (b0 AND 0x0F)\<rparr>"

lemma extract_body:
  assumes "n < 2 ^ 31" and "length_bytes (of_nat n) = l0 # ext"
    and "b1 = (if masking then l0 OR 0x80 else l0)" and "m = (if masking then 4 else 0)"
  shows "wsFrameExtractBuffer (b0 # b1 # ext @ rest) out =
    Some (if length rest < m + n then (False, set_head b0 out)
          else (True, (set_head b0 out)\<lparr>ws_payload := ws_payload out @
                  (if masking then mask_from (take 4 rest) 0 (take n (drop 4 rest)) else take n rest),
                ws_frameSize := 2 + length ext + m + n\<rparr>))"
proof -
  note E = extract_length_ok [OF assms(1,2)]
  note low = low_byte [OF E(2)]
  have b: "b1 AND 0x7F = l0" "b1 AND 0x80 \<noteq> 0 \<longleftrightarrow> masking" using low assms(3) by auto
  have pos: "unat (of_nat (2 + length ext) :: 32 word) = 2 + length ext"
    "unat (of_nat (2 + length ext) + 4 :: 32 word) = 6 + length ext"
    "unat (of_nat (2 + length ext) + of_nat n :: 32 word) = 2 + length ext + n"
    "unat (of_nat (2 + length ext) + 4 + of_nat n :: 32 word) = 6 + length ext + n"
    using of_nat_32 [of "2 + length ext"] of_nat_32 [of "6 + length ext"]
      of_nat_32 [of "2 + length ext + n"] of_nat_32 [of "6 + length ext + n"] E(3) assms(1)
    by (simp_all add: add.commute add.left_commute)
  have n: "unat (of_nat n :: 32 word) = n" using of_nat_32 assms(1) by simp
  have rd: "byte_at (b0 # b1 # ext @ rest) 0 = Some b0" "byte_at (b0 # b1 # ext @ rest) 1 = Some b1"
    by (simp_all add: byte_at_def)
  show ?thesis
  proof (cases masking)
    case True
    have d2: "drop (2 + length ext) (b0 # b1 # ext @ rest) = rest" by simp
    have "drop (6 + length ext) (b0 # b1 # ext @ rest) = drop 4 (drop (2 + length ext) (b0 # b1 # ext @ rest))"
      unfolding drop_drop by (rule arg_cong2 [where f = drop]) simp_all
    with d2 True b rd E(1) [of b0 b1 rest] pos n assms(4) show ?thesis
      by (auto simp: wsFrameExtractBuffer_def set_head_def mem_read_def Let_def add.commute add.left_commute)
  next
    case False
    with b rd E(1) [of b0 b1 rest] pos n assms(4) show ?thesis
      by (auto simp: wsFrameExtractBuffer_def set_head_def mem_read_def add.commute)
  qed
qed

text \<open>A built frame, cut into the parts the extractor looks at.\<close>

lemma build_parts:
  assumes "length payload < 2 ^ 31" and "length rnd = 4"
  obtains l0 ext b1 body where "length_bytes (of_nat (length payload)) = l0 # ext"
    and "b1 = (if masking then l0 OR 0x80 else l0)"
    and "body = (if masking then rnd @ mask_from rnd 0 payload else payload)"
    and "wsFrameBuild rnd payload t fin masking =
      (of_int t OR (if fin then 0x80 else 0)) # b1 # ext @ body"
proof -
  obtain l0 ext where L: "length_bytes (of_nat (length payload)) = l0 # ext"
    by (cases "length_bytes (of_nat (length payload))") (auto simp: length_bytes_def split: if_splits)
  show ?thesis
    by (rule that [OF L refl refl]) (use assms(2) L in \<open>simp add: wsFrameBuild_def Let_def\<close>)
qed

lemma head_byte:
  assumes "0 \<le> t" and "t < 16"
  shows "set_head (of_int t OR (if fin then 0x80 else 0)) out = out\<lparr>ws_fin := fin, ws_opcode := t\<rparr>"
proof -
  have "t = 0 \<or> t = 1 \<or> t = 2 \<or> t = 3 \<or> t = 4 \<or> t = 5 \<or> t = 6 \<or> t = 7 \<or>
    t = 8 \<or> t = 9 \<or> t = 10 \<or> t = 11 \<or> t = 12 \<or> t = 13 \<or> t = 14 \<or> t = 15"
    using assms by presburger
  then show ?thesis by (elim disjE; cases fin; simp add: set_head_def)
qed

lemma build_extract:
  assumes "length payload < 2 ^ 31" and "length rnd = 4" and "0 \<le> t" and "t < 16"
  shows "wsFrameExtractBuffer (wsFrameBuild rnd payload t fin masking @ rest) out =
    Some (True, out\<lparr>ws_payload := ws_payload out @ payload, ws_opcode := t,
      ws_frameSize := length (wsFrameBuild rnd payload t fin masking), ws_fin := fin\<rparr>)"
proof -
  obtain l0 ext b1 body where P: "length_bytes (of_nat (length payload)) = l0 # ext"
    "b1 = (if masking then l0 OR 0x80 else l0)"
    "body = (if masking then rnd @ mask_from rnd 0 payload else payload)"
    "wsFrameBuild rnd payload t fin masking =
      (of_int t OR (if fin then 0x80 else 0)) # b1 # ext @ body"
    by (rule build_parts [OF assms(1,2)])
  show ?thesis
    unfolding P(4) append.simps append_assoc extract_body [OF assms(1) P(1,2) refl]
      head_byte [OF assms(3,4)]
    using assms(2) P(3) by (simp add: mask_from_twice)
qed

lemma prefix_extract:
  assumes "length payload < 2 ^ 31" and "length rnd = 4"
    and "k < length (wsFrameBuild rnd payload t fin masking)"
  shows "\<exists>out'. wsFrameExtractBuffer (take k (wsFrameBuild rnd payload t fin masking)) out =
    Some (False, out')"
proof -
  obtain l0 ext b1 body where P: "length_bytes (of_nat (length payload)) = l0 # ext"
    "b1 = (if masking then l0 OR 0x80 else l0)"
    "body = (if masking then rnd @ mask_from rnd 0 payload else payload)"
    "wsFrameBuild rnd payload t fin masking =
      (of_int t OR (if fin then 0x80 else 0)) # b1 # ext @ body"
    by (rule build_parts [OF assms(1,2)])
  let ?b0 = "of_int t OR (if fin then 0x80 else 0) :: byte"
  note E = extract_length_ok [OF assms(1) P(1)]
  have b1: "b1 AND 0x7F = l0" using low_byte [OF E(2)] P(2) by simp
  consider (head) "k < 2" | (ext) j where "k = 2 + j" "j < length ext"
    | (body) j where "k = 2 + length ext + j" by (metis le_Suc_ex not_less add.assoc)
  then show ?thesis
  proof cases
    case head
    then show ?thesis by (simp add: P(4) wsFrameExtractBuffer_def min_def)
  next
    case ext
    then have "take k (wsFrameBuild rnd payload t fin masking) = ?b0 # b1 # take j ext"
      by (simp add: P(4))
    with E(4) [OF ext(2), of ?b0 b1] b1 show ?thesis
      by (simp add: wsFrameExtractBuffer_def byte_at_def)
  next
    case body
    then have t: "take k (wsFrameBuild rnd payload t fin masking) = ?b0 # b1 # ext @ take j body"
      by (simp add: P(4))
    have "length (take j body) < (if masking then 4 else 0) + length payload"
      using assms(2,3) body P(3,4) by (auto split: if_splits)
    then show ?thesis unfolding t extract_body [OF assms(1) P(1,2) refl] by simp
  qed
qed

section \<open>Arbitrary input\<close>

lemma join_bytes_bound:
  fixes b6 b7 b8 b9 :: byte
  assumes "unat b6 < 128"
  shows "unat (push_bit 24 (ucast b6) + push_bit 16 (ucast b7) + push_bit 8 (ucast b8) +
    ucast b9 :: 32 word) < 2 ^ 31"
proof -
  have u: "(ucast b :: 32 word) = of_nat (unat b)" for b :: byte by simp
  define N where "N = unat b6 * 2 ^ 24 + unat b7 * 2 ^ 16 + unat b8 * 2 ^ 8 + unat b9"
  have "unat b < 256" for b :: byte using unat_bound [of b] by simp
  from this [of b7] this [of b8] this [of b9] assms have N: "N < 2 ^ 31" by (simp add: N_def)
  have "push_bit 24 (ucast b6) + push_bit 16 (ucast b7) + push_bit 8 (ucast b8) +
      ucast b9 = (of_nat N :: 32 word)"
    unfolding u shift_byte N_def by simp
  with N show ?thesis using of_nat_32 [of N] by simp
qed

lemma high_bit_clear: "(b :: byte) AND 0x80 = 0 \<Longrightarrow> unat b < 128"
proof -
  assume "b AND 0x80 = 0"
  then have "\<not> bit (b AND 0x80) 7" by simp
  then have "\<not> bit b 7" by (simp add: bit_simps)
  then have "take_bit 7 b = b" by (intro byte_eqI) (simp_all add: bit_simps)
  then have "unat b = take_bit 7 (unat b)" by (metis unsigned_take_bit_eq)
  then show ?thesis using take_bit_nat_less_exp [of 7 "unat b"] by simp
qed

lemma low_seven_bits: "unat ((b :: byte) AND 0x7F) < 128"
proof -
  have "(b AND 0x7F) AND 0x80 = 0" by (rule byte_eqI) (simp_all add: bit_simps)
  then show ?thesis by (rule high_bit_clear)
qed

lemma extract_length_total:
  assumes "2 \<le> length buf" and "unat p < 128"
  shows "extract_length buf p = Some None \<or>
    (\<exists>len pos. extract_length buf p = Some (Some (len, pos)) \<and> unat len < 2 ^ 31 \<and>
       2 \<le> unat pos \<and> unat pos \<le> 10 \<and> unat pos \<le> length buf)"
proof -
  have j16: "unat (push_bit 8 (ucast b2) + ucast b3 :: 32 word) < 2 ^ 31" for b2 b3 :: byte
    using join_bytes_bound [of 0 0 b2 b3] by simp
  show ?thesis
    using assms join_bytes_bound [OF high_bit_clear] j16
    by (auto simp: extract_length_def byte_at_def)
qed

lemma extract_total:
  "\<exists>ok out'. wsFrameExtractBuffer buf out = Some (ok, out') \<and>
     (ok \<longrightarrow> 2 \<le> ws_frameSize out' \<and> ws_frameSize out' \<le> length buf \<and>
       (\<exists>bs. ws_payload out' = ws_payload out @ bs \<and> length bs + 2 \<le> ws_frameSize out'))"
proof (cases "length buf < 2")
  case True
  then have "wsFrameExtractBuffer buf out = Some (False, out)"
    by (simp add: wsFrameExtractBuffer_def)
  then show ?thesis by blast
next
  case False
  let ?p = "ucast (buf ! 1 AND 0x7F) :: 32 word"
  have rd: "byte_at buf 0 = Some (buf ! 0)" "byte_at buf 1 = Some (buf ! 1)"
    using False by (auto simp: byte_at_def)
  have "unat ?p < 128" using low_seven_bits [of "buf ! 1"] 
    by (simp add: unsigned_ucast_eq take_bit_nat_eq_self)
  with False extract_length_total [of buf ?p] consider
      (none) "extract_length buf ?p = Some None"
    | (some) len pos where "extract_length buf ?p = Some (Some (len, pos))" "unat len < 2 ^ 31"
        "2 \<le> unat pos" "unat pos \<le> 10" "unat pos \<le> length buf" by auto
  then show ?thesis
  proof cases
    case none
    with False rd have "wsFrameExtractBuffer buf out = Some (False, set_head (buf ! 0) out)"
      by (simp add: wsFrameExtractBuffer_def set_head_def Let_def)
    then show ?thesis by blast
  next
    case some
    let ?H = "set_head (buf ! 0) out"
    have u: "unat (pos + 4) = unat pos + 4" "unat (pos + len) = unat pos + unat len"
      "unat (pos + 4 + len) = unat pos + 4 + unat len"
      "unat (len + pos) = unat pos + unat len" "unat (len + (pos + 4)) = unat pos + 4 + unat len"
      using some(2,4) by (simp_all add: unat_word_ariths)
    note defs = wsFrameExtractBuffer_def Let_def mem_read_def set_head_def
    show ?thesis
    proof (cases "buf ! 1 AND 0x80 \<noteq> 0")
      case True
      let ?bs = "mask_from (take 4 (drop (unat pos) buf)) 0 (take (unat len) (drop (unat pos + 4) buf))"
      have "wsFrameExtractBuffer buf out =
        Some (if length buf < unat pos + 4 + unat len then (False, ?H)
              else (True, ?H\<lparr>ws_payload := ws_payload out @ ?bs, ws_frameSize := unat pos + 4 + unat len\<rparr>))"
        using False True rd some(1) u by (simp add: defs)
      then show ?thesis using some(3) by auto
    next
      case unmasked: False
      let ?bs = "take (unat len) (drop (unat pos) buf)"
      have "wsFrameExtractBuffer buf out =
        Some (if length buf < unat pos + unat len then (False, ?H)
              else (True, ?H\<lparr>ws_payload := ws_payload out @ ?bs, ws_frameSize := unat pos + unat len\<rparr>))"
        using False unmasked rd some(1) u by (simp add: defs)
      then show ?thesis using some(3) by auto
    qed
  qed
qed

text \<open>
  On every input the extractor stays inside the buffer, and when it
  succeeds the reported frame has at least two bytes, lies within the input,
  and contributes a payload shorter than the frame.
\<close>

theorem ws_extract_safe:
  "\<exists>ok out'. wsFrameExtractBuffer buf out = Some (ok, out') \<and>
     (ok \<longrightarrow> 2 \<le> ws_frameSize out' \<and> ws_frameSize out' \<le> length buf \<and>
       (\<exists>bs. ws_payload out' = ws_payload out @ bs \<and> length bs + 2 \<le> ws_frameSize out'))"
  by (rule extract_total)

theorem ws_extract_safe_witness:
  "\<exists>ok out'. wsFrameExtractBuffer [0x81, 2, 72, 105, 0x81]
       \<lparr>ws_payload = [], ws_opcode = ERROR_FRAME, ws_frameSize = 0, ws_fin = False\<rparr> = Some (ok, out') \<and>
     ok \<and> ws_frameSize out' \<le> 5"
proof -
  let ?out = "\<lparr>ws_payload = [], ws_opcode = ERROR_FRAME, ws_frameSize = 0, ws_fin = False\<rparr>"
  have "map_option fst (wsFrameExtractBuffer [0x81, 2, 72, 105, 0x81] ?out) = Some True"
    by code_simp
  with ws_extract_safe [of "[0x81, 2, 72, 105, 0x81]" ?out] show ?thesis by auto
qed

text \<open>
  C27. Every frame that \<open>wsFrameBuild\<close> makes, masked or not, with a payload below
  \<open>2 ^ 31\<close> bytes and an opcode of four bits, is read back by the extractor with
  its payload, opcode and fin flag and its exact size, whatever bytes follow it.
\<close>

theorem ws_round_trip:
  assumes "length payload < 2 ^ 31" and "length rnd = 4" and "0 \<le> t" and "t < 16"
  shows "wsFrameExtractBuffer (wsFrameBuild rnd payload t fin masking @ rest) out =
    Some (True, out\<lparr>ws_payload := ws_payload out @ payload, ws_opcode := t,
      ws_frameSize := length (wsFrameBuild rnd payload t fin masking), ws_fin := fin\<rparr>)"
  by (rule build_extract [OF assms])

definition blank_out :: ws_out where
  "blank_out = \<lparr>ws_payload = [], ws_opcode = ERROR_FRAME, ws_frameSize = 0, ws_fin = False\<rparr>"

theorem ws_round_trip_witness:
  "wsFrameExtractBuffer (wsFrameBuild [1, 2, 3, 4] [10, 20, 30, 40, 50] TEXT_FRAME True True @ [7]) blank_out =
     Some (True, \<lparr>ws_payload = [10, 20, 30, 40, 50], ws_opcode = TEXT_FRAME, ws_frameSize = 11, ws_fin = True\<rparr>)"
  using ws_round_trip [of "[10, 20, 30, 40, 50]" "[1, 2, 3, 4]" TEXT_FRAME True True "[7]" blank_out]
  by (simp add: TEXT_FRAME_def blank_out_def wsFrameBuild_def length_bytes_def)

section \<open>The contract of a frame codec\<close>

text \<open>
  \<open>scan\<close> gives the content of the first frame of a buffer and its size, or
  nothing when no complete frame is there.
\<close>

locale frame_codec =
  fixes okay :: "'f \<Rightarrow> bool" and build :: "'f \<Rightarrow> byte list" and view :: "'f \<Rightarrow> 'v"
    and scan :: "byte list \<Rightarrow> ('v \<times> nat) option"
  assumes scan_build: "okay f \<Longrightarrow> scan (build f @ rest) = Some (view f, length (build f))"
    and scan_prefix: "okay f \<Longrightarrow> k < length (build f) \<Longrightarrow> scan (take k (build f)) = None"
    and build_nonempty: "okay f \<Longrightarrow> build f \<noteq> []"
begin

text \<open>A buffer of complete frames and a part of a further one determines its frames.\<close>

lemma frames_unique:
  assumes "list_all okay fs" and "list_all okay gs" and "okay f" and "okay g"
    and "k < length (build f)" and "l < length (build g)"
    and "concat (map build fs) @ take k (build f) = concat (map build gs) @ take l (build g)"
  shows "map view fs = map view gs"
  using assms
proof (induction fs arbitrary: gs)
  case Nil
  then show ?case
    using scan_build scan_prefix by (cases gs) (fastforce, fastforce)
next
  case (Cons f' fs)
  show ?case
  proof (cases gs)
    case Nil
    with Cons.prems have "build f' @ concat (map build fs) @ take k (build f) = take l (build g)" by simp
    moreover have "scan (build f' @ concat (map build fs) @ take k (build f)) \<noteq> None"
      using Cons.prems(1) scan_build by simp
    ultimately show ?thesis using scan_prefix [OF Cons.prems(4,6)] by simp
  next
    case (Cons g' gs')
    let ?x = "concat (map build fs) @ take k (build f)"
    let ?y = "concat (map build gs') @ take l (build g)"
    have eq: "build f' @ ?x = build g' @ ?y" using Cons.prems(7) Cons by simp
    have "scan (build f' @ ?x) = Some (view f', length (build f'))"
      "scan (build g' @ ?y) = Some (view g', length (build g'))"
      using Cons.prems(1,2) Cons scan_build by simp_all
    with eq have "view f' = view g'" "length (build f') = length (build g')" by simp_all
    moreover from this(2) eq have "?x = ?y" by simp
    ultimately show ?thesis using Cons.IH [of gs'] Cons.prems Cons by simp
  qed
qed

end

text \<open>The arguments of \<open>wsFrameBuild\<close>, and what of them a reader gets back.\<close>

record ws_frame =
  wf_rnd :: "byte list"
  wf_payload :: "byte list"
  wf_type :: ws_frame_type
  wf_fin :: bool
  wf_masking :: bool

definition frame_ok :: "ws_frame \<Rightarrow> bool" where
  "frame_ok f \<longleftrightarrow> length (wf_payload f) < 2 ^ 31 \<and> length (wf_rnd f) = 4 \<and> 0 \<le> wf_type f \<and> wf_type f < 16"

definition frame_bytes :: "ws_frame \<Rightarrow> byte list" where
  "frame_bytes f = wsFrameBuild (wf_rnd f) (wf_payload f) (wf_type f) (wf_fin f) (wf_masking f)"

definition frame_view :: "ws_frame \<Rightarrow> byte list \<times> ws_frame_type \<times> bool" where
  "frame_view f = (wf_payload f, wf_type f, wf_fin f)"

definition frame_scan :: "byte list \<Rightarrow> ((byte list \<times> ws_frame_type \<times> bool) \<times> nat) option" where
  "frame_scan buf =
     (case wsFrameExtractBuffer buf blank_out of
        Some (True, out) \<Rightarrow> Some ((ws_payload out, ws_opcode out, ws_fin out), ws_frameSize out)
      | _ \<Rightarrow> None)"

interpretation ws: frame_codec frame_ok frame_bytes frame_view frame_scan
proof (unfold_locales, goal_cases)
  case (1 f rest)
  then show ?case
    by (simp add: frame_ok_def frame_scan_def frame_bytes_def frame_view_def build_extract blank_out_def)
next
  case (2 f k)
  then obtain out' where "wsFrameExtractBuffer (take k (frame_bytes f)) blank_out = Some (False, out')"
    unfolding frame_bytes_def frame_ok_def using prefix_extract by blast
  then show ?case by (simp add: frame_scan_def)
next
  case (3 f)
  then show ?case by (simp add: frame_bytes_def wsFrameBuild_def Let_def)
qed

text \<open>
  A byte stream has one reading as frames: two sequences of frames, each
  followed by a part of a further one, that give the same bytes carry the same
  payloads, opcodes and fin flags in the same order.
\<close>

theorem ws_stream_unambiguous:
  assumes "list_all frame_ok fs" and "list_all frame_ok gs" and "frame_ok f" and "frame_ok g"
    and "k < length (frame_bytes f)" and "l < length (frame_bytes g)"
    and "concat (map frame_bytes fs) @ take k (frame_bytes f) =
         concat (map frame_bytes gs) @ take l (frame_bytes g)"
  shows "map frame_view fs = map frame_view gs"
  using assms by (rule ws.frames_unique)

definition sample_frame :: ws_frame where
  "sample_frame = \<lparr>wf_rnd = [1, 2, 3, 4], wf_payload = [5, 6], wf_type = TEXT_FRAME, wf_fin = True,
     wf_masking = False\<rparr>"

theorem ws_stream_unambiguous_witness:
  "map frame_view [sample_frame] = map frame_view [sample_frame\<lparr>wf_rnd := [9, 9, 9, 9]\<rparr>]"
  using ws_stream_unambiguous [of "[sample_frame]" "[sample_frame\<lparr>wf_rnd := [9, 9, 9, 9]\<rparr>]"
      sample_frame sample_frame 1 1]
  by (simp add: sample_frame_def frame_ok_def frame_bytes_def wsFrameBuild_def length_bytes_def
      TEXT_FRAME_def)

end
