(* ===== verification/Http_Wrapper.thy ===== *)
theory Http_Wrapper
  imports Http_Parser_Safe Websocket_Format
begin

text \<open>
  The class \<open>HTTPParser\<close> of \<open>net/http/HttpParser.cpp\<close>: it hands the callbacks of the
  C parser to itself (\<open>mParser.data = this\<close>) and collects the parts of a message
  in its fields. The fields are therefore the application data of the C parser
  model, and the callbacks an interpretation of the callback contract.
\<close>

section \<open>State\<close>

record http_data =
  mParserType :: http_parser_type
  mIsWebSocket :: bool
  mIsKeepAlive :: bool
  mISCompleted :: bool
  mLastWasValue :: bool
  mCurrentField :: string
  mCurrentValue :: string
  mPath :: string
  mQuery :: string
  mStatus :: string
  mHeadValues :: "string \<rightharpoonup> string"
  mStatusCode :: int
  mUrl :: string
  mBody :: string
  mWSCacheFrame :: "byte list"
  mWSParsePayload :: "byte list"
  mWSFrameType :: ws_frame_type

type_synonym http_object = "http_data http_parser"

definition on_data :: "(http_data \<Rightarrow> http_data) \<Rightarrow> http_object \<Rightarrow> http_object" where
  "on_data f hp = hp\<lparr>hp_data := f (hp_data hp)\<rparr>"

section \<open>Callbacks\<close>

definition sChunkHeader :: "http_data http_cb" where
  "sChunkHeader hp = (0, hp)"

definition sChunkComplete :: "http_data http_cb" where
  "sChunkComplete hp = (0, hp)"

definition sMessageBegin :: "http_data http_cb" where
  "sMessageBegin hp =
     (0, on_data (\<lambda>d. d\<lparr>mLastWasValue := True, mCurrentField := [], mCurrentValue := []\<rparr>) hp)"

definition sMessageEnd :: "http_data http_cb" where
  "sMessageEnd hp = (0, on_data (\<lambda>d. d\<lparr>mISCompleted := True\<rparr>) hp)"

text \<open>The part of the URL that a field of \<open>struct http_parser_url\<close> names.\<close>

definition url_part :: "string \<Rightarrow> http_parser_url \<Rightarrow> http_parser_url_fields \<Rightarrow> string" where
  "url_part url u f =
     take (unat (uf_len (url_field_data u f))) (drop (unat (uf_off (url_field_data u f))) url)"

text \<open>\<open>struct http_parser_url u;\<close> is not initialised; no field is read before it is set.\<close>

definition fresh_url :: http_parser_url where
  "fresh_url = \<lparr>url_field_set = {}, url_port = 0, url_field_data = (\<lambda>_. \<lparr>uf_off = 0, uf_len = 0\<rparr>)\<rparr>"

definition head_complete :: "http_data \<Rightarrow> int \<times> http_data" where
  "head_complete d =
     (let d = (if mCurrentField d \<noteq> []
               then d\<lparr>mHeadValues := (mHeadValues d)(mCurrentField d \<mapsto> mCurrentValue d)\<rparr> else d)
      in if mUrl d = [] then (0, d)
         else case http_parser_parse_url (mUrl d) False fresh_url of
           None \<Rightarrow> (-1, d)
         | Some u \<Rightarrow>
             if UF_PATH \<notin> url_field_set u then (-1, d)
             else (0, let d = d\<lparr>mPath := url_part (mUrl d) u UF_PATH\<rparr>
                      in if UF_QUERY \<in> url_field_set u
                         then d\<lparr>mQuery := url_part (mUrl d) u UF_QUERY\<rparr> else d))"

definition sHeadComplete :: "http_data http_cb" where
  "sHeadComplete hp = (case head_complete (hp_data hp) of (rc, d) \<Rightarrow> (rc, hp\<lparr>hp_data := d\<rparr>))"

definition sUrlHandle :: "http_data http_data_cb" where
  "sUrlHandle hp url = (0, on_data (\<lambda>d. d\<lparr>mUrl := mUrl d @ url\<rparr>) hp)"

definition sHeadValue :: "http_data http_data_cb" where
  "sHeadValue hp at =
     (0, on_data (\<lambda>d. d\<lparr>mCurrentValue := mCurrentValue d @ at, mLastWasValue := True\<rparr>) hp)"

text \<open>A field after a value stores the finished pair; the result of that call is ignored.\<close>

definition sHeadField :: "http_data http_data_cb" where
  "sHeadField hp at =
     (let hp = (if mLastWasValue (hp_data hp)
                then on_data (\<lambda>d. d\<lparr>mCurrentField := [], mCurrentValue := []\<rparr>)
                       (if mCurrentField (hp_data hp) \<noteq> [] then snd (sHeadComplete hp) else hp)
                else hp)
      in (0, on_data (\<lambda>d. d\<lparr>mCurrentField := mCurrentField d @ at, mLastWasValue := False\<rparr>) hp))"

definition sStatusHandle :: "http_data http_data_cb" where
  "sStatusHandle hp at =
     (0, on_data (\<lambda>d. d\<lparr>mStatus := mStatus d @ at, mStatusCode := uint (hp_status_code hp)\<rparr>) hp)"

definition sBodyHandle :: "http_data http_data_cb" where
  "sBodyHandle hp at = (0, on_data (\<lambda>d. d\<lparr>mBody := mBody d @ at\<rparr>) hp)"

section \<open>Operations\<close>

definition mSettings :: "http_data http_parser_settings" where
  "mSettings =
     \<lparr>on_message_begin = Some sMessageBegin, on_url = Some sUrlHandle, on_status = Some sStatusHandle,
      on_header_field = Some sHeadField, on_header_value = Some sHeadValue,
      on_headers_complete = Some sHeadComplete, on_body = Some sBodyHandle,
      on_message_complete = Some sMessageEnd, on_chunk_header = Some sChunkHeader,
      on_chunk_complete = Some sChunkComplete\<rparr>"

text \<open>
  The constructor. The fields it does not set are whatever the memory holds for
  the numbers, empty for the strings and the map.
\<close>

definition HTTPParser_new :: "http_object \<Rightarrow> http_parser_type \<Rightarrow> http_object" where
  "HTTPParser_new mem parserType =
     http_parser_init
       (mem\<lparr>hp_data :=
          \<lparr>mParserType = parserType, mIsWebSocket = False, mIsKeepAlive = False, mISCompleted = False,
           mLastWasValue = True, mCurrentField = [], mCurrentValue = [], mPath = [], mQuery = [],
           mStatus = [], mHeadValues = Map.empty, mStatusCode = mStatusCode (hp_data mem), mUrl = [],
           mBody = [], mWSCacheFrame = [], mWSParsePayload = [],
           mWSFrameType = mWSFrameType (hp_data mem)\<rparr>\<rparr>) parserType"

definition clearParse :: "http_object \<Rightarrow> http_object" where
  "clearParse = on_data (\<lambda>d. d\<lparr>mISCompleted := False, mHeadValues := Map.empty, mPath := [], mQuery := []\<rparr>)"

definition hasKey :: "http_object \<Rightarrow> string \<Rightarrow> bool" where
  "hasKey hp key \<longleftrightarrow> mHeadValues (hp_data hp) key \<noteq> None"

definition hasEntry :: "http_object \<Rightarrow> string \<Rightarrow> string \<Rightarrow> bool" where
  "hasEntry hp key val \<longleftrightarrow> mHeadValues (hp_data hp) key = Some val"

definition getValue :: "http_object \<Rightarrow> string \<Rightarrow> string" where
  "getValue hp key = (case mHeadValues (hp_data hp) key of None \<Rightarrow> [] | Some v \<Rightarrow> v)"

text \<open>\<open>None\<close> when the parser fails an assertion or does not return.\<close>

definition tryParse :: "http_object \<Rightarrow> string \<Rightarrow> (nat \<times> http_object) option" where
  "tryParse hp buffer =
     (case http_parser_execute hp mSettings buffer of
        Returned nparsed hp' \<Rightarrow>
          Some (nparsed,
            if mISCompleted (hp_data hp')
            then let hp' = on_data (\<lambda>d. d\<lparr>mIsWebSocket := hp_upgrade hp'\<rparr>) hp';
                     hp' = on_data (\<lambda>d. d\<lparr>mIsKeepAlive := \<not> hasEntry hp' ''Connection'' ''close''\<rparr>) hp'
                 in http_parser_init hp' (mParserType (hp_data hp'))
            else hp')
      | _ \<Rightarrow> None)"

section \<open>The callbacks keep the contract\<close>

lemma cb_frame_on_data [simp]: "cb_frame hp (on_data f hp)"
  by (simp add: cb_frame_def on_data_def)

lemma cb_frame_data [simp]: "cb_frame hp (hp\<lparr>hp_data := d\<rparr>)"
  by (simp add: cb_frame_def)

lemma cb_frame_refl [simp]: "cb_frame hp hp"
  by (simp add: cb_frame_def)

lemma snd_sHeadComplete: "\<exists>d. snd (sHeadComplete hp) = hp\<lparr>hp_data := d\<rparr>"
  by (auto simp: sHeadComplete_def split: prod.split)

lemma sHeadField_frame: "\<exists>d. sHeadField hp at = (0, hp\<lparr>hp_data := d\<rparr>)"
proof -
  obtain d where "snd (sHeadComplete hp) = hp\<lparr>hp_data := d\<rparr>" using snd_sHeadComplete by blast
  moreover have "\<exists>d'. on_data f (hp\<lparr>hp_data := d\<rparr>) = hp\<lparr>hp_data := d'\<rparr>" for f
    by (auto simp: on_data_def)
  ultimately show ?thesis by (auto simp: sHeadField_def Let_def on_data_def)
qed

interpretation http: lawful_settings mSettings
proof (unfold_locales, goal_cases)
  case (1 f prs rc prs')
  then show ?case
    by (auto simp: notify_cbs_def mSettings_def sMessageBegin_def sMessageEnd_def sHeadComplete_def
        sChunkHeader_def sChunkComplete_def split: prod.splits)
next
  case (2 m g prs bs rc prs')
  then show ?case
    using sHeadField_frame [of prs bs]
    by (cases m) (auto simp: data_cb_def mSettings_def sUrlHandle_def sHeadValue_def
        sStatusHandle_def sBodyHandle_def)
qed

lemma parser_inv_data [simp]: "parser_inv (on_data f hp) = parser_inv hp"
  by (simp add: parser_inv_def on_data_def)

lemma tryParse_returns:
  assumes "parser_inv hp" and "buffer \<noteq> []" and "length buffer < 2 ^ 64"
  shows "\<exists>n hp'. tryParse hp buffer = Some (n, hp') \<and> n \<le> length buffer \<and> parser_inv hp' \<and>
    (mISCompleted (hp_data hp') \<longrightarrow> hp_http_errno hp' = HPE_OK)"
proof -
  obtain n hp1 where R: "http_parser_execute hp mSettings buffer = Returned n hp1"
    "n \<le> length buffer" "parser_inv hp1"
  proof (cases "hp_http_errno hp = HPE_OK")
    case True
    from http.execute_ok [OF assms(1) True assms(2,3)] that show thesis
      by (cases "http_parser_execute hp mSettings buffer") auto
  next
    case False
    with assms(1) that show thesis by (simp add: http_parser_execute_def)
  qed
  then show ?thesis
    by (cases "mISCompleted (hp_data hp1)")
      (simp_all add: tryParse_def Let_def parser_inv_init, simp add: http_parser_init_def on_data_def)
qed

text \<open>
  C26. \<open>tryParse\<close> returns on every non-empty input: with the callbacks of
  \<open>HTTPParser\<close> the C parser fails no assertion and ends, at most the given bytes
  are reported as consumed, and the object can be used again, freshly
  initialised when a message was completed.
\<close>

theorem tryParse_total:
  assumes "parser_inv hp" and "buffer \<noteq> []" and "length buffer < 2 ^ 64"
  shows "\<exists>n hp'. tryParse hp buffer = Some (n, hp') \<and> n \<le> length buffer \<and> parser_inv hp' \<and>
    (mISCompleted (hp_data hp') \<longrightarrow> hp_http_errno hp' = HPE_OK)"
  by (rule tryParse_returns [OF assms])

definition blank_data :: http_data where
  "blank_data =
     \<lparr>mParserType = HTTP_BOTH, mIsWebSocket = False, mIsKeepAlive = False, mISCompleted = False,
      mLastWasValue = True, mCurrentField = [], mCurrentValue = [], mPath = [], mQuery = [],
      mStatus = [], mHeadValues = Map.empty, mStatusCode = 0, mUrl = [], mBody = [],
      mWSCacheFrame = [], mWSParsePayload = [], mWSFrameType = 0\<rparr>"

definition blank_object :: http_object where
  "blank_object =
     \<lparr>hp_type = HTTP_BOTH, hp_flags = 0, hp_state = s_dead, hp_header_state = h_general,
      hp_index = 0, hp_nread = 0, hp_content_length = 0, hp_http_major = 0, hp_http_minor = 0,
      hp_status_code = 0, hp_method = HTTP_GET, hp_http_errno = HPE_OK, hp_upgrade = False,
      hp_data = blank_data\<rparr>"

theorem tryParse_total_witness:
  "\<exists>n hp'. tryParse (HTTPParser_new blank_object HTTP_BOTH) ''GET / HTTP/1.1'' = Some (n, hp') \<and>
     n \<le> 14 \<and> parser_inv hp'"
proof -
  have "parser_inv (HTTPParser_new blank_object HTTP_BOTH)"
    unfolding HTTPParser_new_def by (rule parser_inv_init)
  from tryParse_total [OF this, of "''GET / HTTP/1.1''"] show ?thesis by auto
qed

end
