(* ===== verification/Base64.thy ===== *)
theory Base64
  imports Brynet_Prelude
begin

text \<open>
  The base64 codec of \<open>utils/base64.cpp\<close>: the encoder that collects three bytes at
  a time in \<open>char_array_3\<close>, and the decoder that collects four characters in
  \<open>char_array_4\<close>. Both are compared with the usual recursive definition, and
  decoding undoes encoding. Lengths stay below \<open>2 ^ 31\<close>, as the \<open>int\<close> counters
  of the code ask.
\<close>

section \<open>The alphabet\<close>

definition base64_chars :: string where
  "base64_chars =
     ''ABCDEFGHIJKLMNOPQRSTUVWXYZ'' @ ''abcdefghijklmnopqrstuvwxyz'' @ ''0123456789+/''"

definition is_base64 :: "char \<Rightarrow> bool" where
  "is_base64 c \<longleftrightarrow>
     (let n = of_char c :: nat in
      (48 \<le> n \<and> n \<le> 57) \<or> (65 \<le> n \<and> n \<le> 90) \<or> (97 \<le> n \<and> n \<le> 122)) \<or>
     c = CHR ''+'' \<or> c = CHR ''/''"

text \<open>\<open>base64_chars.find(c)\<close>, converted to \<open>unsigned char\<close>; not found is \<open>npos\<close>, all ones.\<close>

fun find_index :: "string \<Rightarrow> char \<Rightarrow> nat option" where
  "find_index [] c = None"
| "find_index (x # xs) c = (if x = c then Some 0 else map_option Suc (find_index xs c))"

definition base64_find :: "byte \<Rightarrow> byte" where
  "base64_find b =
     (case find_index base64_chars (char_of_byte b) of None \<Rightarrow> -1 | Some i \<Rightarrow> of_nat i)"

definition base64_char :: "byte \<Rightarrow> char" where
  "base64_char b = base64_chars ! unat b"

section \<open>Encoding\<close>

definition to_array_4 :: "byte list \<Rightarrow> byte list" where
  "to_array_4 a3 =
     [drop_bit 2 (a3 ! 0 AND 0xfc),
      push_bit 4 (a3 ! 0 AND 0x03) + drop_bit 4 (a3 ! 1 AND 0xf0),
      push_bit 2 (a3 ! 1 AND 0x0f) + drop_bit 6 (a3 ! 2 AND 0xc0),
      a3 ! 2 AND 0x3f]"

fun encode_loop :: "byte list \<Rightarrow> byte list \<Rightarrow> nat \<Rightarrow> string \<Rightarrow> byte list \<times> nat \<times> string" where
  "encode_loop [] a3 i ret = (a3, i, ret)"
| "encode_loop (b # bs) a3 i ret =
     (let a3 = a3[i := b]; i = i + 1 in
      if i = 3 then encode_loop bs a3 0 (ret @ map base64_char (to_array_4 a3))
      else encode_loop bs a3 i ret)"

text \<open>The zero filling of \<open>char_array_3\<close> from index \<open>i\<close> on.\<close>

definition zero_from :: "nat \<Rightarrow> byte list \<Rightarrow> byte list" where
  "zero_from i xs = take i xs @ replicate (length xs - i) 0"

text \<open>The arrays start uninitialised; every entry is written before it is read.\<close>

definition base64_encode :: "byte list \<Rightarrow> string" where
  "base64_encode bs =
     (case encode_loop bs [0, 0, 0] 0 [] of
        (a3, i, ret) \<Rightarrow>
          if i = 0 then ret
          else ret @ take (i + 1) (map base64_char (to_array_4 (zero_from i a3))) @
               replicate (3 - i) (CHR ''=''))"

section \<open>Decoding\<close>

definition to_array_3 :: "byte list \<Rightarrow> byte list" where
  "to_array_3 a4 =
     [push_bit 2 (a4 ! 0) + drop_bit 4 (a4 ! 1 AND 0x30),
      push_bit 4 (a4 ! 1 AND 0x0f) + drop_bit 2 (a4 ! 2 AND 0x3c),
      push_bit 6 (a4 ! 2 AND 0x03) + a4 ! 3]"

fun decode_loop :: "string \<Rightarrow> byte list \<Rightarrow> nat \<Rightarrow> byte list \<Rightarrow> byte list \<times> nat \<times> byte list" where
  "decode_loop [] a4 i ret = (a4, i, ret)"
| "decode_loop (c # cs) a4 i ret =
     (if c = CHR ''='' \<or> \<not> is_base64 c then (a4, i, ret)
      else let a4 = a4[i := byte_of c]; i = i + 1 in
        if i = 4 then let a4 = map base64_find a4 in decode_loop cs a4 0 (ret @ to_array_3 a4)
        else decode_loop cs a4 i ret)"

definition base64_decode :: "string \<Rightarrow> byte list" where
  "base64_decode cs =
     (case decode_loop cs [0, 0, 0, 0] 0 [] of
        (a4, i, ret) \<Rightarrow>
          if i = 0 then ret
          else ret @ take (i - 1) (to_array_3 (map base64_find (zero_from i a4))))"

section \<open>The reference definition\<close>

text \<open>Three bytes give four characters; a rest of one or two bytes is padded.\<close>

fun encode_ref :: "byte list \<Rightarrow> string" where
  "encode_ref [] = []"
| "encode_ref [a] = take 2 (map base64_char (to_array_4 [a, 0, 0])) @ ''==''"
| "encode_ref [a, b] = take 3 (map base64_char (to_array_4 [a, b, 0])) @ ''=''"
| "encode_ref (a # b # c # bs) = map base64_char (to_array_4 [a, b, c]) @ encode_ref bs"

lemma encode_loop_3:
  "length a3 = 3 \<Longrightarrow> encode_loop (a # b # c # bs) a3 0 ret =
     encode_loop bs [a, b, c] 0 (ret @ map base64_char (to_array_4 [a, b, c]))"
  by (auto simp: numeral_3_eq_3 length_Suc_conv Let_def)

lemma encode_loop_ref:
  assumes "length a3 = 3"
  shows "(case encode_loop bs a3 0 ret of
     (a3, i, ret) \<Rightarrow>
       if i = 0 then ret
       else ret @ take (i + 1) (map base64_char (to_array_4 (zero_from i a3))) @
            replicate (3 - i) (CHR ''='')) = ret @ encode_ref bs"
  using assms
proof (induction bs arbitrary: a3 ret rule: encode_ref.induct)
  case 1
  then show ?case by simp
next
  case (2 a)
  then obtain x y z where "a3 = [x, y, z]" by (auto simp: numeral_3_eq_3 length_Suc_conv)
  then show ?case by (simp add: zero_from_def numeral_eq_Suc)
next
  case (3 a b)
  then obtain x y z where "a3 = [x, y, z]" by (auto simp: numeral_3_eq_3 length_Suc_conv)
  then show ?case by (simp add: zero_from_def numeral_eq_Suc)
next
  case (4 a b c bs)
  then show ?case using encode_loop_3 [OF "4.prems"] by simp
qed

lemma encode_eq_ref: "base64_encode bs = encode_ref bs"
  using encode_loop_ref [of "[0, 0, 0]" bs "[]"] by (simp add: base64_encode_def)

section \<open>Sextets\<close>

lemma base64_chars_distinct: "distinct base64_chars"
  unfolding base64_chars_def by code_simp

lemma base64_chars_length: "length base64_chars = 64"
  by (simp add: base64_chars_def)

lemma base64_chars_legal: "c \<in> set base64_chars \<Longrightarrow> is_base64 c \<and> c \<noteq> CHR ''=''"
proof -
  have "list_all (\<lambda>c. is_base64 c \<and> c \<noteq> CHR ''='') base64_chars"
    unfolding base64_chars_def by code_simp
  then show "c \<in> set base64_chars \<Longrightarrow> is_base64 c \<and> c \<noteq> CHR ''=''" by (simp add: list_all_iff)
qed

lemma find_index_nth: "distinct xs \<Longrightarrow> i < length xs \<Longrightarrow> find_index xs (xs ! i) = Some i"
proof (induction xs arbitrary: i)
  case Nil
  then show ?case by simp
next
  case (Cons x xs)
  then show ?case by (cases i) (auto dest: nth_mem)
qed

lemma find_base64_char: "unat b < 64 \<Longrightarrow> base64_find (byte_of (base64_char b)) = b"
  using find_index_nth [OF base64_chars_distinct, of "unat b"]
  by (simp add: base64_find_def base64_char_def base64_chars_length)

lemma base64_char_legal: "unat b < 64 \<Longrightarrow> is_base64 (base64_char b) \<and> base64_char b \<noteq> CHR ''=''"
  using base64_chars_legal [of "base64_char b"]
  by (simp add: base64_char_def base64_chars_length)

text \<open>The masks of the code select bit ranges of a byte.\<close>

lemma sextet_bound:
  fixes w :: byte
  assumes "\<not> bit w 6" and "\<not> bit w 7"
  shows "unat w < 64"
proof -
  have "take_bit 6 w = w" by (rule byte_eqI) (use assms in \<open>simp_all add: bit_simps\<close>)
  then have "unat w = take_bit 6 (unat w)" by (metis unsigned_take_bit_eq)
  then show ?thesis using take_bit_nat_less_exp [of 6 "unat w"] by simp
qed

lemma to_array_4_or:
  "to_array_4 [a, b, c] =
     [drop_bit 2 (a AND 0xfc), push_bit 4 (a AND 0x03) OR drop_bit 4 (b AND 0xf0),
      push_bit 2 (b AND 0x0f) OR drop_bit 6 (c AND 0xc0), c AND 0x3f]"
proof -
  have "push_bit 4 (a AND 0x03) AND drop_bit 4 (b AND 0xf0) = 0"
    by (rule byte_eqI) (simp_all add: bit_simps)
  moreover have "push_bit 2 (b AND 0x0f) AND drop_bit 6 (c AND 0xc0) = 0"
    by (rule byte_eqI) (simp_all add: bit_simps)
  ultimately show ?thesis by (simp add: to_array_4_def disjunctive_add_eq_or)
qed

lemma to_array_4_bound: "w \<in> set (to_array_4 [a, b, c]) \<Longrightarrow> unat w < 64"
  by (auto simp: to_array_4_or intro!: sextet_bound simp: bit_simps)

lemma to_array_3_or2:
  "take 2 (to_array_3 [w, x, y, z]) =
     [push_bit 2 w OR drop_bit 4 (x AND 0x30), push_bit 4 (x AND 0x0f) OR drop_bit 2 (y AND 0x3c)]"
proof -
  have "push_bit 2 w AND drop_bit 4 (x AND 0x30) = 0"
    by (rule byte_eqI) (simp_all add: bit_simps)
  moreover have "push_bit 4 (x AND 0x0f) AND drop_bit 2 (y AND 0x3c) = 0"
    by (rule byte_eqI) (simp_all add: bit_simps)
  ultimately show ?thesis by (simp add: to_array_3_def disjunctive_add_eq_or)
qed

lemma to_array_3_or3:
  assumes "\<not> bit z 6" and "\<not> bit z 7"
  shows "drop 2 (to_array_3 [w, x, y, z]) = [push_bit 6 (y AND 0x03) OR z]"
proof -
  have "push_bit 6 (y AND 0x03) AND z = 0"
    by (rule byte_eqI) (use assms in \<open>simp_all add: bit_simps\<close>)
  then show ?thesis by (simp add: to_array_3_def disjunctive_add_eq_or)
qed

lemma sextets_back:
  "push_bit 2 (drop_bit 2 (a AND 0xfc)) OR
     drop_bit 4 ((push_bit 4 (a AND 0x03) OR drop_bit 4 (b AND 0xf0)) AND 0x30) = (a :: byte)"
  "push_bit 4 ((push_bit 4 (a AND 0x03) OR drop_bit 4 (b AND 0xf0)) AND 0x0f) OR
     drop_bit 2 ((push_bit 2 (b AND 0x0f) OR drop_bit 6 (c AND 0xc0)) AND 0x3c) = (b :: byte)"
  "push_bit 6 ((push_bit 2 (b AND 0x0f) OR drop_bit 6 (c AND 0xc0)) AND 0x03) OR (c AND 0x3f) = (c :: byte)"
  by (rule byte_eqI; simp add: bit_simps)+

lemma decode_quad:
  "to_array_3 (to_array_4 [a, b, c]) = [a, b, c]"
proof -
  have z: "\<not> bit (c AND 0x3f) 6" "\<not> bit (c AND 0x3f) 7" by (simp_all add: bit_simps)
  have "take 2 (to_array_3 (to_array_4 [a, b, c])) @ drop 2 (to_array_3 (to_array_4 [a, b, c])) =
      [a, b] @ [c]"
    unfolding to_array_4_or to_array_3_or2 to_array_3_or3 [OF z] sextets_back ..
  then show ?thesis by simp
qed

lemma decode_partial:
  "take 2 (to_array_3 (take 3 (to_array_4 [a, b, c]) @ [z])) = [a, b]"
  "take 1 (to_array_3 (take 2 (to_array_4 [a, b, c]) @ [y, z])) = [a]"
proof -
  have "take 3 [w, x, y, z] @ [z'] = [w, x, y, z']" for w x y z z' :: byte
    by (simp add: numeral_eq_Suc)
  then show *: "take 2 (to_array_3 (take 3 (to_array_4 [a, b, c]) @ [z])) = [a, b]" for z
    unfolding to_array_4_or by (simp only: to_array_3_or2 sextets_back)
  have "take 1 (to_array_3 (take 2 (to_array_4 [a, b, c]) @ [y, z])) =
      take 1 (take 2 (to_array_3 (take 3 (to_array_4 [a, b, c]) @ [z])))"
    by (simp add: to_array_4_def to_array_3_def numeral_eq_Suc)
  with * show "take 1 (to_array_3 (take 2 (to_array_4 [a, b, c]) @ [y, z])) = [a]" by simp
qed

section \<open>Round trip\<close>

lemma decode_loop_4:
  assumes "length a4 = 4" and "unat w < 64" "unat x < 64" "unat y < 64" "unat z < 64"
  shows "decode_loop (map base64_char [w, x, y, z] @ cs) a4 0 ret =
    decode_loop cs [w, x, y, z] 0 (ret @ to_array_3 [w, x, y, z])"
proof -
  obtain p q r s where "a4 = [p, q, r, s]"
    using assms(1) by (auto simp: numeral_eq_Suc length_Suc_conv)
  with assms(2-5) show ?thesis by (simp add: base64_char_legal find_base64_char Let_def)
qed

lemma decode_loop_rest:
  assumes "length a4 = 4" and "unat w < 64" "unat x < 64" "unat y < 64"
  shows "decode_loop (map base64_char [w, x] @ CHR ''='' # cs) a4 0 ret =
      (a4[0 := byte_of (base64_char w), 1 := byte_of (base64_char x)], 2, ret)"
    and "decode_loop (map base64_char [w, x, y] @ CHR ''='' # cs) a4 0 ret =
      (a4[0 := byte_of (base64_char w), 1 := byte_of (base64_char x), 2 := byte_of (base64_char y)], 3, ret)"
proof -
  obtain p q r s where "a4 = [p, q, r, s]"
    using assms(1) by (auto simp: numeral_eq_Suc length_Suc_conv)
  with assms(2-4) show "decode_loop (map base64_char [w, x] @ CHR ''='' # cs) a4 0 ret =
      (a4[0 := byte_of (base64_char w), 1 := byte_of (base64_char x)], 2, ret)"
    and "decode_loop (map base64_char [w, x, y] @ CHR ''='' # cs) a4 0 ret =
      (a4[0 := byte_of (base64_char w), 1 := byte_of (base64_char x), 2 := byte_of (base64_char y)], 3, ret)"
    by (simp_all add: base64_char_legal Let_def numeral_eq_Suc)
qed

definition decode_end :: "byte list \<times> nat \<times> byte list \<Rightarrow> byte list" where
  "decode_end r =
     (case r of (a4, i, ret) \<Rightarrow>
        if i = 0 then ret
        else ret @ take (i - 1) (to_array_3 (map base64_find (zero_from i a4))))"

lemma decode_encode_ref:
  assumes "length a4 = 4"
  shows "decode_end (decode_loop (encode_ref bs) a4 0 ret) = ret @ bs"
  using assms
proof (induction bs arbitrary: a4 ret rule: encode_ref.induct)
  case 1
  then show ?case by (simp add: decode_end_def)
next
  case (2 a)
  obtain w x y z where W: "to_array_4 [a, 0, 0] = [w, x, y, z]" by (simp add: to_array_4_def)
  then have b: "unat w < 64" "unat x < 64" "unat y < 64" using to_array_4_bound [of _ a 0 0] by auto
  obtain p q r s where A: "a4 = [p, q, r, s]"
    using "2.prems" by (auto simp: numeral_eq_Suc length_Suc_conv)
  have "encode_ref [a] = map base64_char [w, x] @ CHR ''='' # ''=''" using W by simp
  with decode_loop_rest(1) [OF "2.prems" b] A b decode_partial(2) [of a 0 0] W show ?case
    by (simp add: decode_end_def zero_from_def find_base64_char numeral_eq_Suc)
next
  case (3 a b)
  obtain w x y z where W: "to_array_4 [a, b, 0] = [w, x, y, z]" by (simp add: to_array_4_def)
  then have b: "unat w < 64" "unat x < 64" "unat y < 64" using to_array_4_bound [of _ a b 0] by auto
  obtain p q r s where A: "a4 = [p, q, r, s]"
    using "3.prems" by (auto simp: numeral_eq_Suc length_Suc_conv)
  have "encode_ref [a, b] = map base64_char [w, x, y] @ CHR ''='' # []" using W by (simp add: numeral_eq_Suc)
  with decode_loop_rest(2) [OF "3.prems" b] A b decode_partial(1) [of a b 0] W show ?case
    by (simp add: decode_end_def zero_from_def find_base64_char numeral_eq_Suc)
next
  case (4 a b c bs)
  obtain w x y z where W: "to_array_4 [a, b, c] = [w, x, y, z]" by (simp add: to_array_4_def)
  then have b: "unat w < 64" "unat x < 64" "unat y < 64" "unat z < 64"
    using to_array_4_bound [of _ a b c] by auto
  have "encode_ref (a # b # c # bs) = map base64_char [w, x, y, z] @ encode_ref bs" using W by simp
  with decode_loop_4 [OF "4.prems" b] "4.IH" [of "[w, x, y, z]"] decode_quad [of a b c] W
  show ?case by simp
qed

text \<open>
  Decoding an encoded byte string gives it back, for every length modulo three.
\<close>

theorem base64_round_trip: "base64_decode (base64_encode bs) = bs"
  using decode_encode_ref [of "[0, 0, 0, 0]" bs "[]"]
  by (simp add: base64_decode_def encode_eq_ref decode_end_def split: prod.splits)

lemma encode_ref_length: "length (encode_ref bs) = 4 * ((length bs + 2) div 3)"
proof (induction bs rule: encode_ref.induct)
  case (4 a b c bs)
  have "(length (a # b # c # bs) + 2) div 3 = (length bs + 2) div 3 + 1"
    using div_add_self2 [of 3 "length bs + 2"] by (simp add: algebra_simps)
  moreover have "length (encode_ref (a # b # c # bs)) = 4 + length (encode_ref bs)"
    by (simp add: to_array_4_def)
  ultimately show ?case using 4 by (simp only: distrib_left mult_1_right add.commute)
qed (simp_all add: to_array_4_def)

lemma quad_chars: "set (map base64_char (to_array_4 [a, b, c])) \<subseteq> set base64_chars"
proof -
  have "base64_char w \<in> set base64_chars" if "unat w < 64" for w
    using that by (simp add: base64_char_def base64_chars_length)
  then show ?thesis using to_array_4_bound [of _ a b c] by auto
qed

lemma encode_ref_chars: "set (encode_ref bs) \<subseteq> set base64_chars \<union> {CHR ''=''}"
proof (induction bs rule: encode_ref.induct)
  case (2 a)
  have "set (take 2 (map base64_char (to_array_4 [a, 0, 0]))) \<subseteq> set base64_chars"
    using quad_chars [of a 0 0] set_take_subset [of 2] by (rule order_trans [rotated])
  then show ?case by (simp only: encode_ref.simps set_append) auto
next
  case (3 a b)
  have "set (take 3 (map base64_char (to_array_4 [a, b, 0]))) \<subseteq> set base64_chars"
    using quad_chars [of a b 0] set_take_subset [of 3] by (rule order_trans [rotated])
  then show ?case by (simp only: encode_ref.simps set_append) auto
next
  case (4 a b c bs)
  then show ?case using quad_chars [of a b c] by (simp only: encode_ref.simps set_append Un_subset_iff) blast
qed simp

text \<open>
  The encoder, with its three-byte window and its padding loop, computes the
  recursive base64 function; its output has four characters for every started
  group of three bytes, all from the alphabet or the padding sign.
\<close>

theorem base64_encode_shape:
  "base64_encode bs = encode_ref bs \<and> length (base64_encode bs) = 4 * ((length bs + 2) div 3) \<and>
   set (base64_encode bs) \<subseteq> set base64_chars \<union> {CHR ''=''}"
  using encode_ref_length [of bs] encode_ref_chars [of bs] by (simp only: encode_eq_ref simp_thms)

end
