(* ===== verification/Http_Service.thy ===== *)
theory Http_Service
  imports Http_Wrapper Sha1 Base64
begin

text \<open>
  The service of \<open>net/http/HttpService.cpp\<close>: what happens to the bytes a session
  receives. Before the upgrade they go to the HTTP parser, after it to the
  WebSocket loop. What the service does to the outside (bytes sent, user
  callbacks run) is a list of events; whether a callback is set is a record.
\<close>

section \<open>The handshake\<close>

definition ws_guid :: string where
  "ws_guid = ''258EAFA5-E914-47DA-95CA-C5AB0DC85B11''"

definition crlf :: string where
  "crlf = [CHR 0x0D, CHR 0x0A]"

definition handshake_head :: string where
  "handshake_head =
     ''HTTP/1.1 101 Switching Protocols'' @ crlf @ ''Upgrade: websocket'' @ crlf @
     ''Connection: Upgrade'' @ crlf @ ''Sec-WebSocket-Accept: ''"

text \<open>\<open>mem\<close> is what the uninitialised \<open>CSHA1\<close> object holds.\<close>

definition wsHandshake :: "csha1 \<Rightarrow> string \<Rightarrow> string option" where
  "wsHandshake mem secKey =
     do {
       s \<leftarrow> Update (map byte_of (secKey @ ws_guid)) (CSHA1_new mem);
       s \<leftarrow> Final s;
       Some (handshake_head @ base64_encode (GetHash s) @ crlf @ crlf)
     }"

section \<open>Sessions\<close>

datatype http_event =
    Ev_send string
  | Ev_ws_connected http_object
  | Ev_ws_message ws_frame_type "byte list"
  | Ev_http_request http_object

record session_cbs =
  has_http_cb :: bool
  has_ws_cb :: bool
  has_ws_connected_cb :: bool

text \<open>One frame of the loop of \<open>ProcessWebSocket\<close>, after a successful extraction.\<close>

definition ws_step :: "session_cbs \<Rightarrow> ws_out \<Rightarrow> http_data \<Rightarrow> http_data \<times> http_event list" where
  "ws_step cbs out d =
     (let isFin = ws_fin out; opcode = ws_opcode out; parseString = ws_payload out;
          d = (if \<not> isFin \<or> opcode = CONTINUATION_FRAME
               then d\<lparr>mWSCacheFrame := mWSCacheFrame d @ parseString\<rparr> else d);
          d = (if \<not> isFin \<and> opcode \<noteq> CONTINUATION_FRAME then d\<lparr>mWSFrameType := opcode\<rparr> else d)
      in if \<not> isFin then (d\<lparr>mWSParsePayload := parseString\<rparr>, [])
         else let take_cache = (opcode = CONTINUATION_FRAME \<and> mWSCacheFrame d \<noteq> []);
                  parseString = (if take_cache then mWSCacheFrame d else parseString);
                  d' = (if take_cache then d\<lparr>mWSCacheFrame := []\<rparr> else d);
                  opcode = (if opcode = CONTINUATION_FRAME then mWSFrameType d else opcode)
              in (d'\<lparr>mWSParsePayload := parseString\<rparr>,
                  if has_ws_cb cbs then [Ev_ws_message opcode parseString] else []))"

function ws_loop ::
    "session_cbs \<Rightarrow> byte list \<Rightarrow> http_data \<Rightarrow> (nat \<times> http_data \<times> http_event list) option" where
  "ws_loop cbs buf d =
     (if buf = [] then Some (0, d, [])
      else case wsFrameExtractBuffer buf blank_out of
        None \<Rightarrow> None
      | Some (ok, out) \<Rightarrow>
          if \<not> ok then Some (0, d\<lparr>mWSParsePayload := ws_payload out\<rparr>, [])
          else let (d', evs) = ws_step cbs out d in
            map_option (\<lambda>(n, d'', evs'). (ws_frameSize out + n, d'', evs @ evs'))
              (ws_loop cbs (drop (ws_frameSize out) buf) d'))"
  by pat_completeness auto
termination
proof (relation "measure (\<lambda>(cbs, buf, d). length buf)", goal_cases)
  case (2 cbs buf d r ok out x d' evs)
  then have "wsFrameExtractBuffer buf blank_out = Some (ok, out)" "ok" by auto
  with extract_total [of buf blank_out] have "2 \<le> ws_frameSize out" by auto
  with 2 show ?case by (simp add: diff_less length_greater_0_conv)
qed simp

declare ws_loop.simps [simp del]

definition ProcessWebSocket ::
    "session_cbs \<Rightarrow> byte list \<Rightarrow> http_object \<Rightarrow> (nat \<times> http_object \<times> http_event list) option" where
  "ProcessWebSocket cbs buf hp =
     map_option (\<lambda>(n, d, evs). (n, hp\<lparr>hp_data := d\<rparr>, evs)) (ws_loop cbs buf (hp_data hp))"

definition ProcessHttp ::
    "csha1 \<Rightarrow> session_cbs \<Rightarrow> byte list \<Rightarrow> http_object \<Rightarrow> (nat \<times> http_object \<times> http_event list) option" where
  "ProcessHttp mem cbs buf hp =
     do {
       (retlen, hp) \<leftarrow> (if mISCompleted (hp_data hp) then Some (length buf, hp)
                        else tryParse hp (map char_of_byte buf));
       if \<not> mISCompleted (hp_data hp) then Some (retlen, hp, [])
       else if mIsWebSocket (hp_data hp)
       then do {
         sent \<leftarrow> (if hasKey hp ''Sec-WebSocket-Key''
                  then map_option (\<lambda>r. [Ev_send r]) (wsHandshake mem (getValue hp ''Sec-WebSocket-Key''))
                  else Some []);
         Some (retlen, hp, sent @ (if has_ws_connected_cb cbs then [Ev_ws_connected hp] else []))
       }
       else Some (retlen, if mIsKeepAlive (hp_data hp) then clearParse hp else hp,
                  if has_http_cb cbs then [Ev_http_request hp] else [])
     }"

text \<open>The data callback of \<open>HttpService::handle\<close>.\<close>

definition http_data_callback ::
    "csha1 \<Rightarrow> session_cbs \<Rightarrow> byte list \<Rightarrow> http_object \<Rightarrow> (nat \<times> http_object \<times> http_event list) option" where
  "http_data_callback mem cbs buf hp =
     (if mIsWebSocket (hp_data hp) then ProcessWebSocket cbs buf hp
      else ProcessHttp mem cbs buf hp)"

section \<open>The WebSocket loop is total\<close>

lemma ws_loop_total:
  "\<exists>n d' evs. ws_loop cbs buf d = Some (n, d', evs) \<and> n \<le> length buf"
proof (induction cbs buf d rule: ws_loop.induct)
  case (1 cbs buf d)
  obtain ok out where E: "wsFrameExtractBuffer buf blank_out = Some (ok, out)"
    "ok \<Longrightarrow> 2 \<le> ws_frameSize out \<and> ws_frameSize out \<le> length buf"
    using extract_total [of buf blank_out] by auto
  show ?case
  proof (cases "buf = [] \<or> \<not> ok")
    case True
    with E show ?thesis by (auto simp: ws_loop.simps [of cbs buf])
  next
    case False
    obtain d' evs where S: "ws_step cbs out d = (d', evs)" by (cases "ws_step cbs out d")
    with 1 False E obtain n d'' evs' where
      "ws_loop cbs (drop (ws_frameSize out) buf) d' = Some (n, d'', evs')"
      "n \<le> length buf - ws_frameSize out" by fastforce
    with False E S show ?thesis by (auto simp: ws_loop.simps [of cbs buf])
  qed
qed

section \<open>Frames of a stream\<close>

definition view_out :: "byte list \<times> ws_frame_type \<times> bool \<Rightarrow> nat \<Rightarrow> ws_out" where
  "view_out v n = (case v of (p, t, fin) \<Rightarrow>
     \<lparr>ws_payload = p, ws_opcode = t, ws_frameSize = n, ws_fin = fin\<rparr>)"

lemma ws_step_size: "ws_step cbs (view_out v n) d = ws_step cbs (view_out v 0) d"
  by (simp add: ws_step_def view_out_def split: prod.split)

fun ws_steps :: "session_cbs \<Rightarrow> (byte list \<times> ws_frame_type \<times> bool) list \<Rightarrow> http_data \<Rightarrow>
    http_data \<times> http_event list" where
  "ws_steps cbs [] d = (d, [])"
| "ws_steps cbs (v # vs) d =
     (let (d', evs) = ws_step cbs (view_out v 0) d; (d'', evs') = ws_steps cbs vs d'
      in (d'', evs @ evs'))"

lemma ws_steps_append:
  "ws_steps cbs (vs @ us) d =
     (let (d', evs) = ws_steps cbs vs d; (d'', evs') = ws_steps cbs us d' in (d'', evs @ evs'))"
  by (induction vs arbitrary: d) (simp_all add: Let_def split: prod.split)

lemma extract_frame:
  "frame_ok f \<Longrightarrow> wsFrameExtractBuffer (frame_bytes f @ rest) blank_out =
     Some (True, view_out (frame_view f) (length (frame_bytes f)))"
  by (simp add: frame_ok_def frame_bytes_def frame_view_def build_extract blank_out_def view_out_def)

text \<open>The loop consumes the complete frames of its input and runs a step for each.\<close>

lemma ws_loop_frames:
  assumes "list_all frame_ok fs" and "frame_ok g" and "k < length (frame_bytes g)"
    and "ws_steps cbs (map frame_view fs) d = (d', evs)"
  shows "\<exists>p. ws_loop cbs (concat (map frame_bytes fs) @ take k (frame_bytes g)) d =
    Some (length (concat (map frame_bytes fs)), d'\<lparr>mWSParsePayload := p\<rparr>, evs)"
  using assms(1,4)
proof (induction fs arbitrary: d evs)
  case Nil
  show ?case
  proof (cases "take k (frame_bytes g) = []")
    case True
    with Nil show ?thesis
      by (intro exI [of _ "mWSParsePayload d'"]) (simp add: ws_loop.simps [of cbs "[]"] del: take_eq_Nil)
  next
    case False
    obtain out' where "wsFrameExtractBuffer (take k (frame_bytes g)) blank_out = Some (False, out')"
      using prefix_extract assms(2,3) unfolding frame_ok_def frame_bytes_def by blast
    with False Nil show ?thesis
      by (intro exI [of _ "ws_payload out'"])
        (simp add: ws_loop.simps [of cbs "take k (frame_bytes g)"] del: take_eq_Nil)
  qed
next
  case (Cons f fs)
  let ?rest = "concat (map frame_bytes fs) @ take k (frame_bytes g)"
  have f: "frame_ok f" "list_all frame_ok fs" using Cons.prems(1) by simp_all
  obtain d1 evs1 where S: "ws_step cbs (view_out (frame_view f) 0) d = (d1, evs1)"
    by (cases "ws_step cbs (view_out (frame_view f) 0) d")
  obtain d2 evs2 where S2: "ws_steps cbs (map frame_view fs) d1 = (d2, evs2)"
    by (cases "ws_steps cbs (map frame_view fs) d1")
  with Cons.prems(2) S have d: "d2 = d'" "evs = evs1 @ evs2" by (simp_all)
  from Cons.IH [OF f(2), of d1 evs2] S2 d(1) obtain p where
    L: "ws_loop cbs ?rest d1 = Some (length (concat (map frame_bytes fs)), d'\<lparr>mWSParsePayload := p\<rparr>, evs2)"
    by blast
  have ne: "frame_bytes f \<noteq> []" using f(1) by (rule ws.build_nonempty)
  have size: "ws_frameSize (view_out v n) = n" for v n by (simp add: view_out_def split: prod.split)
  have "ws_loop cbs (frame_bytes f @ ?rest) d =
      Some (length (frame_bytes f) + length (concat (map frame_bytes fs)), d'\<lparr>mWSParsePayload := p\<rparr>, evs)"
    using ne extract_frame [OF f(1), of ?rest] L d(2)
      trans [OF ws_step_size [of cbs "frame_view f" "length (frame_bytes f)" d] S]
    by (simp add: ws_loop.simps [of cbs "frame_bytes f @ ?rest"] size)
  then show ?case by (intro exI [of _ p]) simp
qed

section \<open>Messages\<close>

text \<open>
  A WebSocket message is one frame, or a first fragment, continuation fragments
  and a last one; between fragments the peer may send unfragmented messages
  (pings, pongs). Their payloads are given with the type of the message.
\<close>

type_synonym ws_msg = "ws_frame_type \<times> byte list"

datatype ws_item =
    Whole ws_msg
  | Fragmented ws_frame_type "byte list" "(ws_msg list \<times> byte list) list" "ws_msg list" "byte list"

definition whole_views :: "ws_msg list \<Rightarrow> (byte list \<times> ws_frame_type \<times> bool) list" where
  "whole_views ms = map (\<lambda>(t, p). (p, t, True)) ms"

fun item_views :: "ws_item \<Rightarrow> (byte list \<times> ws_frame_type \<times> bool) list" where
  "item_views (Whole m) = whole_views [m]"
| "item_views (Fragmented t p mids cs q) =
     (p, t, False) # concat (map (\<lambda>(cs, p). whole_views cs @ [(p, CONTINUATION_FRAME, False)]) mids) @
     whole_views cs @ [(q, CONTINUATION_FRAME, True)]"

fun item_msgs :: "ws_item \<Rightarrow> ws_msg list" where
  "item_msgs (Whole m) = [m]"
| "item_msgs (Fragmented t p mids cs q) =
     concat (map fst mids) @ cs @ [(t, p @ concat (map snd mids) @ q)]"

definition msg_ok :: "ws_msg \<Rightarrow> bool" where
  "msg_ok m \<longleftrightarrow> fst m \<noteq> CONTINUATION_FRAME"

fun item_ok :: "ws_item \<Rightarrow> bool" where
  "item_ok (Whole m) \<longleftrightarrow> msg_ok m"
| "item_ok (Fragmented t p mids cs q) \<longleftrightarrow> t \<noteq> CONTINUATION_FRAME \<and>
     list_all (\<lambda>(cs, _). list_all msg_ok cs) mids \<and> list_all msg_ok cs"

definition msg_events :: "session_cbs \<Rightarrow> ws_msg list \<Rightarrow> http_event list" where
  "msg_events cbs ms = (if has_ws_cb cbs then map (\<lambda>(t, p). Ev_ws_message t p) ms else [])"

lemma msg_events_append [simp]: "msg_events cbs (ms @ ns) = msg_events cbs ms @ msg_events cbs ns"
  by (simp add: msg_events_def)

lemma msg_events_Nil [simp]: "msg_events cbs [] = []"
  by (simp add: msg_events_def)

text \<open>The two fields that matter between frames.\<close>

definition ws_holds :: "ws_frame_type option \<Rightarrow> byte list \<Rightarrow> http_data \<Rightarrow> bool" where
  "ws_holds t c d \<longleftrightarrow> mWSCacheFrame d = c \<and> (\<forall>t'. t = Some t' \<longrightarrow> mWSFrameType d = t')"

lemma steps_whole:
  assumes "list_all msg_ok ms" and "ws_holds t c d"
  shows "\<exists>d'. ws_steps cbs (whole_views ms) d = (d', msg_events cbs ms) \<and> ws_holds t c d'"
  using assms
proof (induction ms arbitrary: d)
  case Nil
  then show ?case by (simp add: whole_views_def)
next
  case (Cons m ms)
  obtain ty p where m: "m = (ty, p)" by (cases m)
  with Cons.prems have S: "ws_step cbs (view_out (p, ty, True) 0) d =
      (d\<lparr>mWSParsePayload := p\<rparr>, msg_events cbs [m])" and H: "ws_holds t c (d\<lparr>mWSParsePayload := p\<rparr>)"
    by (simp_all add: ws_step_def view_out_def msg_ok_def msg_events_def ws_holds_def)
  from Cons.IH [OF _ H] Cons.prems(1) obtain d' where
    "ws_steps cbs (whole_views ms) (d\<lparr>mWSParsePayload := p\<rparr>) = (d', msg_events cbs ms)" "ws_holds t c d'"
    by auto
  with S m show ?case by (auto simp: whole_views_def msg_events_def)
qed

lemma steps_mids:
  assumes "list_all (\<lambda>(cs, _). list_all msg_ok cs) mids" and "ws_holds t c d"
  shows "\<exists>d'. ws_steps cbs (concat (map (\<lambda>(cs, p). whole_views cs @ [(p, CONTINUATION_FRAME, False)]) mids)) d =
    (d', msg_events cbs (concat (map fst mids))) \<and> ws_holds t (c @ concat (map snd mids)) d'"
  using assms
proof (induction mids arbitrary: c d)
  case Nil
  then show ?case by simp
next
  case (Cons m mids)
  obtain cs p where m: "m = (cs, p)" by (cases m)
  with Cons.prems obtain d1 where 1: "ws_steps cbs (whole_views cs) d = (d1, msg_events cbs cs)"
    "ws_holds t c d1" using steps_whole [of cs t c d cbs] by auto
  define d2 where "d2 = d1\<lparr>mWSCacheFrame := mWSCacheFrame d1 @ p, mWSParsePayload := p\<rparr>"
  have 2: "ws_step cbs (view_out (p, CONTINUATION_FRAME, False) 0) d1 = (d2, [])"
    "ws_holds t (c @ p) d2"
    using 1(2) by (simp_all add: ws_step_def view_out_def d2_def ws_holds_def)
  from Cons.IH [OF _ 2(2)] Cons.prems(1) m obtain d3 where
    "ws_steps cbs (concat (map (\<lambda>(cs, p). whole_views cs @ [(p, CONTINUATION_FRAME, False)]) mids)) d2 =
      (d3, msg_events cbs (concat (map fst mids)))" "ws_holds t ((c @ p) @ concat (map snd mids)) d3"
    by auto
  with 1 2 m show ?case by (simp add: ws_steps_append)
qed

lemma step_last:
  "mWSCacheFrame d = c \<Longrightarrow> ws_step cbs (view_out (q, CONTINUATION_FRAME, True) 0) d =
     (d\<lparr>mWSCacheFrame := [], mWSParsePayload := c @ q\<rparr>, msg_events cbs [(mWSFrameType d, c @ q)])"
  by (cases "c = []"; cases "q = []") (simp_all add: ws_step_def view_out_def msg_events_def Let_def)

lemma steps_item:
  assumes "item_ok it" and "ws_holds t [] d"
  shows "\<exists>d' t'. ws_steps cbs (item_views it) d = (d', msg_events cbs (item_msgs it)) \<and> ws_holds t' [] d'"
proof (cases it)
  case (Whole m)
  with assms steps_whole [of "[m]" t "[]" d cbs] show ?thesis by auto
next
  case (Fragmented ty p mids cs q)
  define d1 where "d1 = d\<lparr>mWSCacheFrame := p, mWSFrameType := ty, mWSParsePayload := p\<rparr>"
  have 1: "ws_step cbs (view_out (p, ty, False) 0) d = (d1, [])" "ws_holds (Some ty) p d1"
    using assms Fragmented by (simp_all add: ws_step_def view_out_def d1_def ws_holds_def)
  obtain d2 where 2: "ws_steps cbs (concat (map (\<lambda>(cs, p). whole_views cs @ [(p, CONTINUATION_FRAME, False)]) mids)) d1 =
      (d2, msg_events cbs (concat (map fst mids)))" "ws_holds (Some ty) (p @ concat (map snd mids)) d2"
    using steps_mids [OF _ 1(2)] assms(1) Fragmented by auto
  obtain d3 where 3: "ws_steps cbs (whole_views cs) d2 = (d3, msg_events cbs cs)"
    "ws_holds (Some ty) (p @ concat (map snd mids)) d3"
    using steps_whole [OF _ 2(2)] assms(1) Fragmented by auto
  let ?all = "p @ concat (map snd mids) @ q"
  have 4: "ws_step cbs (view_out (q, CONTINUATION_FRAME, True) 0) d3 =
      (d3\<lparr>mWSCacheFrame := [], mWSParsePayload := ?all\<rparr>, msg_events cbs [(ty, ?all)])"
    using 3(2) step_last [of d3 "p @ concat (map snd mids)" cbs q] by (simp add: ws_holds_def)
  have "ws_holds None [] (d3\<lparr>mWSCacheFrame := [], mWSParsePayload := ?all\<rparr>)"
    by (simp add: ws_holds_def)
  with 1 2 3 4 Fragmented show ?thesis by (auto simp: ws_steps_append)
qed

lemma steps_items:
  assumes "list_all item_ok its" and "ws_holds t [] d"
  shows "\<exists>d'. ws_steps cbs (concat (map item_views its)) d =
    (d', msg_events cbs (concat (map item_msgs its))) \<and> mWSCacheFrame d' = []"
  using assms
proof (induction its arbitrary: t d)
  case Nil
  then show ?case by (simp add: ws_holds_def)
next
  case (Cons it its)
  obtain d1 t1 where 1: "ws_steps cbs (item_views it) d = (d1, msg_events cbs (item_msgs it))"
    "ws_holds t1 [] d1" using steps_item [of it t d cbs] Cons.prems by auto
  from Cons.IH [OF _ 1(2)] Cons.prems(1) obtain d' where
    "ws_steps cbs (concat (map item_views its)) d1 = (d', msg_events cbs (concat (map item_msgs its)))"
    "mWSCacheFrame d' = []" by auto
  with 1 show ?case by (auto simp: ws_steps_append)
qed

text \<open>
  C9. A peer sends WebSocket messages, whole or in fragments, with whole
  messages between the fragments, masked or not; the bytes arrive followed by a
  part of a further frame. Then one call of \<open>ProcessWebSocket\<close> runs the user's
  callback once for every message, in order of completion, each with its type
  and the joined payload of its fragments; it consumes exactly the complete
  frames and leaves no fragment in the cache.
\<close>

theorem websocket_messages_delivered:
  assumes "list_all item_ok its" and "map frame_view fs = concat (map item_views its)"
    and "list_all frame_ok fs" and "frame_ok g" and "k < length (frame_bytes g)"
    and "mWSCacheFrame (hp_data hp) = []"
  shows "\<exists>hp'. ProcessWebSocket cbs (concat (map frame_bytes fs) @ take k (frame_bytes g)) hp =
      Some (length (concat (map frame_bytes fs)), hp', msg_events cbs (concat (map item_msgs its))) \<and>
    mWSCacheFrame (hp_data hp') = []"
proof -
  have "ws_holds None [] (hp_data hp)" using assms(6) by (simp add: ws_holds_def)
  from steps_items [OF assms(1) this, of cbs] obtain d' where
    d': "ws_steps cbs (map frame_view fs) (hp_data hp) = (d', msg_events cbs (concat (map item_msgs its)))"
      "mWSCacheFrame d' = []" unfolding assms(2) by auto
  from ws_loop_frames [OF assms(3-5) d'(1)] d'(2) show ?thesis by (auto simp: ProcessWebSocket_def)
qed

definition sample_cbs :: session_cbs where
  "sample_cbs = \<lparr>has_http_cb = True, has_ws_cb = True, has_ws_connected_cb = True\<rparr>"

definition fragment :: "byte list \<Rightarrow> ws_frame_type \<Rightarrow> bool \<Rightarrow> ws_frame" where
  "fragment p t fin = \<lparr>wf_rnd = [1, 2, 3, 4], wf_payload = p, wf_type = t, wf_fin = fin, wf_masking = True\<rparr>"

theorem websocket_messages_delivered_witness:
  "\<exists>hp'. ProcessWebSocket sample_cbs
      (concat (map frame_bytes [fragment [65] TEXT_FRAME False, fragment [7] PING_FRAME True,
         fragment [66] CONTINUATION_FRAME True]) @ take 1 (frame_bytes sample_frame)) blank_object =
      Some (length (concat (map frame_bytes [fragment [65] TEXT_FRAME False, fragment [7] PING_FRAME True,
         fragment [66] CONTINUATION_FRAME True])), hp',
        [Ev_ws_message PING_FRAME [7], Ev_ws_message TEXT_FRAME [65, 66]]) \<and>
    mWSCacheFrame (hp_data hp') = []"
proof -
  let ?its = "[Fragmented TEXT_FRAME [65] [] [(PING_FRAME, [7])] [66]]"
  let ?fs = "[fragment [65] TEXT_FRAME False, fragment [7] PING_FRAME True,
    fragment [66] CONTINUATION_FRAME True]"
  note types = TEXT_FRAME_def PING_FRAME_def CONTINUATION_FRAME_def
  have "list_all item_ok ?its" by (simp add: msg_ok_def types)
  moreover have "map frame_view ?fs = concat (map item_views ?its)"
    by (simp add: frame_view_def fragment_def whole_views_def)
  moreover have "list_all frame_ok ?fs" "frame_ok sample_frame"
    by (simp_all add: frame_ok_def fragment_def sample_frame_def types)
  moreover have "1 < length (frame_bytes sample_frame)"
    by (simp add: frame_bytes_def sample_frame_def wsFrameBuild_def length_bytes_def)
  moreover have "mWSCacheFrame (hp_data blank_object) = []"
    by (simp add: blank_object_def blank_data_def)
  ultimately show ?thesis
    using websocket_messages_delivered [of ?its ?fs sample_frame 1 blank_object sample_cbs]
    by (simp only: msg_events_def) (simp add: sample_cbs_def)
qed

section \<open>The handshake and the data callback\<close>

lemma wsHandshake_value:
  assumes "length (m_buffer mem) = 64" and "length secKey < 2 ^ 31"
  shows "wsHandshake mem secKey =
    Some (handshake_head @ base64_encode (sha1_ref (map byte_of (secKey @ ws_guid))) @ crlf @ crlf)"
proof -
  let ?msg = "map byte_of (secKey @ ws_guid)"
  have len: "length ?msg = length secKey + 36" by (simp add: ws_guid_def)
  obtain s where s: "Update ?msg (CSHA1_new mem) = Some s" "sha_inv ?msg s"
    using Update_ok [OF sha_new_inv [OF assms(1)], of ?msg] len assms(2) by auto
  from Final_ok [OF s(2)] len assms(2) obtain s' where "Final s = Some s'"
    "m_digest s' = sha1_ref ?msg" by auto
  with s(1) show ?thesis by (simp add: wsHandshake_def GetHash_def sha1_ref_def digest_length)
qed

text \<open>
  The answer to an upgrade request carries, as the protocol asks, the base64
  form of the SHA-1 digest of the client's key followed by the fixed identifier.
\<close>

theorem websocket_accept_key:
  assumes "length (m_buffer mem) = 64" and "length secKey < 2 ^ 31"
  shows "wsHandshake mem secKey =
    Some (handshake_head @ base64_encode (sha1_ref (map byte_of (secKey @ ws_guid))) @ crlf @ crlf)"
  by (rule wsHandshake_value [OF assms])

theorem websocket_accept_key_witness:
  "wsHandshake blank_sha1 ''dGhlIHNhbXBsZSBub25jZQ=='' =
    Some (handshake_head @
      base64_encode (sha1_ref (map byte_of (''dGhlIHNhbXBsZSBub25jZQ=='' @ ws_guid))) @ crlf @ crlf)"
  by (rule websocket_accept_key) (simp_all add: blank_sha1_def)

lemma map_char_length: "length (map char_of_byte buf) = length buf"
  by simp

text \<open>
  The data callback of a session returns on every non-empty input, in every
  state the service can leave the parser in, and never reports more bytes as
  used than it was given, so that the receive buffer is never advanced past its
  data. The stored request key, if there is one, is below \<open>2 ^ 31\<close> bytes.
\<close>

theorem http_data_callback_total:
  assumes "parser_inv hp" and "buf \<noteq> []" and "length buf < 2 ^ 64" and "length (m_buffer mem) = 64"
    and "\<forall>n hp'. tryParse hp (map char_of_byte buf) = Some (n, hp') \<longrightarrow>
           length (getValue hp' ''Sec-WebSocket-Key'') < 2 ^ 31"
    and "length (getValue hp ''Sec-WebSocket-Key'') < 2 ^ 31"
  shows "\<exists>n hp' evs. http_data_callback mem cbs buf hp = Some (n, hp', evs) \<and> n \<le> length buf \<and>
    parser_inv hp'"
proof (cases "mIsWebSocket (hp_data hp)")
  case True
  obtain n d evs where "ws_loop cbs buf (hp_data hp) = Some (n, d, evs)" "n \<le> length buf"
    using ws_loop_total by blast
  with True assms(1) show ?thesis
    by (simp add: http_data_callback_def ProcessWebSocket_def parser_inv_def)
next
  case False
  obtain n hp1 where P: "(if mISCompleted (hp_data hp) then Some (length buf, hp)
      else tryParse hp (map char_of_byte buf)) = Some (n, hp1)" "n \<le> length buf" "parser_inv hp1"
    "length (getValue hp1 ''Sec-WebSocket-Key'') < 2 ^ 31"
  proof (cases "mISCompleted (hp_data hp)")
    case True
    with assms(1,6) that show thesis by auto
  next
    case False
    obtain n hp1 where "tryParse hp (map char_of_byte buf) = Some (n, hp1)" "n \<le> length buf"
      "parser_inv hp1"
      using tryParse_returns [of hp "map char_of_byte buf"] assms(1-3) by auto
    with False assms(5) that show thesis by auto
  qed
  from wsHandshake_value [OF assms(4) P(4)] P False show ?thesis
    by (auto simp: http_data_callback_def ProcessHttp_def clearParse_def)
qed

text \<open>A fresh session that receives the first bytes of a request.\<close>

definition fresh_object :: http_object where
  "fresh_object = HTTPParser_new blank_object HTTP_BOTH"

definition all_cbs :: session_cbs where
  "all_cbs = \<lparr>has_http_cb = True, has_ws_cb = True, has_ws_connected_cb = True\<rparr>"

definition parsed_key :: "byte list \<Rightarrow> string option" where
  "parsed_key buf = (case tryParse fresh_object (map char_of_byte buf) of None \<Rightarrow> None
     | Some (n, hp) \<Rightarrow> Some (getValue hp ''Sec-WebSocket-Key''))"

lemma parsed_key_start: "parsed_key [71, 69, 84, 32, 47] = Some []"
  by code_simp

lemma fresh_key: "getValue fresh_object ''Sec-WebSocket-Key'' = []"
  by (simp add: fresh_object_def getValue_def HTTPParser_new_def http_parser_init_def
      blank_object_def blank_data_def)

theorem http_data_callback_total_witness:
  "\<exists>n hp' evs. http_data_callback blank_sha1 all_cbs [71, 69, 84, 32, 47] fresh_object =
     Some (n, hp', evs) \<and> n \<le> 5 \<and> parser_inv hp'"
proof -
  let ?buf = "[71, 69, 84, 32, 47] :: byte list"
  have inv: "parser_inv fresh_object"
    unfolding fresh_object_def HTTPParser_new_def by (rule parser_inv_init)
  have key: "length (getValue fresh_object ''Sec-WebSocket-Key'') < 2 ^ 31"
    by (simp add: fresh_key)
  have key': "\<forall>n hp'. tryParse fresh_object (map char_of_byte ?buf) = Some (n, hp') \<longrightarrow>
      length (getValue hp' ''Sec-WebSocket-Key'') < 2 ^ 31"
    using parsed_key_start by (auto simp: parsed_key_def)
  have small: "?buf \<noteq> []" "length ?buf < 2 ^ 64" "length (m_buffer blank_sha1) = 64"
    by (simp_all add: blank_sha1_def)
  from http_data_callback_total [OF inv small key', of all_cbs] key obtain n hp' evs where
    "http_data_callback blank_sha1 all_cbs ?buf fresh_object = Some (n, hp', evs)" "n \<le> length ?buf"
    "parser_inv hp'" by blast
  then show ?thesis by (intro exI [of _ n] exI [of _ hp'] exI [of _ evs]) simp
qed

end
