(* ===== verification/Ws_Connection.thy ===== *)
theory Ws_Connection
  imports Stream_Callback Http_Service
begin

text \<open>
  WebSocket sessions over connections: the frame parser of \<open>HttpService\<close> as the
  data callback of a \<open>DataSocket\<close>. However the peer's bytes are cut into
  segments, the user gets the messages of the stream.
\<close>

section \<open>The frame parser can be continued\<close>

lemma byte_at_append: "byte_at buf i = Some x \<Longrightarrow> byte_at (buf @ rest) i = Some x"
  by (auto simp: byte_at_def nth_append split: if_splits)

lemma mem_read_append: "mem_read buf off n = Some bs \<Longrightarrow> mem_read (buf @ rest) off n = Some bs"
  by (auto simp: mem_read_def split: if_splits)

lemma extract_length_append:
  "extract_length buf w = Some (Some r) \<Longrightarrow> extract_length (buf @ rest) w = Some (Some r)"
  by (auto simp: extract_length_def byte_at_append split: Option.bind_splits if_splits)

text \<open>A frame that was extracted is extracted also with bytes behind it.\<close>

lemma extract_append:
  assumes "wsFrameExtractBuffer buf out = Some (True, out')"
  shows "wsFrameExtractBuffer (buf @ rest) out = Some (True, out')"
proof -
  from assms obtain b0 b1 payloadlen pos where H: "\<not> length buf < 2" "byte_at buf 0 = Some b0" "byte_at buf 1 = Some b1"
    "extract_length buf (ucast (b1 AND 0x7F)) = Some (Some (payloadlen, pos))"
    by (auto simp: wsFrameExtractBuffer_def Let_def split: Option.bind_splits if_splits option.splits)
  with assms show ?thesis
    by (auto simp: wsFrameExtractBuffer_def Let_def byte_at_append extract_length_append mem_read_append
        split: Option.bind_splits if_splits)
qed

definition same_ws :: "http_data \<Rightarrow> http_data \<Rightarrow> bool" where
  "same_ws d e \<longleftrightarrow> d\<lparr>mWSParsePayload := []\<rparr> = e\<lparr>mWSParsePayload := []\<rparr>"

lemma same_ws_refl [simp]: "same_ws d d" "same_ws (d\<lparr>mWSParsePayload := x\<rparr>) d" "same_ws d (d\<lparr>mWSParsePayload := x\<rparr>)"
  by (simp_all add: same_ws_def)

lemma same_ws_trans: "same_ws d e \<Longrightarrow> same_ws e f \<Longrightarrow> same_ws d f"
  by (simp add: same_ws_def)

lemma same_wsE: "same_ws d e \<Longrightarrow> \<exists>x. e = d\<lparr>mWSParsePayload := x\<rparr>"
  by (cases d; cases e) (auto simp: same_ws_def)

lemma ws_step_payload: "ws_step cbs out (d\<lparr>mWSParsePayload := x\<rparr>) = ws_step cbs out d"
  by (simp add: ws_step_def Let_def)

lemma ws_loop_same:
  assumes "ws_loop cbs buf d = Some (n, d', evs)" and "same_ws d e"
  shows "\<exists>e'. ws_loop cbs buf e = Some (n, e', evs) \<and> same_ws d' e'"
proof -
  obtain x where e: "e = d\<lparr>mWSParsePayload := x\<rparr>" using same_wsE [OF assms(2)] by blast
  from assms(1) show ?thesis
    by (auto simp: e ws_step_payload ws_loop.simps [of cbs buf d] ws_loop.simps [of cbs buf "d\<lparr>mWSParsePayload := x\<rparr>"]
        split: if_splits option.splits prod.splits)
qed

lemma ws_loop_continued:
  "ws_loop cbs a d = Some (n, d1, evs1) \<Longrightarrow> ws_loop cbs (drop n a @ b) d1 = Some (m, d2, evs2) \<Longrightarrow>
   \<exists>d3. ws_loop cbs (a @ b) d = Some (n + m, d3, evs1 @ evs2) \<and> same_ws d3 d2"
proof (induction cbs a d arbitrary: n d1 evs1 rule: ws_loop.induct)
  case (1 cbs a d)
  obtain ok out where E: "wsFrameExtractBuffer a blank_out = Some (ok, out)"
    "ok \<Longrightarrow> 2 \<le> ws_frameSize out \<and> ws_frameSize out \<le> length a"
    using extract_total [of a blank_out] by auto
  show ?case
  proof (cases "a = [] \<or> \<not> ok")
    case True
    with E(1) "1.prems"(1) have H: "n = 0" "evs1 = []" "same_ws d1 d"
      by (auto simp: ws_loop.simps [of cbs a] split: if_splits)
    from ws_loop_same [OF "1.prems"(2) H(3)] H(1,2) show ?thesis by (metis add_0 append_Nil drop0 same_ws_def)
  next
    case False
    obtain d' evs where S: "ws_step cbs out d = (d', evs)" by (cases "ws_step cbs out d")
    with "1.prems"(1) False E(1) obtain n' evs' where L: "ws_loop cbs (drop (ws_frameSize out) a) d' = Some (n', d1, evs')"
      "n = ws_frameSize out + n'" "evs1 = evs @ evs'"
      by (auto simp: ws_loop.simps [of cbs a d])
    have "drop n a = drop n' (drop (ws_frameSize out) a)" by (simp add: L(2) add.commute)
    with "1.IH" [OF _ E(1) refl _ S [symmetric] refl L(1)] False "1.prems"(2) obtain d3 where
      I: "ws_loop cbs (drop (ws_frameSize out) a @ b) d' = Some (n' + m, d3, evs' @ evs2)" "same_ws d3 d2" by auto
    have "wsFrameExtractBuffer (a @ b) blank_out = Some (True, out)"
      using extract_append E(1) False by auto
    then have "ws_loop cbs (a @ b) d = Some (n + m, d3, evs1 @ evs2)"
      using S I(1) E(2) False L(2,3) by (simp add: ws_loop.simps [of cbs "a @ b"])
    with I(2) show ?thesis by blast
  qed
qed

section \<open>The session as a data callback\<close>

text \<open>
  The data callback of a WebSocket session: the frame parser, with the events
  of the session, in order, and whatever the user sends or closes in reply to each.
\<close>

definition ws_cb ::
    "session_cbs \<Rightarrow> (http_event \<Rightarrow> ds_action list) \<Rightarrow> (http_object \<times> http_event list) data_cb" where
  "ws_cb cbs reply u bs =
     (case u of (hp, log) \<Rightarrow>
        case ProcessWebSocket cbs bs hp of
          None \<Rightarrow> (0, [], u)
        | Some (n, hp', evs) \<Rightarrow> (n, concat (map reply evs), (hp', log @ evs)))"

definition ws_obs :: "http_object \<times> http_event list \<Rightarrow> http_object \<times> http_event list" where
  "ws_obs u = (case u of (hp, log) \<Rightarrow> (hp\<lparr>hp_data := (hp_data hp)\<lparr>mWSParsePayload := []\<rparr>\<rparr>, log))"

lemma ws_cb_eq:
  "ws_cb cbs reply (hp, log) bs = (n, acts, u) \<longleftrightarrow>
   (\<exists>d evs. ws_loop cbs bs (hp_data hp) = Some (n, d, evs) \<and> acts = concat (map reply evs) \<and>
      u = (hp\<lparr>hp_data := d\<rparr>, log @ evs))"
  using ws_loop_total [of cbs bs "hp_data hp"] by (auto simp: ws_cb_def ProcessWebSocket_def)

lemma ws_obs_eq:
  "ws_obs (hp, log) = ws_obs (hp', log') \<longleftrightarrow>
   log = log' \<and> same_ws (hp_data hp) (hp_data hp') \<and> hp\<lparr>hp_data := hp_data hp'\<rparr> = hp'"
  by (cases hp; cases hp') (auto simp: ws_obs_def same_ws_def)

interpretation ws: stream_parser "ws_cb cbs reply" ws_obs "\<lambda>_. True"
proof (unfold_locales, goal_cases)
  case (1 u bs n acts u')
  obtain hp log where u: "u = (hp, log)" by (cases u)
  with 1 ws_loop_total [of cbs bs "hp_data hp"] show ?case by (auto simp: ws_cb_eq)
next
  case (3 u v bs n acts u')
  obtain hp log hp2 log2 where uv: "u = (hp, log)" "v = (hp2, log2)" by (cases u; cases v)
  with 3(4) obtain d evs where D: "ws_loop cbs bs (hp_data hp) = Some (n, d, evs)" "acts = concat (map reply evs)"
    "u' = (hp\<lparr>hp_data := d\<rparr>, log @ evs)" by (auto simp: ws_cb_eq)
  have O: "log = log2" "same_ws (hp_data hp) (hp_data hp2)" "hp\<lparr>hp_data := hp_data hp2\<rparr> = hp2"
    using 3(3) by (auto simp: uv ws_obs_eq)
  obtain e where "ws_loop cbs bs (hp_data hp2) = Some (n, e, evs)" "same_ws d e" using ws_loop_same [OF D(1) O(2)] by blast
  with D O show ?case by (cases hp; cases hp2) (auto simp: uv ws_cb_eq ws_obs_eq same_ws_def)
next
  case (4 u a n acts u' b m acts' u'')
  obtain hp log where u: "u = (hp, log)" by (cases u)
  with 4(2) obtain d evs where D: "ws_loop cbs a (hp_data hp) = Some (n, d, evs)" "acts = concat (map reply evs)"
    "u' = (hp\<lparr>hp_data := d\<rparr>, log @ evs)" by (auto simp: ws_cb_eq)
  with 4(3) obtain d2 evs2 where D2: "ws_loop cbs (drop n a @ b) d = Some (m, d2, evs2)"
    "acts' = concat (map reply evs2)" "u'' = (hp\<lparr>hp_data := d2\<rparr>, log @ evs @ evs2)" by (auto simp: ws_cb_eq)
  from ws_loop_continued [OF D(1) D2(1)] D D2 show ?case by (auto simp: u ws_cb_eq ws_obs_eq same_ws_def)
qed

section \<open>Messages over a connection\<close>

lemma ws_run_log:
  assumes "env_law env" and "de_callback env = ws_cb cbs reply"
    and "DataSocket_new (de_heap env) maxsize True ccb = Some ds" and "unat maxsize < 2 ^ 31"
    and "ds_run env xs (k, (hp, []), ds) = Some ((k', (hp', log), ds'), evs)"
  shows "\<exists>n d. ws_loop cbs (received_bytes evs) (hp_data hp) = Some (n, d, log) \<and> same_ws d (hp_data hp') \<and>
    buffer_contents (mRecvBuffer ds') = drop n (received_bytes evs)"
proof -
  have "ws_cb cbs reply (hp, []) [] = (0, [], (hp, []))" by (simp add: ws_cb_eq ws_loop.simps)
  from ws.over_connection [OF assms TrueI this] show ?thesis by (auto simp: ws_cb_eq ws_obs_eq)
qed

text \<open>
  C6. WebSocket messages over a connection: if the bytes a connection has
  received are masked or unmasked frames, whole messages and fragmented ones
  with control messages between the fragments, followed by a part of a further
  frame, then its user has got exactly these messages, each once, in order and
  with joined payloads, and the incomplete frame is in the receive buffer. This
  holds for every way in which the system cut the bytes into segments, every
  schedule of events, sends and closes, and whatever the user does in reply.
\<close>

theorem websocket_over_connection:
  assumes "env_law env" and "de_callback env = ws_cb cbs reply"
    and "DataSocket_new (de_heap env) maxsize True ccb = Some ds" and "unat maxsize < 2 ^ 31"
    and "mWSCacheFrame (hp_data hp) = []"
    and "ds_run env xs (k, (hp, []), ds) = Some ((k', (hp', log), ds'), evs)"
    and "list_all item_ok its" and "map frame_view fs = concat (map item_views its)"
    and "list_all frame_ok fs" and "frame_ok g" and "j < length (frame_bytes g)"
    and "received_bytes evs = concat (map frame_bytes fs) @ take j (frame_bytes g)"
  shows "log = msg_events cbs (concat (map item_msgs its)) \<and>
    buffer_contents (mRecvBuffer ds') = take j (frame_bytes g) \<and> mWSCacheFrame (hp_data hp') = []"
proof -
  obtain n d where L: "ws_loop cbs (received_bytes evs) (hp_data hp) = Some (n, d, log)" "same_ws d (hp_data hp')"
    "buffer_contents (mRecvBuffer ds') = drop n (received_bytes evs)" using ws_run_log [OF assms(1-4,6)] by blast
  have "ws_holds None [] (hp_data hp)" using assms(5) by (simp add: ws_holds_def)
  from steps_items [OF assms(7) this, of cbs] obtain d' where
    d': "ws_steps cbs (map frame_view fs) (hp_data hp) = (d', msg_events cbs (concat (map item_msgs its)))"
      "mWSCacheFrame d' = []" unfolding assms(8) by auto
  from ws_loop_frames [OF assms(9-11) d'(1)] obtain p where
    "n = length (concat (map frame_bytes fs))" "d = d'\<lparr>mWSParsePayload := p\<rparr>"
    "log = msg_events cbs (concat (map item_msgs its))" using L(1) assms(12) by auto
  with L(2,3) d'(2) assms(12) show ?thesis using same_wsE [OF L(2)] by auto
qed

text \<open>A connection that gets one frame and the beginning of the next in one segment.\<close>

definition ws_env :: "(byte list list, http_object \<times> http_event list) ds_env" where
  "ws_env = segment_env (ws_cb sample_cbs (\<lambda>_. []))"

theorem websocket_over_connection_witness:
  "\<exists>ds k' hp' log ds' evs. DataSocket_new full_heap 65536 True True = Some ds \<and>
     ds_run ws_env [Op_epoll False True False] ([frame_bytes (fragment [65] TEXT_FRAME True) @ take 1 (frame_bytes sample_frame)],
       (blank_object, []), ds) = Some ((k', (hp', log), ds'), evs) \<and>
     log = [Ev_ws_message TEXT_FRAME [65]] \<and> buffer_contents (mRecvBuffer ds') = take 1 (frame_bytes sample_frame)"
proof -
  let ?f = "fragment [65] TEXT_FRAME True"
  let ?seg = "frame_bytes ?f @ take 1 (frame_bytes sample_frame)"
  let ?its = "[Whole (TEXT_FRAME, [65])]"
  note types = TEXT_FRAME_def PING_FRAME_def CONTINUATION_FRAME_def
  obtain ds where ds: "DataSocket_new full_heap 65536 True True = Some ds"
    using sample_new by (auto simp: sample_env_def)
  have fb: "frame_bytes ?f = [129, 129, 1, 2, 3, 4, 64]" "frame_bytes sample_frame = [129, 2, 5, 6]" by code_simp+
  then obtain k' hp' log ds' evs where R: "ds_run ws_env [Op_epoll False True False] ([?seg], (blank_object, []), ds) =
      Some ((k', (hp', log), ds'), evs)" "received_bytes evs = concat (map frame_bytes [?f]) @ take 1 (frame_bytes sample_frame)"
    using first_segment [OF ws.law [of sample_cbs "\<lambda>_. []"] ds, of ?seg "(blank_object, [])"] by (fastforce simp: ws_env_def)
  have "list_all item_ok ?its" by (simp add: msg_ok_def types)
  moreover have "map frame_view [?f] = concat (map item_views ?its)"
    by (simp add: frame_view_def fragment_def whole_views_def)
  moreover have "list_all frame_ok [?f]" "frame_ok sample_frame"
    by (simp_all add: frame_ok_def fragment_def sample_frame_def types)
  moreover have "1 < length (frame_bytes sample_frame)" by (simp add: fb)
  moreover have "mWSCacheFrame (hp_data blank_object) = []" by (simp add: blank_object_def blank_data_def)
  moreover have "de_callback ws_env = ws_cb sample_cbs (\<lambda>_. [])" "DataSocket_new (de_heap ws_env) 65536 True True = Some ds"
    using ds by (simp_all add: ws_env_def segment_env_def)
  moreover have "env_law ws_env" unfolding ws_env_def by (rule segment_env_law [OF ws.law])
  ultimately have "log = msg_events sample_cbs (concat (map item_msgs ?its)) \<and>
      buffer_contents (mRecvBuffer ds') = take 1 (frame_bytes sample_frame) \<and> mWSCacheFrame (hp_data hp') = []"
    using websocket_over_connection [OF _ _ _ _ _ R(1) _ _ _ _ _ R(2), of sample_cbs "\<lambda>_. []" 65536 True ?its] by simp
  then show ?thesis using ds R(1) by (auto simp: msg_events_def sample_cbs_def)
qed

end
