(* ===== verification/Promise_Receive.thy ===== *)
theory Promise_Receive
  imports Stream_Callback
begin

text \<open>
  \<open>PromiseReceive\<close> of \<open>net/PromiseReceive.h\<close>: a queue of receives, each of a number
  of bytes or up to a delimiter, that is served by the data callback of a
  session. The buffer is the block of bytes the callback is shown: a read
  behind its end is a fault. Sizes are numbers; the one subtraction that can
  wrap is written out. The lengths of receives are shared cells, which the
  handles may change, and a handle may also queue further receives and send.
\<close>

section \<open>The search for a delimiter\<close>

datatype 'a run = Fault | Returns 'a

text \<open>The inner loop: the position at which it stops, or a read behind the block.\<close>

function match_loop :: "byte list \<Rightarrow> nat \<Rightarrow> byte list \<Rightarrow> nat \<Rightarrow> nat run" where
  "match_loop buffer at needle needlepos =
     (if needlepos < length needle
      then (if at + needlepos < length buffer
            then (if buffer ! (at + needlepos) \<noteq> needle ! needlepos then Returns needlepos
                  else match_loop buffer at needle (needlepos + 1))
            else Fault)
      else Returns needlepos)"
  by pat_completeness auto
termination by (relation "measure (\<lambda>(buffer, at, needle, needlepos). length needle - needlepos)") auto

declare match_loop.simps [simp del]

function search_loop :: "byte list \<Rightarrow> nat \<Rightarrow> nat \<Rightarrow> byte list \<Rightarrow> nat \<Rightarrow> nat option run" where
  "search_loop buffer hay haysize needle haypos =
     (if haypos \<le> haysize
      then (case match_loop buffer (hay + haypos) needle 0 of
              Fault \<Rightarrow> Fault
            | Returns needlepos \<Rightarrow>
                if needlepos = length needle then Returns (Some haypos)
                else search_loop buffer hay haysize needle (haypos + 1))
      else Returns None)"
  by pat_completeness auto
termination by (relation "measure (\<lambda>(buffer, hay, haysize, needle, haypos). Suc haysize - haypos)") auto

declare search_loop.simps [simp del]

text \<open>\<open>hay\<close> is the offset of the hay in the block; \<open>haysize -= needlesize\<close> wraps at 64 bits.\<close>

definition memsearch :: "byte list \<Rightarrow> nat \<Rightarrow> nat \<Rightarrow> byte list \<Rightarrow> nat option run" where
  "memsearch buffer hay haysize needle =
     search_loop buffer hay ((haysize + (2 ^ 64 - length needle)) mod 2 ^ 64) needle 0"

section \<open>Pending receives\<close>

record 'h PendingReceive =
  pr_len :: "nat option"
  pr_str :: "byte list"
  pr_handle :: 'h

text \<open>The object with its queue, the shared length cells, and what else the handles change.\<close>

record ('h, 'u) promise =
  mPendingReceives :: "'h PendingReceive list"
  len_cells :: "nat list"
  pr_user :: 'u

type_synonym ('h, 'u) handle_fn =
  "'h \<Rightarrow> byte list \<Rightarrow> ('h, 'u) promise \<Rightarrow> bool \<times> ds_action list \<times> ('h, 'u) promise"

definition helpReceive ::
    "nat option \<Rightarrow> byte list \<Rightarrow> 'h \<Rightarrow> ('h, 'u) promise \<Rightarrow> ('h, 'u) promise" where
  "helpReceive len str handle p =
     p\<lparr>mPendingReceives := mPendingReceives p @ [\<lparr>pr_len = len, pr_str = str, pr_handle = handle\<rparr>]\<rparr>"

text \<open>
  \<open>receive\<close> with a shared length: the test \<open>*len < 0\<close> reads the cell and never
  holds. \<open>None\<close> is a read through a null pointer.
\<close>

definition receive_shared :: "nat \<Rightarrow> 'h \<Rightarrow> ('h, 'u) promise \<Rightarrow> ('h, 'u) promise option" where
  "receive_shared len handle p =
     (if len < length (len_cells p) then Some (helpReceive (Some len) [] handle p) else None)"

definition receive :: "nat \<Rightarrow> 'h \<Rightarrow> ('h, 'u) promise \<Rightarrow> ('h, 'u) promise option" where
  "receive len handle p =
     receive_shared (length (len_cells p)) handle (p\<lparr>len_cells := len_cells p @ [len]\<rparr>)"

text \<open>\<open>Inl\<close> is the exception.\<close>

definition receiveUntil :: "byte list \<Rightarrow> 'h \<Rightarrow> ('h, 'u) promise \<Rightarrow> string + ('h, 'u) promise" where
  "receiveUntil str handle p =
     (if str = [] then Inl ''str is empty'' else Inr (helpReceive None str handle p))"

definition push_front :: "'h PendingReceive \<Rightarrow> ('h, 'u) promise \<Rightarrow> ('h, 'u) promise" where
  "push_front r p = p\<lparr>mPendingReceives := r # mPendingReceives p\<rparr>"

text \<open>
  The loop of \<open>process\<close>. It calls the handles, so it need not end: \<open>None\<close> is a
  loop that does not return.
\<close>

partial_function (option) process_loop ::
    "('h, 'u) handle_fn \<Rightarrow> byte list \<Rightarrow> nat \<Rightarrow> ds_action list \<Rightarrow> ('h, 'u) promise \<Rightarrow>
     (nat \<times> ds_action list \<times> ('h, 'u) promise) run option" where
  "process_loop call buffer procLen acts p =
     (if mPendingReceives p \<noteq> [] \<and> procLen \<le> length buffer
      then (let r = hd (mPendingReceives p);
                popped = p\<lparr>mPendingReceives := tl (mPendingReceives p)\<rparr>
            in case pr_len r of
                 Some cell \<Rightarrow>
                   (if cell < length (len_cells p)
                    then (let tryReceiveLen = len_cells p ! cell
                          in if length buffer - procLen < tryReceiveLen then Some (Returns (procLen, acts, p))
                             else (case call (pr_handle r) (take tryReceiveLen (drop procLen buffer)) popped of
                                     (again, acts', p') \<Rightarrow>
                                       process_loop call buffer (procLen + tryReceiveLen) (acts @ acts')
                                         (if again \<and> tryReceiveLen > 0 then push_front r p' else p')))
                    else Some Fault)
               | None \<Rightarrow>
                   if pr_str r \<noteq> []
                   then (case memsearch buffer procLen (length buffer - procLen) (pr_str r) of
                           Fault \<Rightarrow> Some Fault
                         | Returns None \<Rightarrow> Some (Returns (procLen, acts, p))
                         | Returns (Some pos) \<Rightarrow>
                             (case call (pr_handle r) (take pos (drop procLen buffer)) popped of
                                (again, acts', p') \<Rightarrow>
                                  process_loop call buffer (procLen + (pos + length (pr_str r))) (acts @ acts')
                                    (if again then push_front r p' else p')))
                   else Some (Returns (procLen, acts, p)))
      else Some (Returns (procLen, acts, p)))"

definition process ::
    "('h, 'u) handle_fn \<Rightarrow> byte list \<Rightarrow> ('h, 'u) promise \<Rightarrow> (nat \<times> ds_action list \<times> ('h, 'u) promise) run option" where
  "process call buffer p = process_loop call buffer 0 [] p"

text \<open>What \<open>setupPromiseReceive\<close> installs; a callback that does not return is not modelled further.\<close>

definition promise_cb :: "('h, 'u) handle_fn \<Rightarrow> ('h, 'u) promise data_cb" where
  "promise_cb call p buffer = (case process call buffer p of Some (Returns r) \<Rightarrow> r | _ \<Rightarrow> (0, [], p))"

section \<open>Correctness of the search\<close>

text \<open>The needle stands at an offset of the block.\<close>

definition occurs :: "byte list \<Rightarrow> nat \<Rightarrow> byte list \<Rightarrow> bool" where
  "occurs buffer at needle \<longleftrightarrow> mem_read buffer at (length needle) = Some needle"

lemma match_loop_stops:
  "match_loop buffer at needle k = Returns m \<Longrightarrow> k \<le> length needle \<Longrightarrow>
   m \<le> length needle \<and> (m = length needle \<longleftrightarrow> (\<forall>i. k \<le> i \<and> i < length needle \<longrightarrow>
      at + i < length buffer \<and> buffer ! (at + i) = needle ! i))"
proof (induction buffer at needle k rule: match_loop.induct)
  case (1 buffer at needle k)
  show ?case
  proof (cases "k < length needle \<and> at + k < length buffer \<and> buffer ! (at + k) = needle ! k")
    case True
    from "1.IH" True "1.prems" show ?thesis
      by (auto simp: match_loop.simps [of buffer at needle k]) (metis Suc_leI le_neq_implies_less)+
  next
    case False
    with "1.prems" show ?thesis by (auto simp: match_loop.simps [of buffer at needle k] split: if_splits)
  qed
qed

lemma occurs_nth:
  "occurs buffer at needle \<longleftrightarrow> at + length needle \<le> length buffer \<and>
     (\<forall>i < length needle. buffer ! (at + i) = needle ! i)"
  by (auto simp: occurs_def mem_read_Some_iff list_eq_iff_nth_eq)

lemma match_loop_occurs:
  assumes "match_loop buffer at needle 0 = Returns m" and "needle \<noteq> []"
  shows "m = length needle \<longleftrightarrow> occurs buffer at needle"
proof -
  have "length needle - 1 < length needle" using assms(2) by (cases needle) auto
  with match_loop_stops [OF assms(1)] show ?thesis
    unfolding occurs_nth by (auto dest: spec [of _ "length needle - 1"])
qed

lemma match_loop_faults:
  "match_loop buffer at needle k = Fault \<longleftrightarrow> k < length needle \<and> length buffer < at + length needle \<and>
     (\<forall>i. k \<le> i \<and> at + i < length buffer \<longrightarrow> buffer ! (at + i) = needle ! i)"
proof (induction buffer at needle k rule: match_loop.induct)
  case (1 buffer at needle k)
  show ?case
  proof (cases "k < length needle \<and> at + k < length buffer \<and> buffer ! (at + k) = needle ! k")
    case True
    have "(\<forall>i. k \<le> i \<and> at + i < length buffer \<longrightarrow> buffer ! (at + i) = needle ! i) \<longleftrightarrow>
        (\<forall>i. Suc k \<le> i \<and> at + i < length buffer \<longrightarrow> buffer ! (at + i) = needle ! i)"
      using True by (metis Suc_leI le_neq_implies_less Suc_leD)
    with "1.IH" True show ?thesis by (auto simp: match_loop.simps [of buffer at needle k])
  next
    case False
    then show ?thesis by (auto simp: match_loop.simps [of buffer at needle k])
  qed
qed

lemma search_loop_finds:
  "needle \<noteq> [] \<Longrightarrow> hay + haysize + length needle \<le> length buffer \<Longrightarrow>
   search_loop buffer hay haysize needle k = Returns (find (\<lambda>i. occurs buffer (hay + i) needle) [k..<Suc haysize])"
proof (induction buffer hay haysize needle k rule: search_loop.induct)
  case (1 buffer hay haysize needle k)
  show ?case
  proof (cases "k \<le> haysize")
    case True
    then have "match_loop buffer (hay + k) needle 0 \<noteq> Fault" using "1.prems"(2) by (simp add: match_loop_faults)
    then obtain m where m: "match_loop buffer (hay + k) needle 0 = Returns m" by (cases rule: run.exhaust) auto
    note occ = match_loop_occurs [OF m "1.prems"(1)]
    have "[k..<Suc haysize] = k # [Suc k..<Suc haysize]" using True by (simp add: upt_conv_Cons)
    with "1.IH" [OF True m] "1.prems" True m occ show ?thesis by (simp add: search_loop.simps [of buffer hay haysize needle k])
  qed (simp add: search_loop.simps [of buffer hay haysize needle k])
qed

lemma search_loop_faults:
  "needle \<noteq> [] \<Longrightarrow> hay + k \<le> length buffer \<Longrightarrow> length buffer < hay + length needle \<Longrightarrow>
   length buffer - hay \<le> haysize \<Longrightarrow> search_loop buffer hay haysize needle k = Fault"
proof (induction buffer hay haysize needle k rule: search_loop.induct)
  case (1 buffer hay haysize needle k)
  have k: "k \<le> haysize" using "1.prems" by linarith
  show ?case
  proof (cases "match_loop buffer (hay + k) needle 0")
    case (Returns m)
    have "\<not> occurs buffer (hay + k) needle" using "1.prems" by (simp add: occurs_nth)
    then have m: "m \<noteq> length needle" using match_loop_occurs [OF Returns "1.prems"(1)] by simp
    have "hay + k \<noteq> length buffer"
      using Returns "1.prems"(1) match_loop_faults [of buffer "hay + k" needle 0] by auto
    with "1.IH" [OF k Returns m] "1.prems" k Returns m show ?thesis
      by (simp add: search_loop.simps [of buffer hay haysize needle k])
  qed (simp add: search_loop.simps [of buffer hay haysize needle k] k)
qed

lemma memsearch_finds:
  assumes "needle \<noteq> []" and "hay + length needle \<le> length buffer" and "length buffer < 2 ^ 64"
  shows "memsearch buffer hay (length buffer - hay) needle =
    Returns (find (\<lambda>i. occurs buffer (hay + i) needle) [0..<Suc (length buffer - hay - length needle)])"
proof -
  have "(length buffer - hay + (2 ^ 64 - length needle)) mod 2 ^ 64 =
      (length buffer - hay - length needle + 2 ^ 64) mod 2 ^ 64" using assms by simp
  also have "\<dots> = length buffer - hay - length needle" using assms(3) by simp
  finally show ?thesis using search_loop_finds [OF assms(1), of hay "length buffer - hay - length needle" buffer 0] assms(2)
    by (simp add: memsearch_def del: upt_Suc)
qed

lemma memsearch_faults:
  assumes "needle \<noteq> []" and "hay \<le> length buffer" and "length buffer < hay + length needle" and "length needle \<le> 2 ^ 64"
  shows "memsearch buffer hay (length buffer - hay) needle = Fault"
proof -
  have "length buffer - hay + (2 ^ 64 - length needle) < 2 ^ 64" using assms by linarith
  then show ?thesis using search_loop_faults [OF assms(1), of hay 0 buffer] assms(2-4) by (simp add: memsearch_def)
qed

text \<open>Without bounds on the sizes: a position that is found lies within the block.\<close>

lemma search_loop_occurs:
  "search_loop buffer hay haysize needle k = Returns (Some pos) \<Longrightarrow> needle \<noteq> [] \<Longrightarrow> occurs buffer (hay + pos) needle"
proof (induction buffer hay haysize needle k rule: search_loop.induct)
  case (1 buffer hay haysize needle k)
  from "1.prems" "1.IH" match_loop_occurs [OF _ "1.prems"(2), of buffer "hay + k"] show ?case
    by (auto simp: search_loop.simps [of buffer hay haysize needle k] split: if_splits run.splits)
qed

lemma memsearch_within:
  "memsearch buffer hay n needle = Returns (Some pos) \<Longrightarrow> needle \<noteq> [] \<Longrightarrow> hay + pos + length needle \<le> length buffer"
  using search_loop_occurs unfolding memsearch_def occurs_nth by blast

section \<open>Receives of a number of bytes\<close>

text \<open>
  The specification: the first pending receive gets the next bytes of the
  stream as soon as there are as many as it asks for.
\<close>

definition wanted :: "('h, 'u) promise \<Rightarrow> nat" where
  "wanted p = len_cells p ! the (pr_len (hd (mPendingReceives p)))"

definition serve :: "('h, 'u) handle_fn \<Rightarrow> byte list \<Rightarrow> ('h, 'u) promise \<Rightarrow> ds_action list \<times> ('h, 'u) promise" where
  "serve call bs p =
     (let r = hd (mPendingReceives p)
      in case call (pr_handle r) bs (p\<lparr>mPendingReceives := tl (mPendingReceives p)\<rparr>) of
           (again, acts, p') \<Rightarrow> (acts, if again \<and> bs \<noteq> [] then push_front r p' else p'))"

inductive reads ::
    "('h, 'u) handle_fn \<Rightarrow> ('h, 'u) promise \<Rightarrow> byte list \<Rightarrow> ds_action list \<Rightarrow> ('h, 'u) promise \<Rightarrow> byte list \<Rightarrow> bool"
  for call where
  reads_wait: "mPendingReceives p = [] \<or> length bs < wanted p \<Longrightarrow> reads call p bs [] p bs"
| reads_next: "mPendingReceives p \<noteq> [] \<Longrightarrow> wanted p \<le> length bs \<Longrightarrow> serve call (take (wanted p) bs) p = (acts, p1) \<Longrightarrow>
    reads call p1 (drop (wanted p) bs) acts' p' rest \<Longrightarrow> reads call p bs (acts @ acts') p' rest"

inductive_cases readsE: "reads call p bs acts p' rest"

lemma reads_fun:
  "reads call p bs acts p' rest \<Longrightarrow> reads call p bs acts2 p2 rest2 \<Longrightarrow> acts2 = acts \<and> p2 = p' \<and> rest2 = rest"
proof (induction arbitrary: acts2 p2 rest2 rule: reads.induct)
  case (reads_wait p bs)
  from reads_wait.prems reads_wait.hyps show ?case by (cases rule: reads.cases) auto
next
  case (reads_next p bs acts p1 acts' p' rest)
  from reads_next.prems reads_next.hyps(1,2) obtain acts1 q acts1' where
    "serve call (take (wanted p) bs) p = (acts1, q)" "reads call q (drop (wanted p) bs) acts1' p2 rest2" "acts2 = acts1 @ acts1'"
    by (cases rule: reads.cases) simp_all
  with reads_next.hyps(3) reads_next.IH show ?case by simp
qed

lemma reads_continued:
  "reads call p a acts p1 rest \<Longrightarrow> reads call p1 (rest @ b) acts'' p2 rest' \<Longrightarrow>
   reads call p (a @ b) (acts @ acts'') p2 rest'"
proof (induction rule: reads.induct)
  case (reads_next p bs acts p1 acts' p' rest)
  have "serve call (take (wanted p) (bs @ b)) p = (acts, p1)" using reads_next.hyps(2,3) by simp
  moreover have "reads call p1 (drop (wanted p) (bs @ b)) (acts' @ acts'') p2 rest'"
    using reads_next.IH [OF reads_next.prems] reads_next.hyps(2) by simp
  moreover have "wanted p \<le> length (bs @ b)" using reads_next.hyps(2) by simp
  ultimately show ?case using reads.reads_next [OF reads_next.hyps(1)] by simp
qed simp

text \<open>
  The states in question: every pending receive has a length cell; the handles
  keep that and the cells, and a handle that was given no bytes does not queue
  further receives, so that the loop ends.
\<close>

definition counted :: "('h, 'u) promise \<Rightarrow> bool" where
  "counted p \<longleftrightarrow> (\<forall>r \<in> set (mPendingReceives p). \<exists>c < length (len_cells p). pr_len r = Some c)"

definition handle_law :: "('h, 'u) handle_fn \<Rightarrow> bool" where
  "handle_law call \<longleftrightarrow> (\<forall>h bs p again acts p'. counted p \<longrightarrow> call h bs p = (again, acts, p') \<longrightarrow>
     counted p' \<and> length (len_cells p) \<le> length (len_cells p') \<and>
     (bs = [] \<longrightarrow> length (mPendingReceives p') \<le> length (mPendingReceives p)))"

lemma handle_lawD:
  "handle_law call \<Longrightarrow> counted p \<Longrightarrow> call h bs p = (again, acts, p') \<Longrightarrow>
   counted p' \<and> length (len_cells p) \<le> length (len_cells p') \<and>
   (bs = [] \<longrightarrow> length (mPendingReceives p') \<le> length (mPendingReceives p))"
  unfolding handle_law_def by blast

lemma serve_counted:
  assumes "handle_law call" and "counted p" and "mPendingReceives p \<noteq> []" and "serve call bs p = (acts, p')"
  shows "counted p' \<and> (bs = [] \<longrightarrow> length (mPendingReceives p') < length (mPendingReceives p))"
proof -
  let ?r = "hd (mPendingReceives p)" and ?q = "p\<lparr>mPendingReceives := tl (mPendingReceives p)\<rparr>"
  obtain again p1 where C: "call (pr_handle ?r) bs ?q = (again, acts, p1)"
    and p': "p' = (if again \<and> bs \<noteq> [] then push_front ?r p1 else p1)"
    using assms(4) by (auto simp: serve_def Let_def split: prod.splits)
  have "counted ?q" using assms(2,3) by (auto simp: counted_def dest: list.set_sel(2))
  from handle_lawD [OF assms(1) this C] have L: "counted p1" "length (len_cells p) \<le> length (len_cells p1)"
    "bs = [] \<Longrightarrow> length (mPendingReceives p1) \<le> length (mPendingReceives p) - 1" by simp_all
  obtain c where "c < length (len_cells p)" "pr_len ?r = Some c"
    using assms(2,3) by (auto simp: counted_def dest: bspec [OF _ hd_in_set])
  with L(1,2) have "counted (push_front ?r p1)" by (auto simp: counted_def push_front_def)
  moreover have "bs = [] \<Longrightarrow> length (mPendingReceives p1) < length (mPendingReceives p)"
    using L(3) assms(3) by (cases "mPendingReceives p") auto
  ultimately show ?thesis using L(1) by (auto simp: p')
qed

lemma process_loop_counted:
  assumes "counted p" and "k \<le> length buffer"
  shows "process_loop call buffer k acts p =
    (if mPendingReceives p = [] \<or> length (drop k buffer) < wanted p then Some (Returns (k, acts, p))
     else case serve call (take (wanted p) (drop k buffer)) p of
            (acts', p') \<Rightarrow> process_loop call buffer (k + wanted p) (acts @ acts') p')"
proof (cases "mPendingReceives p")
  case (Cons r rs)
  obtain c where "c < length (len_cells p)" "pr_len r = Some c" using assms(1) Cons by (auto simp: counted_def)
  with Cons assms(2) show ?thesis
    by (auto simp: process_loop.simps [of call buffer k acts p] wanted_def serve_def Let_def split: prod.splits)
qed (simp add: process_loop.simps [of call buffer k acts p])

lemma process_loop_reads:
  "handle_law call \<Longrightarrow> counted p \<Longrightarrow> k \<le> length buffer \<Longrightarrow>
   \<exists>n acts' p'. process_loop call buffer k acts p = Some (Returns (n, acts @ acts', p')) \<and> k \<le> n \<and> n \<le> length buffer \<and>
     counted p' \<and> reads call p (drop k buffer) acts' p' (drop n buffer)"
proof (induction "(length buffer - k, length (mPendingReceives p))" arbitrary: k p acts
    rule: wf_induct_rule [OF wf_lex_prod [OF wf_less_than wf_less_than]])
  case (1 k p)
  note unfold = process_loop_counted [OF "1.prems"(2,3), of call acts]
  show ?case
  proof (cases "mPendingReceives p = [] \<or> length (drop k buffer) < wanted p")
    case True
    then have "reads call p (drop k buffer) [] p (drop k buffer)" by (rule reads_wait)
    with True "1.prems" show ?thesis unfolding unfold by auto
  next
    case False
    obtain acts1 p1 where S: "serve call (take (wanted p) (drop k buffer)) p = (acts1, p1)" by fastforce
    have kept: "counted p1" "wanted p = 0 \<Longrightarrow> length (mPendingReceives p1) < length (mPendingReceives p)"
      using serve_counted [OF "1.prems"(1,2) _ S] False by simp_all
    have inside: "k + wanted p \<le> length buffer" using False "1.prems"(3) by (simp add: not_less) linarith
    have "((length buffer - (k + wanted p), length (mPendingReceives p1)), length buffer - k, length (mPendingReceives p))
        \<in> less_than <*lex*> less_than"
    proof (cases "wanted p = 0")
      case True
      with kept(2) show ?thesis by simp
    next
      case pos: False
      from False have "length buffer - (k + wanted p) < length buffer - k" using pos by simp linarith
      then show ?thesis by simp
    qed
    from "1.hyps" [OF this "1.prems"(1) kept(1) inside, of "acts @ acts1"] obtain n acts' p' where
      I: "process_loop call buffer (k + wanted p) (acts @ acts1) p1 = Some (Returns (n, (acts @ acts1) @ acts', p'))"
      "k + wanted p \<le> n" "n \<le> length buffer" "counted p'"
      "reads call p1 (drop (k + wanted p) buffer) acts' p' (drop n buffer)" by blast
    have "reads call p (drop k buffer) (acts1 @ acts') p' (drop n buffer)"
      using False S I(5) by (intro reads_next) (auto simp: add.commute)
    with I False S show ?thesis unfolding unfold by (intro exI [of _ n] exI [of _ "acts1 @ acts'"] exI [of _ p']) simp
  qed
qed

text \<open>
  \<open>process\<close> returns for receives of a number of bytes and serves them as the
  specification says: the first pending receive gets the next bytes of the
  stream as soon as there are as many as it asks for, again and again if its
  handle says so, and the count of bytes taken is the sum of the lengths served.
\<close>

theorem promise_reads_records:
  assumes "handle_law call" and "counted p"
  shows "\<exists>n acts p'. process call buffer p = Some (Returns (n, acts, p')) \<and> n \<le> length buffer \<and>
    reads call p buffer acts p' (drop n buffer) \<and>
    (\<forall>acts2 p2 rest2. reads call p buffer acts2 p2 rest2 \<longrightarrow> acts2 = acts \<and> p2 = p' \<and> rest2 = drop n buffer)"
proof -
  obtain n acts p' where P: "process call buffer p = Some (Returns (n, acts, p'))" "n \<le> length buffer"
    "reads call p buffer acts p' (drop n buffer)"
    using process_loop_reads [OF assms, of 0 buffer "[]"] by (auto simp: process_def)
  with reads_fun [OF P(3)] show ?thesis by blast
qed

definition trusted :: "('h, 'u) handle_fn \<Rightarrow> ('h, 'u) promise \<Rightarrow> bool" where
  "trusted call p \<longleftrightarrow> handle_law call \<and> counted p"

lemma promise_cb_reads:
  assumes "trusted call p"
  shows "\<exists>n acts p'. promise_cb call p bs = (n, acts, p') \<and> n \<le> length bs \<and> trusted call p' \<and>
    reads call p bs acts p' (drop n bs)"
proof -
  have "handle_law call" "counted p" using assms by (simp_all add: trusted_def)
  from process_loop_reads [OF this, of 0 bs "[]"] assms show ?thesis
    by (auto simp: promise_cb_def process_def trusted_def)
qed

lemma promise_cb_eq:
  assumes "trusted call p" and "promise_cb call p bs = (n, acts, p')"
  shows "n \<le> length bs" and "trusted call p'" and "reads call p bs acts p' (drop n bs)"
  using promise_cb_reads [OF assms(1), of bs] assms(2) by auto

text \<open>Also with delimiters, no call takes more than it is shown.\<close>

lemma process_loop_within:
  "process_loop call buffer k acts p = Some y \<Longrightarrow>
   k \<le> length buffer \<longrightarrow> (\<forall>n acts' p'. y = Returns (n, acts', p') \<longrightarrow> n \<le> length buffer)"
proof (erule process_loop.raw_induct [rotated,
      where P = "\<lambda>call buffer k acts p y. k \<le> length buffer \<longrightarrow> (\<forall>n acts' p'. y = Returns (n, acts', p') \<longrightarrow> n \<le> length buffer)"], goal_cases)
  case (1 loop call buffer k acts p y)
  show ?case
  proof (cases "mPendingReceives p = [] \<or> \<not> k \<le> length buffer")
    case True
    with 1(2) show ?thesis by (auto split: if_splits)
  next
    case False
    let ?r = "hd (mPendingReceives p)"
    note body = 1(2) [unfolded Let_def]
    show ?thesis
    proof (cases "pr_len ?r")
      case len: None
      show ?thesis
      proof (cases "\<exists>pos. pr_str ?r \<noteq> [] \<and> memsearch buffer k (length buffer - k) (pr_str ?r) = Returns (Some pos)")
        case True
        then obtain pos where pos: "pr_str ?r \<noteq> []" "memsearch buffer k (length buffer - k) (pr_str ?r) = Returns (Some pos)"
          by blast
        then have "k + (pos + length (pr_str ?r)) \<le> length buffer" using memsearch_within by fastforce
        with body False len pos 1(1) show ?thesis by (auto split: prod.splits)
      qed (use body False len in \<open>auto split: if_splits run.splits option.splits\<close>)
    next
      case (Some cell)
      show ?thesis
      proof (cases "cell < length (len_cells p) \<and> \<not> length buffer - k < len_cells p ! cell")
        case True
        then have "k + len_cells p ! cell \<le> length buffer" using False by linarith
        with body False Some True 1(1) show ?thesis by (simp split: prod.splits)
      qed (use body False Some in \<open>auto split: if_splits\<close>)
    qed
  qed
qed

interpretation promise: stream_parser "promise_cb call" "\<lambda>p. p" "trusted call"
proof (unfold_locales, goal_cases)
  case (1 p bs n acts p')
  with process_loop_within [of call bs 0 "[]" p] show ?case
    by (auto simp: promise_cb_def process_def split: option.splits run.splits)
next
  case (2 p bs n acts p')
  then show ?case by (rule promise_cb_eq)
next
  case (4 p a n acts p1 b m acts' p2)
  note first = promise_cb_eq [OF 4(1,2)]
  note second = promise_cb_eq [OF first(2) 4(3)]
  obtain n' acts1 p' where W: "promise_cb call p (a @ b) = (n', acts1, p')" "n' \<le> length (a @ b)"
    "reads call p (a @ b) acts1 p' (drop n' (a @ b))" using promise_cb_reads [OF 4(1)] by blast
  from reads_fun [OF reads_continued [OF first(3) second(3)] W(3)]
  have "acts1 = acts @ acts'" "p' = p2" "length (drop n' (a @ b)) = length (drop m (drop n a @ b))" by simp_all
  with W(1,2) first(1) second(1) show ?case by auto
qed auto

text \<open>
  C15. Receives of a number of bytes over a connection: however the system cuts the
  peer's bytes into segments, and whatever the schedule of events, sends and
  closes, the handles have run as if all bytes received had been there at once,
  and the bytes that are too few for the next receive are in the receive buffer.
\<close>

theorem promise_over_connection:
  assumes "env_law env" and "de_callback env = promise_cb call"
    and "DataSocket_new (de_heap env) maxsize True ccb = Some ds" and "unat maxsize < 2 ^ 31"
    and "ds_run env xs (k, p, ds) = Some ((k', p', ds'), evs)"
    and "handle_law call" and "counted p" and "mPendingReceives p \<noteq> [] \<longrightarrow> 0 < wanted p"
  shows "\<exists>acts rest. reads call p (received_bytes evs) acts p' rest \<and> buffer_contents (mRecvBuffer ds') = rest"
proof -
  have good: "trusted call p" using assms(6,7) by (simp add: trusted_def)
  have "promise_cb call p [] = (0, [], p)"
    using assms(8) process_loop_counted [OF assms(7), of 0 "[]" call "[]"] by (auto simp: promise_cb_def process_def)
  from promise.over_connection [OF assms(1-5) good this] promise_cb_eq(3) [OF good] show ?thesis by metis
qed

section \<open>Receives up to a delimiter\<close>

lemma occurs_drop: "k \<le> length buffer \<Longrightarrow> occurs buffer (k + i) str \<longleftrightarrow> occurs (drop k buffer) i str"
  by (auto simp: occurs_nth add.assoc)

lemma occurs_prefix: "i + length str \<le> length u \<Longrightarrow> occurs (u @ v) i str \<longleftrightarrow> occurs u i str"
  by (auto simp: occurs_nth nth_append)

text \<open>Text that is read as one piece: the delimiter behind it does not begin earlier.\<close>

definition piece :: "byte list \<Rightarrow> byte list \<Rightarrow> bool" where
  "piece str x \<longleftrightarrow> (\<forall>i < length x. \<not> occurs (x @ str) i str)"

lemma find_upt_first:
  "i < n \<Longrightarrow> P i \<Longrightarrow> (\<And>j. j < i \<Longrightarrow> \<not> P j) \<Longrightarrow> find P [0..<n] = Some i"
  by (auto simp: find_Some_iff intro!: exI [of _ i])

lemma memsearch_piece:
  assumes "str \<noteq> []" and "piece str x" and "drop k buffer = x @ str @ rest" and "k \<le> length buffer" and "length buffer < 2 ^ 64"
  shows "memsearch buffer k (length buffer - k) str = Returns (Some (length x))"
proof -
  have len: "length buffer = k + length x + length str + length rest"
    using arg_cong [OF assms(3), of length] assms(4) by simp
  have at: "occurs buffer (k + i) str \<longleftrightarrow> occurs (x @ str) i str" if "i \<le> length x" for i
    using occurs_drop [OF assms(4)] occurs_prefix [of i str "x @ str" rest] assms(3) that by simp
  have "occurs (x @ str) (length x) str" by (simp add: occurs_nth)
  with at assms(2) len have "find (\<lambda>i. occurs buffer (k + i) str) [0..<Suc (length buffer - k - length str)] = Some (length x)"
    by (intro find_upt_first) (auto simp: piece_def)
  with memsearch_finds [OF assms(1) _ assms(5), of k] len show ?thesis by simp
qed

lemma memsearch_none:
  assumes "str \<noteq> []" and "\<And>i. \<not> occurs (drop k buffer) i str" and "k + length str \<le> length buffer" and "length buffer < 2 ^ 64"
  shows "memsearch buffer k (length buffer - k) str = Returns None"
  using memsearch_finds [OF assms(1,3,4)] assms(2) occurs_drop [of k buffer _ str] assms(3) by (simp add: find_None_iff)

lemma process_loop_until:
  assumes "mPendingReceives p = r # rs" and "pr_len r = None" and "pr_str r \<noteq> []" and "k \<le> length buffer"
  shows "process_loop call buffer k acts p =
    (case memsearch buffer k (length buffer - k) (pr_str r) of
       Fault \<Rightarrow> Some Fault
     | Returns None \<Rightarrow> Some (Returns (k, acts, p))
     | Returns (Some pos) \<Rightarrow>
         (case call (pr_handle r) (take pos (drop k buffer)) (p\<lparr>mPendingReceives := rs\<rparr>) of
            (again, acts', p') \<Rightarrow>
              process_loop call buffer (k + (pos + length (pr_str r))) (acts @ acts') (if again then push_front r p' else p')))"
  using assms by (simp add: process_loop.simps [of call buffer k acts p])

lemma process_loop_piece:
  assumes "mPendingReceives p = r # rs" and "pr_len r = None" and "pr_str r = str" and "str \<noteq> []"
    and "piece str x" and "drop k buffer = x @ str @ rest" and "k \<le> length buffer" and "length buffer < 2 ^ 64"
    and "\<And>bs q. call (pr_handle r) bs q = (True, reply bs, q\<lparr>pr_user := f bs (pr_user q)\<rparr>)"
  shows "process_loop call buffer k acts p =
    process_loop call buffer (k + (length x + length str)) (acts @ reply x) (p\<lparr>pr_user := f x (pr_user p)\<rparr>)"
proof -
  have "push_front r (p\<lparr>mPendingReceives := rs, pr_user := f x (pr_user p)\<rparr>) = p\<lparr>pr_user := f x (pr_user p)\<rparr>"
    using assms(1) by (cases p) (simp add: push_front_def)
  with process_loop_until [OF assms(1,2) _ assms(7)] memsearch_piece [OF assms(4-8)] assms(3,4,6,9) show ?thesis by simp
qed

text \<open>
  C34. A receive up to a delimiter whose handle asks for more gets the pieces of the
  input one by one. But when what is left behind the last delimiter is shorter
  than the delimiter, and so in particular when nothing is left, the search
  computes a negative number of positions as an unsigned one and reads behind
  the end of the buffer.
\<close>

theorem receive_until_overruns:
  assumes "mPendingReceives p = r # rs" and "pr_len r = None" and "pr_str r = str" and "str \<noteq> []"
    and "\<And>bs q. call (pr_handle r) bs q = (True, reply bs, q\<lparr>pr_user := f bs (pr_user q)\<rparr>)"
    and "list_all (piece str) xs" and "\<And>i. \<not> occurs y i str"
    and "length (concat (map (\<lambda>x. x @ str) xs) @ y) < 2 ^ 64" and "length str \<le> 2 ^ 64"
  shows "process call (concat (map (\<lambda>x. x @ str) xs) @ y) p =
    Some (if length y < length str then Fault
          else Returns (length (concat (map (\<lambda>x. x @ str) xs)), concat (map reply xs),
                        p\<lparr>pr_user := fold f xs (pr_user p)\<rparr>))"
proof -
  let ?buf = "concat (map (\<lambda>x. x @ str) xs) @ y"
  have "process_loop call ?buf k acts q =
      Some (if length y < length str then Fault
            else Returns (length (concat (map (\<lambda>x. x @ str) xs)), acts @ concat (map reply zs), q\<lparr>pr_user := fold f zs (pr_user q)\<rparr>))"
    if "xs = ws @ zs" "k = length (concat (map (\<lambda>x. x @ str) ws))" "mPendingReceives q = r # rs" for ws zs k acts q
    using that
  proof (induction zs arbitrary: ws k acts q)
    case Nil
    then have y: "drop k ?buf = y" "k \<le> length ?buf" "length ?buf = k + length y" by auto
    have "memsearch ?buf k (length ?buf - k) str = (if length y < length str then Fault else Returns None)"
      using memsearch_faults [OF assms(4) y(2) _ assms(9)] memsearch_none [OF assms(4) _ _ assms(8), of k] y assms(7) by auto
    with process_loop_until [OF Nil(3) assms(2) _ y(2)] assms(3,4)
    have "process_loop call ?buf k acts q = Some (if length y < length str then Fault else Returns (k, acts, q))" by auto
    with Nil(1,2) show ?case by simp
  next
    case (Cons z zs)
    let ?rest = "concat (map (\<lambda>x. x @ str) zs) @ y"
    have d: "drop k ?buf = z @ str @ ?rest" "k \<le> length ?buf" using Cons.prems(1,2) by simp_all
    have "piece str z" using assms(6) Cons.prems(1) by simp
    from process_loop_piece [OF Cons.prems(3) assms(2-4) this d assms(8), of call reply f acts, OF assms(5)]
    have "process_loop call ?buf k acts q = process_loop call ?buf (k + (length z + length str)) (acts @ reply z)
        (q\<lparr>pr_user := f z (pr_user q)\<rparr>)" .
    also have "\<dots> = Some (if length y < length str then Fault
        else Returns (length (concat (map (\<lambda>x. x @ str) xs)), acts @ concat (map reply (z # zs)),
          q\<lparr>pr_user := fold f (z # zs) (pr_user q)\<rparr>))"
      using Cons.IH [of "ws @ [z]" "k + (length z + length str)" "q\<lparr>pr_user := f z (pr_user q)\<rparr>" "acts @ reply z"]
        Cons.prems by simp
    finally show ?case .
  qed
  from this [of "[]" xs 0 p "[]"] assms(1) show ?thesis by (simp add: process_def)
qed

section \<open>Witnesses\<close>

text \<open>Handles that keep what they get, answer with it and go on.\<close>

definition echo_handle :: "(unit, byte list list) handle_fn" where
  "echo_handle h bs p = (True, [Act_send bs None], p\<lparr>pr_user := pr_user p @ [bs]\<rparr>)"

lemma echo_handle_law: "handle_law echo_handle"
  by (auto simp: handle_law_def echo_handle_def counted_def)

definition blank_promise :: "(unit, byte list list) promise" where
  "blank_promise = \<lparr>mPendingReceives = [], len_cells = [], pr_user = []\<rparr>"

lemma receive_two:
  obtains p where "receive 2 () blank_promise = Some p" and "counted p" and "wanted p = 2"
    and "mPendingReceives p = [\<lparr>pr_len = Some 0, pr_str = [], pr_handle = ()\<rparr>]" and "len_cells p = [2]" and "pr_user p = []"
  by (rule that [of "\<lparr>mPendingReceives = [\<lparr>pr_len = Some 0, pr_str = [], pr_handle = ()\<rparr>], len_cells = [2], pr_user = []\<rparr>"])
    (simp_all add: receive_def receive_shared_def helpReceive_def blank_promise_def counted_def wanted_def)

lemma reads_two:
  assumes "mPendingReceives p = [\<lparr>pr_len = Some 0, pr_str = [], pr_handle = ()\<rparr>]" and "len_cells p = [2]" and "pr_user p = []"
  shows "reads echo_handle p [7, 8, 9] [Act_send [7, 8] None] (p\<lparr>pr_user := [[7, 8]]\<rparr>) [9]"
proof -
  have w: "wanted p = 2" using assms by (simp add: wanted_def)
  have "reads echo_handle (p\<lparr>pr_user := [[7, 8]]\<rparr>) (drop (wanted p) [7, 8, 9]) [] (p\<lparr>pr_user := [[7, 8]]\<rparr>) [9]"
    using assms w by (simp add: reads_wait wanted_def)
  moreover have "serve echo_handle (take (wanted p) [7, 8, 9]) p = ([Act_send [7, 8] None], p\<lparr>pr_user := [[7, 8]]\<rparr>)"
    using assms w by (simp add: serve_def echo_handle_def push_front_def)
  ultimately have "reads echo_handle p [7, 8, 9] ([Act_send [7, 8] None] @ []) (p\<lparr>pr_user := [[7, 8]]\<rparr>) [9]"
    using assms(1) w by (intro reads_next) simp_all
  then show ?thesis by simp
qed

theorem promise_reads_records_witness:
  "\<exists>p p'. receive 2 () blank_promise = Some p \<and>
     process echo_handle [7, 8, 9] p = Some (Returns (2, [Act_send [7, 8] None], p')) \<and> pr_user p' = [[7, 8]]"
proof -
  obtain p where p: "receive 2 () blank_promise = Some p" "counted p"
    "mPendingReceives p = [\<lparr>pr_len = Some 0, pr_str = [], pr_handle = ()\<rparr>]" "len_cells p = [2]" "pr_user p = []"
    by (rule receive_two)
  from promise_reads_records [OF echo_handle_law p(2), of "[7, 8, 9]"] reads_two [OF p(3-5)] obtain n where
    "process echo_handle [7, 8, 9] p = Some (Returns (n, [Act_send [7, 8] None], p\<lparr>pr_user := [[7, 8]]\<rparr>))"
    "[9] = drop n [7, 8, 9 :: byte]" "n \<le> 3" by auto
  moreover from this(2) have "length [9 :: byte] = length (drop n [7, 8, 9 :: byte])" by metis
  then have "n = 2" using \<open>n \<le> 3\<close> by simp
  ultimately show ?thesis using p(1) by auto
qed

theorem promise_over_connection_witness:
  "\<exists>ds p k' p' ds' evs. receive 2 () blank_promise = Some p \<and> DataSocket_new full_heap 65536 True True = Some ds \<and>
     ds_run (segment_env (promise_cb echo_handle)) [Op_epoll False True False] ([[7, 8, 9]], p, ds) = Some ((k', p', ds'), evs) \<and>
     pr_user p' = [[7, 8]] \<and> buffer_contents (mRecvBuffer ds') = [9]"
proof -
  obtain p where p: "receive 2 () blank_promise = Some p" "counted p" "wanted p = 2"
    "mPendingReceives p = [\<lparr>pr_len = Some 0, pr_str = [], pr_handle = ()\<rparr>]" "len_cells p = [2]" "pr_user p = []"
    by (rule receive_two)
  obtain ds where ds: "DataSocket_new full_heap 65536 True True = Some ds" using sample_new by (auto simp: sample_env_def)
  from first_segment [OF promise.law [of echo_handle] ds, of "[7, 8, 9]" p] obtain k' p' ds' evs where
    R: "ds_run (segment_env (promise_cb echo_handle)) [Op_epoll False True False] ([[7, 8, 9]], p, ds) = Some ((k', p', ds'), evs)"
    "received_bytes evs = [7, 8, 9]" by auto
  have env: "env_law (segment_env (promise_cb echo_handle))" "de_callback (segment_env (promise_cb echo_handle)) = promise_cb echo_handle"
    "DataSocket_new (de_heap (segment_env (promise_cb echo_handle))) 65536 True True = Some ds"
    using segment_env_law [OF promise.law] ds by (simp_all add: segment_env_def)
  from promise_over_connection [OF env _ R(1) echo_handle_law p(2)] p(3) R(2) obtain acts rest where
    "reads echo_handle p [7, 8, 9] acts p' rest" "buffer_contents (mRecvBuffer ds') = rest" by auto
  with reads_fun [OF reads_two [OF p(4-6)], of acts p' rest]
  have "pr_user p' = [[7, 8]]" "buffer_contents (mRecvBuffer ds') = [9]" by simp_all
  with p(1) ds R(1) show ?thesis by blast
qed

theorem receive_until_overruns_witness:
  "\<exists>p. receiveUntil [10] () blank_promise = Inr p \<and> process echo_handle [65, 10] p = Some Fault \<and>
     (\<exists>p'. process echo_handle [65, 10, 66] p = Some (Returns (2, [Act_send [65] None], p')) \<and> pr_user p' = [[65]])"
proof -
  obtain p where p: "receiveUntil [10] () blank_promise = Inr p" "pr_user p = []"
    "mPendingReceives p = [\<lparr>pr_len = None, pr_str = [10], pr_handle = ()\<rparr>]"
    by (simp add: receiveUntil_def helpReceive_def blank_promise_def)
  have x: "list_all (piece [10]) [[65]]" by (simp add: piece_def occurs_nth)
  have none: "\<not> occurs [] i [10]" "\<not> occurs [66] i [10]" for i by (auto simp: occurs_nth)
  have h: "echo_handle () bs q = (True, [Act_send bs None], q\<lparr>pr_user := (\<lambda>bs u. u @ [bs]) bs (pr_user q)\<rparr>)" for bs q
    by (simp add: echo_handle_def)
  note go = receive_until_overruns [OF p(3) _ _ _ _ x, of echo_handle "\<lambda>bs. [Act_send bs None]" "\<lambda>bs u. u @ [bs]"]
  have "process echo_handle ([65, 10] @ []) p = Some Fault" using go [of "[]"] h none by simp
  moreover have "process echo_handle ([65, 10] @ [66]) p = Some (Returns (2, [Act_send [65] None], p\<lparr>pr_user := [[65]]\<rparr>))"
    using go [of "[66]"] h none p(2) by simp
  ultimately show ?thesis using p(1) by auto
qed

end
