(* ===== verification/Msg_Queue.thy ===== *)
theory Msg_Queue
  imports Brynet_Prelude
begin

text \<open>
  \<open>brynet::MsgQueue\<close> of \<open>utils/MsgQueue.h\<close>: a queue between one writer and one
  reader, in three lists. The writer's list and the reader's list belong to
  their threads; the shared list is changed under the mutex, but looked at
  outside of it. Each operation is a function on the three lists, split where
  the source takes the lock; the threads interleave at these points.
\<close>

section \<open>The three lists\<close>

record 'a mq =
  mWriteList :: "'a list"
  mSharedList :: "'a list"
  mReadList :: "'a list"

definition mq_new :: "'a mq" where
  "mq_new = \<lparr>mWriteList = [], mSharedList = [], mReadList = []\<rparr>"

definition mq_clear :: "'a mq \<Rightarrow> 'a mq" where
  "mq_clear q = q\<lparr>mReadList := [], mWriteList := [], mSharedList := []\<rparr>"

definition mq_push :: "'a \<Rightarrow> 'a mq \<Rightarrow> 'a mq" where
  "mq_push t q = q\<lparr>mWriteList := mWriteList q @ [t]\<rparr>"

text \<open>The check before the lock, and the part under the lock.\<close>

definition try_returns :: "'a mq \<Rightarrow> bool" where
  "try_returns q \<longleftrightarrow> mWriteList q = [] \<or> mSharedList q \<noteq> []"

definition try_locked :: "'a mq \<Rightarrow> 'a mq" where
  "try_locked q =
     (if mWriteList q \<noteq> [] \<and> mSharedList q = []
      then q\<lparr>mSharedList := mWriteList q, mWriteList := mSharedList q\<rparr> else q)"

definition trySyncWrite :: "'a mq \<Rightarrow> 'a mq" where
  "trySyncWrite q = (if try_returns q then q else try_locked q)"

text \<open>The two loops of \<open>forceSyncWrite\<close>: \<open>push_front\<close> from the back, \<open>push_back\<close> from the front.\<close>

definition push_all_front :: "'a list \<Rightarrow> 'a list \<Rightarrow> 'a list" where
  "push_all_front xs ys = fold (#) (rev xs) ys"

definition push_all_back :: "'a list \<Rightarrow> 'a list \<Rightarrow> 'a list" where
  "push_all_back xs ys = fold (\<lambda>x zs. zs @ [x]) xs ys"

definition force_locked :: "'a mq \<Rightarrow> 'a mq" where
  "force_locked q =
     (if mWriteList q = [] then q
      else if length (mWriteList q) > length (mSharedList q)
      then q\<lparr>mSharedList := push_all_front (mSharedList q) (mWriteList q), mWriteList := []\<rparr>
      else q\<lparr>mSharedList := push_all_back (mWriteList q) (mSharedList q), mWriteList := []\<rparr>)"

definition forceSyncWrite :: "'a mq \<Rightarrow> 'a mq" where
  "forceSyncWrite q =
     (if mWriteList q = [] then q
      else if mSharedList q = [] then trySyncWrite q
      else force_locked q)"

definition popFront :: "'a mq \<Rightarrow> ('a \<times> 'a mq) option" where
  "popFront q = (case mReadList q of [] \<Rightarrow> None | x # xs \<Rightarrow> Some (x, q\<lparr>mReadList := xs\<rparr>))"

definition popBack :: "'a mq \<Rightarrow> ('a \<times> 'a mq) option" where
  "popBack q =
     (if mReadList q = [] then None
      else Some (last (mReadList q), q\<lparr>mReadList := butlast (mReadList q)\<rparr>))"

text \<open>\<open>syncRead\<close> after the optional wait, which changes no list.\<close>

definition read_locked :: "'a mq \<Rightarrow> 'a mq" where
  "read_locked q =
     (if mReadList q = [] \<and> mSharedList q \<noteq> []
      then q\<lparr>mReadList := mSharedList q, mSharedList := mReadList q\<rparr> else q)"

definition syncRead :: "'a mq \<Rightarrow> 'a mq" where
  "syncRead q = (if mReadList q \<noteq> [] then q else read_locked q)"

lemmas mq_defs =
  mq_push_def try_returns_def try_locked_def trySyncWrite_def force_locked_def forceSyncWrite_def
  popFront_def popBack_def read_locked_def syncRead_def

section \<open>The contract of a hand-over queue\<close>

text \<open>What the queue holds, oldest first.\<close>

definition mq_contents :: "'a mq \<Rightarrow> 'a list" where
  "mq_contents q = mReadList q @ mSharedList q @ mWriteList q"

locale handover =
  fixes contents :: "'q \<Rightarrow> 'a list"
    and push :: "'a \<Rightarrow> 'q \<Rightarrow> 'q"
    and pop :: "'q \<Rightarrow> ('a \<times> 'q) option"
    and moves :: "('q \<Rightarrow> 'q) set"
  assumes push_back: "contents (push x q) = contents q @ [x]"
    and pop_front: "pop q = Some (x, q') \<Longrightarrow> contents q = x # contents q'"
    and moves_keep: "m \<in> moves \<Longrightarrow> contents (m q) = contents q"
begin

lemma move_pop:
  assumes "m \<in> moves" and "pop (m q) = Some (x, q')"
  shows "contents q = x # contents q'"
  using pop_front [OF assms(2)] moves_keep [OF assms(1)] by simp

end

lemma push_all_front_append: "push_all_front xs ys = xs @ ys"
  by (induction xs arbitrary: ys) (simp_all add: push_all_front_def)

lemma push_all_back_append: "push_all_back xs ys = ys @ xs"
  by (induction xs arbitrary: ys) (simp_all add: push_all_back_def)

interpretation mq: handover mq_contents mq_push popFront "{try_locked, force_locked, read_locked}"
  by unfold_locales
    (auto simp: mq_contents_def mq_defs push_all_front_append push_all_back_append split: list.splits)

section \<open>The two threads\<close>

text \<open>
  The writer is between calls, or has passed the unlocked check of
  \<open>trySyncWrite\<close> or the two checks of \<open>forceSyncWrite\<close> and waits for the lock.
  The reader is between calls, or has found its list empty and waits for the
  lock. \<open>sent\<close> and \<open>got\<close> record what was pushed and what was popped.
\<close>

datatype writer_pc = W_idle | W_try | W_force
datatype reader_pc = R_idle | R_sync

record 'a mq_sys =
  queue :: "'a mq"
  wpc :: writer_pc
  rpc :: reader_pc
  sent :: "'a list"
  got :: "'a list"

inductive mq_step :: "'a mq_sys \<Rightarrow> 'a mq_sys \<Rightarrow> bool" where
  step_push: "wpc s = W_idle \<Longrightarrow>
    mq_step s (s\<lparr>queue := mq_push x (queue s), sent := sent s @ [x]\<rparr>)"
| step_try: "wpc s = W_idle \<Longrightarrow> \<not> try_returns (queue s) \<Longrightarrow> mq_step s (s\<lparr>wpc := W_try\<rparr>)"
| step_try_locked: "wpc s = W_try \<Longrightarrow> mq_step s (s\<lparr>queue := try_locked (queue s), wpc := W_idle\<rparr>)"
| step_force: "wpc s = W_idle \<Longrightarrow> mWriteList (queue s) \<noteq> [] \<Longrightarrow> mSharedList (queue s) \<noteq> [] \<Longrightarrow>
    mq_step s (s\<lparr>wpc := W_force\<rparr>)"
| step_force_locked: "wpc s = W_force \<Longrightarrow> mq_step s (s\<lparr>queue := force_locked (queue s), wpc := W_idle\<rparr>)"
| step_read: "rpc s = R_idle \<Longrightarrow> mReadList (queue s) = [] \<Longrightarrow> mq_step s (s\<lparr>rpc := R_sync\<rparr>)"
| step_read_locked: "rpc s = R_sync \<Longrightarrow> mq_step s (s\<lparr>queue := read_locked (queue s), rpc := R_idle\<rparr>)"
| step_pop: "rpc s = R_idle \<Longrightarrow> popFront (queue s) = Some (x, q) \<Longrightarrow>
    mq_step s (s\<lparr>queue := q, got := got s @ [x]\<rparr>)"

definition mq_start :: "'a mq_sys" where
  "mq_start = \<lparr>queue = mq_new, wpc = W_idle, rpc = R_idle, sent = [], got = []\<rparr>"

inductive mq_reach :: "'a mq_sys \<Rightarrow> bool" where
  reach_start: "mq_reach mq_start"
| reach_step: "mq_reach s \<Longrightarrow> mq_step s s' \<Longrightarrow> mq_reach s'"

definition mq_inv :: "'a mq_sys \<Rightarrow> bool" where
  "mq_inv s \<longleftrightarrow> got s @ mq_contents (queue s) = sent s \<and>
     (rpc s = R_sync \<longrightarrow> mReadList (queue s) = []) \<and>
     (wpc s \<noteq> W_idle \<longrightarrow> mWriteList (queue s) \<noteq> [])"

lemma mq_frames [simp]:
  "mReadList (mq_push x q) = mReadList q" "mReadList (try_locked q) = mReadList q"
  "mReadList (force_locked q) = mReadList q" "mWriteList (read_locked q) = mWriteList q"
  "mWriteList (mq_push x q) \<noteq> []"
  by (simp_all add: mq_defs)

lemma mq_inv_step: "mq_step s s' \<Longrightarrow> mq_inv s \<Longrightarrow> mq_inv s'"
proof (induction rule: mq_step.induct)
  case (step_pop s x q)
  then show ?case using mq.pop_front [of "queue s" x q]
    by (auto simp: mq_inv_def popFront_def split: list.splits)
qed (auto simp: mq_inv_def mq.push_back mq.moves_keep try_returns_def append_eq_append_conv2)

lemma mq_inv_reach: "mq_reach s \<Longrightarrow> mq_inv s"
proof (induction rule: mq_reach.induct)
  case reach_start
  show ?case by (simp add: mq_inv_def mq_start_def mq_new_def mq_contents_def)
next
  case (reach_step s s')
  then show ?case by (blast intro: mq_inv_step)
qed

text \<open>
  C28. In every interleaving of the writer and the reader the reader gets the
  messages in the order in which the writer pushed them, none twice and none
  lost: what it got, followed by the three lists, is what was pushed. The
  unlocked looks at the shared list never let a hand-over drop or reorder a
  message, and a writer that waits for the lock has something to hand over.
\<close>

theorem msg_queue_fifo:
  assumes "mq_reach s"
  shows "sent s = got s @ mReadList (queue s) @ mSharedList (queue s) @ mWriteList (queue s)"
  using mq_inv_reach [OF assms] by (simp add: mq_inv_def mq_contents_def)

theorem msg_queue_fifo_witness:
  "\<exists>s :: nat mq_sys. mq_reach s \<and> sent s = [7] \<and> got s = [7] \<and>
     mReadList (queue s) @ mSharedList (queue s) @ mWriteList (queue s) = []"
proof -
  let ?q = "\<lambda>w sh r. \<lparr>mWriteList = w, mSharedList = sh, mReadList = r\<rparr> :: nat mq"
  let ?s = "\<lambda>q w r gs. \<lparr>queue = q, wpc = w, rpc = r, sent = [7], got = gs\<rparr> :: nat mq_sys"
  have 1: "mq_reach (?s (?q [7] [] []) W_idle R_idle [])"
    using reach_step [OF reach_start step_push [of mq_start 7]]
    by (simp add: mq_start_def mq_new_def mq_push_def)
  have 2: "mq_reach (?s (?q [7] [] []) W_try R_idle [])"
    using reach_step [OF 1 step_try] by (simp add: try_returns_def)
  have 3: "mq_reach (?s (?q [7] [] []) W_try R_sync [])"
    using reach_step [OF 2 step_read] by simp
  have 4: "mq_reach (?s (?q [] [7] []) W_idle R_sync [])"
    using reach_step [OF 3 step_try_locked] by (simp add: try_locked_def)
  have 5: "mq_reach (?s (?q [] [] [7]) W_idle R_idle [])"
    using reach_step [OF 4 step_read_locked] by (simp add: read_locked_def)
  have 6: "mq_reach (?s (?q [] [] []) W_idle R_idle [7])"
    using reach_step [OF 5 step_pop [of _ 7 "?q [] [] []"]] by (simp add: popFront_def)
  from msg_queue_fifo [OF 6] 6 show ?thesis by auto
qed

text \<open>
  No message waits for a further one: when the writer has forced a hand-over
  and the reader, which has read all it had, synchronises once, all messages
  pushed so far are in the reader's list in order; the writer's and the shared
  list are empty.
\<close>

theorem msg_queue_delivers:
  assumes "mReadList q = []"
  shows "mReadList (syncRead (forceSyncWrite q)) = mSharedList q @ mWriteList q \<and>
    mSharedList (syncRead (forceSyncWrite q)) = [] \<and> mWriteList (syncRead (forceSyncWrite q)) = []"
  using assms by (auto simp: mq_defs push_all_front_append push_all_back_append)

theorem msg_queue_delivers_witness:
  "mReadList (syncRead (forceSyncWrite \<lparr>mWriteList = [3, 4 :: nat], mSharedList = [1, 2], mReadList = []\<rparr>)) =
     [1, 2, 3, 4]"
  using msg_queue_delivers [of "\<lparr>mWriteList = [3, 4 :: nat], mSharedList = [1, 2], mReadList = []\<rparr>"] by simp

end
