(* ===== verification/Timer.thy ===== *)
theory Timer
  imports Brynet_Prelude "HOL-Library.Multiset"
begin

text \<open>
  Timers (\<open>timer/Timer.h\<close>, \<open>timer/Timer.cpp\<close>). A timer object has an address; the
  manager's queue holds shared pointers, everybody else weak ones, so an object
  lives while it is in the queue or its callback is running. Times are counts
  of nanoseconds; they stay far below the range of 64 bits. The clock is a
  sequence of readings, one for every call of \<open>steady_clock::now\<close>.
\<close>

section \<open>Timer objects\<close>

record 'cb timer_s =
  tm_addr :: nat
  mCallback :: 'cb
  mStartTime :: int
  mLastTime :: int

definition getLeftTime :: "'cb timer_s \<Rightarrow> int \<Rightarrow> int" where
  "getLeftTime t now = mLastTime t - (now - mStartTime t)"

definition CompareTimer :: "'cb timer_s \<Rightarrow> 'cb timer_s \<Rightarrow> bool" where
  "CompareTimer l r \<longleftrightarrow> (mStartTime l - mStartTime r) + (mLastTime l - mLastTime r) > 0"

definition deadline :: "'cb timer_s \<Rightarrow> int" where
  "deadline t = mStartTime t + mLastTime t"

lemma CompareTimer_deadline: "CompareTimer l r \<longleftrightarrow> deadline r < deadline l"
  by (auto simp: CompareTimer_def deadline_def)

lemma left_deadline: "getLeftTime t now > 0 \<longleftrightarrow> now < deadline t"
  by (auto simp: getLeftTime_def deadline_def)

section \<open>The contract of a priority queue\<close>

text \<open>
  \<open>std::priority_queue\<close> with a comparison \<open>later\<close>: the element on top is not later
  than any other. Which of several such elements it is, is left open.
\<close>

locale priority_queue =
  fixes later :: "'t \<Rightarrow> 't \<Rightarrow> bool"
    and inv :: "'q \<Rightarrow> bool"
    and elems :: "'q \<Rightarrow> 't multiset"
    and push :: "'t \<Rightarrow> 'q \<Rightarrow> 'q"
    and top :: "'q \<Rightarrow> 't"
    and pop :: "'q \<Rightarrow> 'q"
  assumes push_inv: "inv q \<Longrightarrow> inv (push x q)"
    and push_elems: "inv q \<Longrightarrow> elems (push x q) = add_mset x (elems q)"
    and top_elem: "inv q \<Longrightarrow> elems q \<noteq> {#} \<Longrightarrow> top q \<in># elems q"
    and top_first: "inv q \<Longrightarrow> x \<in># elems q \<Longrightarrow> \<not> later (top q) x"
    and pop_inv: "inv q \<Longrightarrow> elems q \<noteq> {#} \<Longrightarrow> inv (pop q)"
    and pop_elems: "inv q \<Longrightarrow> elems q \<noteq> {#} \<Longrightarrow> elems q = add_mset (top q) (elems (pop q))"
begin

lemma next_not_earlier:
  assumes "inv q" and "elems q \<noteq> {#}" and "elems (pop q) \<noteq> {#}"
  shows "\<not> later (top q) (top (pop q))"
proof -
  have "top (pop q) \<in># elems (pop q)" by (rule top_elem [OF pop_inv [OF assms(1,2)] assms(3)])
  then have "top (pop q) \<in># elems q" by (subst pop_elems [OF assms(1,2)]) simp
  with assms(1) show ?thesis by (rule top_first)
qed

end

text \<open>The queue as a list with the element on top first; equal timers keep their order.\<close>

fun pq_push :: "'cb timer_s \<Rightarrow> 'cb timer_s list \<Rightarrow> 'cb timer_s list" where
  "pq_push x [] = [x]"
| "pq_push x (y # ys) = (if CompareTimer y x then x # y # ys else y # pq_push x ys)"

definition pq_top :: "'cb timer_s list \<Rightarrow> 'cb timer_s" where
  "pq_top q = hd q"

definition pq_pop :: "'cb timer_s list \<Rightarrow> 'cb timer_s list" where
  "pq_pop q = tl q"

definition pq_inv :: "'cb timer_s list \<Rightarrow> bool" where
  "pq_inv q \<longleftrightarrow> sorted (map deadline q)"

lemma mset_pq_push [simp]: "mset (pq_push x q) = add_mset x (mset q)"
  by (induction x q rule: pq_push.induct) simp_all

lemma set_pq_push [simp]: "set (pq_push x q) = insert x (set q)"
  by (induction x q rule: pq_push.induct) auto

lemma pq_inv_push: "pq_inv q \<Longrightarrow> pq_inv (pq_push x q)"
proof (induction x q rule: pq_push.induct)
  case (2 x y ys)
  then show ?case by (auto simp: pq_inv_def CompareTimer_deadline)
qed (simp add: pq_inv_def)

interpretation pq: priority_queue CompareTimer pq_inv mset pq_push pq_top pq_pop
proof (unfold_locales, goal_cases)
  case (1 q x)
  then show ?case by (rule pq_inv_push)
next
  case (3 q)
  then show ?case by (cases q) (simp_all add: pq_top_def)
next
  case (4 q x)
  then show ?case by (cases q) (auto simp: pq_top_def pq_inv_def CompareTimer_deadline)
next
  case (5 q)
  then show ?case by (cases q) (simp_all add: pq_inv_def pq_pop_def)
next
  case (6 q)
  then show ?case by (cases q) (simp_all add: pq_top_def pq_pop_def)
qed simp

section \<open>The manager\<close>

record 'cb timer_mgr =
  mTimers :: "'cb timer_s list"
  mActive :: "nat \<Rightarrow> bool"
  tm_next :: nat
  tm_running :: "nat option"

definition addTimer ::
    "int \<Rightarrow> int \<Rightarrow> 'cb \<Rightarrow> ('cb, 'z) timer_mgr_scheme \<Rightarrow> nat \<times> ('cb, 'z) timer_mgr_scheme" where
  "addTimer now timeout cb s =
     (tm_next s,
      s\<lparr>mTimers := pq_push \<lparr>tm_addr = tm_next s, mCallback = cb, mStartTime = now, mLastTime = timeout\<rparr> (mTimers s),
        mActive := (mActive s)(tm_next s := True), tm_next := Suc (tm_next s)\<rparr>)"

definition cancel :: "nat \<Rightarrow> ('cb, 'z) timer_mgr_scheme \<Rightarrow> ('cb, 'z) timer_mgr_scheme" where
  "cancel a s = s\<lparr>mActive := (mActive s)(a := False)\<rparr>"

text \<open>\<open>weak_ptr::lock\<close>: whether the object still exists.\<close>

definition alive :: "nat \<Rightarrow> ('cb, 'z) timer_mgr_scheme \<Rightarrow> bool" where
  "alive a s \<longleftrightarrow> a \<in> tm_addr ` set (mTimers s) \<or> tm_running s = Some a"

definition isEmpty :: "('cb, 'z) timer_mgr_scheme \<Rightarrow> bool" where
  "isEmpty s \<longleftrightarrow> mTimers s = []"

definition nearLeftTime :: "int \<Rightarrow> ('cb, 'z) timer_mgr_scheme \<Rightarrow> int" where
  "nearLeftTime now s =
     (if mTimers s = [] then 0
      else let result = getLeftTime (pq_top (mTimers s)) now in if result < 0 then 0 else result)"

definition tm_clear :: "('cb, 'z) timer_mgr_scheme \<Rightarrow> ('cb, 'z) timer_mgr_scheme" where
  "tm_clear s = s\<lparr>mTimers := []\<rparr>"

text \<open>
  The callbacks are user code: what the callback of a timer does to the state
  at a time. While it runs, the loop of \<open>schedule\<close> holds the timer object.
\<close>

type_synonym ('cb, 'z) run_fn =
  "int \<Rightarrow> 'cb timer_s \<Rightarrow> ('cb, 'z) timer_mgr_scheme \<Rightarrow> ('cb, 'z) timer_mgr_scheme"

definition run_timer :: "('cb, 'z) run_fn \<Rightarrow> int \<Rightarrow> 'cb timer_s \<Rightarrow> ('cb, 'z) timer_mgr_scheme \<Rightarrow>
    ('cb, 'z) timer_mgr_scheme" where
  "run_timer run now t s = (run now t (s\<lparr>tm_running := Some (tm_addr t)\<rparr>))\<lparr>tm_running := None\<rparr>"

text \<open>
  \<open>schedule\<close>: \<open>i\<close> counts the clock readings, one to test the timer on top and one
  that its callback may use. It returns the timers whose callback ran, each
  with the reading that found it due. A callback can add timers that are due at
  once, so the loop has fuel.
\<close>

fun schedule ::
    "nat \<Rightarrow> (nat \<Rightarrow> int) \<Rightarrow> ('cb, 'z) run_fn \<Rightarrow> nat \<Rightarrow> ('cb, 'z) timer_mgr_scheme \<Rightarrow>
     (nat \<times> ('cb, 'z) timer_mgr_scheme \<times> ('cb timer_s \<times> int) list) option" where
  "schedule 0 clock run i s = None"
| "schedule (Suc fuel) clock run i s =
     (if mTimers s = [] then Some (i, s, [])
      else let tmp = pq_top (mTimers s) in
        if getLeftTime tmp (clock i) > 0 then Some (Suc i, s, [])
        else let s1 = s\<lparr>mTimers := pq_pop (mTimers s)\<rparr> in
          if mActive s1 (tm_addr tmp)
          then map_option (\<lambda>(i', s', fired). (i', s', (tmp, clock i) # fired))
                 (schedule fuel clock run (i + 2) (run_timer run (clock (Suc i)) tmp s1))
          else schedule fuel clock run (Suc i) s1)"

section \<open>What \<open>schedule\<close> does\<close>

text \<open>Callbacks that neither add nor cancel timers.\<close>

definition quiet_run :: "('cb, 'z) run_fn \<Rightarrow> bool" where
  "quiet_run run \<longleftrightarrow> (\<forall>now t s. mTimers (run now t s) = mTimers s \<and> mActive (run now t s) = mActive s)"

lemma quiet_run_timer:
  "quiet_run run \<Longrightarrow> mTimers (run_timer run now t s) = mTimers s \<and> mActive (run_timer run now t s) = mActive s"
  by (simp add: quiet_run_def run_timer_def)

definition fired_ok :: "('cb timer_s \<times> int) list \<Rightarrow> bool" where
  "fired_ok fs \<longleftrightarrow> list_all (\<lambda>(t, now). deadline t \<le> now) fs"

lemma schedule_ok:
  assumes "quiet_run run" and "pq_inv (mTimers s)" and "length (mTimers s) < fuel"
  shows "\<exists>i' s' fired due. schedule fuel clock run i s = Some (i', s', fired) \<and>
    mTimers s = due @ mTimers s' \<and> map fst fired = filter (\<lambda>t. mActive s (tm_addr t)) due \<and>
    fired_ok fired \<and> i \<le> i' \<and> (mTimers s' \<noteq> [] \<longrightarrow> i < i' \<and> (\<forall>t\<in>set (mTimers s'). clock (i' - 1) < deadline t))"
  using assms(2,3)
proof (induction fuel arbitrary: i s)
  case (Suc fuel)
  show ?case
  proof (cases "mTimers s")
    case Nil
    then show ?thesis by (simp add: fired_ok_def)
  next
    case (Cons t q)
    have inv: "pq_inv q" "\<forall>t'\<in>set q. deadline t \<le> deadline t'"
      using Suc.prems(1) Cons by (auto simp: pq_inv_def)
    show ?thesis
    proof (cases "clock i < deadline t")
      case True
      with Cons inv show ?thesis by (force simp: pq_top_def left_deadline fired_ok_def)
    next
      case False
      let ?s1 = "s\<lparr>mTimers := q\<rparr>"
      define s2 where "s2 = (if mActive s (tm_addr t) then run_timer run (clock (Suc i)) t ?s1 else ?s1)"
      define j where "j = (if mActive s (tm_addr t) then i + 2 else Suc i)"
      have s2: "mTimers s2 = q" "mActive s2 = mActive s"
        using quiet_run_timer [OF assms(1), of "clock (Suc i)" t ?s1] by (auto simp: s2_def)
      have "length (mTimers s2) < fuel" using Suc.prems(2) Cons s2 by simp
      with Suc.IH [of s2 j] inv s2 obtain i' s' fired due where
        IH: "schedule fuel clock run j s2 = Some (i', s', fired)" "q = due @ mTimers s'"
          "map fst fired = filter (\<lambda>t. mActive s (tm_addr t)) due" "fired_ok fired" "j \<le> i'"
          "mTimers s' \<noteq> [] \<longrightarrow> j < i' \<and> (\<forall>t\<in>set (mTimers s'). clock (i' - 1) < deadline t)"
        by auto
      define fired' where "fired' = (if mActive s (tm_addr t) then (t, clock i) # fired else fired)"
      have "schedule (Suc fuel) clock run i s = Some (i', s', fired')"
        using Cons False IH(1)
        by (cases "mActive s (tm_addr t)") (simp_all add: pq_top_def pq_pop_def left_deadline s2_def j_def fired'_def)
      moreover have "map fst fired' = filter (\<lambda>t. mActive s (tm_addr t)) (t # due)" "fired_ok fired'" "i < j"
        using IH(3,4) False by (simp_all add: fired'_def fired_ok_def j_def)
      ultimately show ?thesis using IH Cons
        by (intro exI [of _ i'] exI [of _ s'] exI [of _ fired'] exI [of _ "t # due"]) auto
    qed
  qed
qed simp


definition three_timers :: "nat timer_mgr" where
  "three_timers = snd (addTimer 0 5 1 (cancel 0 (snd (addTimer 0 3 2 (snd (addTimer 0 1 3
     \<lparr>mTimers = [], mActive = (\<lambda>_. False), tm_next = 0, tm_running = None\<rparr>))))))"


text \<open>
  \<open>nearLeftTime\<close> is how long the loop may sleep: it is never negative, no
  timer of the queue is due before it is over, and if there is a timer, one is
  due then.
\<close>

theorem near_left_time_exact:
  assumes "pq_inv (mTimers s)" and "mTimers s \<noteq> []"
  shows "0 \<le> nearLeftTime now s \<and>
    (\<forall>t\<in>set (mTimers s). \<forall>d. 0 \<le> d \<and> d < nearLeftTime now s \<longrightarrow> now + d < deadline t) \<and>
    (\<exists>t\<in>set (mTimers s). deadline t \<le> now + nearLeftTime now s)"
proof -
  have top: "pq_top (mTimers s) \<in> set (mTimers s)" using pq.top_elem [OF assms(1)] assms(2) by simp
  have "\<forall>t\<in>set (mTimers s). deadline (pq_top (mTimers s)) \<le> deadline t"
    using pq.top_first [OF assms(1)] by (auto simp: CompareTimer_deadline not_less)
  moreover have "nearLeftTime now s = max 0 (deadline (pq_top (mTimers s)) - now)"
    using assms(2) by (simp add: nearLeftTime_def getLeftTime_def deadline_def Let_def)
  ultimately show ?thesis using top by (intro conjI bexI [of _ "pq_top (mTimers s)"]) force+
qed

theorem near_left_time_exact_witness:
  "0 \<le> nearLeftTime 0 three_timers \<and> (\<exists>t\<in>set (mTimers three_timers). deadline t \<le> nearLeftTime 0 three_timers)"
proof -
  have "pq_inv (mTimers three_timers)" "mTimers three_timers \<noteq> []"
    by (simp_all add: three_timers_def addTimer_def cancel_def pq_inv_def CompareTimer_def deadline_def)
  from near_left_time_exact [OF this, of 0] show ?thesis by simp
qed

end
