(* ===== verification/Heartbeat.thy ===== *)
theory Heartbeat
  imports Timer Data_Socket
begin

text \<open>
  The heartbeat check of a connection (\<open>DataSocket::setHeartBeat\<close>, \<open>PingCheck\<close> and
  \<open>startPingCheckTimer\<close>): a timer closes a connection that received nothing since
  the check was set. The state is the loop's timer manager with the connection,
  its interval and its weak pointer to the timer.
\<close>

datatype hb_cb = Cb_ping

record hb_state = "hb_cb timer_mgr" +
  hb_socket :: data_socket
  mCheckTime :: int
  mTimer :: "nat option"

definition timer_locked :: "hb_state \<Rightarrow> bool" where
  "timer_locked s \<longleftrightarrow> (case mTimer s of None \<Rightarrow> False | Some a \<Rightarrow> alive a s)"

definition startPingCheckTimer :: "int \<Rightarrow> hb_state \<Rightarrow> hb_state" where
  "startPingCheckTimer now s =
     (if \<not> timer_locked s \<and> mCheckTime s \<noteq> 0
      then case addTimer now (mCheckTime s) Cb_ping s of (a, s') \<Rightarrow> s'\<lparr>mTimer := Some a\<rparr>
      else s)"

definition PingCheck :: "int \<Rightarrow> hb_state \<Rightarrow> hb_state" where
  "PingCheck now s =
     (if mRecvData (hb_socket s)
      then startPingCheckTimer now (s\<lparr>hb_socket := (hb_socket s)\<lparr>mRecvData := False\<rparr>\<rparr>)
      else s\<lparr>hb_socket := procCloseInLoop (hb_socket s)\<rparr>)"

definition setHeartBeat :: "int \<Rightarrow> int \<Rightarrow> hb_state \<Rightarrow> hb_state" where
  "setHeartBeat now checkTime s =
     (let s = (case mTimer s of
                 Some a \<Rightarrow> if alive a s then (cancel a s)\<lparr>mTimer := None\<rparr> else s
               | None \<Rightarrow> s);
          s = s\<lparr>mCheckTime := checkTime\<rparr>
      in if checkTime \<noteq> 0 then startPingCheckTimer now s else s)"

text \<open>The callback of the check timer.\<close>

fun ping_run :: "int \<Rightarrow> hb_cb timer_s \<Rightarrow> hb_state \<Rightarrow> hb_state" where
  "ping_run now t s = (case mCallback t of Cb_ping \<Rightarrow> PingCheck now s)"

lemmas heartbeat_defs =
  timer_locked_def startPingCheckTimer_def PingCheck_def setHeartBeat_def run_timer_def addTimer_def alive_def
  pq_top_def pq_pop_def left_deadline deadline_def

text \<open>A manager with no timers, and a connection that is open and has no check yet.\<close>

definition no_check :: "hb_state \<Rightarrow> bool" where
  "no_check s \<longleftrightarrow> mTimers s = [] \<and> mTimer s = None \<and> tm_running s = None \<and>
     mSocket (hb_socket s) \<and> \<not> mIsPostFinalClose (hb_socket s)"

text \<open>
  A connection that receives nothing is closed by its heartbeat check: no
  round of the timers before the interval is over touches it, and the first
  round after it closes the socket and posts the disconnect callback.
\<close>

theorem heartbeat_closes_silent:
  assumes "no_check s" and "\<not> mRecvData (hb_socket s)" and "0 < checkTime"
  shows "\<exists>i' s' fired. schedule 2 clock ping_run i (setHeartBeat now checkTime s) = Some (i', s', fired) \<and>
    (if clock i < now + checkTime then s' = setHeartBeat now checkTime s
     else \<not> mSocket (hb_socket s') \<and> Proc_disconnect \<in> set (ds_after (hb_socket s')))"
  using assms
  by (cases "clock i < now + checkTime")
    (simp_all add: no_check_def heartbeat_defs numeral_2_eq_2 procCloseInLoop_def onClose_def closeSocket_def)

definition idle_hb :: hb_state where
  "idle_hb = \<lparr>mTimers = [], mActive = (\<lambda>_. False), tm_next = 0, tm_running = None,
     hb_socket = \<lparr>mSocket = True, mIsPostFinalClose = False, mCanWrite = True,
       mRecvBuffer = \<lparr>bs_data = [], bs_data_len = 0, bs_write_pos = 0, bs_read_pos = 0\<rparr>,
       mMaxRecvBufferSize = 0, mSendList = [], mIsPostFlush = False, mRecvData = False,
       hasDataCallback = True, hasDisConnectCallback = True, ds_epollout = False, ds_after = []\<rparr>,
     mCheckTime = 0, mTimer = None\<rparr>"

theorem heartbeat_closes_silent_witness:
  "\<exists>i' s' fired. schedule 2 (\<lambda>_. 20) ping_run 0 (setHeartBeat 5 10 idle_hb) = Some (i', s', fired) \<and>
     \<not> mSocket (hb_socket s')"
proof -
  have "no_check idle_hb" "\<not> mRecvData (hb_socket idle_hb)" by (simp_all add: idle_hb_def no_check_def)
  from heartbeat_closes_silent [OF this, of 10 "\<lambda>_. 20" 0 5] show ?thesis by auto
qed

text \<open>
  C36. The check is made once: if data arrived before the interval was over, the
  round that runs the check leaves no timer. \<open>PingCheck\<close> asks whether its timer
  still exists before it starts the next one, and the timer, whose callback is
  running, does exist. From then on no round of the timers does anything, and a
  peer that falls silent is never disconnected.
\<close>

theorem heartbeat_checks_once:
  assumes "no_check s" and "0 < checkTime" and "now + checkTime \<le> clock i"
  shows "\<exists>i' s' fired. schedule 2 clock ping_run i
      (setHeartBeat now checkTime (s\<lparr>hb_socket := (hb_socket s)\<lparr>mRecvData := True\<rparr>\<rparr>)) = Some (i', s', fired) \<and>
    mSocket (hb_socket s') \<and> \<not> mRecvData (hb_socket s') \<and>
    (\<forall>fuel clock' j. schedule (Suc fuel) clock' ping_run j s' = Some (j, s', []))"
  using assms by (auto simp: no_check_def heartbeat_defs numeral_2_eq_2)

theorem heartbeat_checks_once_witness:
  "\<exists>i' s' fired. schedule 2 (\<lambda>_. 20) ping_run 0
      (setHeartBeat 5 10 (idle_hb\<lparr>hb_socket := (hb_socket idle_hb)\<lparr>mRecvData := True\<rparr>\<rparr>)) = Some (i', s', fired) \<and>
    mSocket (hb_socket s') \<and> schedule 7 (\<lambda>_. 1000) ping_run 3 s' = Some (3, s', [])"
proof -
  have "no_check idle_hb" by (simp add: idle_hb_def no_check_def)
  with heartbeat_checks_once [of idle_hb 10 5 "\<lambda>_. 20" 0] obtain i' s' fired where
    R: "schedule 2 (\<lambda>_. 20) ping_run 0
      (setHeartBeat 5 10 (idle_hb\<lparr>hb_socket := (hb_socket idle_hb)\<lparr>mRecvData := True\<rparr>\<rparr>)) = Some (i', s', fired)"
      "mSocket (hb_socket s')" "\<forall>fuel clock' j. schedule (Suc fuel) clock' ping_run j s' = Some (j, s', [])"
    by auto
  from R(3) [rule_format, of 6 "\<lambda>_. 1000" 3] R(1,2) show ?thesis by auto
qed

end
