(* ===== verification/Event_Loop.thy ===== *)
theory Event_Loop
  imports Brynet_Prelude
begin

text \<open>
  The hand-over of procs to the loop thread (\<open>net/EventLoop.cpp\<close>, Linux). Any number
  of threads push procs and wake the loop through an eventfd; the loop waits in
  \<open>epoll_wait\<close>, clears and sets two atomic flags and takes the procs out. Each
  access to a shared variable is a step of its own, and the threads interleave
  at every step: a wake-up could be lost between any two of them.
\<close>

section \<open>Shared variables\<close>

record 'p loop_s =
  mIsInBlock :: bool
  mIsAlreadyPostWakeup :: bool
  mAsyncProcs :: "'p list"
  mCopyAsyncProcs :: "'p list"
  ev_counter :: nat
  ev_edge :: bool

text \<open>The state after the constructor.\<close>

definition EventLoop_new :: "'p loop_s" where
  "EventLoop_new = \<lparr>mIsInBlock = True, mIsAlreadyPostWakeup = False, mAsyncProcs = [], mCopyAsyncProcs = [],
     ev_counter = 0, ev_edge = False\<rparr>"

text \<open>\<open>WakeupChannel::wakeup\<close> writes to the eventfd: the counter grows, and an edge is pending.\<close>

definition channel_wakeup :: "'p loop_s \<Rightarrow> 'p loop_s" where
  "channel_wakeup s = s\<lparr>ev_counter := Suc (ev_counter s), ev_edge := True\<rparr>"

text \<open>\<open>WakeupChannel::canRecv\<close> reads the eventfd until it is empty.\<close>

definition channel_canRecv :: "'p loop_s \<Rightarrow> 'p loop_s" where
  "channel_canRecv s = s\<lparr>ev_counter := 0\<rparr>"

text \<open>
  The eventfd is registered edge-triggered: \<open>epoll_wait\<close> reports it when there was
  a write since its last report and it is readable.
\<close>

definition wake_ready :: "'p loop_s \<Rightarrow> bool" where
  "wake_ready s \<longleftrightarrow> ev_edge s \<and> 0 < ev_counter s"

definition epoll_report :: "'p loop_s \<Rightarrow> 'p loop_s" where
  "epoll_report s = (if wake_ready s then s\<lparr>ev_edge := False\<rparr> else s)"

definition push_locked :: "'p \<Rightarrow> 'p loop_s \<Rightarrow> 'p loop_s" where
  "push_locked f s = s\<lparr>mAsyncProcs := mAsyncProcs s @ [f]\<rparr>"

definition swap_locked :: "'p loop_s \<Rightarrow> 'p loop_s" where
  "swap_locked s = s\<lparr>mCopyAsyncProcs := mAsyncProcs s, mAsyncProcs := mCopyAsyncProcs s\<rparr>"

lemmas loop_defs =
  channel_wakeup_def channel_canRecv_def wake_ready_def epoll_report_def push_locked_def swap_locked_def

section \<open>The threads\<close>

text \<open>
  A thread in \<open>pushAsyncProc\<close>: it has pushed and is about to read \<open>mIsInBlock\<close>; has
  read it and is about to exchange \<open>mIsAlreadyPostWakeup\<close>; is about to write.
\<close>

datatype push_pc = P_idle | P_pushed | P_inblock | P_write

text \<open>
  The loop thread: in \<open>epoll_wait\<close>; after it, with or without a report for the
  eventfd; dispatching; about to clear the posted flag; about to set the block
  flag; about to swap; running the procs.
\<close>

datatype loop_pc = L_wait | L_woken bool | L_events bool | L_reset | L_unblock | L_swap | L_run

record ('t, 'p) loop_sys =
  shared :: "'p loop_s"
  lpc :: loop_pc
  ppc :: "'t \<Rightarrow> push_pc"
  pushed_procs :: "'p list"
  ran_procs :: "'p list"

inductive el_step :: "('t, 'p) loop_sys \<Rightarrow> ('t, 'p) loop_sys \<Rightarrow> bool" where
  push: "ppc s t = P_idle \<Longrightarrow>
    el_step s (s\<lparr>shared := push_locked f (shared s), ppc := (ppc s)(t := P_pushed),
      pushed_procs := pushed_procs s @ [f]\<rparr>)"
| not_blocked: "ppc s t = P_pushed \<Longrightarrow> \<not> mIsInBlock (shared s) \<Longrightarrow>
    el_step s (s\<lparr>ppc := (ppc s)(t := P_idle)\<rparr>)"
| blocked: "ppc s t = P_pushed \<Longrightarrow> mIsInBlock (shared s) \<Longrightarrow>
    el_step s (s\<lparr>ppc := (ppc s)(t := P_inblock)\<rparr>)"
| already_posted: "ppc s t = P_inblock \<Longrightarrow> mIsAlreadyPostWakeup (shared s) \<Longrightarrow>
    el_step s (s\<lparr>ppc := (ppc s)(t := P_idle)\<rparr>)"
| exchange: "ppc s t = P_inblock \<Longrightarrow> \<not> mIsAlreadyPostWakeup (shared s) \<Longrightarrow>
    el_step s (s\<lparr>shared := (shared s)\<lparr>mIsAlreadyPostWakeup := True\<rparr>, ppc := (ppc s)(t := P_write)\<rparr>)"
| wake: "ppc s t = P_write \<Longrightarrow>
    el_step s (s\<lparr>shared := channel_wakeup (shared s), ppc := (ppc s)(t := P_idle)\<rparr>)"
| returns: "lpc s = L_wait \<Longrightarrow>
    el_step s (s\<lparr>shared := epoll_report (shared s), lpc := L_woken (wake_ready (shared s))\<rparr>)"
| leave_block: "lpc s = L_woken w \<Longrightarrow>
    el_step s (s\<lparr>shared := (shared s)\<lparr>mIsInBlock := False\<rparr>, lpc := L_events w\<rparr>)"
| events: "lpc s = L_events w \<Longrightarrow>
    el_step s (s\<lparr>shared := (if w then channel_canRecv (shared s) else shared s), lpc := L_reset\<rparr>)"
| reset: "lpc s = L_reset \<Longrightarrow>
    el_step s (s\<lparr>shared := (shared s)\<lparr>mIsAlreadyPostWakeup := False\<rparr>, lpc := L_unblock\<rparr>)"
| enter_block: "lpc s = L_unblock \<Longrightarrow>
    el_step s (s\<lparr>shared := (shared s)\<lparr>mIsInBlock := True\<rparr>, lpc := L_swap\<rparr>)"
| swap: "lpc s = L_swap \<Longrightarrow> el_step s (s\<lparr>shared := swap_locked (shared s), lpc := L_run\<rparr>)"
| run: "lpc s = L_run \<Longrightarrow>
    el_step s (s\<lparr>shared := (shared s)\<lparr>mCopyAsyncProcs := []\<rparr>, lpc := L_wait,
      ran_procs := ran_procs s @ mCopyAsyncProcs (shared s)\<rparr>)"

definition el_start :: "('t, 'p) loop_sys" where
  "el_start = \<lparr>shared = EventLoop_new, lpc = L_wait, ppc = (\<lambda>_. P_idle), pushed_procs = [], ran_procs = []\<rparr>"

inductive el_reach :: "('t, 'p) loop_sys \<Rightarrow> bool" where
  el_init: "el_reach el_start"
| el_next: "el_reach s \<Longrightarrow> el_step s s' \<Longrightarrow> el_reach s'"

section \<open>Invariants\<close>

definition awake :: "loop_pc \<Rightarrow> bool" where
  "awake c \<longleftrightarrow> (case c of L_woken _ \<Rightarrow> True | L_events _ \<Rightarrow> True | L_reset \<Rightarrow> True | _ \<Rightarrow> False)"

text \<open>The block flag follows the loop; only after the swap are there procs in the copy.\<close>

definition block_inv :: "('t, 'p) loop_sys \<Rightarrow> bool" where
  "block_inv s \<longleftrightarrow>
     mIsInBlock (shared s) = (case lpc s of L_events _ \<Rightarrow> False | L_reset \<Rightarrow> False | L_unblock \<Rightarrow> False | _ \<Rightarrow> True) \<and>
     (lpc s \<noteq> L_run \<longrightarrow> mCopyAsyncProcs (shared s) = [])"

text \<open>If the posted flag is set, a wake-up is on its way, or the loop is awake and will clear the flag.\<close>

definition posted_inv :: "('t, 'p) loop_sys \<Rightarrow> bool" where
  "posted_inv s \<longleftrightarrow>
     (mIsAlreadyPostWakeup (shared s) \<longrightarrow> (\<exists>t. ppc s t = P_write) \<or> wake_ready (shared s) \<or> awake (lpc s))"

text \<open>If procs are waiting, the loop will still swap, or somebody will wake it.\<close>

definition wake_inv :: "('t, 'p) loop_sys \<Rightarrow> bool" where
  "wake_inv s \<longleftrightarrow>
     (mAsyncProcs (shared s) \<noteq> [] \<longrightarrow>
        awake (lpc s) \<or> lpc s = L_unblock \<or> lpc s = L_swap \<or> (\<exists>t. ppc s t \<noteq> P_idle) \<or> wake_ready (shared s))"

definition order_inv :: "('t, 'p) loop_sys \<Rightarrow> bool" where
  "order_inv s \<longleftrightarrow> pushed_procs s = ran_procs s @ mCopyAsyncProcs (shared s) @ mAsyncProcs (shared s)"

definition el_inv :: "('t, 'p) loop_sys \<Rightarrow> bool" where
  "el_inv s \<longleftrightarrow> block_inv s \<and> posted_inv s \<and> wake_inv s \<and> order_inv s"

lemma block_step: "el_step s s' \<Longrightarrow> block_inv s \<Longrightarrow> block_inv s'"
  by (induction rule: el_step.induct) (auto simp: block_inv_def loop_defs)

lemma order_step: "el_step s s' \<Longrightarrow> block_inv s \<Longrightarrow> order_inv s \<Longrightarrow> order_inv s'"
  by (induction rule: el_step.induct) (auto simp: order_inv_def block_inv_def loop_defs)

lemma writer_kept:
  assumes "ppc s t \<noteq> P_write" and "\<exists>u. ppc s u = P_write"
  shows "\<exists>u. ((ppc s)(t := c)) u = P_write"
  using assms by (metis fun_upd_other)

lemma posted_keep:
  assumes "posted_inv s" and "lpc s' = lpc s" and "ppc s' = (ppc s)(t := c)" and "ppc s t \<noteq> P_write"
    and "mIsAlreadyPostWakeup (shared s') \<longrightarrow> mIsAlreadyPostWakeup (shared s)"
    and "wake_ready (shared s') = wake_ready (shared s)"
  shows "posted_inv s'"
proof -
  have "(\<exists>u. ppc s u = P_write) \<longrightarrow> (\<exists>u. ppc s' u = P_write)"
    using assms(3) writer_kept [OF assms(4), of c] by simp
  then show ?thesis using assms unfolding posted_inv_def by metis
qed

lemma posted_step: "el_step s s' \<Longrightarrow> posted_inv s \<Longrightarrow> posted_inv s'"
proof (induction rule: el_step.induct)
  case (push s t f)
  show ?case by (rule posted_keep [OF push.prems, of _ t P_pushed]) (auto simp: push.hyps loop_defs)
next
  case (not_blocked s t)
  show ?case by (rule posted_keep [OF not_blocked.prems, of _ t P_idle]) (auto simp: not_blocked.hyps)
next
  case (blocked s t)
  show ?case by (rule posted_keep [OF blocked.prems, of _ t P_inblock]) (auto simp: blocked.hyps)
next
  case (already_posted s t)
  show ?case by (rule posted_keep [OF already_posted.prems, of _ t P_idle]) (auto simp: already_posted.hyps)
qed (auto simp: posted_inv_def awake_def loop_defs split: if_splits)

lemma wake_step: "el_step s s' \<Longrightarrow> block_inv s \<Longrightarrow> posted_inv s \<Longrightarrow> wake_inv s \<Longrightarrow> wake_inv s'"
proof (induction rule: el_step.induct)
  case (not_blocked s t)
  then show ?case by (auto simp: wake_inv_def block_inv_def awake_def split: loop_pc.splits)
next
  case (already_posted s t)
  have "ppc s t \<noteq> P_write" using already_posted by simp
  then have "(\<exists>u. ((ppc s)(t := P_idle)) u = P_write) \<or> wake_ready (shared s) \<or> awake (lpc s)"
    using already_posted.hyps(2) already_posted.prems(2) writer_kept unfolding posted_inv_def by metis
  then have "(\<exists>u. ((ppc s)(t := P_idle)) u \<noteq> P_idle) \<or> wake_ready (shared s) \<or> awake (lpc s)"
    by (metis push_pc.distinct(5))
  then show ?case by (auto simp: wake_inv_def split: if_splits)
qed (auto simp: wake_inv_def awake_def block_inv_def loop_defs split: if_splits)

lemma el_inv_reach: "el_reach s \<Longrightarrow> el_inv s"
proof (induction rule: el_reach.induct)
  case el_init
  show ?case
    by (simp add: el_inv_def block_inv_def posted_inv_def wake_inv_def order_inv_def el_start_def EventLoop_new_def)
next
  case (el_next s s')
  then show ?case using block_step posted_step wake_step order_step unfolding el_inv_def by blast
qed

lemma el_reach_steps: "el_reach s \<Longrightarrow> el_step\<^sup>*\<^sup>* s s' \<Longrightarrow> el_reach s'"
  by (rotate_tac, induction rule: rtranclp_induct) (auto intro: el_next)

text \<open>One turn of the loop from \<open>epoll_wait\<close> back to it, with no other thread running.\<close>

lemma loop_turn:
  assumes "lpc s = L_wait" and "block_inv s"
  shows "\<exists>s'. el_step\<^sup>*\<^sup>* s s' \<and> lpc s' = L_wait \<and> ran_procs s' = ran_procs s @ mAsyncProcs (shared s) \<and>
    ppc s' = ppc s \<and> pushed_procs s' = pushed_procs s"
proof -
  note step = converse_rtranclp_into_rtranclp [of el_step]
  have copy: "mCopyAsyncProcs (shared s) = []" using assms by (simp add: block_inv_def)
  show ?thesis
    apply (rule exI, rule conjI)
     apply (rule step, rule returns, rule assms(1))
     apply (rule step, rule leave_block [of _ "wake_ready (shared s)"], simp)
     apply (rule step, rule events [of _ "wake_ready (shared s)"], simp)
     apply (rule step, rule reset, simp)
     apply (rule step, rule enter_block, simp)
     apply (rule step, rule swap, simp)
     apply (rule step, rule run, simp)
     apply (rule rtranclp.rtrancl_refl)
    by (simp add: loop_defs copy)
qed

text \<open>
  C10. No wake-up is lost. Whatever the interleaving of the loop with any number of
  threads that push procs, when the loop is in \<open>epoll_wait\<close> with procs queued and
  no thread is inside \<open>pushAsyncProc\<close>, the eventfd is readable and its edge is pending,
  so that \<open>epoll_wait\<close> returns at once; and a turn of the loop then runs all
  that was pushed.
\<close>

theorem no_lost_wakeup:
  assumes "el_reach s" and "lpc s = L_wait" and "\<forall>t. ppc s t = P_idle" and "mAsyncProcs (shared s) \<noteq> []"
  shows "wake_ready (shared s) \<and>
    (\<exists>s'. el_step\<^sup>*\<^sup>* s s' \<and> lpc s' = L_wait \<and> ran_procs s' = pushed_procs s \<and> pushed_procs s' = pushed_procs s)"
proof -
  have inv: "block_inv s" "wake_inv s" "order_inv s" using el_inv_reach [OF assms(1)] by (simp_all add: el_inv_def)
  have "mCopyAsyncProcs (shared s) = []" using inv(1) assms(2) by (simp add: block_inv_def)
  then have "pushed_procs s = ran_procs s @ mAsyncProcs (shared s)" using inv(3) by (simp add: order_inv_def)
  then show ?thesis using loop_turn [OF assms(2) inv(1)] inv(2) assms(2-4) by (auto simp: wake_inv_def awake_def)
qed

text \<open>Thread 0 pushes a proc and wakes the loop; so far the loop has not moved.\<close>

definition pushed_once :: "(nat, nat) loop_sys" where
  "pushed_once = el_start\<lparr>shared := EventLoop_new\<lparr>mAsyncProcs := [7], mIsAlreadyPostWakeup := True,
     ev_counter := 1, ev_edge := True\<rparr>, pushed_procs := [7]\<rparr>"

lemma pushed_once_reach: "el_reach pushed_once"
proof (rule el_reach_steps [OF el_init])
  note step = converse_rtranclp_into_rtranclp [of el_step]
  show "el_step\<^sup>*\<^sup>* el_start pushed_once"
    apply (rule step, rule push [of _ 0 7], simp add: el_start_def)
    apply (rule step, rule blocked [of _ 0], simp, simp add: el_start_def EventLoop_new_def push_locked_def)
    apply (rule step, rule exchange [of _ 0], simp, simp add: el_start_def EventLoop_new_def push_locked_def)
    apply (rule step, rule wake [of _ 0], simp)
    by (simp add: pushed_once_def el_start_def EventLoop_new_def loop_defs fun_upd_idem)
qed

theorem no_lost_wakeup_witness:
  "wake_ready (shared pushed_once) \<and> (\<exists>s'. el_step\<^sup>*\<^sup>* pushed_once s' \<and> ran_procs s' = [7])"
  using no_lost_wakeup [OF pushed_once_reach]
  by (auto simp: pushed_once_def el_start_def EventLoop_new_def)

text \<open>
  Procs run once and in the order in which they were pushed: in every
  reachable state, what has run, what was swapped out and what is queued make up
  the sequence of all pushes, and the loop holds swapped-out procs only while it
  runs them.
\<close>

theorem async_procs_in_order:
  assumes "el_reach s"
  shows "pushed_procs s = ran_procs s @ mCopyAsyncProcs (shared s) @ mAsyncProcs (shared s) \<and>
    (mCopyAsyncProcs (shared s) \<noteq> [] \<longrightarrow> lpc s = L_run)"
  using el_inv_reach [OF assms] by (auto simp: el_inv_def order_inv_def block_inv_def)

theorem async_procs_in_order_witness: "pushed_procs pushed_once = ran_procs pushed_once @ [7]"
  using async_procs_in_order [OF pushed_once_reach]
  by (simp add: pushed_once_def el_start_def EventLoop_new_def)

end
