(* ===== verification/Packet.thy ===== *)
theory Packet
  imports Brynet_Prelude
begin

text \<open>
  Binary packets (\<open>utils/packet.h\<close>): a writer that appends integers, booleans and
  byte strings to a buffer it may grow, and a reader. The host is little-endian;
  signed integers are the words of their bits. An access outside a buffer is
  \<open>None\<close>.
\<close>

section \<open>Integers in memory\<close>

fun le_bytes :: "nat \<Rightarrow> 'a::len word \<Rightarrow> byte list" where
  "le_bytes 0 w = []"
| "le_bytes (Suc n) w = ucast w # le_bytes n (drop_bit 8 w)"

fun of_le_bytes :: "byte list \<Rightarrow> 'a::len word" where
  "of_le_bytes [] = 0"
| "of_le_bytes (b # bs) = ucast b OR push_bit 8 (of_le_bytes bs)"

lemma le_bytes_length [simp]: "length (le_bytes n w) = n"
  by (induction n arbitrary: w) simp_all

lemma of_le_le_bytes: "of_le_bytes (le_bytes n w) = take_bit (8 * n) w"
proof (induction n arbitrary: w)
  case (Suc n)
  show ?case
    by (simp only: le_bytes.simps of_le_bytes.simps Suc.IH)
      (rule bit_word_eqI, auto simp: bit_simps)
qed simp

lemma of_le_le_bytes_all:
  fixes w :: "'a::len word"
  assumes "8 * n = LENGTH('a)"
  shows "of_le_bytes (le_bytes n w) = w"
  using of_le_le_bytes [of n w] assms by simp

lemma of_le_bytes_bound: "bit (of_le_bytes bs :: 'a::len word) i \<Longrightarrow> i < 8 * length bs"
proof (induction bs arbitrary: i)
  case (Cons b bs)
  from Cons.prems consider "bit b i" | "8 \<le> i" "bit (of_le_bytes bs :: 'a word) (i - 8)"
    by (auto simp: bit_simps)
  then show ?case
  proof cases
    case 1
    then have "i < 8" using bit_imp_le_length [of b i] by simp
    then show ?thesis by simp
  next
    case 2
    from Cons.IH [OF 2(2)] show ?thesis by simp
  qed
qed simp

lemma le_bytes_of_le:
  assumes "8 * length bs \<le> LENGTH('a::len)"
  shows "le_bytes (length bs) (of_le_bytes bs :: 'a word) = bs"
  using assms
proof (induction bs)
  case (Cons b bs)
  have b: "ucast (ucast b OR push_bit 8 (of_le_bytes bs) :: 'a word) = b"
    by (rule bit_word_eqI) (use Cons.prems in \<open>auto simp: bit_simps\<close>)
  have "bit (of_le_bytes bs :: 'a word) i \<Longrightarrow> 8 + i < LENGTH('a)" for i
    using of_le_bytes_bound [where 'a = 'a, of bs i] Cons.prems by simp
  then have r: "drop_bit 8 (ucast b OR push_bit 8 (of_le_bytes bs)) = (of_le_bytes bs :: 'a word)"
    by (intro bit_word_eqI) (use bit_imp_le_length [of b] in \<open>auto simp: bit_simps\<close>)
  show ?case using Cons b r by simp
qed simp

text \<open>The conversions of \<open>endian.h\<close> on a little-endian host, and the ones built from \<open>htonl\<close>.\<close>

definition htobe :: "'a::len word \<Rightarrow> 'a word" where
  "htobe w = of_le_bytes (rev (le_bytes (LENGTH('a) div 8) w))"

definition hl64ton :: "64 word \<Rightarrow> 64 word" where
  "hl64ton host =
     (let low = ucast (host AND 0xFFFFFFFF) :: 32 word;
          high = ucast (drop_bit 32 host AND 0xFFFFFFFF) :: 32 word;
          low = htobe low; high = htobe high
      in push_bit 32 (ucast low) OR ucast high)"

definition ntohl64 :: "64 word \<Rightarrow> 64 word" where
  "ntohl64 host =
     (let low = ucast (host AND 0xFFFFFFFF) :: 32 word;
          high = ucast (drop_bit 32 host AND 0xFFFFFFFF) :: 32 word;
          low = htobe low; high = htobe high
      in push_bit 32 (ucast low) OR ucast high)"

definition hostToNetwork64 :: "64 word \<Rightarrow> bool \<Rightarrow> 64 word" where
  "hostToNetwork64 host64 convert = (if convert then htobe host64 else host64)"

definition hostToNetwork32 :: "32 word \<Rightarrow> bool \<Rightarrow> 32 word" where
  "hostToNetwork32 host32 convert = (if convert then htobe host32 else host32)"

definition hostToNetwork16 :: "16 word \<Rightarrow> bool \<Rightarrow> 16 word" where
  "hostToNetwork16 host16 convert = (if convert then htobe host16 else host16)"

definition networkToHost64 :: "64 word \<Rightarrow> bool \<Rightarrow> 64 word" where
  "networkToHost64 net64 convert = (if convert then htobe net64 else net64)"

definition networkToHost32 :: "32 word \<Rightarrow> bool \<Rightarrow> 32 word" where
  "networkToHost32 net32 convert = (if convert then htobe net32 else net32)"

definition networkToHost16 :: "16 word \<Rightarrow> bool \<Rightarrow> 16 word" where
  "networkToHost16 net16 convert = (if convert then htobe net16 else net16)"

lemmas endian_defs =
  hostToNetwork64_def hostToNetwork32_def hostToNetwork16_def
  networkToHost64_def networkToHost32_def networkToHost16_def

lemma htobe_bytes:
  fixes w :: "'a::len word"
  assumes "8 * n = LENGTH('a)"
  shows "le_bytes n (htobe w) = rev (le_bytes n w)"
proof -
  have n: "LENGTH('a) div 8 = n" using assms by linarith
  have "le_bytes (length (rev (le_bytes n w))) (of_le_bytes (rev (le_bytes n w)) :: 'a word) = rev (le_bytes n w)"
    by (rule le_bytes_of_le) (simp add: assms)
  then show ?thesis by (simp add: htobe_def n)
qed

lemma htobe_htobe:
  fixes w :: "'a::len word"
  assumes "8 * n = LENGTH('a)"
  shows "htobe (htobe w) = w"
proof -
  have n: "LENGTH('a) div 8 = n" using assms by linarith
  have "htobe (htobe w) = of_le_bytes (rev (le_bytes n (htobe w)))" by (simp add: htobe_def [of "htobe w"] n)
  also have "\<dots> = w" by (simp add: htobe_bytes [OF assms] of_le_le_bytes_all [OF assms])
  finally show ?thesis .
qed

lemma htobe_htobe_sizes [simp]:
  "htobe (htobe (a :: 16 word)) = a" "htobe (htobe (b :: 32 word)) = b" "htobe (htobe (c :: 64 word)) = c"
  by (simp_all add: htobe_htobe [of 2] htobe_htobe [of 4] htobe_htobe [of 8])

lemma nth_le_bytes: "k < n \<Longrightarrow> le_bytes n w ! k = ucast (drop_bit (8 * k) w)"
proof (induction n arbitrary: k w)
  case (Suc n)
  then show ?case by (cases k) (simp_all add: add.commute)
qed simp

lemma bit_of_le_bytes:
  "i < LENGTH('a::len) \<Longrightarrow>
   bit (of_le_bytes bs :: 'a word) i \<longleftrightarrow> i div 8 < length bs \<and> bit (bs ! (i div 8)) (i mod 8)"
proof (induction bs arbitrary: i)
  case (Cons b bs)
  show ?case
  proof (cases "i < 8")
    case True
    with Cons.prems show ?thesis by (simp add: bit_simps)
  next
    case False
    then have i: "i div 8 = Suc ((i - 8) div 8)" "i mod 8 = (i - 8) mod 8"
      by (simp_all add: div_if mod_if)
    have "\<not> bit b i" using False bit_imp_le_length [of b i] by auto
    with False Cons.prems Cons.IH [of "i - 8"] show ?thesis by (simp add: bit_simps i)
  qed
qed simp

lemma bit_htobe:
  fixes w :: "'a::len word"
  assumes "8 * n = LENGTH('a)" and "i < LENGTH('a)"
  shows "bit (htobe w) i \<longleftrightarrow> bit w (8 * (n - 1 - i div 8) + i mod 8)"
proof -
  have n: "LENGTH('a) div 8 = n" "i div 8 < n" using assms by linarith+
  have "8 * (n - 1 - i div 8) + i mod 8 < LENGTH('a)" using n(2) assms(1) by linarith
  then show ?thesis
    using n assms(2) by (simp add: htobe_def bit_of_le_bytes rev_nth nth_le_bytes bit_simps)
qed

text \<open>Both ways to swap 64 bits agree.\<close>

lemma hl64ton_htobe: "hl64ton w = htobe w"
proof (rule bit_word_eqI)
  fix i assume "i < LENGTH(64)"
  then have i: "i < 64" by simp
  have mask32: "(0xFFFFFFFF :: 64 word) = mask 32" by (simp add: mask_eq_exp_minus_1)
  show "bit (hl64ton w) i \<longleftrightarrow> bit (htobe w) i"
  proof (cases "i < 32")
    case True
    then have "8 * (3 - i div 8) + i mod 8 < 32" by linarith
    then have low: "bit (hl64ton w) i = bit w (32 + (8 * (3 - i div 8) + i mod 8))"
      using True by (simp add: hl64ton_def mask32 bit_simps bit_htobe [of 4] Let_def)
    have eq: "32 + (8 * (3 - i div 8) + i mod 8) = 8 * (7 - i div 8) + i mod 8" using True by linarith
    have "bit (htobe w) i = bit w (8 * (7 - i div 8) + i mod 8)" using True by (simp add: bit_htobe [of 8])
    with low show ?thesis by (simp only: eq)
  next
    case False
    define j where "j = i - 32"
    then have ij: "i = 32 + j" "j < 32" using False i by simp_all
    have d: "(32 + j) div 8 = 4 + j div 8" "(32 + j) mod 8 = j mod 8" by presburger+
    have "8 * (3 - j div 8) + j mod 8 < 32" using ij(2) by linarith
    moreover have "\<not> bit (v :: 32 word) (32 + j)" for v using bit_imp_le_length [of v "32 + j"] by auto
    ultimately show ?thesis using ij(2)
      by (simp add: ij(1) d hl64ton_def mask32 bit_simps bit_htobe [of 4] bit_htobe [of 8] Let_def)
  qed
qed

section \<open>The writer\<close>

record packet_writer =
  pw_bigEndian :: bool
  pw_pos :: size_t
  pw_maxLen :: size_t
  pw_buffer :: "byte list"
  pw_autoMalloc :: bool

definition BasePacketWriter_new :: "byte list \<Rightarrow> size_t \<Rightarrow> bool \<Rightarrow> bool \<Rightarrow> packet_writer" where
  "BasePacketWriter_new buffer len useBigEndian isAutoMalloc =
     \<lparr>pw_bigEndian = useBigEndian, pw_pos = 0, pw_maxLen = len, pw_buffer = buffer, pw_autoMalloc = isAutoMalloc\<rparr>"

definition pw_init :: "packet_writer \<Rightarrow> packet_writer" where
  "pw_init w = w\<lparr>pw_pos := 0\<rparr>"

definition growBuffer :: "heap_env \<Rightarrow> size_t \<Rightarrow> packet_writer \<Rightarrow> packet_writer option" where
  "growBuffer env len w =
     (if \<not> pw_autoMalloc w \<or> pw_pos w + len \<le> pw_maxLen w then Some w
      else case malloc env (unat (pw_maxLen w + len)) of
        None \<Rightarrow> Some w
      | Some newBuffer \<Rightarrow>
          do {
            old \<leftarrow> mem_read (pw_buffer w) 0 (unat (pw_pos w));
            newBuffer \<leftarrow> mem_write newBuffer (Some 0) old;
            Some (w\<lparr>pw_maxLen := pw_maxLen w + len, pw_buffer := newBuffer\<rparr>)
          })"

definition writeBuffer :: "heap_env \<Rightarrow> byte list \<Rightarrow> packet_writer \<Rightarrow> (bool \<times> packet_writer) option" where
  "writeBuffer env buffer w =
     (let len = of_nat (length buffer) in
      do {
        w \<leftarrow> growBuffer env len w;
        (if pw_maxLen w < pw_pos w + len then Some (False, w)
         else do {
           buf \<leftarrow> mem_write (pw_buffer w) (Some (unat (pw_pos w))) buffer;
           Some (True, w\<lparr>pw_buffer := buf, pw_pos := pw_pos w + len\<rparr>)
         })
      })"

definition writeBool :: "heap_env \<Rightarrow> bool \<Rightarrow> packet_writer \<Rightarrow> (bool \<times> packet_writer) option" where
  "writeBool env value w = writeBuffer env (le_bytes 1 (of_bool value :: byte)) w"

definition writeINT8 :: "heap_env \<Rightarrow> 8 word \<Rightarrow> packet_writer \<Rightarrow> (bool \<times> packet_writer) option" where
  "writeINT8 env value w = writeBuffer env (le_bytes 1 value) w"

definition writeUINT8 :: "heap_env \<Rightarrow> 8 word \<Rightarrow> packet_writer \<Rightarrow> (bool \<times> packet_writer) option" where
  "writeUINT8 env value w = writeBuffer env (le_bytes 1 value) w"

definition writeINT16 :: "heap_env \<Rightarrow> 16 word \<Rightarrow> packet_writer \<Rightarrow> (bool \<times> packet_writer) option" where
  "writeINT16 env value w = writeBuffer env (le_bytes 2 (hostToNetwork16 value (pw_bigEndian w))) w"

definition writeUINT16 :: "heap_env \<Rightarrow> 16 word \<Rightarrow> packet_writer \<Rightarrow> (bool \<times> packet_writer) option" where
  "writeUINT16 env value w = writeBuffer env (le_bytes 2 (hostToNetwork16 value (pw_bigEndian w))) w"

definition writeINT32 :: "heap_env \<Rightarrow> 32 word \<Rightarrow> packet_writer \<Rightarrow> (bool \<times> packet_writer) option" where
  "writeINT32 env value w = writeBuffer env (le_bytes 4 (hostToNetwork32 value (pw_bigEndian w))) w"

definition writeUINT32 :: "heap_env \<Rightarrow> 32 word \<Rightarrow> packet_writer \<Rightarrow> (bool \<times> packet_writer) option" where
  "writeUINT32 env value w = writeBuffer env (le_bytes 4 (hostToNetwork32 value (pw_bigEndian w))) w"

definition writeINT64 :: "heap_env \<Rightarrow> 64 word \<Rightarrow> packet_writer \<Rightarrow> (bool \<times> packet_writer) option" where
  "writeINT64 env value w = writeBuffer env (le_bytes 8 (hostToNetwork64 value (pw_bigEndian w))) w"

definition writeUINT64 :: "heap_env \<Rightarrow> 64 word \<Rightarrow> packet_writer \<Rightarrow> (bool \<times> packet_writer) option" where
  "writeUINT64 env value w = writeBuffer env (le_bytes 8 (hostToNetwork64 value (pw_bigEndian w))) w"

definition writeBinary :: "heap_env \<Rightarrow> byte list \<Rightarrow> packet_writer \<Rightarrow> (bool \<times> packet_writer) option" where
  "writeBinary env binary w = writeBuffer env binary w"

text \<open>The values the stream operators take, and \<open>operator <<\<close>, which drops the result of the write.\<close>

datatype packet_value =
    V_bool bool
  | V_uint8 "8 word"
  | V_int8 "8 word"
  | V_int16 "16 word"
  | V_uint16 "16 word"
  | V_int32 "32 word"
  | V_uint32 "32 word"
  | V_int64 "64 word"
  | V_uint64 "64 word"
  | V_binary "byte list"

fun write_value :: "heap_env \<Rightarrow> packet_value \<Rightarrow> packet_writer \<Rightarrow> (bool \<times> packet_writer) option" where
  "write_value env (V_bool v) w = writeBool env v w"
| "write_value env (V_uint8 v) w = writeUINT8 env v w"
| "write_value env (V_int8 v) w = writeINT8 env v w"
| "write_value env (V_int16 v) w = writeINT16 env v w"
| "write_value env (V_uint16 v) w = writeUINT16 env v w"
| "write_value env (V_int32 v) w = writeINT32 env v w"
| "write_value env (V_uint32 v) w = writeUINT32 env v w"
| "write_value env (V_int64 v) w = writeINT64 env v w"
| "write_value env (V_uint64 v) w = writeUINT64 env v w"
| "write_value env (V_binary v) w = writeBinary env v w"

definition stream_out :: "heap_env \<Rightarrow> packet_value \<Rightarrow> packet_writer \<Rightarrow> packet_writer option" where
  "stream_out env v w = map_option snd (write_value env v w)"

fun writev :: "heap_env \<Rightarrow> packet_value list \<Rightarrow> packet_writer \<Rightarrow> packet_writer option" where
  "writev env [] w = Some w"
| "writev env (v # vs) w = do { w \<leftarrow> stream_out env v w; writev env vs w }"

section \<open>The reader\<close>

record packet_reader =
  pr_bigEndian :: bool
  pr_pos :: size_t
  pr_maxLen :: size_t
  pr_buffer :: "byte list"

definition BasePacketReader_new :: "byte list \<Rightarrow> size_t \<Rightarrow> bool \<Rightarrow> packet_reader" where
  "BasePacketReader_new buffer len useBigEndian =
     \<lparr>pr_bigEndian = useBigEndian, pr_pos = 0, pr_maxLen = len, pr_buffer = buffer\<rparr>"

definition getLeft :: "packet_reader \<Rightarrow> size_t" where
  "getLeft r = pr_maxLen r - pr_pos r"

definition skipAll :: "packet_reader \<Rightarrow> packet_reader" where
  "skipAll r = r\<lparr>pr_pos := pr_maxLen r\<rparr>"

text \<open>The \<open>int\<close> is converted to \<open>size_t\<close>; the test for a sum of at least 0 is always true.\<close>

definition addPos :: "32 word \<Rightarrow> packet_reader \<Rightarrow> packet_reader" where
  "addPos value r =
     (let tmp = pr_pos r + scast value in
      if 0 \<le> tmp \<and> tmp \<le> pr_maxLen r then r\<lparr>pr_pos := tmp\<rparr> else r)"

text \<open>
  The template \<open>read\<close> for a type of \<open>n\<close> bytes. When too few are left the assertion
  fails, or, in a build without assertions, the value keeps its initial zero.
\<close>

definition read_bytes :: "bool \<Rightarrow> nat \<Rightarrow> packet_reader \<Rightarrow> (byte list \<times> packet_reader) option" where
  "read_bytes ndebug n r =
     (if pr_pos r + of_nat n \<le> pr_maxLen r
      then do {
        bs \<leftarrow> mem_read (pr_buffer r) (unat (pr_pos r)) n;
        Some (bs, r\<lparr>pr_pos := pr_pos r + of_nat n\<rparr>)
      }
      else if ndebug then Some (replicate n 0, r) else None)"

definition readBool :: "bool \<Rightarrow> packet_reader \<Rightarrow> (bool \<times> packet_reader) option" where
  "readBool nd r = do { (bs, r') \<leftarrow> read_bytes nd 1 r; Some (of_le_bytes bs \<noteq> (0 :: byte), r') }"

definition readINT8 :: "bool \<Rightarrow> packet_reader \<Rightarrow> (8 word \<times> packet_reader) option" where
  "readINT8 nd r = do { (bs, r') \<leftarrow> read_bytes nd 1 r; Some (of_le_bytes bs, r') }"

definition readUINT8 :: "bool \<Rightarrow> packet_reader \<Rightarrow> (8 word \<times> packet_reader) option" where
  "readUINT8 nd r = do { (bs, r') \<leftarrow> read_bytes nd 1 r; Some (of_le_bytes bs, r') }"

definition readINT16 :: "bool \<Rightarrow> packet_reader \<Rightarrow> (16 word \<times> packet_reader) option" where
  "readINT16 nd r = do { (bs, r') \<leftarrow> read_bytes nd 2 r; Some (networkToHost16 (of_le_bytes bs) (pr_bigEndian r), r') }"

definition readUINT16 :: "bool \<Rightarrow> packet_reader \<Rightarrow> (16 word \<times> packet_reader) option" where
  "readUINT16 nd r = do { (bs, r') \<leftarrow> read_bytes nd 2 r; Some (networkToHost16 (of_le_bytes bs) (pr_bigEndian r), r') }"

definition readINT32 :: "bool \<Rightarrow> packet_reader \<Rightarrow> (32 word \<times> packet_reader) option" where
  "readINT32 nd r = do { (bs, r') \<leftarrow> read_bytes nd 4 r; Some (networkToHost32 (of_le_bytes bs) (pr_bigEndian r), r') }"

definition readUINT32 :: "bool \<Rightarrow> packet_reader \<Rightarrow> (32 word \<times> packet_reader) option" where
  "readUINT32 nd r = do { (bs, r') \<leftarrow> read_bytes nd 4 r; Some (networkToHost32 (of_le_bytes bs) (pr_bigEndian r), r') }"

definition readINT64 :: "bool \<Rightarrow> packet_reader \<Rightarrow> (64 word \<times> packet_reader) option" where
  "readINT64 nd r = do { (bs, r') \<leftarrow> read_bytes nd 8 r; Some (networkToHost64 (of_le_bytes bs) (pr_bigEndian r), r') }"

definition readUINT64 :: "bool \<Rightarrow> packet_reader \<Rightarrow> (64 word \<times> packet_reader) option" where
  "readUINT64 nd r = do { (bs, r') \<leftarrow> read_bytes nd 8 r; Some (networkToHost64 (of_le_bytes bs) (pr_bigEndian r), r') }"

section \<open>The writer is a bounded log\<close>

text \<open>No object of C is larger than half of the address space, and \<open>malloc\<close> gives none that is.\<close>

definition heap_limit :: "heap_env \<Rightarrow> bool" where
  "heap_limit env \<longleftrightarrow> (\<forall>n. malloc_ok env n \<longrightarrow> n < 2 ^ 63)"

definition pw_inv :: "packet_writer \<Rightarrow> bool" where
  "pw_inv w \<longleftrightarrow> length (pw_buffer w) = unat (pw_maxLen w) \<and> pw_pos w \<le> pw_maxLen w \<and> unat (pw_maxLen w) < 2 ^ 63"

text \<open>The bytes written so far and the capacity.\<close>

definition pw_abs :: "packet_writer \<Rightarrow> byte list \<times> nat" where
  "pw_abs w = (take (unat (pw_pos w)) (pw_buffer w), unat (pw_maxLen w))"

definition log_add :: "heap_env \<Rightarrow> bool \<Rightarrow> byte list \<Rightarrow> byte list \<times> nat \<Rightarrow> bool \<times> byte list \<times> nat" where
  "log_add env auto bs st =
     (case st of (data, cap) \<Rightarrow>
        if length data + length bs \<le> cap then (True, data @ bs, cap)
        else if auto \<and> malloc_ok env (cap + length bs) then (True, data @ bs, cap + length bs)
        else (False, data, cap))"

lemma unat_add_63:
  fixes a :: size_t
  assumes "unat a < 2 ^ 63" and "n < 2 ^ 63"
  shows "unat (a + of_nat n) = unat a + n"
proof -
  have "unat (of_nat n :: size_t) = n" using assms(2) by (simp add: unat_of_nat take_bit_nat_eq_self)
  moreover have "unat a + n < 2 ^ 64" using assms by simp
  ultimately show ?thesis by (simp add: unat_word_ariths)
qed

lemma growBuffer_ok:
  assumes inv: "pw_inv w" and lim: "heap_limit env" and n: "n < 2 ^ 63"
  defines "grows \<equiv> pw_autoMalloc w \<and> unat (pw_maxLen w) < unat (pw_pos w) + n \<and> malloc_ok env (unat (pw_maxLen w) + n)"
  shows "\<exists>w'. growBuffer env (of_nat n) w = Some w' \<and> pw_inv w' \<and>
    pw_abs w' = (fst (pw_abs w), unat (pw_maxLen w) + (if grows then n else 0)) \<and>
    pw_pos w' = pw_pos w \<and> pw_bigEndian w' = pw_bigEndian w \<and> pw_autoMalloc w' = pw_autoMalloc w"
proof -
  have u: "unat (pw_pos w) \<le> unat (pw_maxLen w)" "length (pw_buffer w) = unat (pw_maxLen w)" "unat (pw_maxLen w) < 2 ^ 63"
    using inv by (auto simp: pw_inv_def word_le_nat_alt)
  have s: "unat (pw_pos w + of_nat n) = unat (pw_pos w) + n" "unat (pw_maxLen w + of_nat n) = unat (pw_maxLen w) + n"
    using u n by (simp_all add: unat_add_63)
  show ?thesis
  proof (cases grows)
    case True
    then have g: "pw_autoMalloc w" "unat (pw_maxLen w) < unat (pw_pos w) + n" "malloc_ok env (unat (pw_maxLen w) + n)"
      by (simp_all add: grows_def)
    with lim have "unat (pw_maxLen w) + n < 2 ^ 63" by (auto simp: heap_limit_def)
    with True g u s show ?thesis
      by (auto simp: growBuffer_def malloc_def word_le_nat_alt mem_read_def mem_write_def pw_inv_def pw_abs_def)
  next
    case False
    with inv s show ?thesis
      by (auto simp: grows_def growBuffer_def malloc_def word_le_nat_alt pw_abs_def)
  qed
qed

lemma writeBuffer_ok:
  assumes inv: "pw_inv w" and lim: "heap_limit env" and n: "length bs < 2 ^ 63"
  shows "\<exists>ok w'. writeBuffer env bs w = Some (ok, w') \<and> pw_inv w' \<and>
    (ok, pw_abs w') = log_add env (pw_autoMalloc w) bs (pw_abs w) \<and>
    pw_bigEndian w' = pw_bigEndian w \<and> pw_autoMalloc w' = pw_autoMalloc w"
proof -
  obtain w1 where g: "growBuffer env (of_nat (length bs)) w = Some w1" "pw_inv w1"
    "pw_abs w1 = (fst (pw_abs w), unat (pw_maxLen w) +
      (if pw_autoMalloc w \<and> unat (pw_maxLen w) < unat (pw_pos w) + length bs \<and>
          malloc_ok env (unat (pw_maxLen w) + length bs) then length bs else 0))"
    "pw_pos w1 = pw_pos w" "pw_bigEndian w1 = pw_bigEndian w" "pw_autoMalloc w1 = pw_autoMalloc w"
    using growBuffer_ok [OF inv lim n] by blast
  have u: "unat (pw_pos w) \<le> unat (pw_maxLen w)" "length (pw_buffer w) = unat (pw_maxLen w)"
    "unat (pw_pos w) \<le> unat (pw_maxLen w1)" "length (pw_buffer w1) = unat (pw_maxLen w1)" "unat (pw_maxLen w1) < 2 ^ 63"
    using inv g(2,4) by (auto simp: pw_inv_def word_le_nat_alt)
  then have s: "unat (pw_pos w + of_nat (length bs)) = unat (pw_pos w) + length bs"
    using n by (simp add: unat_add_63)
  show ?thesis
  proof (cases "unat (pw_pos w) + length bs \<le> unat (pw_maxLen w1)")
    case True
    with g u s show ?thesis
      by (auto simp: writeBuffer_def word_less_nat_alt word_le_nat_alt mem_write_def pw_inv_def pw_abs_def log_add_def
          split: if_splits)
  next
    case False
    with g u s show ?thesis
      by (auto simp: writeBuffer_def word_less_nat_alt pw_abs_def log_add_def split: if_splits)
  qed
qed

section \<open>The reader takes bytes off a list\<close>

definition pr_inv :: "packet_reader \<Rightarrow> bool" where
  "pr_inv r \<longleftrightarrow> unat (pr_maxLen r) \<le> length (pr_buffer r) \<and> pr_pos r \<le> pr_maxLen r \<and> unat (pr_maxLen r) < 2 ^ 63"

definition pr_rest :: "packet_reader \<Rightarrow> byte list" where
  "pr_rest r = drop (unat (pr_pos r)) (take (unat (pr_maxLen r)) (pr_buffer r))"

lemma read_bytes_ok:
  assumes inv: "pr_inv r" and n: "n < 2 ^ 63"
  shows "if n \<le> length (pr_rest r)
    then \<exists>r'. read_bytes nd n r = Some (take n (pr_rest r), r') \<and> pr_inv r' \<and> pr_rest r' = drop n (pr_rest r) \<and>
      pr_bigEndian r' = pr_bigEndian r
    else read_bytes nd n r = (if nd then Some (replicate n 0, r) else None)"
proof -
  have u: "unat (pr_pos r) \<le> unat (pr_maxLen r)" "unat (pr_maxLen r) \<le> length (pr_buffer r)" "unat (pr_maxLen r) < 2 ^ 63"
    using inv by (auto simp: pr_inv_def word_le_nat_alt)
  then have s: "unat (pr_pos r + of_nat n) = unat (pr_pos r) + n" using n by (simp add: unat_add_63)
  have l: "length (pr_rest r) = unat (pr_maxLen r) - unat (pr_pos r)" using u by (simp add: pr_rest_def)
  show ?thesis
  proof (cases "unat (pr_pos r) + n \<le> unat (pr_maxLen r)")
    case True
    then have "take n (drop (unat (pr_pos r)) (pr_buffer r)) = take n (pr_rest r)"
      by (simp add: pr_rest_def drop_take min_def)
    with True u s l show ?thesis
      by (auto simp: read_bytes_def word_le_nat_alt mem_read_def pr_inv_def pr_rest_def add.commute)
  next
    case False
    with u s l show ?thesis by (auto simp: read_bytes_def word_le_nat_alt)
  qed
qed

section \<open>Integers of all sizes\<close>

text \<open>
  The contract of a scalar type: it is written as its encoding, and read by
  decoding as many bytes.
\<close>

locale packet_scalar =
  fixes put :: "heap_env \<Rightarrow> 'v \<Rightarrow> packet_writer \<Rightarrow> (bool \<times> packet_writer) option"
    and get :: "bool \<Rightarrow> packet_reader \<Rightarrow> ('v \<times> packet_reader) option"
    and enc :: "bool \<Rightarrow> 'v \<Rightarrow> byte list"
    and dec :: "bool \<Rightarrow> byte list \<Rightarrow> 'v"
    and size :: nat
  assumes put_eq: "put env v w = writeBuffer env (enc (pw_bigEndian w) v) w"
    and get_eq: "get nd r = map_option (\<lambda>(bs, r'). (dec (pr_bigEndian r) bs, r')) (read_bytes nd size r)"
    and dec_enc: "dec be (enc be v) = v"
    and enc_size: "length (enc be v) = size"
    and size_small: "size \<le> 8"
begin

lemma get_enc:
  assumes "pr_inv r" and "pr_rest r = enc (pr_bigEndian r) v @ rest"
  shows "\<exists>r'. get nd r = Some (v, r') \<and> pr_inv r' \<and> pr_rest r' = rest \<and> pr_bigEndian r' = pr_bigEndian r"
proof -
  have "size \<le> length (pr_rest r)" "size < 2 ^ 63" using assms(2) enc_size size_small by simp_all
  with read_bytes_ok [OF assms(1), of size nd] obtain r' where
    "read_bytes nd size r = Some (take size (pr_rest r), r')" "pr_inv r'" "pr_rest r' = drop size (pr_rest r)"
    "pr_bigEndian r' = pr_bigEndian r" by auto
  with assms(2) dec_enc enc_size show ?thesis by (simp add: get_eq)
qed

lemma put_ok:
  assumes "pw_inv w" and "heap_limit env"
  shows "\<exists>ok w'. put env v w = Some (ok, w') \<and> pw_inv w' \<and>
    (ok, pw_abs w') = log_add env (pw_autoMalloc w) (enc (pw_bigEndian w) v) (pw_abs w) \<and>
    pw_bigEndian w' = pw_bigEndian w \<and> pw_autoMalloc w' = pw_autoMalloc w"
  using writeBuffer_ok [OF assms, of "enc (pw_bigEndian w) v"] enc_size size_small by (simp add: put_eq)

end

text \<open>The bytes of a number: the most significant first in network order, or last.\<close>

definition enc_word :: "nat \<Rightarrow> bool \<Rightarrow> 'a::len word \<Rightarrow> byte list" where
  "enc_word n be v = (if be then rev (le_bytes n v) else le_bytes n v)"

lemma enc_word_length [simp]: "length (enc_word n be v) = n"
  by (simp add: enc_word_def)

lemma enc_word_one: "enc_word (Suc 0) be v = [ucast v]"
  by (simp add: enc_word_def)

lemma bind_pair: "x \<bind> (\<lambda>(bs, r). Some (f bs, r)) = map_option (\<lambda>(bs, r). (f bs, r)) x"
  by (cases x) auto

lemma le_bytes_network:
  "le_bytes 2 (hostToNetwork16 a be) = enc_word 2 be a"
  "le_bytes 4 (hostToNetwork32 b be) = enc_word 4 be b"
  "le_bytes 8 (hostToNetwork64 c be) = enc_word 8 be c"
  by (simp_all add: enc_word_def endian_defs htobe_bytes)

lemma network_round:
  "networkToHost16 (of_le_bytes (enc_word 2 be a)) be = a"
  "networkToHost32 (of_le_bytes (enc_word 4 be b)) be = b"
  "networkToHost64 (of_le_bytes (enc_word 8 be c)) be = c"
  unfolding le_bytes_network [symmetric]
  by (simp_all add: of_le_le_bytes_all [of 2] of_le_le_bytes_all [of 4] of_le_le_bytes_all [of 8] endian_defs)

lemma byte_round: "of_le_bytes (enc_word (Suc 0) be v) = (v :: byte)"
  by (simp add: enc_word_def)

lemmas scalar_simps = network_round byte_round le_bytes_network enc_word_one bind_pair

interpretation scalar_bool: packet_scalar writeBool readBool "\<lambda>be v. enc_word 1 be (of_bool v :: byte)"
    "\<lambda>be bs. of_le_bytes bs \<noteq> (0 :: byte)" 1
  by unfold_locales (auto simp: writeBool_def readBool_def scalar_simps)

interpretation scalar_int8: packet_scalar writeINT8 readINT8 "enc_word 1" "\<lambda>be. of_le_bytes" 1
  by unfold_locales (auto simp: writeINT8_def readINT8_def scalar_simps)

interpretation scalar_uint8: packet_scalar writeUINT8 readUINT8 "enc_word 1" "\<lambda>be. of_le_bytes" 1
  by unfold_locales (auto simp: writeUINT8_def readUINT8_def scalar_simps)

interpretation scalar_int16: packet_scalar writeINT16 readINT16 "enc_word 2"
    "\<lambda>be bs. networkToHost16 (of_le_bytes bs) be" 2
  by unfold_locales (auto simp: writeINT16_def readINT16_def scalar_simps)

interpretation scalar_uint16: packet_scalar writeUINT16 readUINT16 "enc_word 2"
    "\<lambda>be bs. networkToHost16 (of_le_bytes bs) be" 2
  by unfold_locales (auto simp: writeUINT16_def readUINT16_def scalar_simps)

interpretation scalar_int32: packet_scalar writeINT32 readINT32 "enc_word 4"
    "\<lambda>be bs. networkToHost32 (of_le_bytes bs) be" 4
  by unfold_locales (auto simp: writeINT32_def readINT32_def scalar_simps)

interpretation scalar_uint32: packet_scalar writeUINT32 readUINT32 "enc_word 4"
    "\<lambda>be bs. networkToHost32 (of_le_bytes bs) be" 4
  by unfold_locales (auto simp: writeUINT32_def readUINT32_def scalar_simps)

interpretation scalar_int64: packet_scalar writeINT64 readINT64 "enc_word 8"
    "\<lambda>be bs. networkToHost64 (of_le_bytes bs) be" 8
  by unfold_locales (auto simp: writeINT64_def readINT64_def scalar_simps)

interpretation scalar_uint64: packet_scalar writeUINT64 readUINT64 "enc_word 8"
    "\<lambda>be bs. networkToHost64 (of_le_bytes bs) be" 8
  by unfold_locales (auto simp: writeUINT64_def readUINT64_def scalar_simps)

section \<open>Sequences of values\<close>

fun encode :: "bool \<Rightarrow> packet_value \<Rightarrow> byte list" where
  "encode be (V_bool v) = enc_word 1 be (of_bool v :: byte)"
| "encode be (V_uint8 v) = enc_word 1 be v"
| "encode be (V_int8 v) = enc_word 1 be v"
| "encode be (V_int16 v) = enc_word 2 be v"
| "encode be (V_uint16 v) = enc_word 2 be v"
| "encode be (V_int32 v) = enc_word 4 be v"
| "encode be (V_uint32 v) = enc_word 4 be v"
| "encode be (V_int64 v) = enc_word 8 be v"
| "encode be (V_uint64 v) = enc_word 8 be v"
| "encode be (V_binary v) = v"

text \<open>Reading a value of the same type as a given one. There is no reader for byte strings.\<close>

fun read_like :: "bool \<Rightarrow> packet_value \<Rightarrow> packet_reader \<Rightarrow> (packet_value \<times> packet_reader) option" where
  "read_like nd (V_bool _) r = map_option (apfst V_bool) (readBool nd r)"
| "read_like nd (V_uint8 _) r = map_option (apfst V_uint8) (readUINT8 nd r)"
| "read_like nd (V_int8 _) r = map_option (apfst V_int8) (readINT8 nd r)"
| "read_like nd (V_int16 _) r = map_option (apfst V_int16) (readINT16 nd r)"
| "read_like nd (V_uint16 _) r = map_option (apfst V_uint16) (readUINT16 nd r)"
| "read_like nd (V_int32 _) r = map_option (apfst V_int32) (readINT32 nd r)"
| "read_like nd (V_uint32 _) r = map_option (apfst V_uint32) (readUINT32 nd r)"
| "read_like nd (V_int64 _) r = map_option (apfst V_int64) (readINT64 nd r)"
| "read_like nd (V_uint64 _) r = map_option (apfst V_uint64) (readUINT64 nd r)"
| "read_like nd (V_binary _) r = None"

fun read_all :: "bool \<Rightarrow> packet_value list \<Rightarrow> packet_reader \<Rightarrow> (packet_value list \<times> packet_reader) option" where
  "read_all nd [] r = Some ([], r)"
| "read_all nd (v # vs) r =
     do { (x, r) \<leftarrow> read_like nd v r; (xs, r) \<leftarrow> read_all nd vs r; Some (x # xs, r) }"

fun scalar :: "packet_value \<Rightarrow> bool" where
  "scalar (V_binary _) = False"
| "scalar _ = True"

fun log_run :: "heap_env \<Rightarrow> bool \<Rightarrow> byte list list \<Rightarrow> byte list \<times> nat \<Rightarrow> byte list \<times> nat" where
  "log_run env auto [] st = st"
| "log_run env auto (bs # bss) st = log_run env auto bss (snd (log_add env auto bs st))"

definition value_ok :: "packet_value \<Rightarrow> bool" where
  "value_ok v \<longleftrightarrow> (case v of V_binary bs \<Rightarrow> length bs < 2 ^ 63 | _ \<Rightarrow> True)"

lemma write_value_ok:
  assumes "pw_inv w" and "heap_limit env" and "value_ok v"
  shows "\<exists>ok w'. write_value env v w = Some (ok, w') \<and> pw_inv w' \<and>
    (ok, pw_abs w') = log_add env (pw_autoMalloc w) (encode (pw_bigEndian w) v) (pw_abs w) \<and>
    pw_bigEndian w' = pw_bigEndian w \<and> pw_autoMalloc w' = pw_autoMalloc w"
proof (cases v)
  case (V_binary bs)
  with writeBuffer_ok [OF assms(1,2), of bs] assms(3) show ?thesis by (simp add: value_ok_def writeBinary_def)
qed (use scalar_bool.put_ok [OF assms(1,2)] scalar_int8.put_ok [OF assms(1,2)] scalar_uint8.put_ok [OF assms(1,2)]
    scalar_int16.put_ok [OF assms(1,2)] scalar_uint16.put_ok [OF assms(1,2)] scalar_int32.put_ok [OF assms(1,2)]
    scalar_uint32.put_ok [OF assms(1,2)] scalar_int64.put_ok [OF assms(1,2)] scalar_uint64.put_ok [OF assms(1,2)] in simp_all)

lemma writev_ok:
  assumes "heap_limit env"
  shows "pw_inv w \<Longrightarrow> list_all value_ok vs \<Longrightarrow>
    \<exists>w'. writev env vs w = Some w' \<and> pw_inv w' \<and>
      pw_abs w' = log_run env (pw_autoMalloc w) (map (encode (pw_bigEndian w)) vs) (pw_abs w)"
proof (induction vs arbitrary: w)
  case (Cons v vs)
  obtain ok w1 where S: "write_value env v w = Some (ok, w1)" "pw_inv w1"
    "(ok, pw_abs w1) = log_add env (pw_autoMalloc w) (encode (pw_bigEndian w) v) (pw_abs w)"
    "pw_bigEndian w1 = pw_bigEndian w" "pw_autoMalloc w1 = pw_autoMalloc w"
    using write_value_ok [OF Cons.prems(1) assms, of v] Cons.prems(2) by auto
  have "snd (log_add env (pw_autoMalloc w) (encode (pw_bigEndian w) v) (pw_abs w)) = pw_abs w1"
    by (simp add: S(3) [symmetric])
  with Cons.IH [OF S(2)] Cons.prems(2) S show ?case by (simp add: stream_out_def)
qed simp

lemma read_like_ok:
  assumes "pr_inv r" and "pr_rest r = encode (pr_bigEndian r) v @ rest" and "scalar v"
  shows "\<exists>r'. read_like nd v r = Some (v, r') \<and> pr_inv r' \<and> pr_rest r' = rest \<and> pr_bigEndian r' = pr_bigEndian r"
proof (cases v)
  case (V_bool a)
  with scalar_bool.get_enc [OF assms(1), of a rest nd] assms(2) show ?thesis by auto
next
  case (V_uint8 a)
  with scalar_uint8.get_enc [OF assms(1), of a rest nd] assms(2) show ?thesis by auto
next
  case (V_int8 a)
  with scalar_int8.get_enc [OF assms(1), of a rest nd] assms(2) show ?thesis by auto
next
  case (V_int16 a)
  with scalar_int16.get_enc [OF assms(1), of a rest nd] assms(2) show ?thesis by auto
next
  case (V_uint16 a)
  with scalar_uint16.get_enc [OF assms(1), of a rest nd] assms(2) show ?thesis by auto
next
  case (V_int32 a)
  with scalar_int32.get_enc [OF assms(1), of a rest nd] assms(2) show ?thesis by auto
next
  case (V_uint32 a)
  with scalar_uint32.get_enc [OF assms(1), of a rest nd] assms(2) show ?thesis by auto
next
  case (V_int64 a)
  with scalar_int64.get_enc [OF assms(1), of a rest nd] assms(2) show ?thesis by auto
next
  case (V_uint64 a)
  with scalar_uint64.get_enc [OF assms(1), of a rest nd] assms(2) show ?thesis by auto
qed (use assms(3) in simp)

lemma read_all_ok:
  "pr_inv r \<Longrightarrow> pr_rest r = concat (map (encode (pr_bigEndian r)) vs) @ rest \<Longrightarrow> list_all scalar vs \<Longrightarrow>
   \<exists>r'. read_all nd vs r = Some (vs, r') \<and> pr_inv r' \<and> pr_rest r' = rest"
proof (induction vs arbitrary: r)
  case (Cons v vs)
  obtain r1 where R: "read_like nd v r = Some (v, r1)" "pr_inv r1"
    "pr_rest r1 = concat (map (encode (pr_bigEndian r)) vs) @ rest" "pr_bigEndian r1 = pr_bigEndian r"
    using read_like_ok [OF Cons.prems(1), of v] Cons.prems(2,3) by auto
  with Cons.IH [OF R(2)] Cons.prems(3) show ?case by auto
qed simp

lemma log_add_fits:
  "length data + length bs \<le> cap \<or> auto \<and> malloc_ok env (cap + length bs) \<Longrightarrow>
   \<exists>cap'. log_add env auto bs (data, cap) = (True, data @ bs, cap') \<and> cap' \<le> cap + length bs \<and> cap \<le> cap'"
  by (auto simp: log_add_def)

lemma log_run_fits:
  assumes "length data + length (concat bss) \<le> cap \<or> auto \<and> (\<forall>n \<le> cap + length (concat bss). malloc_ok env n)"
  shows "fst (log_run env auto bss (data, cap)) = data @ concat bss"
  using assms
proof (induction bss arbitrary: data cap)
  case (Cons bs bss)
  obtain cap' where L: "log_add env auto bs (data, cap) = (True, data @ bs, cap')" "cap' \<le> cap + length bs" "cap \<le> cap'"
    using log_add_fits [of data bs cap auto env] Cons.prems by auto
  have "length (data @ bs) + length (concat bss) \<le> cap' \<or> auto \<and> (\<forall>n \<le> cap' + length (concat bss). malloc_ok env n)"
    using Cons.prems L(2,3) by auto
  from Cons.IH [OF this] L(1) show ?case by simp
qed simp

lemma scalar_ok: "list_all scalar vs \<Longrightarrow> list_all value_ok vs"
proof (induction vs)
  case (Cons v vs)
  then show ?case by (cases v) (auto simp: value_ok_def)
qed simp

lemma writer_new_inv: "length buffer = unat len \<Longrightarrow> unat len < 2 ^ 63 \<Longrightarrow> pw_inv (BasePacketWriter_new buffer len be auto)"
  by (simp add: pw_inv_def BasePacketWriter_new_def)

text \<open>
  The writer is a log of bounded size. A sequence of stream operators appends
  the encodings of the values, each completely or not at all: a value that does
  not fit is dropped, and later smaller ones are still appended. The capacity
  grows, by the size of the value, only where growing is enabled and memory
  is available. No write goes outside the buffer.
\<close>

theorem packet_writer_refines_log:
  assumes "heap_limit env" and "pw_inv w" and "list_all value_ok vs"
  shows "\<exists>w'. writev env vs w = Some w' \<and> pw_inv w' \<and>
    pw_abs w' = log_run env (pw_autoMalloc w) (map (encode (pw_bigEndian w)) vs) (pw_abs w)"
  using writev_ok [OF assms] .

theorem packet_writer_refines_log_witness:
  "\<exists>w'. writev \<lparr>malloc_ok = (\<lambda>_. False), uninit = (\<lambda>_. 0)\<rparr> [V_uint16 0x0102, V_uint32 7, V_bool True]
      (BasePacketWriter_new [9, 9, 9, 9] 4 True False) = Some w' \<and> pw_abs w' = ([1, 2, 1], 4)"
proof -
  let ?env = "\<lparr>malloc_ok = (\<lambda>_. False), uninit = (\<lambda>_. 0)\<rparr> :: heap_env"
  let ?w = "BasePacketWriter_new [9, 9, 9, 9] 4 True False"
  have enc: "enc_word 2 True (0x0102 :: 16 word) = [1, 2]" by code_simp
  have "heap_limit ?env" "pw_inv ?w" by (simp_all add: heap_limit_def pw_inv_def BasePacketWriter_new_def)
  from packet_writer_refines_log [OF this, of "[V_uint16 0x0102, V_uint32 7, V_bool True]"] show ?thesis
    by (auto simp: value_ok_def pw_abs_def BasePacketWriter_new_def log_add_def enc_word_one enc simp del: writev.simps)
qed

text \<open>
  C37. What a packet writer wrote, a reader with the same byte order reads back:
  for every sequence of numbers and booleans of any size and sign that fits,
  or that makes the buffer grow, the typed reads return the values in order and
  leave nothing, in both byte orders and with or without assertions.
\<close>

theorem packet_round_trip:
  assumes "heap_limit env" and "length buffer = unat len" and "unat len < 2 ^ 63" and "list_all scalar vs"
    and "8 * length vs \<le> unat len \<or> auto \<and> (\<forall>n \<le> unat len + 8 * length vs. malloc_ok env n)"
  shows "\<exists>w r. writev env vs (BasePacketWriter_new buffer len be auto) = Some w \<and>
    read_all nd vs (BasePacketReader_new (pw_buffer w) (pw_pos w) be) = Some (vs, r) \<and> getLeft r = 0"
proof -
  let ?w = "BasePacketWriter_new buffer len be auto"
  let ?bss = "map (encode be) vs"
  have ew: "pw_autoMalloc ?w = auto" "pw_bigEndian ?w = be" "pw_abs ?w = ([], unat len)"
    by (simp_all add: BasePacketWriter_new_def pw_abs_def)
  obtain w where W: "writev env vs ?w = Some w" "pw_inv w" "pw_abs w = log_run env auto ?bss ([], unat len)"
    using writev_ok [OF assms(1) writer_new_inv [OF assms(2,3)] scalar_ok [OF assms(4)], of be auto] ew by auto
  have "length (encode be v) \<le> 8" if "scalar v" for v using that by (cases v) simp_all
  then have "length (concat ?bss) \<le> 8 * length vs"
    using assms(4) by (induction vs) (auto simp: add_mono)
  then have "fst (pw_abs w) = concat ?bss"
    using log_run_fits [of "[]" ?bss "unat len" auto env] assms(5) W(3) by auto
  then have data: "take (unat (pw_pos w)) (pw_buffer w) = concat ?bss" by (simp add: pw_abs_def)
  let ?r = "BasePacketReader_new (pw_buffer w) (pw_pos w) be"
  have "pr_inv ?r" using W(2) by (auto simp: pw_inv_def pr_inv_def BasePacketReader_new_def word_le_nat_alt)
  moreover have "pr_rest ?r = concat (map (encode (pr_bigEndian ?r)) vs) @ []"
    by (simp add: pr_rest_def BasePacketReader_new_def data)
  ultimately obtain r where R: "read_all nd vs ?r = Some (vs, r)" "pr_inv r" "pr_rest r = []"
    using read_all_ok assms(4) by blast
  then have "unat (pr_maxLen r) = unat (pr_pos r)"
    by (auto simp: pr_rest_def pr_inv_def word_le_nat_alt)
  then have "pr_maxLen r = pr_pos r" by (simp only: word_unat_eq_iff)
  then have "getLeft r = 0" by (simp add: getLeft_def)
  with W(1) R(1) show ?thesis by blast
qed

theorem packet_round_trip_witness:
  "\<exists>w r. writev \<lparr>malloc_ok = (\<lambda>n. n < 2 ^ 63), uninit = (\<lambda>_. 0)\<rparr> [V_int32 (- 5), V_bool True, V_uint16 513]
      (BasePacketWriter_new [] 0 True True) = Some w \<and>
    read_all False [V_int32 (- 5), V_bool True, V_uint16 513] (BasePacketReader_new (pw_buffer w) (pw_pos w) True) =
      Some ([V_int32 (- 5), V_bool True, V_uint16 513], r) \<and> getLeft r = 0"
  by (rule packet_round_trip) (simp_all add: heap_limit_def)

lemma uint_63:
  fixes m :: size_t
  assumes "unat m < 2 ^ 63"
  shows "uint m < 2 ^ 63"
proof -
  have "int (unat m) < int (2 ^ 63)" using assms unfolding of_nat_less_iff .
  then show ?thesis by simp
qed

lemma mod_64_cases:
  fixes s :: int
  assumes "- (2 ^ 31) \<le> s" and "s < 2 ^ 64"
  shows "s mod 2 ^ 64 = (if 0 \<le> s then s else s + 2 ^ 64)"
proof (cases "0 \<le> s")
  case False
  then have "(s + 2 ^ 64) mod 2 ^ 64 = s + 2 ^ 64" using assms by (intro mod_pos_pos_trivial) simp_all
  with False show ?thesis by (simp only: mod_add_self2 if_False)
qed (use assms in simp)

lemma uint_add_scast: "uint (p + scast d :: size_t) = (uint p + sint (d :: 32 word)) mod 2 ^ 64"
proof -
  have "uint (scast d :: size_t) = sint d mod 2 ^ 64" unfolding scast_eq uint_word_of_int by simp
  then have "uint (p + scast d :: size_t) = (uint p + sint d mod 2 ^ 64) mod 2 ^ 64"
    unfolding uint_word_ariths by simp
  then show ?thesis by (simp only: mod_add_right_eq)
qed

lemma sint_bounds:
  fixes d :: "32 word"
  shows "- (2 ^ 31) \<le> sint d" "sint d < 2 ^ 31"
  using sint_greater_eq [of d] sint_less [of d] by simp_all

lemma sum_bounds:
  fixes p m d :: int
  assumes "0 \<le> p" "p \<le> m" "m < 2 ^ 63" "- (2 ^ 31) \<le> d" "d < 2 ^ 31"
  shows "- (2 ^ 31) \<le> p + d" "p + d < 2 ^ 64" "m < p + d + 2 ^ 64"
  using assms by simp_all

text \<open>
  \<open>addPos\<close> moves the position by a signed distance exactly when the result is
  inside the packet, and otherwise not at all: the addition of an \<open>int\<close> to a
  \<open>size_t\<close> wraps, but never into the packet.
\<close>

theorem addPos_exact:
  assumes "pr_inv r"
  shows "uint (pr_pos (addPos d r)) =
    (if 0 \<le> uint (pr_pos r) + sint d \<and> uint (pr_pos r) + sint d \<le> uint (pr_maxLen r)
     then uint (pr_pos r) + sint d else uint (pr_pos r))"
proof -
  let ?p = "uint (pr_pos r)" and ?m = "uint (pr_maxLen r)"
  have u: "0 \<le> ?p" "?p \<le> ?m" "?m < 2 ^ 63"
    using assms uint_63 [of "pr_maxLen r"] by (simp_all add: pr_inv_def word_le_def)
  note b = sum_bounds [OF u sint_bounds [of d]]
  have sum: "uint (pr_pos r + scast d) = (if 0 \<le> ?p + sint d then ?p + sint d else ?p + sint d + 2 ^ 64)"
    unfolding uint_add_scast by (rule mod_64_cases [OF b(1,2)])
  have move: "uint (pr_pos (addPos d r)) = (if uint (pr_pos r + scast d) \<le> ?m then uint (pr_pos r + scast d) else ?p)"
    by (simp add: addPos_def Let_def word_le_def)
  show ?thesis
  proof (cases "0 \<le> ?p + sint d")
    case True
    show ?thesis unfolding move sum by (simp only: True if_True simp_thms)
  next
    case False
    have "\<not> ?p + sint d + 2 ^ 64 \<le> ?m" using b(3) by (simp only: not_le)
    then show ?thesis unfolding move sum by (simp only: False if_False simp_thms)
  qed
qed

theorem addPos_exact_witness:
  "uint (pr_pos (addPos (- 1) (addPos 2 (BasePacketReader_new [7, 8, 9] 3 True)))) = 1"
proof -
  have "pr_inv (addPos 2 (BasePacketReader_new [7, 8, 9] 3 True))"
    by (simp add: pr_inv_def addPos_def BasePacketReader_new_def)
  from addPos_exact [OF this, of "- 1"] show ?thesis
    by (simp add: addPos_def BasePacketReader_new_def)
qed

end
