(* ===== verification/Socket_Lib.thy ===== *)
theory Socket_Lib
  imports Fdset
begin

text \<open>
  The wrappers around the socket calls in \<open>net/SocketLibFunction.cpp\<close> and the
  socket objects of \<open>net/Socket.cpp\<close>, as built for Linux. The system calls are a
  record of functions on the state of the operating system; what their manuals
  say of descriptors, addresses and interrupts is the hypothesis \<open>os_law\<close>.
\<close>

section \<open>The operating system\<close>

definition AF_INET :: int where "AF_INET = 2"
definition AF_INET6 :: int where "AF_INET6 = 10"
definition SOL_SOCKET :: int where "SOL_SOCKET = 1"
definition IPPROTO_TCP :: int where "IPPROTO_TCP = 6"
definition TCP_NODELAY :: int where "TCP_NODELAY = 1"
definition SO_REUSEADDR :: int where "SO_REUSEADDR = 2"
definition SO_SNDBUF :: int where "SO_SNDBUF = 7"
definition SO_RCVBUF :: int where "SO_RCVBUF = 8"
definition S_EWOULDBLOCK :: int where "S_EWOULDBLOCK = 11"

text \<open>The fields of \<open>sockaddr_in\<close> and \<open>sockaddr_in6\<close> that the code sets; the port as it is stored.\<close>

record sockaddr =
  sa_family :: int
  sa_port :: "16 word"
  sa_addr :: "byte list"

text \<open>A call that can fail gives a result, \<open>-1\<close> for a failure, and leaves its reason in \<open>errno\<close>.\<close>

record 'w os =
  os_ignore_sigpipe :: "'w \<Rightarrow> 'w"
  os_socket :: "int \<Rightarrow> 'w \<Rightarrow> int \<times> 'w"
  os_close :: "sock \<Rightarrow> 'w \<Rightarrow> 'w"
  os_setsockopt :: "sock \<Rightarrow> int \<Rightarrow> int \<Rightarrow> int \<Rightarrow> 'w \<Rightarrow> int \<times> 'w"
  os_fionbio :: "sock \<Rightarrow> bool \<Rightarrow> 'w \<Rightarrow> int \<times> 'w"
  os_connect :: "sock \<Rightarrow> sockaddr \<Rightarrow> 'w \<Rightarrow> int \<times> 'w"
  os_bind :: "sock \<Rightarrow> sockaddr \<Rightarrow> 'w \<Rightarrow> int \<times> 'w"
  os_listen :: "sock \<Rightarrow> int \<Rightarrow> 'w \<Rightarrow> int \<times> 'w"
  os_accept :: "sock \<Rightarrow> 'w \<Rightarrow> int \<times> 'w"
  os_send :: "sock \<Rightarrow> byte list \<Rightarrow> 'w \<Rightarrow> int \<times> 'w"
  os_getpeername :: "sock \<Rightarrow> 'w \<Rightarrow> int \<times> byte list \<times> 'w"
  os_errno :: "'w \<Rightarrow> int"
  os_pton :: "int \<Rightarrow> string \<Rightarrow> int \<times> byte list"
  os_ntop :: "int \<Rightarrow> byte list \<Rightarrow> string"

section \<open>Socket functions\<close>

definition InitSocket :: "'w os \<Rightarrow> 'w \<Rightarrow> bool \<times> 'w" where
  "InitSocket os w = (True, os_ignore_sigpipe os w)"

definition SocketNodelay :: "'w os \<Rightarrow> sock \<Rightarrow> 'w \<Rightarrow> int \<times> 'w" where
  "SocketNodelay os fd w = os_setsockopt os fd IPPROTO_TCP TCP_NODELAY 1 w"

definition SocketBlock :: "'w os \<Rightarrow> sock \<Rightarrow> 'w \<Rightarrow> bool \<times> 'w" where
  "SocketBlock os fd w = (let (err, w') = os_fionbio os fd False w in (err \<noteq> SOCKET_ERROR, w'))"

definition SocketNonblock :: "'w os \<Rightarrow> sock \<Rightarrow> 'w \<Rightarrow> bool \<times> 'w" where
  "SocketNonblock os fd w = (let (err, w') = os_fionbio os fd True w in (err \<noteq> SOCKET_ERROR, w'))"

definition SocketSetSendSize :: "'w os \<Rightarrow> sock \<Rightarrow> int \<Rightarrow> 'w \<Rightarrow> int \<times> 'w" where
  "SocketSetSendSize os fd sd_size w = os_setsockopt os fd SOL_SOCKET SO_SNDBUF sd_size w"

definition SocketSetRecvSize :: "'w os \<Rightarrow> sock \<Rightarrow> int \<Rightarrow> 'w \<Rightarrow> int \<times> 'w" where
  "SocketSetRecvSize os fd rd_size w = os_setsockopt os fd SOL_SOCKET SO_RCVBUF rd_size w"

definition SocketClose :: "'w os \<Rightarrow> sock \<Rightarrow> 'w \<Rightarrow> 'w" where
  "SocketClose os fd w = os_close os fd w"

definition SocketCreate :: "'w os \<Rightarrow> int \<Rightarrow> 'w \<Rightarrow> int \<times> 'w" where
  "SocketCreate os af w = os_socket os af w"

definition sock_accept :: "'w os \<Rightarrow> sock \<Rightarrow> 'w \<Rightarrow> int \<times> 'w" where
  "sock_accept os listenSocket w = os_accept os listenSocket w"

text \<open>\<open>htons\<close> on a little-endian machine.\<close>

definition htons :: "16 word \<Rightarrow> 16 word" where
  "htons p = or (push_bit 8 p) (drop_bit 8 p)"

text \<open>The address that both \<open>Connect\<close> and \<open>Listen\<close> fill in, and whether the text was one.\<close>

definition fill_addr :: "'w os \<Rightarrow> bool \<Rightarrow> string \<Rightarrow> int \<Rightarrow> bool \<times> sockaddr" where
  "fill_addr os isIPV6 ip port =
     (let af = (if isIPV6 then AF_INET6 else AF_INET);
          (r, bytes) = os_pton os af ip
      in (0 < r, \<lparr>sa_family = af, sa_port = htons (word_of_int port), sa_addr = bytes\<rparr>))"

text \<open>The loop of \<open>Connect\<close>; a connect that is interrupted for ever does not return, \<open>None\<close>.\<close>

partial_function (option) connect_loop :: "'w os \<Rightarrow> sock \<Rightarrow> sockaddr \<Rightarrow> 'w \<Rightarrow> (sock \<times> 'w) option" where
  "connect_loop os clientfd addr w =
     (let (r, w') = os_connect os clientfd addr w
      in if r < 0
         then (if S_EINTR = os_errno os w' then connect_loop os clientfd addr w'
               else Some (SOCKET_ERROR, SocketClose os clientfd w'))
         else Some (clientfd, w'))"

definition Connect :: "'w os \<Rightarrow> bool \<Rightarrow> string \<Rightarrow> int \<Rightarrow> 'w \<Rightarrow> (sock \<times> 'w) option" where
  "Connect os isIPV6 server_ip port w =
     (let (_, w) = InitSocket os w;
          (clientfd, w) = (if isIPV6 then SocketCreate os AF_INET6 w else SocketCreate os AF_INET w)
      in if clientfd = SOCKET_ERROR then Some (clientfd, w)
         else let (ptonResult, addr) = fill_addr os isIPV6 server_ip port
              in if \<not> ptonResult then Some (SOCKET_ERROR, SocketClose os clientfd w)
                 else connect_loop os clientfd addr w)"

definition Listen :: "'w os \<Rightarrow> bool \<Rightarrow> string \<Rightarrow> int \<Rightarrow> int \<Rightarrow> 'w \<Rightarrow> sock \<times> 'w" where
  "Listen os isIPV6 ip port back_num w =
     (let (_, w) = InitSocket os w;
          (socketfd, w) = (if isIPV6 then os_socket os AF_INET6 w else os_socket os AF_INET w)
      in if socketfd = SOCKET_ERROR then (SOCKET_ERROR, w)
         else let (ptonResult, addr) = fill_addr os isIPV6 ip port;
                  (reuse, w) = (if ptonResult then os_setsockopt os socketfd SOL_SOCKET SO_REUSEADDR 1 w else (0, w))
              in if \<not> ptonResult \<or> reuse < 0 then (SOCKET_ERROR, SocketClose os socketfd w)
                 else let (bindRet, w) = os_bind os socketfd addr w;
                          (listenRet, w) = (if bindRet = SOCKET_ERROR then (0, w) else os_listen os socketfd back_num w)
                      in if bindRet = SOCKET_ERROR \<or> listenRet = SOCKET_ERROR
                         then (SOCKET_ERROR, SocketClose os socketfd w)
                         else (socketfd, w))"

text \<open>
  \<open>get_ip_str\<close> reads the address at its place in the block it is given; \<open>None\<close> is a
  read outside of it.
\<close>

definition get_ip_str :: "'w os \<Rightarrow> byte list \<Rightarrow> string option" where
  "get_ip_str os sa =
     do {
       fam \<leftarrow> mem_read sa 0 2;
       let sa_fam = uint (fam ! 0) + 256 * uint (fam ! 1);
       (if sa_fam = AF_INET then do { a \<leftarrow> mem_read sa 4 4; Some (os_ntop os AF_INET a) }
        else if sa_fam = AF_INET6 then do { a \<leftarrow> mem_read sa 8 16; Some (os_ntop os AF_INET6 a) }
        else Some ''Unknown AF'')
     }"

text \<open>
  \<open>name\<close> is a \<open>struct sockaddr_in\<close> of 16 bytes, and \<open>getpeername\<close> stores no more than
  that of the address.
\<close>

definition GetIPOfSocket :: "'w os \<Rightarrow> byte list \<Rightarrow> sock \<Rightarrow> 'w \<Rightarrow> (string \<times> 'w) option" where
  "GetIPOfSocket os name fd w =
     (let (r, addr, w') = os_getpeername os fd w
      in if r = 0 then do {
           name' \<leftarrow> mem_write name (Some 0) (take (length name) addr);
           ip \<leftarrow> get_ip_str os name';
           Some (ip, w')
         } else Some ([], w'))"

definition SocketSend :: "'w os \<Rightarrow> sock \<Rightarrow> byte list \<Rightarrow> 'w \<Rightarrow> int \<times> 'w" where
  "SocketSend os fd buffer w =
     (let (transnum, w') = os_send os fd buffer w
      in (if transnum < 0 \<and> S_EWOULDBLOCK = os_errno os w' then 0 else transnum, w'))"

section \<open>Socket objects\<close>

record TcpSocket =
  tcp_mFD :: sock
  tcp_mServerSide :: bool

definition TcpSocket_Create :: "sock \<Rightarrow> bool \<Rightarrow> TcpSocket" where
  "TcpSocket_Create fd serverSide = \<lparr>tcp_mFD = fd, tcp_mServerSide = serverSide\<rparr>"

definition TcpSocket_SocketNodelay :: "'w os \<Rightarrow> TcpSocket \<Rightarrow> 'w \<Rightarrow> 'w" where
  "TcpSocket_SocketNodelay os s w = snd (SocketNodelay os (tcp_mFD s) w)"

definition TcpSocket_SocketNonblock :: "'w os \<Rightarrow> TcpSocket \<Rightarrow> 'w \<Rightarrow> bool \<times> 'w" where
  "TcpSocket_SocketNonblock os s w = SocketNonblock os (tcp_mFD s) w"

definition TcpSocket_SetSendSize :: "'w os \<Rightarrow> TcpSocket \<Rightarrow> int \<Rightarrow> 'w \<Rightarrow> 'w" where
  "TcpSocket_SetSendSize os s sdSize w = snd (SocketSetSendSize os (tcp_mFD s) sdSize w)"

definition TcpSocket_SetRecvSize :: "'w os \<Rightarrow> TcpSocket \<Rightarrow> int \<Rightarrow> 'w \<Rightarrow> 'w" where
  "TcpSocket_SetRecvSize os s rdSize w = snd (SocketSetRecvSize os (tcp_mFD s) rdSize w)"

definition TcpSocket_GetIP :: "'w os \<Rightarrow> byte list \<Rightarrow> TcpSocket \<Rightarrow> 'w \<Rightarrow> (string \<times> 'w) option" where
  "TcpSocket_GetIP os name s w = GetIPOfSocket os name (tcp_mFD s) w"

definition TcpSocket_delete :: "'w os \<Rightarrow> TcpSocket \<Rightarrow> 'w \<Rightarrow> 'w" where
  "TcpSocket_delete os s w = SocketClose os (tcp_mFD s) w"

text \<open>A \<open>ListenSocket\<close> is its descriptor.\<close>

datatype accept_error = EintrError | AcceptError int

definition ListenSocket_Accept :: "'w os \<Rightarrow> sock \<Rightarrow> 'w \<Rightarrow> (accept_error + TcpSocket) \<times> 'w" where
  "ListenSocket_Accept os mFD w =
     (let (clientFD, w') = sock_accept os mFD w
      in (if clientFD = SOCKET_ERROR
          then Inl (if S_EINTR = os_errno os w' then EintrError else AcceptError (os_errno os w'))
          else Inr (TcpSocket_Create clientFD True), w'))"

definition ListenSocket_delete :: "'w os \<Rightarrow> sock \<Rightarrow> 'w \<Rightarrow> 'w" where
  "ListenSocket_delete os mFD w = SocketClose os mFD w"

section \<open>What the calls are documented to do\<close>

text \<open>
  The view of the system: the open descriptors of the process, the peer and the
  own address of a descriptor, the backlog of a listening one, and the signals
  that are still to come.
\<close>

record 'w os_view =
  v_fds :: "'w \<Rightarrow> sock set"
  v_peer :: "'w \<Rightarrow> sock \<Rightarrow> sockaddr option"
  v_bound :: "'w \<Rightarrow> sock \<Rightarrow> sockaddr option"
  v_backlog :: "'w \<Rightarrow> sock \<Rightarrow> int option"
  v_signals :: "'w \<Rightarrow> nat"

text \<open>A call that opens a descriptor fails or gives one that was not open.\<close>

definition opens :: "('w, 'z) os_view_scheme \<Rightarrow> ('w \<Rightarrow> int \<times> 'w) \<Rightarrow> bool" where
  "opens v call \<longleftrightarrow> (\<forall>w r w'. call w = (r, w') \<longrightarrow>
     r = SOCKET_ERROR \<and> v_fds v w' = v_fds v w \<or> 0 \<le> r \<and> r \<notin> v_fds v w \<and> v_fds v w' = insert r (v_fds v w))"

definition keeps_fds :: "('w, 'z) os_view_scheme \<Rightarrow> ('w \<Rightarrow> int \<times> 'w) \<Rightarrow> bool" where
  "keeps_fds v call \<longleftrightarrow> (\<forall>w r w'. call w = (r, w') \<longrightarrow> v_fds v w' = v_fds v w)"

definition os_law :: "'w os \<Rightarrow> ('w, 'z) os_view_scheme \<Rightarrow> bool" where
  "os_law os v \<longleftrightarrow>
     (\<forall>w. v_fds v (os_ignore_sigpipe os w) = v_fds v w) \<and>
     (\<forall>af. opens v (os_socket os af)) \<and> (\<forall>fd. opens v (os_accept os fd)) \<and>
     (\<forall>fd w. v_fds v (os_close os fd w) = v_fds v w - {fd}) \<and>
     (\<forall>fd l n x. keeps_fds v (os_setsockopt os fd l n x)) \<and>
     (\<forall>fd a. keeps_fds v (os_connect os fd a) \<and> keeps_fds v (os_bind os fd a)) \<and>
     (\<forall>fd n. keeps_fds v (os_listen os fd n)) \<and>
     (\<forall>fd a w r w'. os_connect os fd a w = (r, w') \<longrightarrow>
        (0 \<le> r \<longrightarrow> v_peer v w' fd = Some a) \<and>
        (r < 0 \<longrightarrow> os_errno os w' = S_EINTR \<longrightarrow> v_signals v w' < v_signals v w)) \<and>
     (\<forall>fd a w r w'. os_bind os fd a w = (r, w') \<longrightarrow> r \<noteq> SOCKET_ERROR \<longrightarrow> v_bound v w' fd = Some a) \<and>
     (\<forall>fd n w r w'. os_listen os fd n w = (r, w') \<longrightarrow> r \<noteq> SOCKET_ERROR \<longrightarrow>
        v_backlog v w' fd = Some n \<and> v_bound v w' = v_bound v w)"

lemma opensD: "opens v call \<Longrightarrow> call w = (r, w') \<Longrightarrow>
   r = SOCKET_ERROR \<and> v_fds v w' = v_fds v w \<or> 0 \<le> r \<and> r \<notin> v_fds v w \<and> v_fds v w' = insert r (v_fds v w)"
  by (simp add: opens_def)

lemma os_law_keeps:
  assumes "os_law os v"
  shows "os_setsockopt os fd level opt x w = (r, w') \<Longrightarrow> v_fds v w' = v_fds v w"
    and "os_connect os fd a w = (r, w') \<Longrightarrow> v_fds v w' = v_fds v w"
    and "os_bind os fd a w = (r, w') \<Longrightarrow> v_fds v w' = v_fds v w"
    and "os_listen os fd n w = (r, w') \<Longrightarrow> v_fds v w' = v_fds v w"
  using assms unfolding os_law_def keeps_fds_def by metis+

text \<open>A loop of interrupted connects ends: signals come only so often.\<close>

lemma connect_loop_ends:
  "os_law os v \<Longrightarrow> \<exists>fd' w'. connect_loop os fd addr w = Some (fd', w') \<and>
     (fd' = SOCKET_ERROR \<and> v_fds v w' = v_fds v w - {fd} \<or>
      fd' = fd \<and> v_fds v w' = v_fds v w \<and> v_peer v w' fd = Some addr)"
proof (induction "v_signals v w" arbitrary: w rule: less_induct)
  case less
  obtain r w1 where C: "os_connect os fd addr w = (r, w1)" by fastforce
  have law: "v_fds v w1 = v_fds v w" "0 \<le> r \<Longrightarrow> v_peer v w1 fd = Some addr"
    "r < 0 \<Longrightarrow> os_errno os w1 = S_EINTR \<Longrightarrow> v_signals v w1 < v_signals v w"
    "v_fds v (os_close os fd w1) = v_fds v w1 - {fd}"
    using less.prems C os_law_keeps(2) [OF less.prems C] by (auto simp: os_law_def)
  note unfold = connect_loop.simps [of os fd addr w]
  show ?case
  proof (cases "r < 0 \<and> os_errno os w1 = S_EINTR")
    case True
    with less.hyps [OF law(3) less.prems] law(1) C show ?thesis by (auto simp: unfold)
  next
    case False
    with C law show ?thesis by (auto simp: unfold SocketClose_def)
  qed
qed

text \<open>What is left of a call that was to open a descriptor: a new one, or everything as it was.\<close>

definition opened_or_clean :: "('w, 'z) os_view_scheme \<Rightarrow> 'w \<Rightarrow> sock \<Rightarrow> 'w \<Rightarrow> bool" where
  "opened_or_clean v w fd w' \<longleftrightarrow>
     (if fd = SOCKET_ERROR then v_fds v w' = v_fds v w
      else 0 \<le> fd \<and> fd \<notin> v_fds v w \<and> v_fds v w' = insert fd (v_fds v w))"

lemma socket_opened:
  assumes "os_law os v" and "os_socket os af (os_ignore_sigpipe os w) = (fd, w')"
  shows "opened_or_clean v w fd w'"
proof -
  have "opens v (os_socket os af)" and ign: "v_fds v (os_ignore_sigpipe os w) = v_fds v w"
    using assms(1) by (auto simp: os_law_def)
  from opensD [OF this(1) assms(2)] ign show ?thesis
    by (auto simp: opened_or_clean_def SOCKET_ERROR_def)
qed

lemma closed_clean:
  assumes "os_law os v" and "opened_or_clean v w fd w1" and "fd \<noteq> SOCKET_ERROR" and "v_fds v w2 = v_fds v w1"
  shows "opened_or_clean v w SOCKET_ERROR (SocketClose os fd w2)"
  using assms by (auto simp: opened_or_clean_def SocketClose_def os_law_def)

lemma connect_cleans:
  assumes "os_law os v"
  shows "\<exists>fd w'. Connect os isIPV6 ip port w = Some (fd, w') \<and> opened_or_clean v w fd w' \<and>
    (fd \<noteq> SOCKET_ERROR \<longrightarrow> fst (fill_addr os isIPV6 ip port) \<and> v_peer v w' fd = Some (snd (fill_addr os isIPV6 ip port)))"
proof -
  let ?af = "if isIPV6 then AF_INET6 else AF_INET"
  obtain fd w1 where S: "os_socket os ?af (os_ignore_sigpipe os w) = (fd, w1)" by fastforce
  note opened = socket_opened [OF assms S]
  obtain ok addr where A: "fill_addr os isIPV6 ip port = (ok, addr)" by fastforce
  have C: "Connect os isIPV6 ip port w =
      (if fd = SOCKET_ERROR then Some (fd, w1)
       else if \<not> ok then Some (SOCKET_ERROR, SocketClose os fd w1) else connect_loop os fd addr w1)"
    using S A by (auto simp: Connect_def InitSocket_def SocketCreate_def)
  show ?thesis
  proof (cases "fd = SOCKET_ERROR \<or> \<not> ok")
    case True
    with C opened closed_clean [OF assms opened _ refl] show ?thesis by auto
  next
    case False
    from connect_loop_ends [OF assms, of fd addr w1] obtain fd' w2 where
      L: "connect_loop os fd addr w1 = Some (fd', w2)"
      "fd' = SOCKET_ERROR \<and> v_fds v w2 = v_fds v w1 - {fd} \<or> fd' = fd \<and> v_fds v w2 = v_fds v w1 \<and> v_peer v w2 fd = Some addr"
      by blast
    moreover from this(2) opened False have "opened_or_clean v w fd' w2" by (auto simp: opened_or_clean_def)
    ultimately show ?thesis using C A False by auto
  qed
qed

lemma listen_cleans:
  assumes "os_law os v" and "Listen os isIPV6 ip port back_num w = (fd, w')"
  shows "opened_or_clean v w fd w' \<and>
    (fd \<noteq> SOCKET_ERROR \<longrightarrow> fst (fill_addr os isIPV6 ip port) \<and>
       v_bound v w' fd = Some (snd (fill_addr os isIPV6 ip port)) \<and> v_backlog v w' fd = Some back_num)"
proof -
  let ?af = "if isIPV6 then AF_INET6 else AF_INET"
  obtain s w1 where S: "os_socket os ?af (os_ignore_sigpipe os w) = (s, w1)" by fastforce
  note opened = socket_opened [OF assms(1) S]
  obtain ok addr where A: "fill_addr os isIPV6 ip port = (ok, addr)" by fastforce
  obtain ru w2 where U: "os_setsockopt os s SOL_SOCKET SO_REUSEADDR 1 w1 = (ru, w2)" by fastforce
  obtain b w3 where B: "os_bind os s addr w2 = (b, w3)" by fastforce
  obtain l w4 where Li: "os_listen os s back_num w3 = (l, w4)" by fastforce
  have fds: "v_fds v w2 = v_fds v w1" "v_fds v w3 = v_fds v w1" "v_fds v w4 = v_fds v w1"
    using os_law_keeps(1) [OF assms(1) U] os_law_keeps(3) [OF assms(1) B] os_law_keeps(4) [OF assms(1) Li] by simp_all
  have bound: "b \<noteq> SOCKET_ERROR \<Longrightarrow> v_bound v w3 s = Some addr"
    "l \<noteq> SOCKET_ERROR \<Longrightarrow> v_backlog v w4 s = Some back_num \<and> v_bound v w4 = v_bound v w3"
    using assms(1) B Li unfolding os_law_def by blast+
  have L: "Listen os isIPV6 ip port back_num w =
      (if s = SOCKET_ERROR then (SOCKET_ERROR, w1)
       else if \<not> ok then (SOCKET_ERROR, SocketClose os s w1)
       else if ru < 0 then (SOCKET_ERROR, SocketClose os s w2)
       else if b = SOCKET_ERROR then (SOCKET_ERROR, SocketClose os s w3)
       else if l = SOCKET_ERROR then (SOCKET_ERROR, SocketClose os s w4) else (s, w4))"
    using S A U B Li by (auto simp: Listen_def InitSocket_def)
  show ?thesis
  proof (cases "fd = SOCKET_ERROR")
    case True
    with assms(2) L opened closed_clean [OF assms(1) opened] fds show ?thesis by (auto split: if_splits)
  next
    case False
    with assms(2) L have "fd = s" "w' = w4" "ok" "b \<noteq> SOCKET_ERROR" "l \<noteq> SOCKET_ERROR" by (auto split: if_splits)
    with opened fds bound A False show ?thesis by (auto simp: opened_or_clean_def)
  qed
qed

text \<open>
  C16. \<open>Connect\<close> and \<open>Listen\<close> leave no descriptor behind: each returns, with either
  a new descriptor as the only one more, connected to or listening on the
  address asked for, or an error with the open descriptors as before,
  whichever of the system calls fails and however often it is interrupted.
\<close>

theorem socket_opens_or_cleans:
  assumes "os_law os v"
  shows "(\<exists>fd w'. Connect os isIPV6 ip port w = Some (fd, w') \<and> opened_or_clean v w fd w' \<and>
      (fd \<noteq> SOCKET_ERROR \<longrightarrow> fst (fill_addr os isIPV6 ip port) \<and>
         v_peer v w' fd = Some (snd (fill_addr os isIPV6 ip port)))) \<and>
    (\<exists>fd w'. Listen os isIPV6 ip port back_num w = (fd, w') \<and> opened_or_clean v w fd w' \<and>
      (fd \<noteq> SOCKET_ERROR \<longrightarrow> fst (fill_addr os isIPV6 ip port) \<and>
         v_bound v w' fd = Some (snd (fill_addr os isIPV6 ip port)) \<and> v_backlog v w' fd = Some back_num))"
  using connect_cleans [OF assms] listen_cleans [OF assms] by (metis surj_pair)

text \<open>
  C35. \<open>GetIPOfSocket\<close> prints the address of an IPv4 peer, but for an IPv6 peer it
  reads the 16 bytes of an IPv6 address out of a structure that has room for an
  IPv4 address only.
\<close>

theorem peer_ip_overread:
  assumes "os_getpeername os fd w = (0, addr, w')" and "length name = 16" and "addr ! 1 = 0"
    and "addr ! 0 = 10 \<and> length addr = 28 \<or> addr ! 0 = 2 \<and> length addr = 16"
  shows "GetIPOfSocket os name fd w =
    (if addr ! 0 = 10 then None else Some (os_ntop os AF_INET (take 4 (drop 4 addr)), w'))"
proof -
  have n: "(take 16 addr @ drop (min (length addr) 16) name) ! 0 = addr ! 0"
    "(take 16 addr @ drop (min (length addr) 16) name) ! 1 = addr ! 1"
    using assms(4) by (auto simp: nth_append)
  from assms(4) show ?thesis using assms(1-3) n
    by (auto simp: GetIPOfSocket_def get_ip_str_def mem_write_def mem_read_def AF_INET_def AF_INET6_def Let_def)
qed

section \<open>Witnesses\<close>

text \<open>A system with a table of descriptors that connects and binds everything.\<close>

record sample_world =
  sw_fds :: "sock list"
  sw_addr :: "(sock \<times> sockaddr) list"
  sw_backlog :: "(sock \<times> int) list"
  sw_signals :: nat

definition fresh_fd :: "sock list \<Rightarrow> sock" where
  "fresh_fd fds = fold max fds 2 + 1"

lemma fold_max: "(m :: int) \<le> fold max xs m \<and> (\<forall>x \<in> set xs. x \<le> fold max xs m)"
  by (induction xs arbitrary: m) (auto intro: order_trans [of _ "max _ _"] dest: max.boundedE)

lemma fresh_fd: "0 \<le> fresh_fd fds" "fresh_fd fds \<notin> set fds"
  using fold_max [of 2 fds] by (auto simp: fresh_fd_def)

definition open_fd :: "sample_world \<Rightarrow> int \<times> sample_world" where
  "open_fd w = (fresh_fd (sw_fds w), w\<lparr>sw_fds := fresh_fd (sw_fds w) # sw_fds w\<rparr>)"

definition sample_os :: "sample_world os" where
  "sample_os = \<lparr>os_ignore_sigpipe = id, os_socket = (\<lambda>_. open_fd), os_close = (\<lambda>fd w. w\<lparr>sw_fds := removeAll fd (sw_fds w)\<rparr>),
     os_setsockopt = (\<lambda>_ _ _ _ w. (0, w)), os_fionbio = (\<lambda>_ _ w. (0, w)),
     os_connect = (\<lambda>fd a w. if 0 < sw_signals w then (-1, w\<lparr>sw_signals := sw_signals w - 1\<rparr>)
        else (0, w\<lparr>sw_addr := (fd, a) # sw_addr w\<rparr>)),
     os_bind = (\<lambda>fd a w. (0, w\<lparr>sw_addr := (fd, a) # sw_addr w\<rparr>)),
     os_listen = (\<lambda>fd n w. (0, w\<lparr>sw_backlog := (fd, n) # sw_backlog w\<rparr>)), os_accept = (\<lambda>_. open_fd),
     os_send = (\<lambda>_ bs w. (int (length bs), w)),
     os_getpeername = (\<lambda>_ w. (0, [10, 0] @ replicate 26 0, w)), os_errno = (\<lambda>_. S_EINTR),
     os_pton = (\<lambda>_ ip. (1, [127, 0, 0, 1])), os_ntop = (\<lambda>_ _. [])\<rparr>"

definition sample_view :: "sample_world os_view" where
  "sample_view = \<lparr>v_fds = (\<lambda>w. set (sw_fds w)), v_peer = (\<lambda>w. map_of (sw_addr w)), v_bound = (\<lambda>w. map_of (sw_addr w)),
     v_backlog = (\<lambda>w. map_of (sw_backlog w)), v_signals = sw_signals\<rparr>"

lemma sample_os_law: "os_law sample_os sample_view"
  using fresh_fd
  by (auto simp: os_law_def sample_os_def sample_view_def opens_def keeps_fds_def open_fd_def split: if_splits)

definition blank_world :: sample_world where
  "blank_world = \<lparr>sw_fds = [], sw_addr = [], sw_backlog = [], sw_signals = 2\<rparr>"

theorem socket_opens_or_cleans_witness:
  "\<exists>w' w''. Connect sample_os False ''127.0.0.1'' 80 blank_world = Some (3, w') \<and> v_fds sample_view w' = {3} \<and>
     Listen sample_os False ''127.0.0.1'' 80 512 blank_world = (3, w'') \<and> v_backlog sample_view w'' 3 = Some 512"
proof -
  have S: "os_socket sample_os af (os_ignore_sigpipe sample_os blank_world) = (3, blank_world\<lparr>sw_fds := [3]\<rparr>)" for af
    by (simp add: sample_os_def open_fd_def fresh_fd_def blank_world_def)
  have C: "\<exists>w'. Connect sample_os False ''127.0.0.1'' 80 blank_world = Some (3, w')"
    using S by (simp add: Connect_def InitSocket_def SocketCreate_def fill_addr_def connect_loop.simps SOCKET_ERROR_def)
      (simp add: sample_os_def blank_world_def connect_loop.simps)
  have L: "\<exists>w'. Listen sample_os False ''127.0.0.1'' 80 512 blank_world = (3, w')"
    using S by (simp add: Listen_def InitSocket_def fill_addr_def SOCKET_ERROR_def) (simp add: sample_os_def SOCKET_ERROR_def)
  have "v_fds sample_view blank_world = {}" by (simp add: sample_view_def blank_world_def)
  with C L socket_opens_or_cleans [OF sample_os_law, of False "''127.0.0.1''" 80 blank_world 512] show ?thesis
    by (auto simp: opened_or_clean_def SOCKET_ERROR_def)
qed

theorem peer_ip_overread_witness: "GetIPOfSocket sample_os (replicate 16 0) 3 blank_world = None"
proof -
  have "os_getpeername sample_os 3 blank_world = (0, [10, 0] @ replicate 26 0, blank_world)" by (simp add: sample_os_def)
  from peer_ip_overread [OF this, of "replicate 16 0"] show ?thesis by simp
qed

end
