(* ===== verification/Listen_Thread.thy ===== *)
theory Listen_Thread
  imports Socket_Lib
begin

text \<open>
  The listener of \<open>net/ListenThread.cpp\<close>: an object with a mutex that starts and
  stops a thread around \<open>accept\<close>. The thread, the callers of \<open>startListen\<close> and
  \<open>stopListen\<close> and the rest of the process take turns in any order. An abstract
  protocol says which sockets are handed over, closed and listened on, and when.
\<close>

section \<open>The listener\<close>

text \<open>
  Where the thread is: not there, before the test of the flag, in \<open>accept\<close>, with an
  accepted socket before the second test, in the callback, at its end.
\<close>

datatype listen_pc = L_none | L_test | L_accept | L_accepted TcpSocket | L_callback TcpSocket | L_end

datatype listen_event =
  Ev_listen sock | Ev_accept sock | Ev_handed sock | Ev_callback_end sock | Ev_drop sock | Ev_unlisten sock | Ev_joined

record 'w listener =
  lt_os :: 'w
  lt_mIsIPV6 :: bool
  lt_mIP :: string
  lt_mPort :: int
  lt_mRunListen :: bool
  lt_mListenThread :: bool
  lt_socket :: sock
  lt_pc :: listen_pc
  lt_stopping :: bool
  lt_events :: "listen_event list"

definition ListenThread_new :: "'w \<Rightarrow> 'w listener" where
  "ListenThread_new w = \<lparr>lt_os = w, lt_mIsIPV6 = False, lt_mIP = [], lt_mPort = 0, lt_mRunListen = False,
     lt_mListenThread = False, lt_socket = SOCKET_ERROR, lt_pc = L_none, lt_stopping = False, lt_events = []\<rparr>"

definition add_event :: "listen_event \<Rightarrow> 'w listener \<Rightarrow> 'w listener" where
  "add_event e l = l\<lparr>lt_events := lt_events l @ [e]\<rparr>"

text \<open>\<open>runOnceListen\<close> logs the errors of \<open>accept\<close> and returns no socket then.\<close>

definition runOnceListen :: "'w os \<Rightarrow> sock \<Rightarrow> 'w \<Rightarrow> TcpSocket option \<times> 'w" where
  "runOnceListen os listenSocket w =
     (case ListenSocket_Accept os listenSocket w of
        (Inr clientSocket, w') \<Rightarrow> (Some clientSocket, w')
      | (Inl EintrError, w') \<Rightarrow> (None, w')
      | (Inl (AcceptError e), w') \<Rightarrow> (None, w'))"

text \<open>\<open>Inl\<close> is an exception.\<close>

definition startListen ::
    "'w os \<Rightarrow> bool \<Rightarrow> string \<Rightarrow> int \<Rightarrow> bool \<Rightarrow> 'w listener \<Rightarrow> (string + unit) \<times> 'w listener" where
  "startListen os isIPV6 ip port has_callback l =
     (if lt_mListenThread l then (Inr (), l)
      else if \<not> has_callback then (Inl ''accept callback is nullptr'', l)
      else let (fd, w) = Listen os isIPV6 ip port 512 (lt_os l)
           in if fd = SOCKET_ERROR then (Inl ''listen error of:'', l\<lparr>lt_os := w\<rparr>)
              else (Inr (), add_event (Ev_listen fd)
                (l\<lparr>lt_os := w, lt_mIsIPV6 := isIPV6, lt_mRunListen := True, lt_mIP := ip, lt_mPort := port,
                   lt_mListenThread := True, lt_socket := fd, lt_pc := L_test\<rparr>)))"

text \<open>
  One step of the thread. Its sockets are closed by their destructors: the
  accepted one when it is not handed over, the listening one when the thread
  ends and its captured pointer goes.
\<close>

definition listen_thread_step :: "'w os \<Rightarrow> 'w listener \<Rightarrow> 'w listener option" where
  "listen_thread_step os l =
     (case lt_pc l of
        L_test \<Rightarrow>
          Some (if lt_mRunListen l then l\<lparr>lt_pc := L_accept\<rparr>
                else add_event (Ev_unlisten (lt_socket l))
                  (l\<lparr>lt_pc := L_end, lt_os := ListenSocket_delete os (lt_socket l) (lt_os l)\<rparr>))
      | L_accept \<Rightarrow>
          (case runOnceListen os (lt_socket l) (lt_os l) of
             (None, w) \<Rightarrow> Some (l\<lparr>lt_os := w, lt_pc := L_test\<rparr>)
           | (Some clientSocket, w) \<Rightarrow>
               Some (add_event (Ev_accept (tcp_mFD clientSocket)) (l\<lparr>lt_os := w, lt_pc := L_accepted clientSocket\<rparr>)))
      | L_accepted clientSocket \<Rightarrow>
          Some (if lt_mRunListen l
                then add_event (Ev_handed (tcp_mFD clientSocket)) (l\<lparr>lt_pc := L_callback clientSocket\<rparr>)
                else add_event (Ev_drop (tcp_mFD clientSocket))
                  (l\<lparr>lt_pc := L_test, lt_os := TcpSocket_delete os clientSocket (lt_os l)\<rparr>))
      | L_callback clientSocket \<Rightarrow>
          Some (add_event (Ev_callback_end (tcp_mFD clientSocket)) (l\<lparr>lt_pc := L_test\<rparr>))
      | L_none \<Rightarrow> None
      | L_end \<Rightarrow> None)"

text \<open>
  \<open>stopListen\<close> up to the join: it clears the flag and connects to the listener to
  end a waiting \<open>accept\<close>; the address it connects to is returned. The connection
  is a matter of the rest of the process. \<open>None\<close>: there is nothing to stop.
\<close>

definition stop_request :: "'w listener \<Rightarrow> ((string \<times> int) \<times> 'w listener) option" where
  "stop_request l =
     (if \<not> lt_mListenThread l then None
      else let selfIP = (if lt_mIP l = ''0.0.0.0'' then ''127.0.0.1'' else lt_mIP l)
           in Some ((selfIP, lt_mPort l), l\<lparr>lt_mRunListen := False, lt_stopping := True\<rparr>))"

text \<open>The join returns when the thread has ended, and \<open>stopListen\<close> with it.\<close>

definition stop_join :: "'w listener \<Rightarrow> 'w listener option" where
  "stop_join l =
     (if lt_stopping l \<and> lt_pc l = L_end
      then Some (add_event Ev_joined (l\<lparr>lt_mListenThread := False, lt_stopping := False, lt_pc := L_none\<rparr>)) else None)"

text \<open>The descriptors that are in the hands of the listener.\<close>

definition owned :: "'w listener \<Rightarrow> sock set" where
  "owned l = (if lt_pc l \<in> {L_none, L_end} then {} else {lt_socket l}) \<union>
     (case lt_pc l of L_accepted s \<Rightarrow> {tcp_mFD s} | _ \<Rightarrow> {})"

text \<open>
  The steps: the mutex keeps other calls out while \<open>stopListen\<close> waits; the rest of
  the process may do anything but close the listener's descriptors.
\<close>

inductive listen_step :: "'w os \<Rightarrow> ('w, 'z) os_view_scheme \<Rightarrow> 'w listener \<Rightarrow> 'w listener \<Rightarrow> bool" for os v where
  step_start: "\<not> lt_stopping l \<Longrightarrow> startListen os isIPV6 ip port has_callback l = (r, l') \<Longrightarrow> listen_step os v l l'"
| step_stop: "\<not> lt_stopping l \<Longrightarrow> stop_request l = Some (addr, l') \<Longrightarrow> listen_step os v l l'"
| step_join: "stop_join l = Some l' \<Longrightarrow> listen_step os v l l'"
| step_thread: "listen_thread_step os l = Some l' \<Longrightarrow> listen_step os v l l'"
| step_other: "owned l \<subseteq> v_fds v w \<Longrightarrow> listen_step os v l (l\<lparr>lt_os := w\<rparr>)"

inductive listen_reach :: "'w os \<Rightarrow> ('w, 'z) os_view_scheme \<Rightarrow> 'w listener \<Rightarrow> bool" for os v where
  reach_new: "listen_reach os v (ListenThread_new w)"
| reach_step: "listen_reach os v l \<Longrightarrow> listen_step os v l l' \<Longrightarrow> listen_reach os v l'"

inductive_cases listen_stepE: "listen_step os v l l'"

section \<open>The protocol\<close>

text \<open>
  What is promised: at most one listening socket; accepted sockets go to the
  callback or are closed, one at a time; the listening socket is closed before
  the join; between a join and the next start nothing happens.
\<close>

datatype protocol = Idle | Listening sock | Holding sock sock | Calling sock sock | Closed_down

fun protocol_step :: "listen_event \<Rightarrow> protocol \<Rightarrow> protocol option" where
  "protocol_step (Ev_listen fd) Idle = Some (Listening fd)"
| "protocol_step (Ev_accept c) (Listening fd) = (if c \<noteq> fd then Some (Holding fd c) else None)"
| "protocol_step (Ev_handed c) (Holding fd c') = (if c = c' then Some (Calling fd c) else None)"
| "protocol_step (Ev_drop c) (Holding fd c') = (if c = c' then Some (Listening fd) else None)"
| "protocol_step (Ev_callback_end c) (Calling fd c') = (if c = c' then Some (Listening fd) else None)"
| "protocol_step (Ev_unlisten fd) (Listening fd') = (if fd = fd' then Some Closed_down else None)"
| "protocol_step Ev_joined Closed_down = Some Idle"
| "protocol_step _ _ = None"

fun protocol_run :: "listen_event list \<Rightarrow> protocol \<Rightarrow> protocol option" where
  "protocol_run [] s = Some s"
| "protocol_run (e # es) s = (case protocol_step e s of None \<Rightarrow> None | Some s' \<Rightarrow> protocol_run es s')"

lemma protocol_run_snoc:
  "protocol_run es s = Some s' \<Longrightarrow> protocol_run (es @ [e]) s = protocol_step e s'"
  by (induction es arbitrary: s) (auto split: option.splits)

definition protocol_of :: "'w listener \<Rightarrow> protocol" where
  "protocol_of l = (case lt_pc l of
     L_none \<Rightarrow> Idle | L_test \<Rightarrow> Listening (lt_socket l) | L_accept \<Rightarrow> Listening (lt_socket l)
   | L_accepted s \<Rightarrow> Holding (lt_socket l) (tcp_mFD s) | L_callback s \<Rightarrow> Calling (lt_socket l) (tcp_mFD s)
   | L_end \<Rightarrow> Closed_down)"

lemma request_keeps [simp]:
  "protocol_of (l\<lparr>lt_mRunListen := a, lt_stopping := b\<rparr>) = protocol_of l"
  "owned (l\<lparr>lt_mRunListen := a, lt_stopping := b\<rparr>) = owned l"
  "protocol_of (l\<lparr>lt_os := w\<rparr>) = protocol_of l" "owned (l\<lparr>lt_os := w\<rparr>) = owned l"
  by (cases "lt_pc l"; simp add: protocol_of_def owned_def)+

definition listen_inv :: "('w, 'z) os_view_scheme \<Rightarrow> 'w listener \<Rightarrow> bool" where
  "listen_inv v l \<longleftrightarrow>
     protocol_run (lt_events l) Idle = Some (protocol_of l) \<and> owned l \<subseteq> v_fds v (lt_os l) \<and>
     (lt_mListenThread l \<longleftrightarrow> lt_pc l \<noteq> L_none) \<and> (lt_stopping l \<longrightarrow> lt_mListenThread l \<and> \<not> lt_mRunListen l) \<and>
     (lt_mListenThread l \<and> \<not> lt_stopping l \<longrightarrow> lt_mRunListen l) \<and> (lt_pc l = L_end \<longrightarrow> \<not> lt_mRunListen l) \<and>
     (\<forall>s. lt_pc l = L_accepted s \<longrightarrow> tcp_mFD s \<noteq> lt_socket l)"

lemmas listen_inv_defs = listen_inv_def add_event_def protocol_of_def owned_def protocol_run_snoc

lemma start_inv:
  assumes "listen_inv v l" and "os_law os v" and "\<not> lt_stopping l" and "startListen os isIPV6 ip port has_callback l = (r, l')"
  shows "listen_inv v l'"
proof (cases "lt_mListenThread l \<or> \<not> has_callback")
  case False
  obtain fd w where L: "Listen os isIPV6 ip port 512 (lt_os l) = (fd, w)" by fastforce
  have pc: "lt_pc l = L_none" using assms(1) False by (simp add: listen_inv_def)
  from listen_cleans [OF assms(2) L] have "fd \<noteq> SOCKET_ERROR \<Longrightarrow> fd \<in> v_fds v w" by (simp add: opened_or_clean_def)
  moreover have "l' = (if fd = SOCKET_ERROR then l\<lparr>lt_os := w\<rparr> else add_event (Ev_listen fd)
      (l\<lparr>lt_os := w, lt_mIsIPV6 := isIPV6, lt_mRunListen := True, lt_mIP := ip, lt_mPort := port,
         lt_mListenThread := True, lt_socket := fd, lt_pc := L_test\<rparr>))"
    using assms(4) False L by (auto simp: startListen_def)
  ultimately show ?thesis using assms(1,3) pc by (auto simp: listen_inv_defs)
qed (use assms in \<open>auto simp: startListen_def split: if_splits\<close>)

lemma accept_fresh:
  assumes "os_law os v" and "runOnceListen os fd w = (r, w')"
  shows "case r of None \<Rightarrow> v_fds v w' = v_fds v w
    | Some s \<Rightarrow> tcp_mFD s \<notin> v_fds v w \<and> v_fds v w' = insert (tcp_mFD s) (v_fds v w)"
proof -
  obtain c w1 where C: "os_accept os fd w = (c, w1)" by fastforce
  have "opens v (os_accept os fd)" using assms(1) by (auto simp: os_law_def)
  from opensD [OF this C] assms(2) C show ?thesis
    by (auto simp: runOnceListen_def ListenSocket_Accept_def sock_accept_def TcpSocket_Create_def SOCKET_ERROR_def
        split: if_splits)
qed

lemma thread_inv:
  assumes "listen_inv v l" and "os_law os v" and "listen_thread_step os l = Some l'"
  shows "listen_inv v l'"
proof (cases "lt_pc l")
  case L_test
  with assms show ?thesis
    by (auto simp: listen_thread_step_def listen_inv_defs)
next
  case L_accept
  obtain r w where R: "runOnceListen os (lt_socket l) (lt_os l) = (r, w)" by fastforce
  have "lt_socket l \<in> v_fds v (lt_os l)" using assms(1) L_accept by (simp add: listen_inv_def owned_def)
  with accept_fresh [OF assms(2) R] L_accept R assms(1,3) show ?thesis
    by (cases r) (auto simp: listen_thread_step_def listen_inv_defs)
next
  case (L_accepted s)
  have close: "v_fds v (os_close os fd w) = v_fds v w - {fd}" for fd w using assms(2) by (simp add: os_law_def)
  have "tcp_mFD s \<noteq> lt_socket l"
    using assms(1) L_accepted by (simp add: listen_inv_def)
  with L_accepted assms close show ?thesis
    by (auto simp: listen_thread_step_def listen_inv_defs TcpSocket_delete_def SocketClose_def)
next
  case (L_callback s)
  with assms show ?thesis
    by (auto simp: listen_thread_step_def listen_inv_defs)
qed (use assms in \<open>auto simp: listen_thread_step_def\<close>)

lemma reach_inv: "listen_reach os v l \<Longrightarrow> os_law os v \<Longrightarrow> listen_inv v l"
proof (induction rule: listen_reach.induct)
  case (reach_new w)
  show ?case by (simp add: ListenThread_new_def listen_inv_defs)
next
  case (reach_step l l')
  note inv = reach_step.IH [OF reach_step.prems]
  from reach_step.hyps(2) show ?case
  proof (cases rule: listen_step.cases)
    case step_start
    with start_inv [OF inv reach_step.prems] show ?thesis by blast
  next
    case step_stop
    with inv show ?thesis by (auto simp: stop_request_def listen_inv_def Let_def split: if_splits)
  next
    case step_join
    with inv show ?thesis by (auto simp: stop_join_def listen_inv_defs split: if_splits)
  next
    case step_thread
    with thread_inv [OF inv reach_step.prems] show ?thesis by blast
  next
    case step_other
    with inv show ?thesis by (auto simp: listen_inv_def)
  qed
qed


text \<open>The thread's own steps, with no step of others in between.\<close>

fun thread_steps :: "'w os \<Rightarrow> nat \<Rightarrow> 'w listener \<Rightarrow> 'w listener" where
  "thread_steps os 0 l = l"
| "thread_steps os (Suc n) l = (case listen_thread_step os l of None \<Rightarrow> l | Some l' \<Rightarrow> thread_steps os n l')"

lemma stopping_test:
  "lt_pc l = L_test \<Longrightarrow> \<not> lt_mRunListen l \<Longrightarrow> lt_pc (thread_steps os (Suc n) l) = L_end"
  by (cases n) (simp_all add: listen_thread_step_def add_event_def)

text \<open>
  Once \<open>stopListen\<close> has cleared the flag, the thread ends after at most three
  more steps of its own: the \<open>accept\<close> it may be in, whatever it returns, is its
  last one, what it returns is closed and not handed over, and the join and with
  it \<open>stopListen\<close> return.
\<close>

theorem listener_stops:
  assumes "os_law os v" and "listen_reach os v l" and "lt_stopping l"
  shows "\<exists>l'. stop_join (thread_steps os 3 l) = Some l' \<and> \<not> lt_mListenThread l' \<and>
    (\<exists>new. lt_events l' = lt_events l @ new \<and> (\<forall>c. Ev_handed c \<notin> set new))"
proof -
  have flag: "\<not> lt_mRunListen l" "lt_pc l \<noteq> L_none" using reach_inv [OF assms(2,1)] assms(3) by (auto simp: listen_inv_def)
  note defs = numeral_3_eq_3 listen_thread_step_def add_event_def stop_join_def
  show ?thesis
  proof (cases "lt_pc l")
    case L_accept
    obtain r w where "runOnceListen os (lt_socket l) (lt_os l) = (r, w)" by fastforce
    with L_accept flag assms(3) show ?thesis by (cases r) (simp_all add: defs)
  qed (use flag assms(3) in \<open>simp_all add: defs\<close>)
qed

section \<open>Witnesses\<close>

lemma sample_started:
  obtains l where "listen_reach sample_os sample_view l" and "lt_pc l = L_test" and "lt_socket l = 3"
    and "lt_events l = [Ev_listen 3]" and "lt_mRunListen l" and "\<not> lt_stopping l" and "lt_mListenThread l"
proof -
  let ?l = "ListenThread_new blank_world"
  from socket_opens_or_cleans_witness obtain w where
    "Listen sample_os False ''127.0.0.1'' 80 512 blank_world = (3, w)" by blast
  then have "snd (startListen sample_os False ''127.0.0.1'' 80 True ?l) =
      add_event (Ev_listen 3) (?l\<lparr>lt_os := w, lt_mIsIPV6 := False, lt_mRunListen := True, lt_mIP := ''127.0.0.1'',
        lt_mPort := 80, lt_mListenThread := True, lt_socket := 3, lt_pc := L_test\<rparr>)"
    by (simp add: startListen_def ListenThread_new_def SOCKET_ERROR_def)
  moreover have "listen_reach sample_os sample_view (snd (startListen sample_os False ''127.0.0.1'' 80 True ?l))"
    by (rule reach_step [OF reach_new step_start]) (auto simp: ListenThread_new_def intro: surjective_pairing)
  ultimately show thesis using that by (simp add: add_event_def ListenThread_new_def)
qed


theorem listener_stops_witness:
  "\<exists>l l' new. listen_reach sample_os sample_view l \<and> lt_stopping l \<and> lt_events l = [Ev_listen 3] \<and>
     stop_join (thread_steps sample_os 3 l) = Some l' \<and> lt_events l' = [Ev_listen 3] @ new \<and> (\<forall>c. Ev_handed c \<notin> set new)"
proof -
  obtain l0 where l0: "listen_reach sample_os sample_view l0" "lt_events l0 = [Ev_listen 3]" "\<not> lt_stopping l0" "lt_mListenThread l0"
    by (rule sample_started)
  let ?l = "l0\<lparr>lt_mRunListen := False, lt_stopping := True\<rparr>"
  have "listen_reach sample_os sample_view ?l"
    using l0(3,4) by (intro reach_step [OF l0(1) step_stop]) (auto simp: stop_request_def Let_def)
  with listener_stops [OF sample_os_law this] l0(2) show ?thesis by auto
qed

end
