(* ===== verification/Type_Ids.thy ===== *)
theory Type_Ids
  imports Brynet_Prelude
begin

text \<open>
  Slots with reusable numbers (\<open>utils/Typeids.h\<close>): values are kept by number, free
  numbers are kept in a stack that grows by a hundred at a time. Where an
  assertion is followed by a test of the same condition, the model has the
  test; the assertions of \<open>reclaimID\<close> stand alone and are \<open>None\<close>.
\<close>

section \<open>Operations\<close>

record 'a type_ids =
  mValues :: "'a option list"
  mIds :: "nat list"

definition type_ids_new :: "'a type_ids" where
  "type_ids_new = \<lparr>mValues = [], mIds = []\<rparr>"

definition ids_increase :: "'a type_ids \<Rightarrow> 'a type_ids" where
  "ids_increase s =
     (let oldsize = length (mValues s) in
      s\<lparr>mValues := mValues s @ replicate 100 None, mIds := mIds s @ map (\<lambda>i. oldsize + i) [0..<100]\<rparr>)"

text \<open>An empty stack after \<open>increase\<close> is an exception: \<open>None\<close>.\<close>

definition claimID :: "'a type_ids \<Rightarrow> (nat \<times> 'a type_ids) option" where
  "claimID s =
     (let s = (if mIds s = [] then ids_increase s else s) in
      if mIds s = [] then None else Some (last (mIds s), s\<lparr>mIds := butlast (mIds s)\<rparr>))"

definition reclaimID :: "nat \<Rightarrow> 'a type_ids \<Rightarrow> 'a type_ids option" where
  "reclaimID i s =
     (if i < length (mValues s) \<and> i \<notin> set (mIds s) then Some (s\<lparr>mIds := mIds s @ [i]\<rparr>) else None)"

definition ids_set :: "'a option \<Rightarrow> nat \<Rightarrow> 'a type_ids \<Rightarrow> bool \<times> 'a type_ids" where
  "ids_set t i s =
     (if i < length (mValues s) then (True, s\<lparr>mValues := (mValues s)[i := t]\<rparr>) else (False, s))"

definition ids_get :: "nat \<Rightarrow> 'a type_ids \<Rightarrow> (bool \<times> 'a option)" where
  "ids_get i s = (if i < length (mValues s) then (True, mValues s ! i) else (False, None))"

section \<open>Invariant\<close>

text \<open>
  The free numbers are distinct, in range and hold the null pointer; the table
  has grown by whole blocks.
\<close>

definition ids_inv :: "'a type_ids \<Rightarrow> bool" where
  "ids_inv s \<longleftrightarrow> distinct (mIds s) \<and> (\<forall>i\<in>set (mIds s). i < length (mValues s) \<and> mValues s ! i = None) \<and>
     100 dvd length (mValues s)"

text \<open>The numbers in use.\<close>

definition claimed :: "'a type_ids \<Rightarrow> nat set" where
  "claimed s = {..<length (mValues s)} - set (mIds s)"

lemma ids_inv_new: "ids_inv type_ids_new"
  by (simp add: ids_inv_def type_ids_new_def)

lemma values_new [simp]: "mValues type_ids_new = []"
  by (simp add: type_ids_new_def)

lemma claimed_new: "claimed type_ids_new = {}"
  by (simp add: claimed_def type_ids_new_def)

lemma claimed_finite [simp]: "finite (claimed s)"
  by (simp add: claimed_def)

lemma claimed_card: "ids_inv s \<Longrightarrow> card (claimed s) = length (mValues s) - length (mIds s)"
  by (auto simp: claimed_def ids_inv_def card_Diff_subset distinct_card subset_iff)

lemma claimed_get: "i \<in> claimed s \<Longrightarrow> fst (ids_get i s)"
  by (simp add: claimed_def ids_get_def)

lemma increase_ok:
  assumes "ids_inv s" and "mIds s = []"
  shows "ids_inv (ids_increase s)" "claimed (ids_increase s) = claimed s"
    "mIds (ids_increase s) = map (\<lambda>i. length (mValues s) + i) [0..<100]"
    "mValues (ids_increase s) = mValues s @ replicate 100 None"
  using assms by (auto simp: ids_increase_def ids_inv_def claimed_def distinct_map inj_on_def nth_append Let_def)

lemma pop_ok:
  assumes inv: "ids_inv s" and ne: "mIds s \<noteq> []"
  shows "ids_inv (s\<lparr>mIds := butlast (mIds s)\<rparr>)" "last (mIds s) \<notin> claimed s"
    "claimed (s\<lparr>mIds := butlast (mIds s)\<rparr>) = insert (last (mIds s)) (claimed s)"
    "last (mIds s) < length (mValues s)" "mValues s ! last (mIds s) = None"
proof -
  obtain xs x where ids: "mIds s = xs @ [x]" using ne by (cases "mIds s" rule: rev_cases) auto
  with inv show "ids_inv (s\<lparr>mIds := butlast (mIds s)\<rparr>)" "last (mIds s) \<notin> claimed s"
    "claimed (s\<lparr>mIds := butlast (mIds s)\<rparr>) = insert (last (mIds s)) (claimed s)"
    "last (mIds s) < length (mValues s)" "mValues s ! last (mIds s) = None"
    by (auto simp: ids_inv_def claimed_def)
qed

lemma claim_ok:
  assumes "ids_inv s" and "claimID s = Some (i, s')"
  shows "ids_inv s'" "i \<notin> claimed s" "claimed s' = insert i (claimed s)"
    "i < length (mValues s')" "mValues s' ! i = None"
    "mValues s' = mValues s \<or> mIds s = [] \<and> mValues s' = mValues s @ replicate 100 None"
  using assms pop_ok [of s] pop_ok [of "ids_increase s"] increase_ok [of s]
  by (auto simp: claimID_def Let_def split: if_splits)

lemma claim_total: "ids_inv s \<Longrightarrow> \<exists>i s'. claimID s = Some (i, s')"
  by (auto simp: claimID_def ids_increase_def Let_def)

lemma set_ok:
  assumes "ids_inv s" and "i \<in> claimed s"
  shows "ids_inv (snd (ids_set t i s))" "claimed (snd (ids_set t i s)) = claimed s" "fst (ids_set t i s)"
    "ids_get j (snd (ids_set t i s)) = (if j = i then (True, t) else ids_get j s)"
  using assms by (auto simp: ids_inv_def claimed_def ids_set_def ids_get_def nth_list_update)

lemma reclaim_ok:
  assumes "ids_inv s" and "i \<in> claimed s" and "snd (ids_get i s) = None"
  shows "\<exists>s'. reclaimID i s = Some s' \<and> ids_inv s' \<and> claimed s' = claimed s - {i} \<and> mValues s' = mValues s"
  using assms by (auto simp: ids_inv_def claimed_def reclaimID_def ids_get_def)

section \<open>The contract\<close>

text \<open>
  A table of slots: what a client may rely on. The table grows by blocks, and
  only when every slot is in use.
\<close>

locale slot_table =
  fixes claim :: "'s \<Rightarrow> (nat \<times> 's) option"
    and release :: "nat \<Rightarrow> 's \<Rightarrow> 's option"
    and put :: "'a option \<Rightarrow> nat \<Rightarrow> 's \<Rightarrow> bool \<times> 's"
    and look :: "nat \<Rightarrow> 's \<Rightarrow> bool \<times> 'a option"
    and inv :: "'s \<Rightarrow> bool"
    and used :: "'s \<Rightarrow> nat set"
    and cap :: "'s \<Rightarrow> nat"
  assumes claim_law: "inv s \<Longrightarrow> \<exists>i s'. claim s = Some (i, s') \<and> inv s' \<and> i \<notin> used s \<and> used s' = insert i (used s) \<and>
      (\<forall>j. snd (look j s') = snd (look j s)) \<and> i < cap s' \<and>
      (cap s' = cap s \<or> cap s = card (used s) \<and> cap s' = cap s + 100)"
    and put_law: "inv s \<Longrightarrow> i \<in> used s \<Longrightarrow> inv (snd (put t i s)) \<and> used (snd (put t i s)) = used s \<and>
      cap (snd (put t i s)) = cap s \<and> look j (snd (put t i s)) = (if j = i then (True, t) else look j s)"
    and release_law: "inv s \<Longrightarrow> i \<in> used s \<Longrightarrow> snd (look i s) = None \<Longrightarrow>
      \<exists>s'. release i s = Some s' \<and> inv s' \<and> used s' = used s - {i} \<and> cap s' = cap s \<and> look j s' = look j s"
    and free_law: "inv s \<Longrightarrow> i \<notin> used s \<Longrightarrow> snd (look i s) = None"
    and block_law: "inv s \<Longrightarrow> 100 dvd cap s"
begin

text \<open>A client that fills every slot it claims and empties every slot it releases has a map.\<close>

definition full :: "'s \<Rightarrow> bool" where
  "full s \<longleftrightarrow> inv s \<and> (\<forall>i\<in>used s. snd (look i s) \<noteq> None)"

definition content :: "'s \<Rightarrow> nat \<Rightarrow> 'a option" where
  "content s i = snd (look i s)"

lemma full_dom:
  assumes "full s"
  shows "dom (content s) = used s"
proof (rule set_eqI)
  fix i
  from assms free_law [of s i] show "i \<in> dom (content s) \<longleftrightarrow> i \<in> used s"
    by (cases "i \<in> used s") (auto simp: full_def content_def)
qed

lemma occupy:
  assumes "full s"
  shows "\<exists>i s'. claim s = Some (i, s') \<and> content s i = None \<and> full (snd (put (Some t) i s')) \<and>
    content (snd (put (Some t) i s')) = (content s)(i \<mapsto> t) \<and> i < cap (snd (put (Some t) i s')) \<and>
    (cap (snd (put (Some t) i s')) = cap s \<or>
     cap s = card (dom (content s)) \<and> cap (snd (put (Some t) i s')) = cap s + 100)"
proof -
  have inv: "inv s" using assms by (simp add: full_def)
  obtain i s' where C: "claim s = Some (i, s')" "inv s'" "i \<notin> used s" "used s' = insert i (used s)"
    "\<forall>j. snd (look j s') = snd (look j s)" "i < cap s'" "cap s' = cap s \<or> cap s = card (used s) \<and> cap s' = cap s + 100"
    using claim_law [OF inv] by blast
  note P = put_law [OF C(2), of i "Some t"]
  have "full (snd (put (Some t) i s'))" using P C assms by (auto simp: full_def)
  moreover have "content (snd (put (Some t) i s')) = (content s)(i \<mapsto> t)" using P C(4,5) by (auto simp: content_def)
  moreover have "content s i = None" using free_law [OF inv C(3)] by (simp add: content_def)
  ultimately show ?thesis using C P full_dom [OF assms] by auto
qed

lemma vacate:
  assumes "full s" and "content s i \<noteq> None"
  shows "\<exists>s'. release i (snd (put None i s)) = Some s' \<and> full s' \<and> content s' = (content s)(i := None) \<and> cap s' = cap s"
proof -
  have u: "i \<in> used s" "inv s" using assms full_dom [OF assms(1)] by (auto simp: full_def)
  note P = put_law [OF u(2,1), of None]
  have R: "\<exists>s'. release i (snd (put None i s)) = Some s' \<and> inv s' \<and> used s' = used s - {i} \<and> cap s' = cap s \<and>
      look j s' = look j (snd (put None i s))" for j
    using release_law [of "snd (put None i s)" i j] P u by auto
  then obtain s' where S: "release i (snd (put None i s)) = Some s'" "inv s'" "used s' = used s - {i}" "cap s' = cap s"
    by blast
  with R have L: "look j s' = look j (snd (put None i s))" for j by (metis option.inject)
  have "content s' = (content s)(i := None)" using L P by (auto simp: content_def)
  moreover have "full s'" using S L P assms(1) by (auto simp: full_def)
  ultimately show ?thesis using S by blast
qed

end

interpretation ids: slot_table claimID reclaimID ids_set ids_get ids_inv claimed "\<lambda>s. length (mValues s)"
proof (unfold_locales, goal_cases)
  case (1 s)
  obtain i s' where C: "claimID s = Some (i, s')" using claim_total [OF 1] by blast
  note L = claim_ok [OF 1 C]
  have "snd (ids_get j s') = snd (ids_get j s)" for j
    using L(6) by (auto simp: ids_get_def nth_append)
  moreover have "mIds s = [] \<Longrightarrow> length (mValues s) = card (claimed s)" using claimed_card [OF 1] by simp
  ultimately show ?case using C L by auto
next
  case (2 s i t j)
  with set_ok [OF 2] show ?case by (simp add: ids_set_def)
next
  case (3 s i j)
  then obtain s' where "reclaimID i s = Some s'" "ids_inv s'" "claimed s' = claimed s - {i}" "mValues s' = mValues s"
    using reclaim_ok by blast
  then show ?case by (intro exI [of _ s']) (simp add: ids_get_def)
next
  case (4 s i)
  then show ?case by (auto simp: ids_inv_def claimed_def ids_get_def)
next
  case (5 s)
  then show ?case by (simp add: ids_inv_def)
qed

lemma ids_full_new: "ids.full type_ids_new" "ids.content type_ids_new = Map.empty"
  using ids_inv_new claimed_new by (auto simp: ids.full_def ids.content_def ids_get_def type_ids_new_def)

end
