(* ===== verification/Tcp_Service.thy ===== *)
theory Tcp_Service
  imports Type_Ids Timer
begin

text \<open>
  The TCP service (\<open>net/TCPService.cpp\<close>): worker loops, each with a slot table of
  its connections, and session identifiers by which clients in any thread name
  a connection. A connection object is a handle; its user data is the session
  identifier it got. What a client posts to a session runs in the loop thread;
  the steps below are in the order in which the loop threads run them.
\<close>

section \<open>Session identifiers\<close>

type_synonym session_id = "64 word"

text \<open>The union \<open>SessionId\<close> on a little-endian machine.\<close>

definition make_sid :: "16 word \<Rightarrow> 16 word \<Rightarrow> 32 word \<Rightarrow> session_id" where
  "make_sid loopIndex index iid = ucast loopIndex OR push_bit 16 (ucast index) OR push_bit 32 (ucast iid)"

definition sid_loopIndex :: "session_id \<Rightarrow> 16 word" where
  "sid_loopIndex sid = ucast sid"

definition sid_index :: "session_id \<Rightarrow> 16 word" where
  "sid_index sid = ucast (drop_bit 16 sid)"

definition sid_iid :: "session_id \<Rightarrow> 32 word" where
  "sid_iid sid = ucast (drop_bit 32 sid)"

lemma make_sid_simps [simp]:
  "sid_loopIndex (make_sid l i n) = l" "sid_index (make_sid l i n) = i" "sid_iid (make_sid l i n) = n"
proof -
  have out: "\<not> bit l (16 + k)" "\<not> bit l (32 + k)" "\<not> bit i (16 + k)" for k
    using bit_imp_le_length [of l] bit_imp_le_length [of i] by fastforce+
  show "sid_loopIndex (make_sid l i n) = l"
    by (rule bit_word_eqI) (auto simp: sid_loopIndex_def make_sid_def bit_simps)
  show "sid_index (make_sid l i n) = i"
    by (rule bit_word_eqI) (auto simp: sid_index_def make_sid_def bit_simps out)
  show "sid_iid (make_sid l i n) = n"
    by (rule bit_word_eqI) (use out in \<open>auto simp: sid_iid_def make_sid_def bit_simps\<close>)
qed

section \<open>The service\<close>

record 'h io_loop =
  mDataSockets :: "'h type_ids"
  mNextId :: int

record 'h tcp_service =
  mIOLoopDatas :: "'h io_loop list"
  mRunIOLoop :: bool
  socket_ud :: "'h \<Rightarrow> session_id option"

definition IOLoopData_new :: "'h io_loop" where
  "IOLoopData_new = \<lparr>mDataSockets = type_ids_new, mNextId = 0\<rparr>"

definition TcpService_new :: "'h tcp_service" where
  "TcpService_new = \<lparr>mIOLoopDatas = [], mRunIOLoop = False, socket_ud = Map.empty\<rparr>"

definition startWorkerThread :: "nat \<Rightarrow> 'h tcp_service \<Rightarrow> 'h tcp_service" where
  "startWorkerThread threadNum s =
     (if mIOLoopDatas s \<noteq> [] then s
      else s\<lparr>mRunIOLoop := True, mIOLoopDatas := replicate threadNum IOLoopData_new\<rparr>)"

definition stopWorkerThread :: "'h tcp_service \<Rightarrow> 'h tcp_service" where
  "stopWorkerThread s = s\<lparr>mRunIOLoop := False, mIOLoopDatas := []\<rparr>"

text \<open>The time, in milliseconds, for which a worker waits in its loop.\<close>

definition sDefaultLoopTimeOutMS :: int where
  "sDefaultLoopTimeOutMS = 100"

definition worker_timeout :: "int \<Rightarrow> ('cb, 'z) timer_mgr_scheme \<Rightarrow> int" where
  "worker_timeout now tm = (if isEmpty tm then sDefaultLoopTimeOutMS else nearLeftTime now tm div 1000000)"

text \<open>\<open>mNextId++\<close> on an \<open>int\<close>: overflow is undefined.\<close>

definition incID :: "'h io_loop \<Rightarrow> (int \<times> 'h io_loop) option" where
  "incID l = (if mNextId l < 2 ^ 31 - 1 then Some (mNextId l, l\<lparr>mNextId := mNextId l + 1\<rparr>) else None)"

definition MakeID :: "nat \<Rightarrow> 'h io_loop \<Rightarrow> (session_id \<times> 'h io_loop) option" where
  "MakeID loopIndex l =
     do {
       (index, ds) \<leftarrow> claimID (mDataSockets l);
       (iid, l) \<leftarrow> incID (l\<lparr>mDataSockets := ds\<rparr>);
       Some (make_sid (of_nat loopIndex) (of_nat index) (of_int iid), l)
     }"

text \<open>The enter callback that \<open>helpAddChannel\<close> sets, up to the user's callback.\<close>

definition enter_callback :: "nat \<Rightarrow> 'h \<Rightarrow> 'h tcp_service \<Rightarrow> (session_id \<times> 'h tcp_service) option" where
  "enter_callback loopIndex dataSocket s =
     (if loopIndex < length (mIOLoopDatas s) then
        do {
          (id, l) \<leftarrow> MakeID loopIndex (mIOLoopDatas s ! loopIndex);
          let ds = snd (ids_set (Some dataSocket) (unat (sid_index id)) (mDataSockets l));
          Some (id, s\<lparr>mIOLoopDatas := (mIOLoopDatas s)[loopIndex := l\<lparr>mDataSockets := ds\<rparr>],
                     socket_ud := (socket_ud s)(dataSocket \<mapsto> id)\<rparr>)
        }
      else None)"

definition procDataSocketClose :: "'h \<Rightarrow> 'h tcp_service \<Rightarrow> 'h tcp_service option" where
  "procDataSocketClose ds s =
     (case socket_ud s ds of
        None \<Rightarrow> Some s
      | Some sid \<Rightarrow>
          let loop = unat (sid_loopIndex sid); index = unat (sid_index sid) in
          if loop < length (mIOLoopDatas s) then
            do {
              let l = mIOLoopDatas s ! loop;
              t \<leftarrow> reclaimID index (snd (ids_set None index (mDataSockets l)));
              Some (s\<lparr>mIOLoopDatas := (mIOLoopDatas s)[loop := l\<lparr>mDataSockets := t\<rparr>]\<rparr>)
            }
          else None)"

text \<open>The disconnect callback: the slot is freed, the user is told, the object is deleted.\<close>

definition disconnect_callback :: "'h \<Rightarrow> 'h tcp_service \<Rightarrow> 'h tcp_service option" where
  "disconnect_callback arg s =
     map_option (\<lambda>s. s\<lparr>socket_ud := (socket_ud s)(arg := None)\<rparr>) (procDataSocketClose arg s)"

definition getIOLoopDataBySocketID :: "session_id \<Rightarrow> 'h tcp_service \<Rightarrow> 'h io_loop option" where
  "getIOLoopDataBySocketID sid s =
     (if unat (sid_loopIndex sid) < length (mIOLoopDatas s) then Some (mIOLoopDatas s ! unat (sid_loopIndex sid)) else None)"

definition getEventLoopBySocketID :: "session_id \<Rightarrow> 'h tcp_service \<Rightarrow> nat option" where
  "getEventLoopBySocketID sid s =
     (if unat (sid_loopIndex sid) < length (mIOLoopDatas s) then Some (unat (sid_loopIndex sid)) else None)"

text \<open>The loops that \<open>wakeup\<close> and \<open>wakeupAll\<close> wake, and the one that \<open>getRandomEventLoop\<close> returns.\<close>

definition tcp_wakeup :: "session_id \<Rightarrow> 'h tcp_service \<Rightarrow> nat list" where
  "tcp_wakeup sid s = (case getEventLoopBySocketID sid s of None \<Rightarrow> [] | Some i \<Rightarrow> [i])"

definition wakeupAll :: "'h tcp_service \<Rightarrow> nat list" where
  "wakeupAll s = [0..<length (mIOLoopDatas s)]"

definition getRandomEventLoop :: "nat \<Rightarrow> 'h tcp_service \<Rightarrow> nat option" where
  "getRandomEventLoop randNum s =
     (if mIOLoopDatas s \<noteq> [] then Some (randNum mod length (mIOLoopDatas s)) else None)"

text \<open>The test in the closures of \<open>IOLoopData::send\<close> and \<open>postSessionAsyncProc\<close>: which object gets the request.\<close>

definition find_session :: "('h \<Rightarrow> session_id option) \<Rightarrow> session_id \<Rightarrow> 'h io_loop \<Rightarrow> 'h option" where
  "find_session ud sid l =
     (case ids_get (unat (sid_index sid)) (mDataSockets l) of
        (True, Some tmp) \<Rightarrow> if ud tmp = Some sid then Some tmp else None
      | _ \<Rightarrow> None)"

definition IOLoopData_send :: "('h \<Rightarrow> session_id option) \<Rightarrow> session_id \<Rightarrow> 'h io_loop \<Rightarrow> 'h option" where
  "IOLoopData_send ud sid l = find_session ud sid l"

definition tcp_send :: "session_id \<Rightarrow> 'h tcp_service \<Rightarrow> 'h option" where
  "tcp_send sid s =
     (case getIOLoopDataBySocketID sid s of None \<Rightarrow> None | Some l \<Rightarrow> IOLoopData_send (socket_ud s) sid l)"

definition postSessionAsyncProc :: "session_id \<Rightarrow> 'h tcp_service \<Rightarrow> 'h option" where
  "postSessionAsyncProc sid s =
     (case getIOLoopDataBySocketID sid s of None \<Rightarrow> None | Some l \<Rightarrow> find_session (socket_ud s) sid l)"

section \<open>Adding a connection\<close>

record add_options =
  ao_useSSL :: bool
  ao_forceSameThreadLoop :: bool
  ao_maxRecvBufferSize :: size_t

definition Options_new :: add_options where
  "Options_new = \<lparr>ao_useSSL = False, ao_forceSameThreadLoop = False, ao_maxRecvBufferSize = 0\<rparr>"

definition WithClientSideSSL :: "add_options \<Rightarrow> add_options" where
  "WithClientSideSSL opt = opt\<lparr>ao_useSSL := True\<rparr>"

definition WithServerSideSSL :: "add_options \<Rightarrow> add_options" where
  "WithServerSideSSL opt = opt\<lparr>ao_useSSL := True\<rparr>"

definition WithMaxRecvBufferSize :: "size_t \<Rightarrow> add_options \<Rightarrow> add_options" where
  "WithMaxRecvBufferSize n opt = opt\<lparr>ao_maxRecvBufferSize := n\<rparr>"

definition WithForceSameThreadLoop :: "bool \<Rightarrow> add_options \<Rightarrow> add_options" where
  "WithForceSameThreadLoop same opt = opt\<lparr>ao_forceSameThreadLoop := same\<rparr>"

text \<open>The index of the first loop whose thread is the current one.\<close>

fun find_own_loop :: "(nat \<Rightarrow> bool) \<Rightarrow> nat \<Rightarrow> nat \<Rightarrow> nat option" where
  "find_own_loop own i 0 = None"
| "find_own_loop own i (Suc n) = (if own i then Some i else find_own_loop own (Suc i) n)"

text \<open>The loop \<open>helpAddChannel\<close> chooses for the channel; it returns false when there is none.\<close>

definition helpAddChannel :: "nat \<Rightarrow> (nat \<Rightarrow> bool) \<Rightarrow> bool \<Rightarrow> 'h tcp_service \<Rightarrow> nat option" where
  "helpAddChannel randNum own forceSameThreadLoop s =
     (if mIOLoopDatas s = [] then None
      else if forceSameThreadLoop then find_own_loop own 0 (length (mIOLoopDatas s))
      else Some (randNum mod length (mIOLoopDatas s)))"

datatype add_result = Add_throws | Add_false | Add_true nat

text \<open>\<open>_addDataSocket\<close> in a build without OpenSSL.\<close>

definition addDataSocket ::
    "nat \<Rightarrow> (nat \<Rightarrow> bool) \<Rightarrow> (add_options \<Rightarrow> add_options) list \<Rightarrow> 'h tcp_service \<Rightarrow> add_result" where
  "addDataSocket randNum own optionFuncs s =
     (let options = fold (\<lambda>f. f) optionFuncs Options_new in
      if ao_maxRecvBufferSize options \<le> 0 then Add_throws
      else if ao_useSSL options then Add_false
      else case helpAddChannel randNum own (ao_forceSameThreadLoop options) s of
        None \<Rightarrow> Add_false
      | Some loopIndex \<Rightarrow> Add_true loopIndex)"

section \<open>Runs\<close>

text \<open>
  Steps of the loop threads: a channel enters a loop, its disconnect callback
  runs, a request for a session is carried out.
\<close>

datatype 'h ts_op = Ts_enter nat 'h | Ts_close 'h | Ts_post session_id

datatype 'h ts_event =
    Ts_entered session_id 'h
  | Ts_closed session_id 'h
  | Ts_delivered session_id 'h
  | Ts_dropped session_id

fun ts_step :: "'h ts_op \<Rightarrow> 'h tcp_service \<Rightarrow> ('h ts_event list \<times> 'h tcp_service) option" where
  "ts_step (Ts_enter i h) s = map_option (\<lambda>(sid, s'). ([Ts_entered sid h], s')) (enter_callback i h s)"
| "ts_step (Ts_close h) s =
     map_option (\<lambda>s'. (case socket_ud s h of None \<Rightarrow> [] | Some sid \<Rightarrow> [Ts_closed sid h], s')) (disconnect_callback h s)"
| "ts_step (Ts_post sid) s =
     Some (case postSessionAsyncProc sid s of None \<Rightarrow> [Ts_dropped sid] | Some h \<Rightarrow> [Ts_delivered sid h], s)"

fun ts_run :: "'h ts_op list \<Rightarrow> 'h tcp_service \<Rightarrow> ('h ts_event list \<times> 'h tcp_service) option" where
  "ts_run [] s = Some ([], s)"
| "ts_run (x # xs) s = do { (evs, s) \<leftarrow> ts_step x s; (evs', s) \<leftarrow> ts_run xs s; Some (evs @ evs', s) }"

text \<open>
  What the environment keeps to, with \<open>n\<close> loops: a channel enters one of them,
  once, while fewer than 65500 sessions are open there and fewer than \<open>2 ^ 31 - 1\<close>
  have been; only open channels close.
\<close>

fun admit :: "nat \<Rightarrow> 'h ts_op list \<Rightarrow> ('h \<times> nat) list \<Rightarrow> (nat \<Rightarrow> int) \<Rightarrow> bool" where
  "admit n [] op cnt \<longleftrightarrow> True"
| "admit n (Ts_enter i h # xs) op cnt \<longleftrightarrow>
     i < n \<and> h \<notin> fst ` set op \<and> length (filter (\<lambda>x. snd x = i) op) < 65500 \<and> cnt i < 2 ^ 31 - 1 \<and>
     admit n xs ((h, i) # op) (cnt(i := cnt i + 1))"
| "admit n (Ts_close h # xs) op cnt \<longleftrightarrow> h \<in> fst ` set op \<and> admit n xs (filter (\<lambda>x. fst x \<noteq> h) op) cnt"
| "admit n (Ts_post sid # xs) op cnt \<longleftrightarrow> admit n xs op cnt"

section \<open>Specification: a map from sessions to connections\<close>

text \<open>The open sessions and all identifiers given out so far. An identifier is never given out twice.\<close>

type_synonym 'h sessions = "(session_id \<Rightarrow> 'h option) \<times> session_id set"

fun sess_step :: "'h ts_event \<Rightarrow> 'h sessions \<Rightarrow> 'h sessions option" where
  "sess_step (Ts_entered sid h) (m, given) = (if sid \<in> given then None else Some (m(sid \<mapsto> h), insert sid given))"
| "sess_step (Ts_closed sid h) (m, given) = (if m sid = Some h then Some (m(sid := None), given) else None)"
| "sess_step (Ts_delivered sid h) (m, given) = (if m sid = Some h then Some (m, given) else None)"
| "sess_step (Ts_dropped sid) (m, given) = (if m sid = None then Some (m, given) else None)"

fun sess_run :: "'h ts_event list \<Rightarrow> 'h sessions \<Rightarrow> 'h sessions option" where
  "sess_run [] st = Some st"
| "sess_run (e # es) st = do { st \<leftarrow> sess_step e st; sess_run es st }"

lemma sess_run_append: "sess_run (es @ fs) st = do { st \<leftarrow> sess_run es st; sess_run fs st }"
proof (induction es arbitrary: st)
  case (Cons e es)
  then show ?case by (cases "sess_step e st") auto
qed simp

section \<open>Invariant\<close>

definition loop_ok :: "nat \<Rightarrow> ('h \<Rightarrow> session_id option) \<Rightarrow> 'h io_loop \<Rightarrow> bool" where
  "loop_ok i ud l \<longleftrightarrow> ids.full (mDataSockets l) \<and> length (mValues (mDataSockets l)) \<le> 65500 \<and>
     0 \<le> mNextId l \<and> mNextId l < 2 ^ 31 \<and>
     (\<forall>j h. ids.content (mDataSockets l) j = Some h \<longrightarrow>
        (\<exists>sid. ud h = Some sid \<and> unat (sid_loopIndex sid) = i \<and> unat (sid_index sid) = j \<and>
          uint (sid_iid sid) < mNextId l))"

definition svc_inv :: "'h tcp_service \<Rightarrow> bool" where
  "svc_inv s \<longleftrightarrow> length (mIOLoopDatas s) \<le> 65536 \<and>
     (\<forall>i < length (mIOLoopDatas s). loop_ok i (socket_ud s) (mIOLoopDatas s ! i)) \<and>
     (\<forall>h sid. socket_ud s h = Some sid \<longrightarrow> unat (sid_loopIndex sid) < length (mIOLoopDatas s) \<and>
        ids.content (mDataSockets (mIOLoopDatas s ! unat (sid_loopIndex sid))) (unat (sid_index sid)) = Some h)"

text \<open>Which requests reach which object.\<close>

lemma post_iff:
  assumes "svc_inv s"
  shows "postSessionAsyncProc sid s = Some h \<longleftrightarrow> socket_ud s h = Some sid"
proof
  assume "postSessionAsyncProc sid s = Some h"
  then show "socket_ud s h = Some sid"
    by (auto simp: postSessionAsyncProc_def find_session_def split: option.splits prod.splits bool.splits if_splits)
next
  assume ud: "socket_ud s h = Some sid"
  with assms have "unat (sid_loopIndex sid) < length (mIOLoopDatas s)"
    "ids.content (mDataSockets (mIOLoopDatas s ! unat (sid_loopIndex sid))) (unat (sid_index sid)) = Some h"
    unfolding svc_inv_def by blast+
  with ud show "postSessionAsyncProc sid s = Some h"
    by (auto simp: postSessionAsyncProc_def getIOLoopDataBySocketID_def find_session_def ids.content_def ids_get_def
        split: if_splits)
qed

lemma tcp_send_post: "tcp_send sid s = postSessionAsyncProc sid s"
  by (simp add: tcp_send_def postSessionAsyncProc_def IOLoopData_send_def split: option.splits)

text \<open>A wake-up for an open session wakes the loop that has it, and so does a wake-up of all.\<close>

lemma wakeup_reaches:
  assumes "svc_inv s" and "postSessionAsyncProc sid s = Some h"
  shows "\<exists>i < length (mIOLoopDatas s). tcp_wakeup sid s = [i] \<and> i \<in> set (wakeupAll s) \<and>
    ids.content (mDataSockets (mIOLoopDatas s ! i)) (unat (sid_index sid)) = Some h"
proof -
  have "socket_ud s h = Some sid" using post_iff [OF assms(1)] assms(2) by blast
  then have "unat (sid_loopIndex sid) < length (mIOLoopDatas s)"
    "ids.content (mDataSockets (mIOLoopDatas s ! unat (sid_loopIndex sid))) (unat (sid_index sid)) = Some h"
    using assms(1) unfolding svc_inv_def by blast+
  then show ?thesis by (intro exI [of _ "unat (sid_loopIndex sid)"]) (simp add: tcp_wakeup_def getEventLoopBySocketID_def wakeupAll_def)
qed

lemma random_loop: "getRandomEventLoop r s = Some i \<Longrightarrow> i < length (mIOLoopDatas s)"
  by (auto simp: getRandomEventLoop_def split: if_splits)

text \<open>The slots of a loop hold, each once, the handles whose identifier names that loop.\<close>

definition handles :: "nat \<Rightarrow> 'h tcp_service \<Rightarrow> 'h set" where
  "handles i s = {h. \<exists>sid. socket_ud s h = Some sid \<and> unat (sid_loopIndex sid) = i}"

lemma card_handles:
  assumes inv: "svc_inv s" and i: "i < length (mIOLoopDatas s)"
  shows "card (dom (ids.content (mDataSockets (mIOLoopDatas s ! i)))) = card (handles i s)"
proof -
  let ?m = "ids.content (mDataSockets (mIOLoopDatas s ! i))"
  have L: "\<exists>sid. socket_ud s h = Some sid \<and> unat (sid_loopIndex sid) = i \<and> unat (sid_index sid) = j"
    if "?m j = Some h" for j h using inv i that unfolding svc_inv_def loop_ok_def by blast
  have "inj_on (\<lambda>j. the (?m j)) (dom ?m)"
  proof (rule inj_onI)
    fix j k assume "j \<in> dom ?m" "k \<in> dom ?m" "the (?m j) = the (?m k)"
    then obtain h where "?m j = Some h" "?m k = Some h" by auto
    from L [OF this(1)] L [OF this(2)] show "j = k" by auto
  qed
  moreover have "(\<lambda>j. the (?m j)) ` dom ?m = handles i s"
  proof (rule set_eqI, rule iffI)
    fix h assume "h \<in> (\<lambda>j. the (?m j)) ` dom ?m"
    then obtain j where "?m j = Some h" by auto
    from L [OF this] show "h \<in> handles i s" by (auto simp: handles_def)
  next
    fix h assume "h \<in> handles i s"
    then obtain sid where "socket_ud s h = Some sid" "unat (sid_loopIndex sid) = i" by (auto simp: handles_def)
    with inv have "?m (unat (sid_index sid)) = Some h" unfolding svc_inv_def by blast
    then show "h \<in> (\<lambda>j. the (?m j)) ` dom ?m" by force
  qed
  ultimately show ?thesis by (metis card_image)
qed

lemma unat_of_nat_16: "n < 65536 \<Longrightarrow> unat (of_nat n :: 16 word) = n"
  by (simp add: unat_of_nat take_bit_nat_eq_self)

lemma uint_of_int_32: "0 \<le> k \<Longrightarrow> k < 2 ^ 31 \<Longrightarrow> uint (of_int k :: 32 word) = k"
  by (simp add: uint_word_of_int)

lemma block_bound:
  fixes a b c q :: nat
  assumes "a \<le> 65500" and "a = 100 * q" and "c < 65500" and "b = a \<or> a = c \<and> b = a + 100"
  shows "b \<le> 65500"
  using assms(4)
proof
  assume "a = c \<and> b = a + 100"
  moreover from this assms(2,3) have "100 * q < 100 * 655" by simp
  then have "q < 655" by (simp only: mult_less_cancel1)
  ultimately show ?thesis using assms(2) by simp
qed (use assms(1) in simp)

text \<open>What a new session of a loop gets: a free slot whose number fits, and the next number.\<close>

lemma MakeID_ok:
  assumes inv: "svc_inv s" and i: "i < length (mIOLoopDatas s)"
    and room: "card (handles i s) < 65500" and nxt: "mNextId (mIOLoopDatas s ! i) < 2 ^ 31 - 1"
  defines "l \<equiv> mIOLoopDatas s ! i"
  defines "m \<equiv> ids.content (mDataSockets l)"
  shows "\<exists>sid l'. MakeID i l = Some (sid, l') \<and> unat (sid_loopIndex sid) = i \<and> uint (sid_iid sid) = mNextId l \<and>
    m (unat (sid_index sid)) = None \<and> mNextId l' = mNextId l + 1 \<and>
    (let ds = snd (ids_set (Some h) (unat (sid_index sid)) (mDataSockets l')) in
       ids.full ds \<and> ids.content ds = m(unat (sid_index sid) \<mapsto> h) \<and> length (mValues ds) \<le> 65500)"
proof -
  have ok: "loop_ok i (socket_ud s) l" using inv i by (simp add: svc_inv_def l_def)
  then have full: "ids.full (mDataSockets l)" and len: "length (mValues (mDataSockets l)) \<le> 65500"
    and n0: "0 \<le> mNextId l" by (simp_all add: loop_ok_def)
  obtain j t where C: "claimID (mDataSockets l) = Some (j, t)" "m j = None"
    "ids.full (snd (ids_set (Some h) j t))" "ids.content (snd (ids_set (Some h) j t)) = m(j \<mapsto> h)"
    "j < length (mValues (snd (ids_set (Some h) j t)))"
    "length (mValues (snd (ids_set (Some h) j t))) = length (mValues (mDataSockets l)) \<or>
     length (mValues (mDataSockets l)) = card (dom m) \<and>
     length (mValues (snd (ids_set (Some h) j t))) = length (mValues (mDataSockets l)) + 100"
    using ids.occupy [OF full, of h] unfolding m_def by blast
  have "100 dvd length (mValues (mDataSockets l))"
    using full ids.block_law unfolding ids.full_def by blast
  then obtain q where q: "length (mValues (mDataSockets l)) = 100 * q" by (auto simp: dvd_def)
  have "card (dom m) < 65500" using card_handles [OF inv i] room by (simp add: m_def l_def)
  then have len': "length (mValues (snd (ids_set (Some h) j t))) \<le> 65500" 
    using block_bound [OF len q _ C(6)] by simp
  then have j: "unat (of_nat j :: 16 word) = j" using C(5) by (simp add: unat_of_nat_16)
  have iw: "unat (of_nat i :: 16 word) = i" using i inv by (simp add: unat_of_nat_16 svc_inv_def)
  have "MakeID i l = Some (make_sid (of_nat i) (of_nat j) (of_int (mNextId l)),
      l\<lparr>mDataSockets := t, mNextId := mNextId l + 1\<rparr>)"
    using C(1) nxt by (simp add: MakeID_def incID_def l_def)
  then show ?thesis using C j iw len' n0 nxt by (simp add: uint_of_int_32 l_def)
qed

text \<open>Replacing one loop keeps the invariant, if the loop and the owners agree again.\<close>

lemma svc_inv_update:
  assumes inv: "svc_inv s" and i: "i < length (mIOLoopDatas s)"
    and ok: "loop_ok i ud l'"
    and rest: "\<And>k. k < length (mIOLoopDatas s) \<Longrightarrow> k \<noteq> i \<Longrightarrow> loop_ok k ud (mIOLoopDatas s ! k)"
    and own: "\<And>g x. ud g = Some x \<Longrightarrow> unat (sid_loopIndex x) = i \<Longrightarrow>
      ids.content (mDataSockets l') (unat (sid_index x)) = Some g"
    and old: "\<And>g x. ud g = Some x \<Longrightarrow> unat (sid_loopIndex x) \<noteq> i \<Longrightarrow> socket_ud s g = Some x"
  shows "svc_inv (s\<lparr>mIOLoopDatas := (mIOLoopDatas s)[i := l'], socket_ud := ud\<rparr>)"
proof -
  let ?s = "s\<lparr>mIOLoopDatas := (mIOLoopDatas s)[i := l'], socket_ud := ud\<rparr>"
  have "unat (sid_loopIndex x) < length (mIOLoopDatas ?s) \<and>
      ids.content (mDataSockets (mIOLoopDatas ?s ! unat (sid_loopIndex x))) (unat (sid_index x)) = Some g"
    if "ud g = Some x" for g x
  proof (cases "unat (sid_loopIndex x) = i")
    case True
    with own [OF that] i show ?thesis by simp
  next
    case False
    with inv old [OF that] have "unat (sid_loopIndex x) < length (mIOLoopDatas s)"
      "ids.content (mDataSockets (mIOLoopDatas s ! unat (sid_loopIndex x))) (unat (sid_index x)) = Some g"
      unfolding svc_inv_def by blast+
    with False show ?thesis by simp
  qed
  then show ?thesis using inv ok rest i by (simp add: svc_inv_def nth_list_update)
qed

lemma loop_ok_other:
  assumes "loop_ok k ud l" and "\<And>g x. ud g = Some x \<Longrightarrow> unat (sid_loopIndex x) = k \<Longrightarrow> ud' g = Some x"
  shows "loop_ok k ud' l"
proof -
  have "\<exists>sid. ud' h = Some sid \<and> unat (sid_loopIndex sid) = k \<and> unat (sid_index sid) = j \<and> uint (sid_iid sid) < mNextId l"
    if "ids.content (mDataSockets l) j = Some h" for j h
    using assms(1) assms(2) [of h] that unfolding loop_ok_def by blast
  with assms(1) show ?thesis by (simp add: loop_ok_def)
qed

lemma enter_ok:
  assumes inv: "svc_inv s" and i: "i < length (mIOLoopDatas s)" and h: "socket_ud s h = None"
    and room: "card (handles i s) < 65500" and nxt: "mNextId (mIOLoopDatas s ! i) < 2 ^ 31 - 1"
  shows "\<exists>sid s'. enter_callback i h s = Some (sid, s') \<and> svc_inv s' \<and>
    unat (sid_loopIndex sid) = i \<and> uint (sid_iid sid) = mNextId (mIOLoopDatas s ! i) \<and>
    socket_ud s' = (socket_ud s)(h \<mapsto> sid) \<and>
    map mNextId (mIOLoopDatas s') = (map mNextId (mIOLoopDatas s))[i := mNextId (mIOLoopDatas s ! i) + 1]"
proof -
  let ?l = "mIOLoopDatas s ! i"
  let ?m = "ids.content (mDataSockets ?l)"
  obtain sid l1 where M: "MakeID i ?l = Some (sid, l1)" "unat (sid_loopIndex sid) = i" "uint (sid_iid sid) = mNextId ?l"
    "?m (unat (sid_index sid)) = None" "mNextId l1 = mNextId ?l + 1"
    and D: "ids.full (snd (ids_set (Some h) (unat (sid_index sid)) (mDataSockets l1)))"
      "ids.content (snd (ids_set (Some h) (unat (sid_index sid)) (mDataSockets l1))) = ?m(unat (sid_index sid) \<mapsto> h)"
      "length (mValues (snd (ids_set (Some h) (unat (sid_index sid)) (mDataSockets l1)))) \<le> 65500"
    using MakeID_ok [OF inv i room nxt, of h] by (auto simp: Let_def)
  define l' where "l' = l1\<lparr>mDataSockets := snd (ids_set (Some h) (unat (sid_index sid)) (mDataSockets l1))\<rparr>"
  let ?ud = "(socket_ud s)(h \<mapsto> sid)"
  let ?s = "s\<lparr>mIOLoopDatas := (mIOLoopDatas s)[i := l'], socket_ud := ?ud\<rparr>"
  have run: "enter_callback i h s = Some (sid, ?s)" using i M(1) by (simp add: enter_callback_def l'_def)
  have ok: "loop_ok k (socket_ud s) (mIOLoopDatas s ! k)" if "k < length (mIOLoopDatas s)" for k
    using inv that by (simp add: svc_inv_def)
  have owner: "\<exists>x. socket_ud s g = Some x \<and> unat (sid_loopIndex x) = i \<and> unat (sid_index x) = j \<and>
      uint (sid_iid x) < mNextId ?l" if "?m j = Some g" for j g
    using ok [OF i] that by (auto simp: loop_ok_def)
  have "\<exists>x. ?ud g = Some x \<and> unat (sid_loopIndex x) = i \<and> unat (sid_index x) = j \<and> uint (sid_iid x) < mNextId ?l + 1"
    if "(?m(unat (sid_index sid) \<mapsto> h)) j = Some g" for j g
  proof (cases "j = unat (sid_index sid)")
    case True
    with that M(2,3) show ?thesis by simp
  next
    case False
    with that owner [of j g] obtain x where "socket_ud s g = Some x" "unat (sid_loopIndex x) = i"
      "unat (sid_index x) = j" "uint (sid_iid x) < mNextId ?l" by auto
    with h show ?thesis by (intro exI [of _ x]) auto
  qed
  then have "loop_ok i ?ud l'" using ok [OF i] D M(5) nxt by (simp add: loop_ok_def l'_def)
  moreover have "loop_ok k ?ud (mIOLoopDatas s ! k)" if "k < length (mIOLoopDatas s)" for k
    using ok [OF that] by (rule loop_ok_other) (use h in auto)
  moreover have "ids.content (mDataSockets l') (unat (sid_index x)) = Some g"
    if "?ud g = Some x" "unat (sid_loopIndex x) = i" for g x
  proof (cases "g = h")
    case False
    with that inv have "?m (unat (sid_index x)) = Some g" by (auto simp: svc_inv_def)
    then show ?thesis using D(2) M(4) by (auto simp: l'_def)
  qed (use that D(2) in \<open>simp add: l'_def\<close>)
  ultimately have "svc_inv ?s" using M(2) by (intro svc_inv_update [OF inv i]) (auto split: if_splits)
  then show ?thesis using run M by (auto simp: map_update l'_def)
qed

lemma close_session_ok:
  assumes inv: "svc_inv s" and h: "socket_ud s h = Some sid"
  shows "\<exists>s'. disconnect_callback h s = Some s' \<and> svc_inv s' \<and> socket_ud s' = (socket_ud s)(h := None) \<and>
    map mNextId (mIOLoopDatas s') = map mNextId (mIOLoopDatas s)"
proof -
  let ?i = "unat (sid_loopIndex sid)" and ?j = "unat (sid_index sid)" and ?ud = "(socket_ud s)(h := None)"
  let ?l = "mIOLoopDatas s ! ?i"
  let ?m = "ids.content (mDataSockets ?l)"
  have i: "?i < length (mIOLoopDatas s)" and c: "?m ?j = Some h" using inv h unfolding svc_inv_def by blast+
  have ok: "loop_ok k (socket_ud s) (mIOLoopDatas s ! k)" if "k < length (mIOLoopDatas s)" for k
    using inv that by (simp add: svc_inv_def)
  then have full: "ids.full (mDataSockets ?l)" using i by (simp add: loop_ok_def)
  obtain t where T: "reclaimID ?j (snd (ids_set None ?j (mDataSockets ?l))) = Some t" "ids.full t"
    "ids.content t = ?m(?j := None)" "length (mValues t) = length (mValues (mDataSockets ?l))"
    using ids.vacate [OF full, of ?j] c by auto
  let ?s = "s\<lparr>mIOLoopDatas := (mIOLoopDatas s)[?i := ?l\<lparr>mDataSockets := t\<rparr>], socket_ud := ?ud\<rparr>"
  have run: "disconnect_callback h s = Some ?s"
    using h i T(1) by (simp add: disconnect_callback_def procDataSocketClose_def Let_def)
  have slot: "socket_ud s g = Some x \<Longrightarrow> unat (sid_loopIndex x) = ?i \<Longrightarrow> ?m (unat (sid_index x)) = Some g" for g x
    using inv unfolding svc_inv_def by metis
  have "\<exists>x. ?ud g = Some x \<and> unat (sid_loopIndex x) = ?i \<and> unat (sid_index x) = j \<and> uint (sid_iid x) < mNextId ?l"
    if "(?m(?j := None)) j = Some g" for j g
  proof -
    from that have "?m j = Some g" "j \<noteq> ?j" by (auto split: if_splits)
    with ok [OF i] obtain x where x: "socket_ud s g = Some x" "unat (sid_loopIndex x) = ?i" "unat (sid_index x) = j"
      "uint (sid_iid x) < mNextId ?l" unfolding loop_ok_def by blast
    then have "g \<noteq> h" using h \<open>j \<noteq> ?j\<close> by auto
    with x show ?thesis by (intro exI [of _ x]) simp
  qed
  then have "loop_ok ?i ?ud (?l\<lparr>mDataSockets := t\<rparr>)" using ok [OF i] T by (simp add: loop_ok_def)
  moreover have "loop_ok k ?ud (mIOLoopDatas s ! k)" if "k < length (mIOLoopDatas s)" "k \<noteq> ?i" for k
    using ok [OF that(1)] by (rule loop_ok_other) (use h that in auto)
  moreover have "ids.content t (unat (sid_index x)) = Some g"
    if "?ud g = Some x" "unat (sid_loopIndex x) = ?i" for g x
    using that slot [of g x] slot [OF h] T(3) by (auto split: if_splits)
  ultimately have "svc_inv ?s" by (intro svc_inv_update [OF inv i]) (auto split: if_splits)
  moreover have "map mNextId (mIOLoopDatas ?s) = map mNextId (mIOLoopDatas s)"
    using i by (simp add: map_update list_update_same_conv)
  ultimately show ?thesis using run by simp
qed

section \<open>Every run is a run of the specification\<close>

text \<open>
  The concrete state, the environment's account and the specification's state
  agree: the map is the answer to requests, all given identifiers have been
  counted, and the handles are those the environment holds open.
\<close>

definition svc_rel :: "'h tcp_service \<Rightarrow> ('h \<times> nat) list \<Rightarrow> (nat \<Rightarrow> int) \<Rightarrow> 'h sessions \<Rightarrow> bool" where
  "svc_rel s opens cnt st \<longleftrightarrow> svc_inv s \<and> fst st = (\<lambda>sid. postSessionAsyncProc sid s) \<and>
     (\<forall>sid\<in>snd st. unat (sid_loopIndex sid) < length (mIOLoopDatas s) \<and>
        uint (sid_iid sid) < mNextId (mIOLoopDatas s ! unat (sid_loopIndex sid))) \<and>
     (\<forall>i < length (mIOLoopDatas s). mNextId (mIOLoopDatas s ! i) = cnt i) \<and>
     distinct (map fst opens) \<and>
     (\<forall>h i. map_of opens h = Some i \<longleftrightarrow> (\<exists>sid. socket_ud s h = Some sid \<and> unat (sid_loopIndex sid) = i))"

lemma handles_opens:
  assumes "svc_rel s opens cnt st"
  shows "card (handles i s) = length (filter (\<lambda>x. snd x = i) opens)"
proof -
  have d: "distinct (map fst opens)" and
    m: "\<And>h. map_of opens h = Some i \<longleftrightarrow> (\<exists>sid. socket_ud s h = Some sid \<and> unat (sid_loopIndex sid) = i)"
    using assms by (auto simp: svc_rel_def)
  have "handles i s = fst ` set (filter (\<lambda>x. snd x = i) opens)"
    using d m by (force simp: handles_def map_of_eq_Some_iff image_iff)
  moreover have "distinct (map fst (filter (\<lambda>x. snd x = i) opens))" using d by (simp add: distinct_map_filter)
  ultimately show ?thesis by (metis distinct_card length_map set_map)
qed

lemma post_map_eqI:
  assumes "svc_inv s'" and "\<And>sid h. m sid = Some h \<longleftrightarrow> socket_ud s' h = Some sid"
  shows "m = (\<lambda>sid. postSessionAsyncProc sid s')"
proof
  fix sid
  show "m sid = postSessionAsyncProc sid s'"
    using post_iff [OF assms(1), of sid] assms(2) [of sid] by (cases "m sid"; cases "postSessionAsyncProc sid s'") auto
qed

lemma rel_enter:
  assumes rel: "svc_rel s opens cnt st" and n: "i < length (mIOLoopDatas s)" and h: "h \<notin> fst ` set opens"
    and room: "length (filter (\<lambda>x. snd x = i) opens) < 65500" and nxt: "cnt i < 2 ^ 31 - 1"
  shows "\<exists>sid s' st'. enter_callback i h s = Some (sid, s') \<and> sess_step (Ts_entered sid h) st = Some st' \<and>
    svc_rel s' ((h, i) # opens) (cnt(i := cnt i + 1)) st' \<and> length (mIOLoopDatas s') = length (mIOLoopDatas s)"
proof -
  have inv: "svc_inv s" and m: "fst st = (\<lambda>sid. postSessionAsyncProc sid s)"
    and c: "\<forall>k < length (mIOLoopDatas s). mNextId (mIOLoopDatas s ! k) = cnt k"
    and given: "\<forall>sid\<in>snd st. unat (sid_loopIndex sid) < length (mIOLoopDatas s) \<and>
        uint (sid_iid sid) < mNextId (mIOLoopDatas s ! unat (sid_loopIndex sid))"
    and d: "distinct (map fst opens)"
    and ops: "\<And>h i. map_of opens h = Some i \<longleftrightarrow> (\<exists>sid. socket_ud s h = Some sid \<and> unat (sid_loopIndex sid) = i)"
    using rel by (auto simp: svc_rel_def)
  have free: "map_of opens h = None" using h by (simp add: map_of_eq_None_iff)
  then have ud: "socket_ud s h = None" using ops [of h] by (cases "socket_ud s h") auto
  obtain sid s' where E: "enter_callback i h s = Some (sid, s')" "svc_inv s'" "unat (sid_loopIndex sid) = i"
    "uint (sid_iid sid) = mNextId (mIOLoopDatas s ! i)" "socket_ud s' = (socket_ud s)(h \<mapsto> sid)"
    "map mNextId (mIOLoopDatas s') = (map mNextId (mIOLoopDatas s))[i := mNextId (mIOLoopDatas s ! i) + 1]"
    using enter_ok [OF inv n ud] handles_opens [OF rel] room nxt c n by auto
  have len: "length (mIOLoopDatas s') = length (mIOLoopDatas s)"
    using arg_cong [OF E(6), of length] by simp
  have nid: "mNextId (mIOLoopDatas s' ! k) = (if k = i then cnt i + 1 else cnt k)" if "k < length (mIOLoopDatas s)" for k
    using arg_cong [OF E(6), of "\<lambda>xs. xs ! k"] that len c n by (simp add: nth_list_update)
  have new: "sid \<notin> snd st" using given E(3,4) by auto
  then have unused: "socket_ud s g \<noteq> Some sid" for g
    using inv E(3,4) unfolding svc_inv_def loop_ok_def by fastforce
  have mp: "(fst st)(sid \<mapsto> h) = (\<lambda>sid. postSessionAsyncProc sid s')"
    using unused ud by (intro post_map_eqI [OF E(2)]) (auto simp: m E(5) post_iff [OF inv])
  have "svc_rel s' ((h, i) # opens) (cnt(i := cnt i + 1)) ((fst st)(sid \<mapsto> h), insert sid (snd st))"
    unfolding svc_rel_def
  proof (intro conjI)
    show "\<forall>x\<in>snd ((fst st)(sid \<mapsto> h), insert sid (snd st)). unat (sid_loopIndex x) < length (mIOLoopDatas s') \<and>
        uint (sid_iid x) < mNextId (mIOLoopDatas s' ! unat (sid_loopIndex x))"
      using given c n E(3,4) by (auto simp: len nid)
    show "\<forall>g k. map_of ((h, i) # opens) g = Some k \<longleftrightarrow>
        (\<exists>sid. socket_ud s' g = Some sid \<and> unat (sid_loopIndex sid) = k)"
      using ops E(3,5) by auto
  qed (use E(2) mp d h nid in \<open>auto simp: len\<close>)
  then show ?thesis using E(1) new len by (cases st) auto
qed

lemma rel_close:
  assumes rel: "svc_rel s opens cnt st" and h: "h \<in> fst ` set opens"
  shows "\<exists>sid s' st'. socket_ud s h = Some sid \<and> disconnect_callback h s = Some s' \<and>
    sess_step (Ts_closed sid h) st = Some st' \<and> svc_rel s' (filter (\<lambda>x. fst x \<noteq> h) opens) cnt st' \<and>
    length (mIOLoopDatas s') = length (mIOLoopDatas s)"
proof -
  have inv: "svc_inv s" and m: "fst st = (\<lambda>sid. postSessionAsyncProc sid s)"
    and c: "\<forall>k < length (mIOLoopDatas s). mNextId (mIOLoopDatas s ! k) = cnt k"
    and given: "\<forall>sid\<in>snd st. unat (sid_loopIndex sid) < length (mIOLoopDatas s) \<and>
        uint (sid_iid sid) < mNextId (mIOLoopDatas s ! unat (sid_loopIndex sid))"
    and d: "distinct (map fst opens)"
    and ops: "\<And>h i. map_of opens h = Some i \<longleftrightarrow> (\<exists>sid. socket_ud s h = Some sid \<and> unat (sid_loopIndex sid) = i)"
    using rel by (auto simp: svc_rel_def)
  obtain i where "map_of opens h = Some i" using h by (metis map_of_eq_None_iff not_None_eq)
  then obtain sid where sid: "socket_ud s h = Some sid" using ops by blast
  obtain s' where E: "disconnect_callback h s = Some s'" "svc_inv s'" "socket_ud s' = (socket_ud s)(h := None)"
    "map mNextId (mIOLoopDatas s') = map mNextId (mIOLoopDatas s)"
    using close_session_ok [OF inv sid] by blast
  have len: "length (mIOLoopDatas s') = length (mIOLoopDatas s)" using arg_cong [OF E(4), of length] by simp
  have nid: "mNextId (mIOLoopDatas s' ! k) = mNextId (mIOLoopDatas s ! k)" if "k < length (mIOLoopDatas s)" for k
    using arg_cong [OF E(4), of "\<lambda>xs. xs ! k"] that len by simp
  have uniq: "socket_ud s g = Some sid \<longleftrightarrow> g = h" for g
    using post_iff [OF inv, of sid g] post_iff [OF inv, of sid h] sid by auto
  have mp: "(fst st)(sid := None) = (\<lambda>sid. postSessionAsyncProc sid s')"
    by (intro post_map_eqI [OF E(2)]) (auto simp: m E(3) post_iff [OF inv] sid uniq)
  have ops': "map_of (filter (\<lambda>x. fst x \<noteq> h) opens) g = (if g = h then None else map_of opens g)" for g
    by (induction opens) auto
  have "svc_rel s' (filter (\<lambda>x. fst x \<noteq> h) opens) cnt ((fst st)(sid := None), snd st)"
    unfolding svc_rel_def
  proof (intro conjI)
    show "\<forall>g k. map_of (filter (\<lambda>x. fst x \<noteq> h) opens) g = Some k \<longleftrightarrow>
        (\<exists>sid. socket_ud s' g = Some sid \<and> unat (sid_loopIndex sid) = k)"
      using ops E(3) by (auto simp: ops')
    show "\<forall>x\<in>snd ((fst st)(sid := None), snd st). unat (sid_loopIndex x) < length (mIOLoopDatas s') \<and>
        uint (sid_iid x) < mNextId (mIOLoopDatas s' ! unat (sid_loopIndex x))"
      using given nid by (simp add: len)
    show "\<forall>k < length (mIOLoopDatas s'). mNextId (mIOLoopDatas s' ! k) = cnt k" using c nid by (simp add: len)
  qed (simp_all add: E(2) mp d distinct_map_filter)
  moreover have "fst st sid = Some h" using m sid post_iff [OF inv] by simp
  ultimately show ?thesis using E(1) sid len by (cases st) auto
qed

lemma run_rel:
  "svc_rel s opens cnt st \<Longrightarrow> admit (length (mIOLoopDatas s)) xs opens cnt \<Longrightarrow>
   \<exists>evs s' st' opens' cnt'. ts_run xs s = Some (evs, s') \<and> sess_run evs st = Some st' \<and> svc_rel s' opens' cnt' st'"
proof (induction xs arbitrary: s opens cnt st)
  case (Cons x xs)
  obtain e s1 st1 opens1 cnt1 where S: "ts_step x s = Some ([e], s1)" "sess_step e st = Some st1"
    "svc_rel s1 opens1 cnt1 st1" "admit (length (mIOLoopDatas s1)) xs opens1 cnt1"
  proof (cases x)
    case (Ts_enter i h)
    with Cons.prems(2) have adm: "i < length (mIOLoopDatas s)" "h \<notin> fst ` set opens"
      "length (filter (\<lambda>x. snd x = i) opens) < 65500" "cnt i < 2 ^ 31 - 1"
      "admit (length (mIOLoopDatas s)) xs ((h, i) # opens) (cnt(i := cnt i + 1))" by simp_all
    obtain sid s' st' where "enter_callback i h s = Some (sid, s')" "sess_step (Ts_entered sid h) st = Some st'"
      "svc_rel s' ((h, i) # opens) (cnt(i := cnt i + 1)) st'" "length (mIOLoopDatas s') = length (mIOLoopDatas s)"
      using rel_enter [OF Cons.prems(1) adm(1-4)] by blast
    then show ?thesis using adm(5) Ts_enter by (intro that [of "Ts_entered sid h" s' st']) simp_all
  next
    case (Ts_close h)
    with Cons.prems(2) have adm: "h \<in> fst ` set opens"
      "admit (length (mIOLoopDatas s)) xs (filter (\<lambda>x. fst x \<noteq> h) opens) cnt" by simp_all
    obtain sid s' st' where "socket_ud s h = Some sid" "disconnect_callback h s = Some s'"
      "sess_step (Ts_closed sid h) st = Some st'" "svc_rel s' (filter (\<lambda>x. fst x \<noteq> h) opens) cnt st'"
      "length (mIOLoopDatas s') = length (mIOLoopDatas s)"
      using rel_close [OF Cons.prems(1) adm(1)] by blast
    then show ?thesis using adm(2) Ts_close by (intro that [of "Ts_closed sid h" s' st']) simp_all
  next
    case (Ts_post sid)
    let ?e = "case postSessionAsyncProc sid s of None \<Rightarrow> Ts_dropped sid | Some h \<Rightarrow> Ts_delivered sid h"
    obtain m given where st: "st = (m, given)" by (cases st)
    then have "m = (\<lambda>sid. postSessionAsyncProc sid s)" using Cons.prems(1) by (simp add: svc_rel_def)
    then have "sess_step ?e st = Some st" by (simp add: st split: option.splits)
    then show ?thesis using Cons.prems Ts_post by (intro that [of ?e s st opens cnt]) (simp_all split: option.splits)
  qed
  from Cons.IH [OF S(3,4)] S(1,2) show ?case by fastforce
qed auto

lemma start_rel: "n \<le> 65536 \<Longrightarrow> svc_rel (startWorkerThread n TcpService_new :: 'h tcp_service) [] (\<lambda>_. 0) (Map.empty, {})"
proof -
  assume n: "n \<le> 65536"
  let ?s = "startWorkerThread n TcpService_new :: 'h tcp_service"
  have ud: "socket_ud ?s = Map.empty" and len: "length (mIOLoopDatas ?s) = n"
    and nth: "\<And>i. i < n \<Longrightarrow> mIOLoopDatas ?s ! i = IOLoopData_new"
    by (simp_all add: startWorkerThread_def TcpService_new_def)
  have "loop_ok i Map.empty (IOLoopData_new :: 'h io_loop)" for i
    by (simp add: loop_ok_def IOLoopData_new_def ids_full_new)
  then have inv: "svc_inv ?s" using n by (simp add: svc_inv_def ud len nth)
  moreover have "Map.empty = (\<lambda>sid. postSessionAsyncProc sid ?s)" by (rule post_map_eqI [OF inv]) (simp add: ud)
  ultimately show ?thesis by (simp add: svc_rel_def ud len nth IOLoopData_new_def)
qed



lemma full_table_claim:
  assumes "ids.full t" and "length (mValues t) \<le> 65500" and "card (dom (ids.content t)) = 65500"
  shows "length (mValues t) = 65500" "63 \<in> dom (ids.content t)" "\<exists>t'. claimID t = Some (65599, t') \<and> length (mValues t') = 65600"
proof -
  have inv: "ids_inv t" using assms(1) by (simp add: ids.full_def)
  have c: "card (claimed t) = 65500" using assms(3) ids.full_dom [OF assms(1)] by simp
  then have l: "length (mValues t) = 65500" "length (mIds t) = 0" using claimed_card [OF inv] assms(2) by linarith+
  then have ids: "mIds t = []" by simp
  show "length (mValues t) = 65500" by (rule l(1))
  show "63 \<in> dom (ids.content t)" unfolding ids.full_dom [OF assms(1)] by (simp add: claimed_def l(1) ids)
  have "last (mIds (ids_increase t)) = 65599" "mIds (ids_increase t) \<noteq> []" "length (mValues (ids_increase t)) = 65600"
    using increase_ok [OF inv ids] l(1) by (simp_all add: last_map)
  then show "\<exists>t'. claimID t = Some (65599, t') \<and> length (mValues t') = 65600" by (simp add: claimID_def ids Let_def)
qed

text \<open>
  C38. At 65500 open sessions on a loop identifiers stop to be safe: the table grows
  past what the 16 bits of an identifier hold, the new session is given the slot
  of an open one, and requests for that one no longer reach it.
\<close>

theorem session_slots_run_out:
  assumes "svc_inv s" and "i < length (mIOLoopDatas s)" and "card (handles i s) = 65500"
    and "mNextId (mIOLoopDatas s ! i) < 2 ^ 31 - 1" and "socket_ud s h = None"
  shows "\<exists>sid s' g old. enter_callback i h s = Some (sid, s') \<and> unat (sid_index sid) = 63 \<and>
    postSessionAsyncProc old s = Some g \<and> socket_ud s' g = Some old \<and> postSessionAsyncProc old s' = None"
proof -
  let ?l = "mIOLoopDatas s ! i"
  let ?t = "mDataSockets ?l"
  have ok: "loop_ok i (socket_ud s) ?l" using assms(1,2) by (simp add: svc_inv_def)
  then have T: "ids.full ?t" "length (mValues ?t) \<le> 65500" and n0: "0 \<le> mNextId ?l" by (simp_all add: loop_ok_def)
  have c: "card (dom (ids.content ?t)) = 65500" using card_handles [OF assms(1,2)] assms(3) by simp
  obtain g where "ids.content ?t 63 = Some g" using full_table_claim(2) [OF T c] by auto
  then obtain old where old: "socket_ud s g = Some old" "unat (sid_loopIndex old) = i" "unat (sid_index old) = 63"
    "uint (sid_iid old) < mNextId ?l" using ok unfolding loop_ok_def by blast
  obtain t' where C: "claimID ?t = Some (65599, t')" "length (mValues t') = 65600"
    using full_table_claim(3) [OF T c] by blast
  define sid where "sid = make_sid (of_nat i) 63 (of_int (mNextId ?l))"
  have iid: "uint (sid_iid sid) = mNextId ?l" using n0 assms(4) by (simp add: sid_def uint_of_int_32)
  let ?l' = "?l\<lparr>mDataSockets := t', mNextId := mNextId ?l + 1\<rparr>"
  let ?s = "s\<lparr>mIOLoopDatas := (mIOLoopDatas s)[i := ?l'\<lparr>mDataSockets := snd (ids_set (Some h) 63 t')\<rparr>],
    socket_ud := (socket_ud s)(h \<mapsto> sid)\<rparr>"
  have wrap: "(65599 :: 16 word) = 63" by simp
  have run: "enter_callback i h s = Some (sid, ?s)"
    using assms(2,4) C(1) by (simp add: enter_callback_def MakeID_def incID_def sid_def wrap)
  have "g \<noteq> h" "sid \<noteq> old" using old assms(5) iid by auto
  moreover have "postSessionAsyncProc old ?s = None"
    using old(2,3) assms(2) C(2) \<open>sid \<noteq> old\<close>
    by (simp add: postSessionAsyncProc_def getIOLoopDataBySocketID_def find_session_def ids_get_def ids_set_def)
  moreover have "postSessionAsyncProc old s = Some g" using post_iff [OF assms(1)] old(1) by blast
  ultimately show ?thesis using run old(1) by (intro exI [of _ sid] exI [of _ ?s] exI [of _ g] exI [of _ old])
      (simp add: sid_def)
qed

definition crowded :: "nat tcp_service" where
  "crowded = \<lparr>mIOLoopDatas = [\<lparr>mDataSockets = \<lparr>mValues = map Some [0..<65500], mIds = []\<rparr>, mNextId = 1\<rparr>],
     mRunIOLoop = True, socket_ud = (\<lambda>h. if h < 65500 then Some (make_sid 0 (of_nat h) 0) else None)\<rparr>"

lemma crowded_inv: "svc_inv crowded"
proof -
  let ?t = "\<lparr>mValues = map Some [0..<65500], mIds = []\<rparr> :: nat type_ids"
  have "ids.full ?t" by (auto simp: ids.full_def ids_inv_def ids_get_def claimed_def)
  moreover have "ids.content ?t j = (if j < 65500 then Some j else None)" for j
    by (simp add: ids.content_def ids_get_def)
  ultimately show ?thesis
    by (auto simp: svc_inv_def loop_ok_def crowded_def unat_of_nat_16 split: if_splits)
qed

lemma crowded_handles: "card (handles 0 crowded) = 65500"
proof -
  have "handles 0 crowded = {..<65500}" by (auto simp: handles_def crowded_def split: if_splits)
  then show ?thesis by simp
qed

theorem session_slots_run_out_witness:
  "\<exists>sid s' g old. enter_callback 0 70000 crowded = Some (sid, s') \<and> unat (sid_index sid) = 63 \<and>
     postSessionAsyncProc old crowded = Some g \<and> socket_ud s' g = Some old \<and> postSessionAsyncProc old s' = None"
  by (rule session_slots_run_out [OF crowded_inv _ crowded_handles]) (simp_all add: crowded_def)

text \<open>
  A worker never sleeps past its earliest timer: the timeout it passes to its
  loop is at most the time left, in whole milliseconds, and never negative.
\<close>

theorem worker_wakes_in_time:
  assumes "pq_inv (mTimers tm)" and "t \<in> set (mTimers tm)" and "now \<le> deadline t"
  shows "0 \<le> worker_timeout now tm \<and> now + worker_timeout now tm * 1000000 \<le> deadline t"
proof -
  have ne: "mTimers tm \<noteq> []" using assms(2) by auto
  have "deadline (pq_top (mTimers tm)) \<le> deadline t"
    using pq.top_first [OF assms(1)] assms(2) by (auto simp: CompareTimer_deadline not_less)
  moreover have near: "nearLeftTime now tm = max 0 (deadline (pq_top (mTimers tm)) - now)"
    using ne by (simp add: nearLeftTime_def getLeftTime_def deadline_def Let_def)
  ultimately have "nearLeftTime now tm \<le> deadline t - now" "0 \<le> nearLeftTime now tm" using assms(3) by auto
  then have "nearLeftTime now tm div 1000000 * 1000000 \<le> deadline t - now" "0 \<le> nearLeftTime now tm div 1000000"
    using div_mult_mod_eq [of "nearLeftTime now tm" 1000000] pos_mod_sign [of 1000000 "nearLeftTime now tm"]
    by (simp_all add: pos_imp_zdiv_nonneg_iff)
  then show ?thesis using ne by (simp add: worker_timeout_def isEmpty_def)
qed

theorem worker_wakes_in_time_witness:
  "\<exists>t\<in>set (mTimers three_timers). 0 \<le> worker_timeout 0 three_timers \<and>
     0 + worker_timeout 0 three_timers * 1000000 \<le> deadline t"
proof -
  have inv: "pq_inv (mTimers three_timers)" and ne: "mTimers three_timers \<noteq> []"
    and later: "\<forall>t\<in>set (mTimers three_timers). 0 \<le> deadline t"
    by (simp_all add: three_timers_def addTimer_def cancel_def pq_inv_def CompareTimer_def deadline_def)
  then have "hd (mTimers three_timers) \<in> set (mTimers three_timers)" by simp
  from worker_wakes_in_time [OF inv this, of 0] later this show ?thesis by blast
qed

end
