(* ===== verification/Worker.thy ===== *)
theory Worker
  imports Connection Tcp_Service
begin

text \<open>
  A worker thread with all its connections: the turns of \<open>EventLoop::loop\<close>, which
  dispatch the events of one \<open>epoll_wait\<close>, run what other threads posted, run the
  after-loop procs and the timers, together with the life of the \<open>DataSocket\<close>
  objects from \<open>onEnterEventLoop\<close> to the \<open>delete\<close> in the disconnect callback. The
  loop and the closures it holds have plain pointers to the objects. Every access
  to an object that was deleted is a fault, \<open>None\<close>, and no run has one.

  A request that the callback of one connection makes on another takes effect
  when the event that ran the callback is done.
\<close>

section \<open>Objects and loop\<close>

record ('k, 'u) channel =
  ch_sys :: 'k
  ch_user :: 'u
  ch_socket :: data_socket
  ch_log :: "ds_event list"

text \<open>
  The loop's list of after-loop procs names the object each closure belongs to;
  the objects' own lists are what this list has of each. \<open>wk_batch\<close> are the events
  of the last \<open>epoll_wait\<close> that are still to be dispatched, \<open>wk_timer\<close> says which
  objects have a heartbeat timer. An event has the channel's pointer, \<open>None\<close> for the
  wake-up channel of the loop, and the three flags that the loop tests.
\<close>

type_synonym 'h loop_event = "'h option \<times> bool \<times> bool \<times> bool"

record ('h, 'k, 'u) worker =
  wk_service :: "'h tcp_service"
  wk_channels :: "'h \<Rightarrow> ('k, 'u) channel option"
  mAfterLoopProcs :: "('h \<times> sock_proc) list"
  mCopyAfterLoopProcs :: "('h \<times> sock_proc) list"
  wk_batch :: "'h loop_event list"
  wk_completed :: nat
  mEventEntriesNum :: nat
  wk_timer :: "'h \<Rightarrow> bool"

definition Worker_new :: "'h tcp_service \<Rightarrow> ('h, 'k, 'u) worker" where
  "Worker_new svc = \<lparr>wk_service = svc, wk_channels = Map.empty, mAfterLoopProcs = [], mCopyAfterLoopProcs = [],
     wk_batch = [], wk_completed = 0, mEventEntriesNum = 1024, wk_timer = (\<lambda>_. False)\<rparr>"

definition procs_of :: "'h \<Rightarrow> ('h \<times> sock_proc) list \<Rightarrow> sock_proc list" where
  "procs_of h ps = map snd (filter (\<lambda>x. fst x = h) ps)"

text \<open>The object as the procs and events of the loop see it: with its part of the loop's list.\<close>

definition socket_view :: "'h \<Rightarrow> ('h, 'k, 'u) worker \<Rightarrow> ('k, 'u) channel \<Rightarrow> data_socket" where
  "socket_view h s c = (ch_socket c)\<lparr>ds_after := procs_of h (mAfterLoopProcs s)\<rparr>"

text \<open>A step on one object: what it pushed goes to the end of the loop's list.\<close>

definition with_channel ::
    "'h \<Rightarrow> (('k, 'u) ds_world \<Rightarrow> (('k, 'u) ds_world \<times> ds_event list) option) \<Rightarrow>
     ('h, 'k, 'u) worker \<Rightarrow> ('h, 'k, 'u) worker option" where
  "with_channel h f s =
     (case wk_channels s h of
        None \<Rightarrow> None
      | Some c \<Rightarrow>
          (case f (ch_sys c, ch_user c, socket_view h s c) of
             None \<Rightarrow> None
           | Some ((k, u, ds), evs) \<Rightarrow>
               Some (s\<lparr>wk_channels := (wk_channels s)(h \<mapsto>
                         \<lparr>ch_sys = k, ch_user = u, ch_socket = ds, ch_log = ch_log c @ evs\<rparr>),
                       mAfterLoopProcs := mAfterLoopProcs s @
                         map (Pair h) (drop (length (procs_of h (mAfterLoopProcs s))) (ds_after ds))\<rparr>)))"

section \<open>The life of an object\<close>

text \<open>
  \<open>onEnterEventLoop\<close> of a new object: \<open>nonblock\<close> and \<open>linked\<close> are the answers of the
  system. When one of them is negative the object is closed and deleted, and
  nothing is left of it; otherwise the enter callback registers it with the service
  and sets its callbacks.
\<close>

definition onEnterEventLoop ::
    "bool \<Rightarrow> bool \<Rightarrow> nat \<Rightarrow> 'h \<Rightarrow> 'k \<Rightarrow> 'u \<Rightarrow> data_socket \<Rightarrow> ('h, 'k, 'u) worker \<Rightarrow>
     (bool \<times> ('h, 'k, 'u) worker) option" where
  "onEnterEventLoop nonblock linked i h k u ds s =
     (if \<not> nonblock then Some (False, s)
      else if \<not> linked then Some (False, s)
      else case enter_callback i h (wk_service s) of
        None \<Rightarrow> None
      | Some (sid, svc) \<Rightarrow>
          Some (True, s\<lparr>wk_service := svc,
            wk_channels := (wk_channels s)(h \<mapsto> \<lparr>ch_sys = k, ch_user = u,
              ch_socket = ds_setDisConnectCallback True (ds_setDataCallback True ds), ch_log = []\<rparr>)\<rparr>))"

text \<open>The destructor cancels the heartbeat timer.\<close>

definition DataSocket_delete :: "'h \<Rightarrow> ('h, 'k, 'u) worker \<Rightarrow> ('h, 'k, 'u) worker" where
  "DataSocket_delete h s = s\<lparr>wk_channels := (wk_channels s)(h := None), wk_timer := (wk_timer s)(h := False)\<rparr>"

text \<open>The disconnect proc: the callback that the service set frees the session and deletes the object.\<close>

definition channel_disconnect :: "'h \<Rightarrow> ('h, 'k, 'u) worker \<Rightarrow> ('h, 'k, 'u) worker option" where
  "channel_disconnect h s =
     (case wk_channels s h of
        None \<Rightarrow> None
      | Some c \<Rightarrow>
          if hasDisConnectCallback (ch_socket c)
          then map_option (\<lambda>svc. DataSocket_delete h (s\<lparr>wk_service := svc\<rparr>)) (disconnect_callback h (wk_service s))
          else Some s)"

section \<open>The parts of a turn\<close>

text \<open>
  \<open>epoll_wait\<close> fills the array; when it fails there is no event. Reading the wake-up
  channel drains its counter, and its other two methods are empty.
\<close>

definition loop_wait :: "'h loop_event list \<Rightarrow> ('h, 'k, 'u) worker \<Rightarrow> ('h, 'k, 'u) worker" where
  "loop_wait batch s = s\<lparr>wk_batch := batch, wk_completed := length batch\<rparr>"

definition loop_dispatch :: "('k, 'u) ds_env \<Rightarrow> ('h, 'k, 'u) worker \<Rightarrow> ('h, 'k, 'u) worker option" where
  "loop_dispatch env s =
     (case wk_batch s of
        [] \<Rightarrow> Some s
      | (None, _) # batch \<Rightarrow> Some (s\<lparr>wk_batch := batch\<rparr>)
      | (Some h, rdhup, readable, writable) # batch \<Rightarrow>
          with_channel h (dispatch_event rdhup readable writable env) (s\<lparr>wk_batch := batch\<rparr>))"

text \<open>
  A request for a session, from a proc of another thread or a callback. The object
  is looked up when the request is carried out.
\<close>

datatype worker_request = Rq_action ds_action | Rq_heartBeat int

definition worker_post :: "session_id \<Rightarrow> worker_request \<Rightarrow> ('h, 'k, 'u) worker \<Rightarrow> ('h, 'k, 'u) worker option" where
  "worker_post sid rq s =
     (case postSessionAsyncProc sid (wk_service s) of
        None \<Rightarrow> Some s
      | Some h \<Rightarrow>
          (case rq of
             Rq_action a \<Rightarrow> with_channel h (\<lambda>(k, u, ds). Some ((k, u, run_action a ds), action_events a)) s
           | Rq_heartBeat checkTime \<Rightarrow>
               map_option (\<lambda>s. s\<lparr>wk_timer := (wk_timer s)(h := checkTime \<noteq> 0)\<rparr>)
                 (with_channel h (\<lambda>w. Some (w, [])) s)))"

definition loop_swap :: "('h, 'k, 'u) worker \<Rightarrow> ('h, 'k, 'u) worker" where
  "loop_swap s = s\<lparr>mCopyAfterLoopProcs := mAfterLoopProcs s, mAfterLoopProcs := []\<rparr>"

definition loop_proc :: "('k, 'u) ds_env \<Rightarrow> ('h, 'k, 'u) worker \<Rightarrow> ('h, 'k, 'u) worker option" where
  "loop_proc env s =
     (case mCopyAfterLoopProcs s of
        [] \<Rightarrow> Some s
      | (h, p) # ps \<Rightarrow>
          (case p of
             Proc_disconnect \<Rightarrow> channel_disconnect h (s\<lparr>mCopyAfterLoopProcs := ps\<rparr>)
           | _ \<Rightarrow>
               with_channel h (\<lambda>(k, u, ds). case run_proc (de_send env) p k ds of (k', ds', evs) \<Rightarrow> Some ((k', u, ds'), evs))
                 (s\<lparr>mCopyAfterLoopProcs := ps\<rparr>)))"

text \<open>\<open>processAfterLoopProcs\<close>: the list is swapped out and its procs run one by one.\<close>

fun loop_procs :: "('k, 'u) ds_env \<Rightarrow> nat \<Rightarrow> ('h, 'k, 'u) worker \<Rightarrow> ('h, 'k, 'u) worker option" where
  "loop_procs env 0 s = Some s"
| "loop_procs env (Suc n) s = (case loop_proc env s of None \<Rightarrow> None | Some s' \<Rightarrow> loop_procs env n s')"

definition loop_after :: "('k, 'u) ds_env \<Rightarrow> ('h, 'k, 'u) worker \<Rightarrow> ('h, 'k, 'u) worker option" where
  "loop_after env s = loop_procs env (length (mAfterLoopProcs s)) (loop_swap s)"

text \<open>
  The heartbeat timer of an object fires. It exists while its callback runs, so
  \<open>startPingCheckTimer\<close> does not start another one.
\<close>

definition worker_ping :: "'h \<Rightarrow> ('h, 'k, 'u) worker \<Rightarrow> ('h, 'k, 'u) worker option" where
  "worker_ping h s =
     with_channel h (\<lambda>(k, u, ds). Some ((k, u, if mRecvData ds then ds\<lparr>mRecvData := False\<rparr> else procCloseInLoop ds), []))
       (s\<lparr>wk_timer := (wk_timer s)(h := False)\<rparr>)"

text \<open>A full array of events is replaced by a longer one.\<close>

definition loop_grow :: "('h, 'k, 'u) worker \<Rightarrow> ('h, 'k, 'u) worker" where
  "loop_grow s =
     (if wk_completed s = mEventEntriesNum s then s\<lparr>mEventEntriesNum := mEventEntriesNum s + 128\<rparr> else s)"

text \<open>The time to wait: none while there are procs to run.\<close>

definition loop_timeout :: "int \<Rightarrow> ('h, 'k, 'u) worker \<Rightarrow> int" where
  "loop_timeout milliseconds s = (if mAfterLoopProcs s \<noteq> [] then 0 else milliseconds)"

text \<open>
  A turn of the loop. \<open>posts\<close> are the requests that other threads left, \<open>due\<close> the objects whose
  heartbeat time is over; a timer that was cancelled does not run.
\<close>

fun loop_events :: "('k, 'u) ds_env \<Rightarrow> nat \<Rightarrow> ('h, 'k, 'u) worker \<Rightarrow> ('h, 'k, 'u) worker option" where
  "loop_events env 0 s = Some s"
| "loop_events env (Suc n) s = (case loop_dispatch env s of None \<Rightarrow> None | Some s' \<Rightarrow> loop_events env n s')"

fun worker_posts :: "(session_id \<times> worker_request) list \<Rightarrow> ('h, 'k, 'u) worker \<Rightarrow> ('h, 'k, 'u) worker option" where
  "worker_posts [] s = Some s"
| "worker_posts ((sid, rq) # posts) s = (case worker_post sid rq s of None \<Rightarrow> None | Some s' \<Rightarrow> worker_posts posts s')"

fun worker_timers :: "'h list \<Rightarrow> ('h, 'k, 'u) worker \<Rightarrow> ('h, 'k, 'u) worker option" where
  "worker_timers [] s = Some s"
| "worker_timers (h # due) s =
     (case (if wk_timer s h then worker_ping h s else Some s) of None \<Rightarrow> None | Some s' \<Rightarrow> worker_timers due s')"

definition loop_front ::
    "('k, 'u) ds_env \<Rightarrow> 'h loop_event list \<Rightarrow> (session_id \<times> worker_request) list \<Rightarrow> ('h, 'k, 'u) worker \<Rightarrow>
     ('h, 'k, 'u) worker option" where
  "loop_front env batch posts s =
     (case loop_events env (length batch) (loop_wait batch s) of None \<Rightarrow> None | Some s1 \<Rightarrow> worker_posts posts s1)"

definition EventLoop_loop ::
    "('k, 'u) ds_env \<Rightarrow> 'h loop_event list \<Rightarrow> (session_id \<times> worker_request) list \<Rightarrow> 'h list \<Rightarrow> ('h, 'k, 'u) worker \<Rightarrow>
     ('h, 'k, 'u) worker option" where
  "EventLoop_loop env batch posts due s =
     (case loop_front env batch posts s of
        None \<Rightarrow> None
      | Some s1 \<Rightarrow>
          (case loop_after env s1 of None \<Rightarrow> None | Some s2 \<Rightarrow> worker_timers due (loop_grow s2)))"

section \<open>Steps\<close>

text \<open>
  What comes when: \<open>epoll_wait\<close> after the procs of the last turn are done, the
  procs after the events. The kernel reports descriptors that are open, at most as
  many as there is room for. A new object is at an address that is not in use, and the service
  has room. A timer fires when there is one.
\<close>

datatype ('h, 'k, 'u) wk_op =
    Wk_wait "'h loop_event list"
  | Wk_dispatch
  | Wk_post session_id worker_request
  | Wk_enter bool bool 'h 'k 'u size_t
  | Wk_swap
  | Wk_proc
  | Wk_ping 'h
  | Wk_grow

definition sock_open :: "('h, 'k, 'u) worker \<Rightarrow> 'h \<Rightarrow> bool" where
  "sock_open s h \<longleftrightarrow> (case wk_channels s h of None \<Rightarrow> False | Some c \<Rightarrow> mSocket (ch_socket c))"

fun wk_enabled :: "nat \<Rightarrow> ('h, 'k, 'u) wk_op \<Rightarrow> ('h, 'k, 'u) worker \<Rightarrow> bool" where
  "wk_enabled i (Wk_wait batch) s \<longleftrightarrow> wk_batch s = [] \<and> mCopyAfterLoopProcs s = [] \<and>
     list_all (\<lambda>e. pred_option (sock_open s) (fst e)) batch \<and> length batch \<le> mEventEntriesNum s"
| "wk_enabled i Wk_dispatch s \<longleftrightarrow> wk_batch s \<noteq> []"
| "wk_enabled i (Wk_post sid rq) s \<longleftrightarrow> True"
| "wk_enabled i (Wk_enter nonblock linked h k u maxsize) s \<longleftrightarrow> wk_channels s h = None \<and> unat maxsize < 2 ^ 31 \<and>
     i < length (mIOLoopDatas (wk_service s)) \<and> card (handles i (wk_service s)) < 65500 \<and>
     mNextId (mIOLoopDatas (wk_service s) ! i) < 2 ^ 31 - 1"
| "wk_enabled i Wk_swap s \<longleftrightarrow> wk_batch s = [] \<and> mCopyAfterLoopProcs s = []"
| "wk_enabled i Wk_proc s \<longleftrightarrow> mCopyAfterLoopProcs s \<noteq> []"
| "wk_enabled i (Wk_ping h) s \<longleftrightarrow> wk_timer s h"
| "wk_enabled i Wk_grow s \<longleftrightarrow> wk_batch s = [] \<and> mCopyAfterLoopProcs s = []"

fun wk_do :: "('k, 'u) ds_env \<Rightarrow> nat \<Rightarrow> ('h, 'k, 'u) wk_op \<Rightarrow> ('h, 'k, 'u) worker \<Rightarrow> ('h, 'k, 'u) worker option" where
  "wk_do env i (Wk_wait batch) s = Some (loop_wait batch s)"
| "wk_do env i Wk_dispatch s = loop_dispatch env s"
| "wk_do env i (Wk_post sid rq) s = worker_post sid rq s"
| "wk_do env i (Wk_enter nonblock linked h k u maxsize) s =
     (case DataSocket_new (de_heap env) maxsize False False of
        None \<Rightarrow> None
      | Some ds \<Rightarrow> map_option snd (onEnterEventLoop nonblock linked i h k u ds s))"
| "wk_do env i Wk_swap s = Some (loop_swap s)"
| "wk_do env i Wk_proc s = loop_proc env s"
| "wk_do env i (Wk_ping h) s = worker_ping h s"
| "wk_do env i Wk_grow s = Some (loop_grow s)"

inductive wk_reach :: "('k, 'u) ds_env \<Rightarrow> nat \<Rightarrow> ('h, 'k, 'u) worker \<Rightarrow> bool" for env i where
  wk_start: "n \<le> 65536 \<Longrightarrow> wk_reach env i (Worker_new (startWorkerThread n TcpService_new))"
| wk_next: "wk_reach env i s \<Longrightarrow> wk_enabled i x s \<Longrightarrow> wk_do env i x s = Some s' \<Longrightarrow> wk_reach env i s'"

section \<open>What steps push\<close>

text \<open>
  A step on an object pushes procs to the end of its list, the disconnect proc
  as the last and exactly when it closes the socket; a closed object pushes nothing.
\<close>

definition pushes :: "data_socket \<Rightarrow> data_socket \<Rightarrow> bool" where
  "pushes ds ds' \<longleftrightarrow> mIsPostFinalClose ds' = (\<not> mSocket ds') \<and>
     (\<exists>new. ds_after ds' = ds_after ds @ new \<and> Proc_disconnect \<notin> set (butlast new) \<and>
        (if mSocket ds then Proc_disconnect \<in> set new \<longleftrightarrow> \<not> mSocket ds' else new = [] \<and> \<not> mSocket ds'))"

lemma pushes_refl: "mIsPostFinalClose ds = (\<not> mSocket ds) \<Longrightarrow> pushes ds ds"
  by (simp add: pushes_def)

lemma pushes_trans:
  assumes "pushes ds ds1" and "pushes ds1 ds2"
  shows "pushes ds ds2"
proof -
  obtain new1 where n1: "ds_after ds1 = ds_after ds @ new1" "Proc_disconnect \<notin> set (butlast new1)"
    "if mSocket ds then Proc_disconnect \<in> set new1 \<longleftrightarrow> \<not> mSocket ds1 else new1 = [] \<and> \<not> mSocket ds1"
    using assms(1) by (auto simp: pushes_def)
  obtain new2 where n2: "ds_after ds2 = ds_after ds1 @ new2" "Proc_disconnect \<notin> set (butlast new2)"
    "if mSocket ds1 then Proc_disconnect \<in> set new2 \<longleftrightarrow> \<not> mSocket ds2 else new2 = [] \<and> \<not> mSocket ds2"
    using assms(2) by (auto simp: pushes_def)
  have "Proc_disconnect \<notin> set (butlast (new1 @ new2))"
    using n1(2,3) n2(2,3) by (cases "mSocket ds"; cases "mSocket ds1") (auto simp: butlast_append)
  moreover have "if mSocket ds then Proc_disconnect \<in> set (new1 @ new2) \<longleftrightarrow> \<not> mSocket ds2 else new1 @ new2 = [] \<and> \<not> mSocket ds2"
    using n1(3) n2(3) by (cases "mSocket ds"; cases "mSocket ds1") auto
  moreover have "mIsPostFinalClose ds2 = (\<not> mSocket ds2)" using assms(2) by (simp add: pushes_def)
  ultimately show ?thesis using n1(1) n2(1) unfolding pushes_def by auto
qed

lemma pushes_action: "mIsPostFinalClose ds = (\<not> mSocket ds) \<Longrightarrow> pushes ds (run_action a ds)"
  by (cases a) (auto simp: pushes_def ds_proc_defs)

lemma pushes_close:
  "mIsPostFinalClose ds = (\<not> mSocket ds) \<Longrightarrow> pushes ds (onClose ds)"
  "mIsPostFinalClose ds = (\<not> mSocket ds) \<Longrightarrow> pushes ds (procCloseInLoop ds)"
  by (auto simp: pushes_def ds_proc_defs)

lemma pushes_canSend: "mIsPostFinalClose ds = (\<not> mSocket ds) \<Longrightarrow> pushes ds (canSend ds)"
  by (auto simp: pushes_def canSend_def removeCheckWrite_def runAfterFlush_def)

lemma pushes_inv: "pushes ds ds' \<Longrightarrow> mIsPostFinalClose ds' = (\<not> mSocket ds')"
  by (simp add: pushes_def)

lemma pushes_actions: "mIsPostFinalClose ds = (\<not> mSocket ds) \<Longrightarrow> pushes ds (fold run_action acts ds)"
proof (induction acts arbitrary: ds)
  case (Cons a acts)
  from pushes_trans [OF pushes_action [OF Cons.prems] Cons.IH [OF pushes_inv [OF pushes_action [OF Cons.prems]]]]
  show ?case by simp
qed (simp add: pushes_refl)

lemma pushes_frame:
  assumes "mIsPostFinalClose ds = (\<not> mSocket ds)" and "recv_frame A ds ds1 evs"
  shows "pushes ds ds1"
proof -
  obtain acts b r where "ds1 = (fold run_action acts ds)\<lparr>mRecvBuffer := b, mRecvData := r\<rparr>"
    using assms(2) by (auto simp: recv_frame_def)
  with pushes_actions [OF assms(1), of acts] show ?thesis by (cases "mSocket ds") (simp_all add: pushes_def)
qed

lemma canRecv_pushes:
  assumes law: "env_law env" and inv: "conn_inv procs ds" and R: "canRecv env (k, u, ds) = Some ((k', u', ds'), evs)"
  shows "pushes ds ds'"
proof -
  obtain left where left: "recv_law (de_recv env) left" "\<forall>k. left k < de_fuel env k"
    using law by (auto simp: env_law_def)
  have fuel: "left k < de_fuel env k" using left(2) by blast
  have ok: "mIsPostFinalClose ds = (\<not> mSocket ds)" using inv by (simp add: conn_inv_def ds_ok_def)
  from ds_recv_ok [OF _ left(1) _ _ _ fuel, of "de_callback env" "de_heap env" ds u] law inv R
  obtain ds1 where F: "recv_frame (cb_acts (de_callback env)) ds ds1 evs" "ds' = ds1 \<or> ds' = procCloseInLoop ds1"
    by (auto simp: env_law_def conn_inv_def canRecv_def)
  note p = pushes_frame [OF ok F(1)]
  from F(2) p pushes_trans [OF p pushes_close(2) [OF pushes_inv [OF p]]] show ?thesis by blast
qed

lemma dispatch_pushes:
  assumes "env_law env" and "conn_inv [] ds" and "dispatch_event a b c env (k, u, ds) = Some ((k', u', ds'), evs)"
  shows "pushes ds ds'"
proof -
  have ok: "mIsPostFinalClose ds = (\<not> mSocket ds)" using assms(2) by (simp add: conn_inv_def ds_ok_def)
  obtain k1 u1 ds1 evs1 where R: "canRecv env (k, u, ds) = Some ((k1, u1, ds1), evs1)"
    using canRecv_conn [OF assms(1,2)] by blast
  note p = canRecv_pushes [OF assms(1,2) R]
  from assms(3) R p pushes_refl [OF ok] pushes_trans [OF p pushes_close(1) [OF pushes_inv [OF p]]]
    pushes_trans [OF p pushes_canSend [OF pushes_inv [OF p]]] pushes_canSend [OF ok]
  show ?thesis by (auto simp: dispatch_event_def on_socket_def split: if_splits)
qed

lemma proc_pushes:
  assumes law: "send_law sf" and inv: "conn_inv procs ds" and P: "run_proc sf p k ds = (k', ds', evs)"
  shows "pushes ds ds'"
proof (cases p)
  case Proc_flush
  let ?ds1 = "ds\<lparr>mIsPostFlush := False\<rparr>"
  have ok: "packets_ok (mSendList ?ds1)" "mIsPostFinalClose ?ds1 = (\<not> mSocket ?ds1)"
    using inv by (simp_all add: conn_inv_def ds_ok_def)
  have "pushes ds ?ds1" using ok by (simp add: pushes_def)
  moreover have "pushes ?ds1 ds'"
  proof (cases "mCanWrite ds \<and> mSocket ds")
    case True
    with P Proc_flush have "quickFlush sf k ?ds1 = (k', ds', evs)" by (simp add: run_proc_def ds_flush_def)
    from quick.flush_ok [OF ok(1) law ok(2) this [unfolded quickFlush_def]]
    obtain ds2 where ds2: "only_send ?ds1 ds2" "ds' = ds2 \<or> ds' = procCloseInLoop ds2" by blast
    have p: "pushes ?ds1 ds2" using only_sendD [OF ds2(1)] ok by (simp add: pushes_def)
    from ds2(2) p pushes_trans [OF p pushes_close(2) [OF pushes_inv [OF p]]] show ?thesis by blast
  qed (use P Proc_flush ok(2) in \<open>auto simp: run_proc_def ds_flush_def pushes_refl\<close>)
  ultimately show ?thesis by (rule pushes_trans)
next
  case Proc_disconnect
  with P inv show ?thesis by (auto simp: run_proc_def conn_inv_def ds_ok_def pushes_refl)
next
  case Proc_shutdown
  with P inv show ?thesis
    by (auto simp: run_proc_def procShutdownInLoop_def conn_inv_def ds_ok_def pushes_def split: if_splits)
qed

section \<open>The invariant\<close>

lemma procs_of_simps [simp]:
  "procs_of h [] = []" "procs_of h (ps @ qs) = procs_of h ps @ procs_of h qs"
  "procs_of h ((h', p) # ps) = (if h' = h then p # procs_of h ps else procs_of h ps)"
  "procs_of h (map (Pair h') ps') = (if h' = h then ps' else [])"
  by (auto simp: procs_of_def filter_map comp_def)

lemma procs_of_none: "procs_of h ps = [] \<Longrightarrow> h \<notin> fst ` set ps"
  by (auto simp: procs_of_def filter_empty_conv)

text \<open>The disconnect proc is the last one of its object, and there is one exactly for a closed object.\<close>

definition tidy :: "sock_proc list \<Rightarrow> bool \<Rightarrow> bool" where
  "tidy ps is_open \<longleftrightarrow> Proc_disconnect \<notin> set (butlast ps) \<and> (Proc_disconnect \<in> set ps \<longleftrightarrow> \<not> is_open)"

lemma tidy_tail: "tidy (p # ps) is_open \<Longrightarrow> p \<noteq> Proc_disconnect \<Longrightarrow> tidy ps is_open"
  by (auto simp: tidy_def split: if_splits)

lemma tidy_disconnect: "tidy (Proc_disconnect # ps) is_open \<Longrightarrow> ps = [] \<and> \<not> is_open"
  by (auto simp: tidy_def split: if_splits)

lemma tidy_pushes:
  assumes "tidy (ps @ ds_after ds) (mSocket ds)" and "pushes ds ds'"
  shows "tidy (ps @ ds_after ds') (mSocket ds')"
proof -
  obtain new where n: "ds_after ds' = ds_after ds @ new" "Proc_disconnect \<notin> set (butlast new)"
    "if mSocket ds then Proc_disconnect \<in> set new \<longleftrightarrow> \<not> mSocket ds' else new = [] \<and> \<not> mSocket ds'"
    using assms(2) by (auto simp: pushes_def)
  show ?thesis
  proof (cases "mSocket ds")
    case True
    with assms(1) have "Proc_disconnect \<notin> set (ps @ ds_after ds)" by (simp add: tidy_def)
    with n True show ?thesis
      using butlast_append [of "ps @ ds_after ds" new] by (auto simp: tidy_def dest: in_set_butlastD)
  next
    case False
    with n(1,3) assms(1) show ?thesis by simp
  qed
qed

definition channel_inv :: "'h \<Rightarrow> sock_proc list \<Rightarrow> ('h, 'k, 'u) worker \<Rightarrow> ('k, 'u) channel \<Rightarrow> bool" where
  "channel_inv h ps s c \<longleftrightarrow> conn_inv ps (socket_view h s c) \<and> hasDisConnectCallback (ch_socket c) \<and>
     duplex_run (ch_log c) ([], []) = Some (ds_abs (ch_socket c)) \<and>
     tidy (ps @ procs_of h (mAfterLoopProcs s)) (mSocket (ch_socket c))"

definition live :: "('h, 'k, 'u) worker \<Rightarrow> 'h \<Rightarrow> bool" where
  "live s h \<longleftrightarrow> wk_channels s h \<noteq> None"

text \<open>All that is kept but for the inside of one object.\<close>

definition wk_frame :: "'h option \<Rightarrow> ('h, 'k, 'u) worker \<Rightarrow> bool" where
  "wk_frame x s \<longleftrightarrow> svc_inv (wk_service s) \<and> (\<forall>h. socket_ud (wk_service s) h \<noteq> None \<longleftrightarrow> live s h) \<and>
     (\<forall>h c. Some h \<noteq> x \<longrightarrow> wk_channels s h = Some c \<longrightarrow> channel_inv h (procs_of h (mCopyAfterLoopProcs s)) s c) \<and>
     (\<forall>h. procs_of h (mCopyAfterLoopProcs s @ mAfterLoopProcs s) \<noteq> [] \<longrightarrow> live s h) \<and>
     (\<forall>e \<in> set (wk_batch s). pred_option (live s) (fst e)) \<and> (wk_batch s \<noteq> [] \<longrightarrow> mCopyAfterLoopProcs s = []) \<and>
     (\<forall>h. wk_timer s h \<longrightarrow> live s h) \<and> wk_completed s \<le> mEventEntriesNum s"

abbreviation wk_inv :: "('h, 'k, 'u) worker \<Rightarrow> bool" where
  "wk_inv s \<equiv> wk_frame None s"

lemma wk_frame_drop: "wk_inv s \<Longrightarrow> wk_frame x s"
  unfolding wk_frame_def by auto

lemma wk_inv_channel:
  "wk_inv s \<Longrightarrow> wk_channels s h = Some c \<Longrightarrow> channel_inv h (procs_of h (mCopyAfterLoopProcs s)) s c"
  by (simp add: wk_frame_def)

lemma channel_inv_other:
  assumes "procs_of h (mAfterLoopProcs s') = procs_of h (mAfterLoopProcs s)"
  shows "channel_inv h ps s' c = channel_inv h ps s c"
  using assms by (simp add: channel_inv_def socket_view_def)

lemma view_simps [simp]:
  "mSocket (socket_view h s c) = mSocket (ch_socket c)"
  "hasDisConnectCallback (socket_view h s c) = hasDisConnectCallback (ch_socket c)"
  "ds_after (socket_view h s c) = procs_of h (mAfterLoopProcs s)"
  "ds_abs (socket_view h s c) = ds_abs (ch_socket c)"
  by (simp_all add: socket_view_def ds_abs_def)

text \<open>A step on one object keeps the invariant of the whole worker.\<close>

lemma with_channel_ok:
  assumes frame: "wk_frame (Some h) s" and c: "wk_channels s h = Some c"
    and f: "f (ch_sys c, ch_user c, socket_view h s c) = Some ((k, u, ds), evs)"
    and step: "conn_step procs (socket_view h s c) (procs_of h (mCopyAfterLoopProcs s)) ds evs"
    and push: "pushes (socket_view h s c) ds"
    and tidy: "tidy (procs_of h (mCopyAfterLoopProcs s @ mAfterLoopProcs s)) (mSocket (ch_socket c))"
    and cb: "hasDisConnectCallback (ch_socket c)" and log: "duplex_run (ch_log c) ([], []) = Some (ds_abs (ch_socket c))"
  shows "\<exists>s'. with_channel h f s = Some s' \<and> wk_inv s' \<and> wk_channels s' h \<noteq> None"
proof -
  let ?A = "procs_of h (mAfterLoopProcs s)"
  let ?new = "drop (length ?A) (ds_after ds)"
  let ?c = "\<lparr>ch_sys = k, ch_user = u, ch_socket = ds, ch_log = ch_log c @ evs\<rparr>"
  let ?s = "s\<lparr>wk_channels := (wk_channels s)(h \<mapsto> ?c), mAfterLoopProcs := mAfterLoopProcs s @ map (Pair h) ?new\<rparr>"
  have W: "with_channel h f s = Some ?s" by (simp add: with_channel_def c f)
  have after: "?A @ ?new = ds_after ds" using push by (auto simp: pushes_def)
  have view: "socket_view h ?s ?c = ds" by (simp add: socket_view_def after)
  have "tidy (procs_of h (mCopyAfterLoopProcs s) @ ds_after ds) (mSocket ds)"
    using tidy_pushes [OF _ push, of "procs_of h (mCopyAfterLoopProcs s)"] tidy by simp
  moreover have "duplex_run (ch_log c @ evs) ([], []) = Some (ds_abs ds)"
    using log step by (simp add: duplex_run_append conn_step_def)
  ultimately have mine: "channel_inv h (procs_of h (mCopyAfterLoopProcs s)) ?s ?c"
    using step cb by (simp add: channel_inv_def view after conn_step_def)
  have other: "channel_inv h' ps ?s c' = channel_inv h' ps s c'" if "h' \<noteq> h" for h' ps c'
    using that by (intro channel_inv_other) simp
  have lv: "live ?s = live s" using c by (auto simp: live_def fun_eq_iff)
  have "wk_inv ?s"
    unfolding wk_frame_def lv
    using frame mine other c by (auto simp: wk_frame_def live_def)
  with W show ?thesis by auto
qed

text \<open>A step on one object in a state with the invariant.\<close>

lemma with_channel_inv:
  assumes inv: "wk_inv s" and c: "wk_channels s h = Some c"
    and f: "f (ch_sys c, ch_user c, socket_view h s c) = Some ((k, u, ds), evs)"
    and step: "conn_step (procs_of h (mCopyAfterLoopProcs s)) (socket_view h s c) (procs_of h (mCopyAfterLoopProcs s)) ds evs"
    and push: "pushes (socket_view h s c) ds"
  shows "\<exists>s'. with_channel h f s = Some s' \<and> wk_inv s' \<and> wk_channels s' h \<noteq> None"
proof -
  have "channel_inv h (procs_of h (mCopyAfterLoopProcs s)) s c" by (rule wk_inv_channel [OF inv c])
  then have "tidy (procs_of h (mCopyAfterLoopProcs s @ mAfterLoopProcs s)) (mSocket (ch_socket c))"
    and "hasDisConnectCallback (ch_socket c)" and "duplex_run (ch_log c) ([], []) = Some (ds_abs (ch_socket c))"
    by (simp_all add: channel_inv_def)
  then show ?thesis by (rule with_channel_ok [where f = f, OF wk_frame_drop [OF inv] c f step push])
qed

text \<open>The parts of the worker that an object does not see.\<close>

lemma unseen [simp]:
  "channel_inv h ps (s\<lparr>wk_batch := b\<rparr>) = channel_inv h ps s"
  "channel_inv h ps (s\<lparr>wk_timer := t\<rparr>) = channel_inv h ps s"
  "channel_inv h ps (s\<lparr>wk_completed := n\<rparr>) = channel_inv h ps s"
  "channel_inv h ps (s\<lparr>mEventEntriesNum := n\<rparr>) = channel_inv h ps s"
  "channel_inv h ps (s\<lparr>mCopyAfterLoopProcs := q\<rparr>) = channel_inv h ps s"
  "channel_inv h ps (s\<lparr>wk_service := svc\<rparr>) = channel_inv h ps s"
  "channel_inv h ps (s\<lparr>wk_channels := chs\<rparr>) = channel_inv h ps s"
  by (simp_all add: channel_inv_def socket_view_def fun_eq_iff)

lemma live_simps [simp]:
  "live (s\<lparr>wk_batch := b\<rparr>) = live s" "live (s\<lparr>wk_timer := t\<rparr>) = live s" "live (s\<lparr>wk_completed := n\<rparr>) = live s"
  "live (s\<lparr>mEventEntriesNum := n\<rparr>) = live s" "live (s\<lparr>mCopyAfterLoopProcs := q\<rparr>) = live s"
  "live (s\<lparr>mAfterLoopProcs := q\<rparr>) = live s" "live (s\<lparr>wk_service := svc\<rparr>) = live s"
  by (simp_all add: live_def fun_eq_iff)

lemma view_close: "conn_inv ps (socket_view h s c) \<Longrightarrow> mIsPostFinalClose (socket_view h s c) = (\<not> mSocket (ch_socket c))"
  by (simp add: conn_inv_def ds_ok_def)

lemma live_channel:
  assumes "wk_inv s" and "live s h"
  obtains c where "wk_channels s h = Some c" and "conn_inv (procs_of h (mCopyAfterLoopProcs s)) (socket_view h s c)"
    and "mIsPostFinalClose (socket_view h s c) = (\<not> mSocket (socket_view h s c))"
proof -
  obtain c where c: "wk_channels s h = Some c" using assms(2) by (auto simp: live_def)
  from wk_inv_channel [OF assms(1) this] have "conn_inv (procs_of h (mCopyAfterLoopProcs s)) (socket_view h s c)"
    by (simp add: channel_inv_def)
  with view_close [OF this] c that show ?thesis by simp
qed

lemma batch_inv: "wk_inv s \<Longrightarrow> wk_batch s = e # batch \<Longrightarrow> wk_inv (s\<lparr>wk_batch := batch\<rparr>)"
  by (clarsimp simp: wk_frame_def)

lemma timer_inv: "wk_inv s \<Longrightarrow> live s h \<Longrightarrow> wk_inv (s\<lparr>wk_timer := (wk_timer s)(h := b)\<rparr>)"
  by (simp add: wk_frame_def)

lemma dispatch_one:
  assumes law: "env_law env" and inv: "wk_inv s" and idle: "mCopyAfterLoopProcs s = []" and live: "live s h"
  shows "\<exists>s'. with_channel h (dispatch_event a b d env) s = Some s' \<and> wk_inv s' \<and> wk_channels s' h \<noteq> None"
proof -
  from live_channel [OF inv live] obtain c where c: "wk_channels s h = Some c"
    "conn_inv (procs_of h (mCopyAfterLoopProcs s)) (socket_view h s c)" .
  have none: "procs_of h (mCopyAfterLoopProcs s) = []" using idle by simp
  have ci: "conn_inv [] (socket_view h s c)" using c(2) unfolding none .
  from dispatch_conn [OF law ci, of a b d "ch_sys c" "ch_user c"] obtain k u ds evs where
    D: "dispatch_event a b d env (ch_sys c, ch_user c, socket_view h s c) = Some ((k, u, ds), evs)"
    "conn_step [] (socket_view h s c) [] ds evs" by blast
  show ?thesis
    by (rule with_channel_inv [where f = "dispatch_event a b d env",
          OF inv c(1) D(1) D(2) [folded none] dispatch_pushes [OF law ci D(1)]])
qed

lemma dispatch_inv:
  assumes "env_law env" and "wk_inv s" and "wk_batch s \<noteq> []"
  shows "\<exists>s'. loop_dispatch env s = Some s' \<and> wk_inv s'"
proof -
  obtain x a b d batch where B: "wk_batch s = (x, a, b, d) # batch" using assms(3) by (metis list.exhaust prod_cases4)
  let ?s = "s\<lparr>wk_batch := batch\<rparr>"
  note inv = batch_inv [OF assms(2) B]
  have copy: "mCopyAfterLoopProcs ?s = []" "pred_option (live ?s) x" using assms(2,3) B by (simp_all add: wk_frame_def)
  show ?thesis
  proof (cases x)
    case None
    with B inv show ?thesis by (simp add: loop_dispatch_def)
  next
    case (Some h)
    with copy(2) have "live ?s h" by simp
    from dispatch_one [OF assms(1) inv copy(1) this, of a b d] B Some show ?thesis by (auto simp: loop_dispatch_def)
  qed
qed

lemma post_inv:
  assumes "wk_inv s"
  shows "\<exists>s'. worker_post sid rq s = Some s' \<and> wk_inv s'"
proof (cases "postSessionAsyncProc sid (wk_service s)")
  case None
  with assms show ?thesis by (simp add: worker_post_def)
next
  case (Some h)
  have "svc_inv (wk_service s)" using assms by (simp add: wk_frame_def)
  with Some have "socket_ud (wk_service s) h = Some sid" by (simp add: post_iff)
  then have "live s h" using assms by (fastforce simp: wk_frame_def)
  from live_channel [OF assms this] obtain c where c: "wk_channels s h = Some c"
    "conn_inv (procs_of h (mCopyAfterLoopProcs s)) (socket_view h s c)"
    "mIsPostFinalClose (socket_view h s c) = (\<not> mSocket (socket_view h s c))" .
  show ?thesis
  proof (cases rq)
    case (Rq_action a)
    have "\<exists>s'. with_channel h (\<lambda>(k, u, ds). Some ((k, u, run_action a ds), action_events a)) s = Some s' \<and> wk_inv s' \<and>
        wk_channels s' h \<noteq> None"
      by (rule with_channel_inv [OF assms c(1) _ action_conn [OF c(2), of a] pushes_action [OF c(3), of a]]) simp
    then show ?thesis by (auto simp: worker_post_def Some Rq_action)
  next
    case (Rq_heartBeat t)
    have "\<exists>s'. with_channel h (\<lambda>w. Some (w, [])) s = Some s' \<and> wk_inv s' \<and> wk_channels s' h \<noteq> None"
      by (rule with_channel_inv [OF assms c(1) _ conn_step_refl [OF c(2)] pushes_refl [OF c(3)]]) simp
    then obtain s' where s': "with_channel h (\<lambda>w. Some (w, [])) s = Some s'" "wk_inv s'" "live s' h"
      unfolding live_def by blast
    from timer_inv [OF s'(2,3), of "t \<noteq> 0"] s'(1) show ?thesis by (simp add: worker_post_def Some Rq_heartBeat)
  qed
qed

lemma ping_inv:
  assumes "wk_inv s" and "wk_timer s h"
  shows "\<exists>s'. worker_ping h s = Some s' \<and> wk_inv s'"
proof -
  let ?s = "s\<lparr>wk_timer := (wk_timer s)(h := False)\<rparr>"
  let ?f = "\<lambda>ds. if mRecvData ds then ds\<lparr>mRecvData := False\<rparr> else procCloseInLoop ds"
  have live: "live s h" using assms by (simp add: wk_frame_def)
  note inv = timer_inv [OF assms(1) live, of False]
  from live have "live ?s h" by simp
  from live_channel [OF inv this] obtain c where c: "wk_channels ?s h = Some c"
    "conn_inv (procs_of h (mCopyAfterLoopProcs ?s)) (socket_view h ?s c)"
    "mIsPostFinalClose (socket_view h ?s c) = (\<not> mSocket (socket_view h ?s c))" .
  let ?v = "socket_view h ?s c" and ?ps = "procs_of h (mCopyAfterLoopProcs ?s)"
  have "conn_step ?ps ?v ?ps (?v\<lparr>mRecvData := False\<rparr>) []"
    using c(2) by (simp add: conn_step_def conn_inv_def ds_ok_def ds_abs_def owed_def)
  then have step: "conn_step ?ps ?v ?ps (?f ?v) []" using procClose_conn [OF c(2)] by (simp only: split: if_split) simp
  have "pushes ?v (?v\<lparr>mRecvData := False\<rparr>)" using c(3) by (simp add: pushes_def)
  then have push: "pushes ?v (?f ?v)" using pushes_close(2) [OF c(3)] by (simp only: split: if_split) simp
  have "\<exists>s'. with_channel h (\<lambda>(k, u, ds). Some ((k, u, ?f ds), [])) ?s = Some s' \<and> wk_inv s' \<and> wk_channels s' h \<noteq> None"
    by (rule with_channel_inv [OF inv c(1) _ step push]) simp
  then show ?thesis unfolding worker_ping_def by blast
qed

section \<open>The other steps\<close>

lemma wait_inv:
  assumes "wk_inv s" and "wk_enabled i (Wk_wait batch) s"
  shows "wk_inv (loop_wait batch s)"
proof -
  have "pred_option (sock_open s) x \<Longrightarrow> pred_option (live s) x" for x
    by (cases x) (auto simp: sock_open_def live_def split: option.splits)
  then have "\<forall>e\<in>set batch. pred_option (live s) (fst e)" using assms(2) by (auto simp: list_all_iff)
  with assms show ?thesis by (clarsimp simp: wk_frame_def loop_wait_def)
qed

lemma swap_inv:
  assumes "wk_inv s" and "mCopyAfterLoopProcs s = []" and "wk_batch s = []"
  shows "wk_inv (loop_swap s)"
proof -
  have view: "conn_inv (procs_of h (mAfterLoopProcs s)) (socket_view h (loop_swap s) c)"
    if "conn_inv [] (socket_view h s c)" for h c
    using that by (simp add: conn_inv_def ds_ok_def socket_view_def loop_swap_def)
  have "channel_inv h (procs_of h (mAfterLoopProcs s)) (loop_swap s) c" if "channel_inv h [] s c" for h c
    using that view [of h c] by (simp add: channel_inv_def loop_swap_def)
  then show ?thesis using assms by (clarsimp simp: wk_frame_def loop_swap_def)
qed

lemma grow_inv: "wk_inv s \<Longrightarrow> wk_inv (loop_grow s)"
  by (clarsimp simp: wk_frame_def loop_grow_def)

text \<open>A new object has no procs, and its address was not in use.\<close>

lemma enter_inv:
  assumes inv: "wk_inv s" and new: "DataSocket_new (de_heap env) maxsize False False = Some ds"
    and en: "wk_enabled i (Wk_enter nonblock linked h k u maxsize) s"
  shows "\<exists>r s'. onEnterEventLoop nonblock linked i h k u ds s = Some (r, s') \<and> wk_inv s'"
proof (cases "nonblock \<and> linked")
  case False
  with inv show ?thesis by (auto simp: onEnterEventLoop_def)
next
  case True
  let ?ds = "ds\<lparr>hasDataCallback := True, hasDisConnectCallback := True\<rparr>"
  let ?c = "\<lparr>ch_sys = k, ch_user = u, ch_socket = ?ds, ch_log = []\<rparr>"
  have dead: "\<not> live s h" using en by (simp add: live_def)
  with inv have fresh: "svc_inv (wk_service s)" "socket_ud (wk_service s) h = None"
    "procs_of h (mCopyAfterLoopProcs s) = []" "procs_of h (mAfterLoopProcs s) = []"
    by (auto simp: wk_frame_def)
  from enter_ok [OF fresh(1) _ fresh(2), of i] en obtain sid svc where
    E: "enter_callback i h (wk_service s) = Some (sid, svc)" "svc_inv svc" "socket_ud svc = (socket_ud (wk_service s))(h \<mapsto> sid)"
    by auto
  let ?s = "s\<lparr>wk_service := svc, wk_channels := (wk_channels s)(h \<mapsto> ?c)\<rparr>"
  have run: "onEnterEventLoop nonblock linked i h k u ds s = Some (True, ?s)"
    using True E(1) by (simp add: onEnterEventLoop_def)
  have "grow_limit maxsize" using en by (simp add: grow_limit_def)
  from new_conn [OF new this] have "conn_inv [] ds" "ds_abs ds = ([], [])" "mSocket ds" by simp_all
  moreover have "ds_after ds = []" using new by (auto simp: DataSocket_new_def)
  ultimately have mine: "channel_inv h [] s ?c"
    using fresh(4) by (simp add: channel_inv_def socket_view_def conn_inv_def ds_ok_def ds_abs_def tidy_def)
  have lv: "live ?s g \<longleftrightarrow> g = h \<or> live s g" for g by (simp add: live_def)
  have "wk_inv ?s"
    using inv mine fresh E(2,3) unfolding wk_frame_def lv
    by (clarsimp simp: fun_eq_iff pred_option_def)
  with run show ?thesis by blast
qed

text \<open>The first proc of the swapped list leaves it; only its own object sees that.\<close>

lemma pop_frame:
  assumes "wk_inv s" and "mCopyAfterLoopProcs s = (h, p) # ps"
  shows "wk_frame (Some h) (s\<lparr>mCopyAfterLoopProcs := ps\<rparr>)"
proof -
  have "procs_of g ps = procs_of g (mCopyAfterLoopProcs s)" if "g \<noteq> h" for g using assms(2) that by simp
  moreover have "live s h" using assms by (auto simp: wk_frame_def)
  ultimately show ?thesis using assms unfolding wk_frame_def by (auto split: if_splits)
qed

lemma run_proc_inv:
  assumes law: "send_law sf" and inv: "wk_inv s" and copy: "mCopyAfterLoopProcs s = (h, p) # ps" and p: "p \<noteq> Proc_disconnect"
    and c: "wk_channels s h = Some c"
  shows "\<exists>s'. with_channel h (\<lambda>(k, u, ds). case run_proc sf p k ds of (k', ds', evs) \<Rightarrow> Some ((k', u, ds'), evs))
      (s\<lparr>mCopyAfterLoopProcs := ps\<rparr>) = Some s' \<and> wk_inv s' \<and> wk_channels s' h \<noteq> None"
proof -
  let ?s = "s\<lparr>mCopyAfterLoopProcs := ps\<rparr>"
  have view: "socket_view h ?s c = socket_view h s c" by (simp add: socket_view_def)
  have ci: "channel_inv h (p # procs_of h ps) s c" using wk_inv_channel [OF inv c] copy by simp
  then have conn: "conn_inv (p # procs_of h ps) (socket_view h ?s c)" by (simp add: channel_inv_def view)
  obtain k' ds' evs where P: "run_proc sf p (ch_sys c) (socket_view h ?s c) = (k', ds', evs)"
    by (cases "run_proc sf p (ch_sys c) (socket_view h ?s c)") auto
  have step: "conn_step (p # procs_of h ps) (socket_view h ?s c) (procs_of h (mCopyAfterLoopProcs ?s)) ds' evs"
    using proc_conn [OF law conn P] by simp
  have "tidy (p # procs_of h ps @ procs_of h (mAfterLoopProcs s)) (mSocket (ch_socket c))"
    using ci by (simp add: channel_inv_def)
  then have "tidy (procs_of h (mCopyAfterLoopProcs ?s @ mAfterLoopProcs ?s)) (mSocket (ch_socket c))"
    using tidy_tail p by auto
  with ci show ?thesis
    by (intro with_channel_ok [OF pop_frame [OF inv copy] _ _ step proc_pushes [OF law conn P]])
      (simp_all add: c P channel_inv_def)
qed

text \<open>The disconnect proc is the last thing the loop has of its object.\<close>

lemma disconnect_inv:
  assumes inv: "wk_inv s" and copy: "mCopyAfterLoopProcs s = (h, Proc_disconnect) # ps" and c: "wk_channels s h = Some c"
  shows "\<exists>s'. channel_disconnect h (s\<lparr>mCopyAfterLoopProcs := ps\<rparr>) = Some s' \<and> wk_inv s'"
proof -
  have ci: "channel_inv h (Proc_disconnect # procs_of h ps) s c" using wk_inv_channel [OF inv c] copy by simp
  then have none: "procs_of h ps = []" "procs_of h (mAfterLoopProcs s) = []"
    using tidy_disconnect [of "procs_of h ps @ procs_of h (mAfterLoopProcs s)"] by (auto simp: channel_inv_def)
  have idle: "wk_batch s = []" using inv copy by (auto simp: wk_frame_def)
  have "live s h" using c by (simp add: live_def)
  with inv have "socket_ud (wk_service s) h \<noteq> None" unfolding wk_frame_def by blast
  then obtain sid where "socket_ud (wk_service s) h = Some sid" by blast
  with close_session_ok inv obtain svc where
    D: "disconnect_callback h (wk_service s) = Some svc" "svc_inv svc" "socket_ud svc = (socket_ud (wk_service s))(h := None)"
    unfolding wk_frame_def by metis
  let ?s = "DataSocket_delete h (s\<lparr>mCopyAfterLoopProcs := ps, wk_service := svc\<rparr>)"
  have run: "channel_disconnect h (s\<lparr>mCopyAfterLoopProcs := ps\<rparr>) = Some ?s"
    using ci c D(1) by (simp add: channel_disconnect_def channel_inv_def)
  have lv: "live ?s g \<longleftrightarrow> g \<noteq> h \<and> live s g" for g by (simp add: live_def DataSocket_delete_def)
  have "wk_inv ?s"
    using pop_frame [OF inv copy] none idle D(2,3) unfolding wk_frame_def lv
    by (auto simp: DataSocket_delete_def fun_eq_iff split: if_splits)
  with run show ?thesis by blast
qed

lemma proc_inv:
  assumes "env_law env" and "wk_inv s" and "mCopyAfterLoopProcs s \<noteq> []"
  shows "\<exists>s'. loop_proc env s = Some s' \<and> wk_inv s'"
proof -
  obtain h p ps where copy: "mCopyAfterLoopProcs s = (h, p) # ps" using assms(3) by (metis list.exhaust surj_pair)
  then have "live s h" using assms(2) by (auto simp: wk_frame_def)
  then obtain c where c: "wk_channels s h = Some c" by (auto simp: live_def)
  have law: "send_law (de_send env)" using assms(1) by (simp add: env_law_def)
  show ?thesis
  proof (cases "p = Proc_disconnect")
    case True
    with disconnect_inv [OF assms(2) _ c] copy show ?thesis by (simp add: loop_proc_def)
  next
    case False
    from run_proc_inv [OF law assms(2) copy False c] copy False show ?thesis
      by (cases p) (auto simp: loop_proc_def)
  qed
qed

section \<open>Runs of a worker\<close>

lemma step_inv:
  assumes "env_law env" and "wk_inv s" and "wk_enabled i x s"
  shows "\<exists>s'. wk_do env i x s = Some s' \<and> wk_inv s'"
proof (cases x)
  case (Wk_enter nonblock linked h k u maxsize)
  have "first_buffer (de_heap env) \<noteq> None"
    using assms(1) by (simp add: env_law_def first_buffer_def ox_buffer_new_def malloc_def)
  then obtain ds where ds: "DataSocket_new (de_heap env) maxsize False False = Some ds"
    by (auto simp: DataSocket_new_def)
  from enter_inv [OF assms(2) ds] assms(3) Wk_enter ds show ?thesis by fastforce
qed (use assms wait_inv dispatch_inv post_inv swap_inv proc_inv ping_inv grow_inv in auto)

lemma wk_reach_inv: "wk_reach env i s \<Longrightarrow> env_law env \<Longrightarrow> wk_inv s"
proof (induction rule: wk_reach.induct)
  case (wk_start n)
  from start_rel [OF wk_start(1)] have "svc_inv (startWorkerThread n TcpService_new)" unfolding svc_rel_def by blast
  then show ?case
    by (simp add: wk_frame_def Worker_new_def live_def startWorkerThread_def TcpService_new_def)
next
  case (wk_next s x s')
  with step_inv [OF wk_next.prems wk_next.IH [OF wk_next.prems] wk_next.hyps(2)] show ?case by simp
qed


text \<open>
  C4. The connections of a worker do not disturb each other: in every reachable
  state the events of each object are a run of the two byte streams that ends in what
  its receive buffer and its send list hold, and an object that is closed has
  exactly one disconnect proc, after all its other procs.
\<close>

theorem worker_streams:
  assumes "env_law env" and "wk_reach env i s" and "wk_channels s h = Some c"
  shows "duplex_run (ch_log c) ([], []) = Some (buffer_contents (mRecvBuffer (ch_socket c)), pending (mSendList (ch_socket c))) \<and>
    (if mSocket (ch_socket c) then Proc_disconnect \<notin> set (procs_of h (mCopyAfterLoopProcs s @ mAfterLoopProcs s))
     else \<exists>ps. procs_of h (mCopyAfterLoopProcs s @ mAfterLoopProcs s) = ps @ [Proc_disconnect] \<and> Proc_disconnect \<notin> set ps)"
proof -
  have ci: "channel_inv h (procs_of h (mCopyAfterLoopProcs s)) s c"
    by (rule wk_inv_channel [OF wk_reach_inv [OF assms(2,1)] assms(3)])
  have end_of: "\<exists>qs. ps = qs @ [Proc_disconnect] \<and> Proc_disconnect \<notin> set qs" if "tidy ps False" for ps
    using that by (cases ps rule: rev_cases) (auto simp: tidy_def)
  from ci end_of [of "procs_of h (mCopyAfterLoopProcs s) @ procs_of h (mAfterLoopProcs s)"] show ?thesis
    by (simp add: channel_inv_def tidy_def ds_abs_def)
qed

section \<open>Closed objects are freed\<close>

text \<open>A round of after-loop procs on a closed object: it stays closed and gets no proc, until it is deleted.\<close>

definition leaving :: "'h \<Rightarrow> ('h, 'k, 'u) worker \<Rightarrow> bool" where
  "leaving h s \<longleftrightarrow> (case wk_channels s h of None \<Rightarrow> True
     | Some c \<Rightarrow> \<not> mSocket (ch_socket c) \<and> procs_of h (mAfterLoopProcs s) = [])"

lemma with_channel_leaving:
  assumes lv: "leaving h s" and W: "with_channel g f s = Some s'"
    and push: "\<And>c k u ds evs. wk_channels s g = Some c \<Longrightarrow>
      f (ch_sys c, ch_user c, socket_view g s c) = Some ((k, u, ds), evs) \<Longrightarrow> pushes (socket_view g s c) ds"
  shows "leaving h s' \<and> mCopyAfterLoopProcs s' = mCopyAfterLoopProcs s"
proof -
  obtain c k u ds evs where c: "wk_channels s g = Some c" "f (ch_sys c, ch_user c, socket_view g s c) = Some ((k, u, ds), evs)"
    and s': "s' = s\<lparr>wk_channels := (wk_channels s)(g \<mapsto> \<lparr>ch_sys = k, ch_user = u, ch_socket = ds, ch_log = ch_log c @ evs\<rparr>),
      mAfterLoopProcs := mAfterLoopProcs s @ map (Pair g) (drop (length (procs_of g (mAfterLoopProcs s))) (ds_after ds))\<rparr>"
    using W by (auto simp: with_channel_def split: option.splits)
  show ?thesis
  proof (cases "g = h")
    case True
    with lv c(1) have "\<not> mSocket (socket_view g s c)" "procs_of h (mAfterLoopProcs s) = []"
      by (simp_all add: leaving_def)
    with push [OF c] True show ?thesis by (auto simp: s' leaving_def pushes_def)
  qed (use lv in \<open>simp add: s' leaving_def split: option.splits\<close>)
qed

lemma proc_leaving:
  assumes law: "env_law env" and inv: "wk_inv s" and lv: "leaving h s" and copy: "mCopyAfterLoopProcs s = (g, p) # ps"
    and P: "loop_proc env s = Some s'"
  shows "leaving h s' \<and> mCopyAfterLoopProcs s' = ps"
proof (cases "p = Proc_disconnect")
  case True
  with P copy lv show ?thesis
    by (auto simp: loop_proc_def channel_disconnect_def DataSocket_delete_def leaving_def split: option.splits if_splits)
next
  case False
  let ?s = "s\<lparr>mCopyAfterLoopProcs := ps\<rparr>"
  let ?f = "\<lambda>(k, u, ds). case run_proc (de_send env) p k ds of (k', ds', evs) \<Rightarrow> Some ((k', u, ds'), evs)"
  have W: "with_channel g ?f ?s = Some s'" using P copy False by (cases p) (simp_all add: loop_proc_def)
  have lv': "leaving h ?s" using lv by (simp add: leaving_def split: option.splits)
  have "pushes (socket_view g ?s c) ds" if "wk_channels ?s g = Some c"
    "?f (ch_sys c, ch_user c, socket_view g ?s c) = Some ((k, u, ds), evs)" for c k u ds evs
  proof -
    have law: "send_law (de_send env)" using law by (simp add: env_law_def)
    from that(1) have c: "wk_channels s g = Some c" by simp
    have view: "socket_view g ?s c = socket_view g s c" by (simp add: socket_view_def)
    have conn: "conn_inv (procs_of g (mCopyAfterLoopProcs s)) (socket_view g ?s c)"
      using wk_inv_channel [OF inv c] by (simp add: channel_inv_def view)
    from that(2) have "run_proc (de_send env) p (ch_sys c) (socket_view g ?s c) = (k, ds, evs)"
      by (auto split: prod.splits)
    from proc_pushes [OF law conn this] show ?thesis .
  qed
  from with_channel_leaving [OF lv' W this] show ?thesis by simp
qed

lemma procs_leave:
  assumes law: "env_law env"
  shows "wk_inv s \<Longrightarrow> n = length (mCopyAfterLoopProcs s) \<Longrightarrow>
    \<exists>s'. loop_procs env n s = Some s' \<and> wk_inv s' \<and> mCopyAfterLoopProcs s' = [] \<and> (\<forall>h. leaving h s \<longrightarrow> leaving h s')"
proof (induction n arbitrary: s)
  case 0
  then show ?case by simp
next
  case (Suc n)
  then obtain g p ps where copy: "mCopyAfterLoopProcs s = (g, p) # ps" by (cases "mCopyAfterLoopProcs s") auto
  then obtain s1 where s1: "loop_proc env s = Some s1" "wk_inv s1" using proc_inv [OF law Suc.prems(1)] by auto
  have pop: "leaving h s1 \<and> mCopyAfterLoopProcs s1 = ps" if "leaving h s" for h
    by (rule proc_leaving [OF law Suc.prems(1) that copy s1(1)])
  have "mCopyAfterLoopProcs s1 = ps"
    using s1(1) copy by (cases p) (auto simp: loop_proc_def with_channel_def channel_disconnect_def DataSocket_delete_def
      split: option.splits if_splits)
  with Suc.IH [OF s1(2)] Suc.prems(2) copy obtain s' where s': "loop_procs env n s1 = Some s'" "wk_inv s'"
    "mCopyAfterLoopProcs s' = []" "\<forall>h. leaving h s1 \<longrightarrow> leaving h s'" by auto
  with s1(1) pop show ?case by auto
qed

text \<open>The round deletes what was closed when it began.\<close>

lemma after_frees:
  assumes "env_law env" and "wk_inv s" and "wk_batch s = []" and "mCopyAfterLoopProcs s = []"
  shows "\<exists>s'. loop_after env s = Some s' \<and> wk_inv s' \<and> mCopyAfterLoopProcs s' = [] \<and>
    (\<forall>h c. wk_channels s h = Some c \<longrightarrow> \<not> mSocket (ch_socket c) \<longrightarrow> \<not> live s' h)"
proof -
  have inv: "wk_inv (loop_swap s)" by (rule swap_inv [OF assms(2,4,3)])
  from procs_leave [OF assms(1) inv, of "length (mAfterLoopProcs s)"] obtain s' where
    R: "loop_procs env (length (mAfterLoopProcs s)) (loop_swap s) = Some s'" "wk_inv s'" "mCopyAfterLoopProcs s' = []"
    "\<forall>h. leaving h (loop_swap s) \<longrightarrow> leaving h s'" by (auto simp: loop_swap_def)
  have "\<not> live s' h" if "wk_channels s h = Some c" "\<not> mSocket (ch_socket c)" for h c
  proof
    assume "live s' h"
    then obtain c' where c': "wk_channels s' h = Some c'" by (auto simp: live_def)
    have "leaving h s'" using R(4) that by (simp add: leaving_def loop_swap_def)
    with wk_inv_channel [OF R(2) c'] R(3) c' show False by (simp add: leaving_def channel_inv_def tidy_def)
  qed
  with R(1-3) show ?thesis unfolding loop_after_def by blast
qed

section \<open>Turns\<close>

lemma with_channel_phase:
  "with_channel h f s = Some s' \<Longrightarrow> wk_batch s' = wk_batch s \<and> mCopyAfterLoopProcs s' = mCopyAfterLoopProcs s \<and>
     live s' = live s"
  by (auto simp: with_channel_def live_def fun_eq_iff split: option.splits if_splits)

lemma events_inv:
  assumes law: "env_law env"
  shows "wk_inv s \<Longrightarrow> length (wk_batch s) = n \<Longrightarrow> mCopyAfterLoopProcs s = [] \<Longrightarrow>
    \<exists>s'. loop_events env n s = Some s' \<and> wk_inv s' \<and> wk_batch s' = [] \<and> mCopyAfterLoopProcs s' = []"
proof (induction n arbitrary: s)
  case (Suc n)
  then have "wk_batch s \<noteq> []" by auto
  from dispatch_inv [OF law Suc.prems(1) this] obtain s1 where s1: "loop_dispatch env s = Some s1" "wk_inv s1" by blast
  with Suc.prems(2,3) have "length (wk_batch s1) = n" "mCopyAfterLoopProcs s1 = []"
    by (auto simp: loop_dispatch_def split: list.splits option.splits dest!: with_channel_phase)
  from Suc.IH [OF s1(2) this] s1(1) show ?case by auto
qed simp

lemma posts_inv:
  "wk_inv s \<Longrightarrow> wk_batch s = [] \<Longrightarrow> mCopyAfterLoopProcs s = [] \<Longrightarrow>
   \<exists>s'. worker_posts posts s = Some s' \<and> wk_inv s' \<and> wk_batch s' = [] \<and> mCopyAfterLoopProcs s' = []"
proof (induction posts arbitrary: s)
  case (Cons x posts)
  obtain sid rq where x: "x = (sid, rq)" by (cases x)
  from post_inv [OF Cons.prems(1)] obtain s1 where s1: "worker_post sid rq s = Some s1" "wk_inv s1" by blast
  with Cons.prems(2,3) have "wk_batch s1 = []" "mCopyAfterLoopProcs s1 = []"
    by (auto simp: worker_post_def split: option.splits worker_request.splits dest!: with_channel_phase)
  from Cons.IH [OF s1(2) this] s1(1) x show ?case by auto
qed simp

lemma timers_inv:
  "wk_inv s \<Longrightarrow> \<exists>s'. worker_timers due s = Some s' \<and> wk_inv s' \<and> wk_batch s' = wk_batch s \<and>
     mCopyAfterLoopProcs s' = mCopyAfterLoopProcs s \<and> live s' = live s"
proof (induction due arbitrary: s)
  case (Cons h due)
  show ?case
  proof (cases "wk_timer s h")
    case True
    from ping_inv [OF Cons.prems True] obtain s1 where s1: "worker_ping h s = Some s1" "wk_inv s1" by blast
    from with_channel_phase [OF s1(1) [unfolded worker_ping_def]] Cons.IH [OF s1(2)] s1(1) True show ?thesis by auto
  qed (use Cons in simp)
qed simp

lemma loop_proc_idle: "wk_batch s = [] \<Longrightarrow> loop_proc env s = Some s' \<Longrightarrow> wk_batch s' = []"
  by (auto simp: loop_proc_def channel_disconnect_def DataSocket_delete_def
      split: list.splits sock_proc.splits option.splits if_splits dest!: with_channel_phase)

lemma loop_procs_idle: "wk_batch s = [] \<Longrightarrow> loop_procs env n s = Some s' \<Longrightarrow> wk_batch s' = []"
proof (induction n arbitrary: s)
  case (Suc n)
  then show ?case by (auto split: option.splits dest: loop_proc_idle)
qed simp


section \<open>The array of events\<close>

lemma with_channel_keeps:
  "with_channel h f s = Some s' \<Longrightarrow> mEventEntriesNum s' = mEventEntriesNum s \<and> wk_completed s' = wk_completed s"
  by (auto simp: with_channel_def split: option.splits)

lemma step_keeps_room:
  assumes "wk_do env i x s = Some s'"
  shows "mEventEntriesNum s \<le> mEventEntriesNum s' \<and> (128 dvd mEventEntriesNum s \<longrightarrow> 128 dvd mEventEntriesNum s')"
proof (cases x)
  case Wk_dispatch
  with assms show ?thesis by (auto simp: loop_dispatch_def split: list.splits option.splits dest!: with_channel_keeps)
next
  case (Wk_post sid rq)
  with assms show ?thesis
    by (auto simp: worker_post_def split: option.splits worker_request.splits dest!: with_channel_keeps)
next
  case (Wk_enter nonblock linked h k u m)
  with assms show ?thesis by (auto simp: onEnterEventLoop_def split: option.splits if_splits)
next
  case Wk_proc
  with assms show ?thesis
    by (auto simp: loop_proc_def channel_disconnect_def DataSocket_delete_def
        split: list.splits sock_proc.splits option.splits if_splits dest!: with_channel_keeps)
next
  case (Wk_ping h)
  with assms show ?thesis by (auto simp: worker_ping_def dest!: with_channel_keeps)
qed (use assms in \<open>auto simp: loop_wait_def loop_swap_def loop_grow_def\<close>)

lemma room_1024: "wk_reach env i s \<Longrightarrow> 1024 \<le> mEventEntriesNum s \<and> 128 dvd mEventEntriesNum s"
proof (induction rule: wk_reach.induct)
  case (wk_next s x s')
  with step_keeps_room [OF wk_next.hyps(3)] show ?case by linarith
qed (simp add: Worker_new_def)

section \<open>A concrete worker\<close>

definition sample_worker :: "(nat, byte list list, unit) worker" where
  "sample_worker = Worker_new (startWorkerThread 1 TcpService_new)"

lemma sample_entered:
  "\<exists>s c sid. wk_reach sample_env 0 s \<and> wk_channels s (0::nat) = Some c \<and> mSocket (ch_socket c) \<and>
     socket_ud (wk_service s) 0 = Some sid \<and> wk_batch s = [] \<and> mCopyAfterLoopProcs s = []"
proof -
  let ?x = "Wk_enter True True 0 [[1, 2], [3]] () 65536 :: (nat, byte list list, unit) wk_op"
  have start: "wk_reach sample_env 0 sample_worker" unfolding sample_worker_def by (rule wk_start) simp
  have en: "wk_enabled 0 ?x sample_worker"
    by (simp add: sample_worker_def Worker_new_def startWorkerThread_def TcpService_new_def handles_def IOLoopData_new_def)
  from step_inv [OF sample_law wk_reach_inv [OF start sample_law] en] obtain s where
    s: "wk_do sample_env 0 ?x sample_worker = Some s" "wk_inv s" by blast
  have reach: "wk_reach sample_env 0 s" by (rule wk_next [OF start en s(1)])
  from s(1) have "\<exists>c. wk_channels s 0 = Some c \<and> mSocket (ch_socket c)" "wk_batch s = []" "mCopyAfterLoopProcs s = []"
    by (auto simp: onEnterEventLoop_def DataSocket_new_def sample_worker_def Worker_new_def split: option.splits)
  moreover from this s(2) have "socket_ud (wk_service s) 0 \<noteq> None" unfolding wk_frame_def live_def by auto
  ultimately show ?thesis using reach by blast
qed

lemma sample_closed:
  "\<exists>s c. wk_reach sample_env 0 s \<and> wk_channels s (0::nat) = Some c \<and> \<not> mSocket (ch_socket c) \<and>
     wk_batch s = [] \<and> mCopyAfterLoopProcs s = []"
proof -
  obtain s c sid where s: "wk_reach sample_env 0 s" "wk_channels s (0::nat) = Some c" "mSocket (ch_socket c)"
    "socket_ud (wk_service s) 0 = Some sid" "wk_batch s = []" "mCopyAfterLoopProcs s = []" using sample_entered by blast
  note inv = wk_reach_inv [OF s(1) sample_law]
  have svc: "svc_inv (wk_service s)" using inv by (simp add: wk_frame_def)
  have calm: "\<not> mIsPostFinalClose (socket_view 0 s c)"
    using wk_inv_channel [OF inv s(2)] view_close [of "procs_of 0 (mCopyAfterLoopProcs s)" 0 s c] s(3)
    by (simp add: channel_inv_def)
  have "postSessionAsyncProc sid (wk_service s) = Some 0" using post_iff [OF svc] s(4) by blast
  then have "\<exists>s'. wk_do sample_env 0 (Wk_post sid (Rq_action Act_disconnect)) s = Some s' \<and>
      (\<exists>c. wk_channels s' 0 = Some c \<and> \<not> mSocket (ch_socket c)) \<and> wk_batch s' = [] \<and> mCopyAfterLoopProcs s' = []"
    using s calm by (auto simp: worker_post_def with_channel_def ds_proc_defs)
  with wk_next [OF s(1), of "Wk_post sid (Rq_action Act_disconnect)"] show ?thesis by auto
qed


theorem worker_streams_witness:
  "\<exists>s c ps. wk_reach sample_env 0 s \<and> wk_channels s (0::nat) = Some c \<and> \<not> mSocket (ch_socket c) \<and>
     procs_of 0 (mCopyAfterLoopProcs s @ mAfterLoopProcs s) = ps @ [Proc_disconnect] \<and> Proc_disconnect \<notin> set ps"
proof -
  obtain s c where s: "wk_reach sample_env 0 s" "wk_channels s (0::nat) = Some c" "\<not> mSocket (ch_socket c)"
    using sample_closed by blast
  from worker_streams [OF sample_law s(1,2)] s show ?thesis by auto
qed


end
