(* ===== verification/Tls.thy ===== *)
theory Tls
  imports Stream_Callback Tcp_Service
begin

text \<open>
  Connections over TLS: the part of \<open>net/DataSocket.cpp\<close> that is compiled with
  \<open>USE_OPENSSL\<close>. OpenSSL is a parameter: \<open>SSL_connect\<close> and \<open>SSL_accept\<close> answer a number
  and whether the error is one of the two that ask for another call, \<open>SSL_read\<close> and
  \<open>SSL_write\<close> stand in the place of the system calls.
\<close>

section \<open>The object\<close>

record tls_socket =
  tls_ds :: data_socket
  mSSL :: bool
  mSSLCtx :: bool
  mIsHandsharked :: bool
  mEnterCallback :: bool

definition tls_new :: "data_socket \<Rightarrow> tls_socket" where
  "tls_new ds = \<lparr>tls_ds = ds, mSSL = False, mSSLCtx = False, mIsHandsharked = False, mEnterCallback = False\<rparr>"

text \<open>\<open>set_fd\<close> says whether \<open>SSL_set_fd\<close> returns 1.\<close>

definition initAcceptSSL :: "bool \<Rightarrow> tls_socket \<Rightarrow> bool \<times> tls_socket" where
  "initAcceptSSL set_fd t = (if mSSL t then (False, t) else (set_fd, t\<lparr>mSSL := True\<rparr>))"

definition initConnectSSL :: "bool \<Rightarrow> tls_socket \<Rightarrow> bool \<times> tls_socket" where
  "initConnectSSL set_fd t = (if mSSLCtx t then (False, t) else (set_fd, t\<lparr>mSSLCtx := True, mSSL := True\<rparr>))"

definition setEnterCallback :: "tls_socket \<Rightarrow> tls_socket" where
  "setEnterCallback t = t\<lparr>mEnterCallback := True\<rparr>"

datatype tls_event = Tls_enter | Tls_ds ds_event

record ('k, 'u) tls_env =
  te_env :: "('k, 'u) ds_env"
  te_handshake :: "bool \<Rightarrow> 'k \<Rightarrow> (int \<times> bool) \<times> 'k"
  te_enter :: "ds_action list"

text \<open>The enter callback of the service sets the other callbacks; \<open>te_enter\<close> is what the user's part of it does.\<close>

definition run_enter :: "ds_action list \<Rightarrow> tls_socket \<Rightarrow> tls_socket \<times> tls_event list" where
  "run_enter acts t =
     (if mEnterCallback t
      then (t\<lparr>mEnterCallback := False,
              tls_ds := fold run_action acts (ds_setDisConnectCallback True (ds_setDataCallback True (tls_ds t)))\<rparr>,
            Tls_enter # map Tls_ds (concat (map action_events acts)))
      else (t, []))"

section \<open>Operations\<close>

text \<open>\<open>checkRead\<close> does nothing on Linux, and returns true.\<close>

definition processSSLHandshake :: "('k, 'u) tls_env \<Rightarrow> 'k \<Rightarrow> tls_socket \<Rightarrow> 'k \<times> tls_socket \<times> tls_event list" where
  "processSSLHandshake te k t =
     (if mIsHandsharked t then (k, t, [])
      else case te_handshake te (mSSLCtx t) k of ((ret, want), k') \<Rightarrow>
        if ret = 1 then (k', run_enter (te_enter te) (t\<lparr>mIsHandsharked := True\<rparr>))
        else if ret = 0 \<or> ret < 0 \<and> \<not> want
        then (case run_enter (te_enter te) t of (t', evs) \<Rightarrow> (k', t'\<lparr>tls_ds := procCloseInLoop (tls_ds t')\<rparr>, evs))
        else (k', t, []))"

type_synonym ('k, 'u) tls_world = "'k \<times> 'u \<times> tls_socket"

definition tls_canRecv :: "('k, 'u) tls_env \<Rightarrow> ('k, 'u) tls_world \<Rightarrow> (('k, 'u) tls_world \<times> tls_event list) option" where
  "tls_canRecv te w =
     (case w of (k, u, t) \<Rightarrow>
        if \<not> mIsHandsharked t \<and> mSSL t
        then case processSSLHandshake te k t of (k', t', evs) \<Rightarrow> Some ((k', u, t'), evs)
        else map_option (\<lambda>((k', u', ds'), evs). ((k', u', t\<lparr>tls_ds := ds'\<rparr>), map Tls_ds evs))
               (canRecv (te_env te) (k, u, tls_ds t)))"

definition tls_canSend :: "('k, 'u) tls_env \<Rightarrow> ('k, 'u) tls_world \<Rightarrow> ('k, 'u) tls_world \<times> tls_event list" where
  "tls_canSend te w =
     (case w of (k, u, t) \<Rightarrow>
        let ds = (removeCheckWrite (tls_ds t))\<lparr>mCanWrite := True\<rparr> in
        if \<not> mIsHandsharked t \<and> mSSL t
        then case processSSLHandshake te k (t\<lparr>tls_ds := ds\<rparr>) of (k', t', evs) \<Rightarrow> ((k', u, t'), evs)
        else ((k, u, t\<lparr>tls_ds := runAfterFlush ds\<rparr>), []))"

definition tls_dispatch ::
    "bool \<Rightarrow> bool \<Rightarrow> bool \<Rightarrow> ('k, 'u) tls_env \<Rightarrow> ('k, 'u) tls_world \<Rightarrow> (('k, 'u) tls_world \<times> tls_event list) option" where
  "tls_dispatch rdhup readable writable te w =
     (if rdhup
      then map_option (\<lambda>((k, u, t), evs). ((k, u, t\<lparr>tls_ds := onClose (tls_ds t)\<rparr>), evs)) (tls_canRecv te w)
      else case (if readable then tls_canRecv te w else Some (w, [])) of
        None \<Rightarrow> None
      | Some (w', evs) \<Rightarrow>
          Some (if writable then case tls_canSend te w' of (w'', evs') \<Rightarrow> (w'', evs @ evs') else (w', evs)))"

text \<open>With TLS \<open>flush\<close> copies into the send buffer, and \<open>SSL_write\<close> takes it from there.\<close>

definition tls_flush :: "'k send_fn \<Rightarrow> bool \<Rightarrow> 'k \<Rightarrow> data_socket \<Rightarrow> 'k \<times> data_socket \<times> ds_event list" where
  "tls_flush sf ssl k ds =
     (if \<not> mCanWrite ds \<or> \<not> mSocket ds then (k, ds, [])
      else if ssl then normalFlush sf k ds else quickFlush sf k ds)"

definition tls_proc :: "'k send_fn \<Rightarrow> bool \<Rightarrow> sock_proc \<Rightarrow> 'k \<Rightarrow> data_socket \<Rightarrow> 'k \<times> data_socket \<times> ds_event list" where
  "tls_proc sf ssl p k ds =
     (case p of Proc_flush \<Rightarrow> tls_flush sf ssl k (ds\<lparr>mIsPostFlush := False\<rparr>) | _ \<Rightarrow> run_proc sf p k ds)"

fun tls_procs :: "'k send_fn \<Rightarrow> bool \<Rightarrow> sock_proc list \<Rightarrow> 'k \<Rightarrow> data_socket \<Rightarrow> 'k \<times> data_socket \<times> ds_event list" where
  "tls_procs sf ssl [] k ds = (k, ds, [])"
| "tls_procs sf ssl (p # ps) k ds =
     (case tls_proc sf ssl p k ds of (k', ds', evs) \<Rightarrow>
        case tls_procs sf ssl ps k' ds' of (k'', ds'', evs') \<Rightarrow> (k'', ds'', evs @ evs'))"

text \<open>\<open>onEnterEventLoop\<close> once the channel is linked.\<close>

definition tls_enter :: "('k, 'u) tls_env \<Rightarrow> ('k, 'u) tls_world \<Rightarrow> ('k, 'u) tls_world \<times> tls_event list" where
  "tls_enter te w =
     (case w of (k, u, t) \<Rightarrow>
        if mSSL t then case processSSLHandshake te k t of (k', t', evs) \<Rightarrow> ((k', u, t'), evs)
        else case run_enter (te_enter te) t of (t', evs) \<Rightarrow> ((k, u, t'), evs))"

fun tls_step :: "('k, 'u) tls_env \<Rightarrow> ds_op \<Rightarrow> ('k, 'u) tls_world \<Rightarrow> (('k, 'u) tls_world \<times> tls_event list) option" where
  "tls_step te (Op_send bs cb) (k, u, t) = Some ((k, u, t\<lparr>tls_ds := ds_send bs cb (tls_ds t)\<rparr>), [Tls_ds (Ev_submit bs)])"
| "tls_step te Op_disconnect (k, u, t) = Some ((k, u, t\<lparr>tls_ds := postDisConnect (tls_ds t)\<rparr>), [])"
| "tls_step te Op_shutdown (k, u, t) = Some ((k, u, t\<lparr>tls_ds := postShutdown (tls_ds t)\<rparr>), [])"
| "tls_step te (Op_epoll rdhup readable writable) w = tls_dispatch rdhup readable writable te w"
| "tls_step te Op_after (k, u, t) =
     (case tls_procs (de_send (te_env te)) (mSSL t) (ds_after (tls_ds t)) k ((tls_ds t)\<lparr>ds_after := []\<rparr>) of
        (k', ds', evs) \<Rightarrow> Some ((k', u, t\<lparr>tls_ds := ds'\<rparr>), map Tls_ds evs))"

fun tls_run :: "('k, 'u) tls_env \<Rightarrow> ds_op list \<Rightarrow> ('k, 'u) tls_world \<Rightarrow> (('k, 'u) tls_world \<times> tls_event list) option" where
  "tls_run te [] w = Some (w, [])"
| "tls_run te (x # xs) w =
     (case tls_step te x w of
        None \<Rightarrow> None
      | Some (w', evs) \<Rightarrow> map_option (\<lambda>(w'', evs'). (w'', evs @ evs')) (tls_run te xs w'))"

text \<open>From \<open>onEnterEventLoop\<close> on.\<close>

definition tls_life :: "('k, 'u) tls_env \<Rightarrow> ds_op list \<Rightarrow> ('k, 'u) tls_world \<Rightarrow> (('k, 'u) tls_world \<times> tls_event list) option" where
  "tls_life te xs w =
     (case tls_enter te w of (w', evs) \<Rightarrow> map_option (\<lambda>(w'', evs'). (w'', evs @ evs')) (tls_run te xs w'))"

section \<open>Specification: the user is told of a connection before anything else\<close>

definition early_event :: "ds_event \<Rightarrow> bool" where
  "early_event e \<longleftrightarrow> (case e of Ev_received _ \<Rightarrow> False | Ev_data _ _ \<Rightarrow> False | Ev_disconnect \<Rightarrow> False | _ \<Rightarrow> True)"

fun enter_step :: "tls_event \<Rightarrow> bool \<Rightarrow> bool option" where
  "enter_step Tls_enter entered = (if entered then None else Some True)"
| "enter_step (Tls_ds e) entered = (if entered \<or> early_event e then Some entered else None)"

fun enter_run :: "tls_event list \<Rightarrow> bool \<Rightarrow> bool option" where
  "enter_run [] entered = Some entered"
| "enter_run (e # es) entered = Option.bind (enter_step e entered) (enter_run es)"

fun ds_events :: "tls_event list \<Rightarrow> ds_event list" where
  "ds_events [] = []"
| "ds_events (Tls_enter # es) = ds_events es"
| "ds_events (Tls_ds e # es) = e # ds_events es"

lemma enter_run_append: "enter_run (es @ fs) b = Option.bind (enter_run es b) (enter_run fs)"
proof (induction es arbitrary: b)
  case (Cons e es)
  then show ?case by (cases "enter_step e b") simp_all
qed simp

lemma enter_run_ds [simp]: "b \<or> list_all early_event es \<Longrightarrow> enter_run (map Tls_ds es) b = Some b"
  by (induction es) auto

lemma ds_events_map [simp]: "ds_events (map Tls_ds es) = es"
  by (induction es) auto

lemma ds_events_append [simp]: "ds_events (es @ fs) = ds_events es @ ds_events fs"
  by (induction es rule: ds_events.induct) auto

section \<open>Steps\<close>

definition tls_inv :: "sock_proc list \<Rightarrow> tls_socket \<Rightarrow> bool" where
  "tls_inv procs t \<longleftrightarrow> conn_inv procs (tls_ds t) \<and>
     (mEnterCallback t \<longrightarrow> mSSL t \<and> \<not> mIsHandsharked t \<and> \<not> hasDisConnectCallback (tls_ds t))"

definition tls_rel :: "sock_proc list \<Rightarrow> tls_socket \<Rightarrow> sock_proc list \<Rightarrow> tls_socket \<Rightarrow> tls_event list \<Rightarrow> bool" where
  "tls_rel procs t procs' t' evs \<longleftrightarrow> tls_inv procs' t' \<and> mSSL t' = mSSL t \<and>
     duplex_run (ds_events evs) (ds_abs (tls_ds t)) = Some (ds_abs (tls_ds t')) \<and>
     enter_run evs (\<not> mEnterCallback t) = Some (\<not> mEnterCallback t')"

lemma tls_rel_refl: "tls_inv procs t \<Longrightarrow> tls_rel procs t procs t []"
  by (simp add: tls_rel_def)

lemma tls_rel_trans:
  assumes "tls_rel procs t procs1 t1 evs" and "tls_rel procs1 t1 procs2 t2 evs'"
  shows "tls_rel procs t procs2 t2 (evs @ evs')"
  using assms by (simp add: tls_rel_def duplex_run_append enter_run_append)

text \<open>A step of the plain connection is one here when it shows nothing early.\<close>

lemma conn_tls:
  assumes "tls_inv procs t" and "conn_step procs (tls_ds t) procs' ds' evs" and "mEnterCallback t \<Longrightarrow> list_all early_event evs"
  shows "tls_rel procs t procs' (t\<lparr>tls_ds := ds'\<rparr>) (map Tls_ds evs)"
  using assms by (auto simp: tls_rel_def tls_inv_def conn_step_def)

lemma enter_tls:
  assumes inv: "tls_inv procs t" and R: "run_enter acts (t\<lparr>mIsHandsharked := b\<rparr>) = (t', evs)"
  shows "tls_rel procs t procs t' evs \<and> \<not> mEnterCallback t'"
proof (cases "mEnterCallback t")
  case False
  with R inv show ?thesis by (auto simp: run_enter_def tls_rel_def tls_inv_def)
next
  case True
  let ?ds = "(tls_ds t)\<lparr>hasDataCallback := True, hasDisConnectCallback := True\<rparr>"
  have "conn_inv procs ?ds" using inv by (simp add: tls_inv_def conn_inv_def ds_ok_def)
  from actions_conn [OF this, of acts] True R show ?thesis
    by (auto simp: run_enter_def tls_rel_def tls_inv_def conn_step_def ds_abs_def)
qed

lemma handshake_tls:
  assumes inv: "tls_inv procs t" and H: "processSSLHandshake te k t = (k', t', evs)"
  shows "tls_rel procs t procs t' evs"
proof -
  obtain ret want k1 where hs: "te_handshake te (mSSLCtx t) k = ((ret, want), k1)" by (cases "te_handshake te (mSSLCtx t) k") auto
  consider (same) "t' = t" "evs = []" | (good) "run_enter (te_enter te) (t\<lparr>mIsHandsharked := True\<rparr>) = (t', evs)"
    | (bad) t1 where "run_enter (te_enter te) (t\<lparr>mIsHandsharked := mIsHandsharked t\<rparr>) = (t1, evs)"
      "t' = t1\<lparr>tls_ds := procCloseInLoop (tls_ds t1)\<rparr>"
    using H hs by (auto simp: processSSLHandshake_def split: if_splits prod.splits)
  then show ?thesis
  proof cases
    case same
    with inv show ?thesis by (simp add: tls_rel_refl)
  next
    case good
    with enter_tls [OF inv] show ?thesis by blast
  next
    case (bad t1)
    note E = enter_tls [OF inv bad(1)]
    then have "tls_inv procs t1" by (simp add: tls_rel_def)
    moreover from this have "conn_inv procs (tls_ds t1)" by (simp add: tls_inv_def)
    ultimately have "tls_rel procs t1 procs t' []"
      using conn_tls [of procs t1 procs "procCloseInLoop (tls_ds t1)" "[]"] procClose_conn bad(2) by simp
    with E tls_rel_trans show ?thesis by fastforce
  qed
qed

lemma canRecv_tls:
  assumes law: "env_law (te_env te)" and inv: "tls_inv procs t"
  shows "\<exists>k' u' t' evs. tls_canRecv te (k, u, t) = Some ((k', u', t'), evs) \<and> tls_rel procs t procs t' evs"
proof (cases "\<not> mIsHandsharked t \<and> mSSL t")
  case True
  then show ?thesis using handshake_tls [OF inv, of te k]
    by (cases "processSSLHandshake te k t") (auto simp: tls_canRecv_def)
next
  case False
  have "conn_inv procs (tls_ds t)" using inv by (simp add: tls_inv_def)
  from canRecv_conn [OF law this, of k u] obtain k' u' ds' evs where
    R: "canRecv (te_env te) (k, u, tls_ds t) = Some ((k', u', ds'), evs)" "conn_step procs (tls_ds t) procs ds' evs" by blast
  have "\<not> mEnterCallback t" using False inv by (auto simp: tls_inv_def)
  with conn_tls [OF inv R(2)] False R(1) show ?thesis by (auto simp: tls_canRecv_def)
qed

lemma canSend_tls:
  assumes inv: "tls_inv procs t" and S: "tls_canSend te (k, u, t) = ((k', u', t'), evs)"
  shows "tls_rel procs t procs t' evs"
proof -
  let ?ds = "(removeCheckWrite (tls_ds t))\<lparr>mCanWrite := True\<rparr>"
  have step: "tls_rel procs t procs (t\<lparr>tls_ds := ?ds\<rparr>) []"
    using inv by (auto simp: tls_rel_def tls_inv_def conn_inv_def ds_ok_def ds_abs_def removeCheckWrite_def)
  then have inv': "tls_inv procs (t\<lparr>tls_ds := ?ds\<rparr>)" by (simp add: tls_rel_def)
  show ?thesis
  proof (cases "\<not> mIsHandsharked t \<and> mSSL t")
    case True
    with S have "processSSLHandshake te k (t\<lparr>tls_ds := ?ds\<rparr>) = (k', t', evs)"
      by (auto simp: tls_canSend_def Let_def split: prod.splits)
    from tls_rel_trans [OF step handshake_tls [OF inv' this]] show ?thesis by simp
  next
    case False
    have "conn_inv procs (tls_ds t)" using inv by (simp add: tls_inv_def)
    from canSend_conn [OF this] conn_tls [OF inv, of procs "canSend (tls_ds t)" "[]"] False S show ?thesis
      by (auto simp: tls_canSend_def canSend_def Let_def)
  qed
qed

lemma dispatch_tls:
  assumes law: "env_law (te_env te)" and inv: "tls_inv procs t"
  shows "\<exists>k' u' t' evs. tls_dispatch rdhup readable writable te (k, u, t) = Some ((k', u', t'), evs) \<and> tls_rel procs t procs t' evs"
proof -
  from canRecv_tls [OF law inv, of k u] obtain k1 u1 t1 evs1 where
    R: "tls_canRecv te (k, u, t) = Some ((k1, u1, t1), evs1)" "tls_rel procs t procs t1 evs1" by blast
  from R(2) have inv1: "tls_inv procs t1" by (simp add: tls_rel_def)
  then have "conn_inv procs (tls_ds t1)" by (simp add: tls_inv_def)
  from onClose_conn [OF this] have "tls_rel procs t1 procs (t1\<lparr>tls_ds := onClose (tls_ds t1)\<rparr>) []"
    using conn_tls [OF inv1, of procs "onClose (tls_ds t1)" "[]"] by simp
  note close = tls_rel_trans [OF R(2) this]
  have send: "\<exists>k' u' t' evs'. tls_canSend te (k0, u0, t0) = ((k', u', t'), evs') \<and> tls_rel procs t procs t' (evs @ evs')"
    if "tls_rel procs t procs t0 evs" for k0 u0 t0 evs
  proof -
    obtain k' u' t' evs' where S: "tls_canSend te (k0, u0, t0) = ((k', u', t'), evs')"
      by (cases "tls_canSend te (k0, u0, t0)") auto
    have "tls_inv procs t0" using that by (simp add: tls_rel_def)
    from tls_rel_trans [OF that canSend_tls [OF this S]] S show ?thesis by blast
  qed
  show ?thesis
    using R close send [OF R(2), of k1 u1] send [OF tls_rel_refl [OF inv], of k u] tls_rel_refl [OF inv]
    by (cases rdhup; cases readable; cases writable) (auto simp: tls_dispatch_def)
qed

lemma early_flush: "list_all flush_event evs \<Longrightarrow> list_all early_event evs"
  by (induction evs) (auto simp: flush_event_def early_event_def split: ds_event.splits)

lemma flush_tls:
  assumes law: "send_law sf" and inv: "conn_inv procs ds" and F: "tls_flush sf ssl k ds = (k', ds', evs)"
  shows "conn_step procs ds procs ds' evs \<and> list_all early_event evs"
proof -
  have normal: "conn_step procs ds procs ds' evs \<and> list_all early_event evs" if "mSocket ds" "normalFlush sf k ds = (k', ds', evs)"
    using normal.flushed_conn [OF law inv that(1) that(2) [unfolded normalFlush_def]] by (simp add: early_flush)
  have quick: "conn_step procs ds procs ds' evs \<and> list_all early_event evs" if "mSocket ds" "quickFlush sf k ds = (k', ds', evs)"
    using quick.flushed_conn [OF law inv that(1) that(2) [unfolded quickFlush_def]] by (simp add: early_flush)
  from F normal quick conn_step_refl [OF inv] show ?thesis by (auto simp: tls_flush_def split: if_splits)
qed

lemma proc_tls:
  assumes law: "send_law sf" and inv: "conn_inv (p # procs) ds" and P: "tls_proc sf ssl p k ds = (k', ds', evs)"
  shows "conn_step (p # procs) ds procs ds' evs \<and> (\<not> hasDisConnectCallback ds \<longrightarrow> list_all early_event evs)"
proof (cases p)
  case Proc_flush
  let ?ds1 = "ds\<lparr>mIsPostFlush := False\<rparr>"
  have step: "conn_step (p # procs) ds procs ?ds1 []"
    using inv Proc_flush by (auto simp: conn_step_def conn_inv_def owed_def ds_ok_def ds_abs_def of_bool_def split: if_splits)
  then have "conn_inv procs ?ds1" by (simp add: conn_step_def)
  from flush_tls [OF law this, of ssl k k' ds' evs] P Proc_flush conn_step_trans [OF step] show ?thesis
    by (fastforce simp: tls_proc_def)
next
  case Proc_disconnect
  with proc_conn [OF law inv] P show ?thesis by (auto simp: tls_proc_def run_proc_def)
next
  case Proc_shutdown
  with proc_conn [OF law inv] P show ?thesis
    by (auto simp: tls_proc_def run_proc_def procShutdownInLoop_def early_event_def split: if_splits)
qed

lemma procs_tls:
  assumes law: "send_law sf"
  shows "conn_inv procs ds \<Longrightarrow> tls_procs sf ssl procs k ds = (k', ds', evs) \<Longrightarrow>
    conn_step procs ds [] ds' evs \<and> (\<not> hasDisConnectCallback ds \<longrightarrow> list_all early_event evs)"
proof (induction procs arbitrary: k ds k' ds' evs)
  case Nil
  then show ?case by (simp add: conn_step_refl)
next
  case (Cons p procs)
  obtain k1 ds1 evs1 where P: "tls_proc sf ssl p k ds = (k1, ds1, evs1)" by (cases "tls_proc sf ssl p k ds") auto
  obtain k2 ds2 evs2 where R: "tls_procs sf ssl procs k1 ds1 = (k2, ds2, evs2)"
    by (cases "tls_procs sf ssl procs k1 ds1") auto
  note S = proc_tls [OF law Cons.prems(1) P]
  then have "conn_inv procs ds1" "hasDisConnectCallback ds1 = hasDisConnectCallback ds" by (simp_all add: conn_step_def)
  with conn_step_trans [OF conjunct1 [OF S]] Cons.IH [OF _ R] S R P Cons.prems(2) show ?case by auto
qed

lemma step_tls:
  assumes law: "env_law (te_env te)" and inv: "tls_inv [] t"
  shows "\<exists>k' u' t' evs. tls_step te x (k, u, t) = Some ((k', u', t'), evs) \<and> tls_rel [] t [] t' evs"
proof -
  have conn: "conn_inv [] (tls_ds t)" using inv by (simp add: tls_inv_def)
  note act = conn_tls [OF inv action_conn [OF conn]]
  show ?thesis
  proof (cases x)
    case (Op_send bs cb)
    with act [of "Act_send bs cb"] show ?thesis by (simp add: early_event_def)
  next
    case Op_disconnect
    with act [of Act_disconnect] show ?thesis by simp
  next
    case Op_shutdown
    with act [of Act_shutdown] show ?thesis by simp
  next
    case (Op_epoll h r w)
    with dispatch_tls [OF law inv] show ?thesis by simp
  next
    case Op_after
    let ?ds = "(tls_ds t)\<lparr>ds_after := []\<rparr>" and ?ps = "ds_after (tls_ds t)"
    have send: "send_law (de_send (te_env te))" using law by (simp add: env_law_def)
    have first: "conn_step [] (tls_ds t) ?ps ?ds []"
      using conn by (simp add: conn_step_def conn_inv_def owed_def ds_ok_def ds_abs_def)
    then have "conn_inv ?ps ?ds" by (simp add: conn_step_def)
    moreover obtain k' ds' evs where P: "tls_procs (de_send (te_env te)) (mSSL t) ?ps k ?ds = (k', ds', evs)"
      by (cases "tls_procs (de_send (te_env te)) (mSSL t) ?ps k ?ds") auto
    ultimately have "conn_step ?ps ?ds [] ds' evs \<and> (\<not> hasDisConnectCallback ?ds \<longrightarrow> list_all early_event evs)"
      using procs_tls [OF send] by blast
    with conn_step_trans [OF first] have "conn_step [] (tls_ds t) [] ds' evs"
      "mEnterCallback t \<longrightarrow> list_all early_event evs" using inv by (fastforce simp: tls_inv_def)+
    with conn_tls [OF inv] P Op_after show ?thesis by auto
  qed
qed

lemma run_tls:
  assumes law: "env_law (te_env te)"
  shows "tls_inv [] t \<Longrightarrow> \<exists>k' u' t' evs. tls_run te xs (k, u, t) = Some ((k', u', t'), evs) \<and> tls_rel [] t [] t' evs"
proof (induction xs arbitrary: k u t)
  case Nil
  then show ?case by (simp add: tls_rel_refl)
next
  case (Cons x xs)
  obtain k1 u1 t1 evs1 where S: "tls_step te x (k, u, t) = Some ((k1, u1, t1), evs1)" "tls_rel [] t [] t1 evs1"
    using step_tls [OF law Cons.prems] by blast
  then have "tls_inv [] t1" by (simp add: tls_rel_def)
  from Cons.IH [OF this] obtain k2 u2 t2 evs2 where
    R: "tls_run te xs (k1, u1, t1) = Some ((k2, u2, t2), evs2)" "tls_rel [] t1 [] t2 evs2" by blast
  from S R tls_rel_trans [OF S(2) R(2)] show ?case by auto
qed

text \<open>
  C14. Over TLS the user hears of a connection first: whatever OpenSSL answers and
  whatever events come, the enter callback runs at most once, no byte is received, no
  data shown and no disconnect told before it, and it has run once the handshake is
  done. The connection is the same pair of byte streams as without TLS, with
  \<open>SSL_read\<close> and \<open>SSL_write\<close> in the place of the system calls.
\<close>

theorem tls_enters_first:
  assumes "env_law (te_env te)" and "DataSocket_new (de_heap (te_env te)) maxsize False False = Some ds"
    and "unat maxsize < 2 ^ 31" and "init = initAcceptSSL \<or> init = initConnectSSL" and "init True (tls_new ds) = (r, t)"
  shows "\<exists>k' u' t' evs. tls_life te xs (k, u, setEnterCallback t) = Some ((k', u', t'), evs) \<and>
    enter_run evs False = Some (\<not> mEnterCallback t') \<and> (mIsHandsharked t' \<longrightarrow> \<not> mEnterCallback t') \<and>
    duplex_run (ds_events evs) ([], []) = Some (buffer_contents (mRecvBuffer (tls_ds t')), pending (mSendList (tls_ds t')))"
proof -
  note new = new_conn [OF assms(2) assms(3) [folded grow_limit_def]]
  have t: "tls_ds t = ds" "mSSL t" "\<not> mIsHandsharked t" using assms(4,5) by (auto simp: initAcceptSSL_def initConnectSSL_def tls_new_def)
  let ?t = "setEnterCallback t"
  have inv: "tls_inv [] ?t" using t new by (simp add: tls_inv_def setEnterCallback_def)
  obtain k1 t1 evs1 where H: "processSSLHandshake te k ?t = (k1, t1, evs1)" by (cases "processSSLHandshake te k ?t") auto
  note S = handshake_tls [OF inv H]
  then have "tls_inv [] t1" by (simp add: tls_rel_def)
  from run_tls [OF assms(1) this, of xs k1 u] obtain k2 u2 t2 evs2 where
    R: "tls_run te xs (k1, u, t1) = Some ((k2, u2, t2), evs2)" "tls_rel [] t1 [] t2 evs2" by blast
  from tls_rel_trans [OF S R(2)] have rel: "tls_rel [] ?t [] t2 (evs1 @ evs2)" .
  have "mSSL ?t" "mEnterCallback ?t" "ds_abs (tls_ds ?t) = ([], [])" using t new by (simp_all add: setEnterCallback_def)
  with rel R(1) H show ?thesis
    by (auto simp: tls_life_def tls_enter_def tls_rel_def tls_inv_def ds_abs_def)
qed

section \<open>Where it goes wrong\<close>


text \<open>\<open>SSL_read\<close> as documented: it hands over bytes of one record at most.\<close>

definition record_read :: "byte list list recv_fn" where
  "record_read k n =
     (case k of [] \<Rightarrow> (Recv_fail True, [])
      | r # k' \<Rightarrow> if length r \<le> nat n then (Recv_bytes r, k') else (Recv_bytes (take (nat n) r), drop (nat n) r # k'))"

definition is_received :: "ds_event \<Rightarrow> bool" where
  "is_received e \<longleftrightarrow> (case e of Ev_received _ \<Rightarrow> True | _ \<Rightarrow> False)"

lemma got_one_record:
  assumes "got_bytes heap dcb bs u ds = Some (u', ds', evs)"
  shows "filter is_received evs = [Ev_received bs]"
proof -
  have "filter is_received (concat (map action_events acts)) = []" for acts
    using action_events_other [of acts] by (auto simp: list_all_iff filter_empty_conv other_event_def is_received_def split: ds_event.splits)
  then show ?thesis using assms
    by (auto simp: got_bytes_def call_data_cb_def is_received_def Let_def split: bind_splits prod.splits if_splits)
qed


section \<open>The server's context\<close>

text \<open>
  \<open>net/SSLHelper.cpp\<close>. The second part of the state are the contexts that OpenSSL has given out and
  that were not freed. \<open>ctx\<close> is a new one; the flags are the answers of
  \<open>SSL_CTX_use_certificate_file\<close>, \<open>SSL_CTX_use_PrivateKey_file\<close> and \<open>SSL_CTX_check_private_key\<close>.
\<close>

type_synonym ssl_helper = "nat option \<times> nat set"

definition SSLHelper_new :: "nat set \<Rightarrow> ssl_helper" where
  "SSLHelper_new live = (None, live)"

definition initSSL :: "nat \<Rightarrow> bool \<Rightarrow> bool \<Rightarrow> bool \<Rightarrow> string \<Rightarrow> string \<Rightarrow> ssl_helper \<Rightarrow> bool \<times> ssl_helper" where
  "initSSL ctx cert_ok key_ok pair_ok certificate privatekey h =
     (case h of (mOpenSSLCTX, live) \<Rightarrow>
        if mOpenSSLCTX \<noteq> None then (False, h)
        else if certificate = [] \<or> privatekey = [] then (False, h)
        else let live = insert ctx live in
          if \<not> cert_ok then (False, None, live - {ctx})
          else if \<not> key_ok then (False, None, live - {ctx})
          else if \<not> pair_ok then (False, None, live - {ctx})
          else (True, Some ctx, live))"

definition destroySSL :: "ssl_helper \<Rightarrow> ssl_helper" where
  "destroySSL h = (case h of (Some ctx, live) \<Rightarrow> (None, live - {ctx}) | (None, live) \<Rightarrow> h)"

text \<open>Whatever is called and whatever fails, the context that is held is the only one left, and the destructor frees it.\<close>

definition helper_owns :: "nat set \<Rightarrow> ssl_helper \<Rightarrow> bool" where
  "helper_owns others h \<longleftrightarrow> snd h = others \<union> set_option (fst h) \<and> others \<inter> set_option (fst h) = {}"

lemma helper_new_owns: "helper_owns others (SSLHelper_new others)"
  by (simp add: helper_owns_def SSLHelper_new_def)

lemma initSSL_owns:
  assumes "helper_owns others h" and "ctx \<notin> snd h" and "initSSL ctx a b c certificate privatekey h = (ok, h')"
  shows "helper_owns others h' \<and> (ok \<longleftrightarrow> fst h = None \<and> certificate \<noteq> [] \<and> privatekey \<noteq> [] \<and> a \<and> b \<and> c) \<and>
    (ok \<longrightarrow> fst h' = Some ctx)"
  using assms by (cases h) (auto simp: initSSL_def helper_owns_def Let_def split: if_splits)

lemma destroySSL_owns: "helper_owns others h \<Longrightarrow> helper_owns others (destroySSL h) \<and> snd (destroySSL h) = others"
  by (cases h) (auto simp: destroySSL_def helper_owns_def split: option.splits)

section \<open>Adding a connection\<close>

text \<open>
  \<open>_addDataSocket\<close> with OpenSSL: the result, and whether the channel was deleted. \<open>ctx\<close> is the context of the
  helper that the options name, if they name one and it has one.
\<close>

definition addDataSocket_ssl ::
    "bool \<Rightarrow> nat option \<Rightarrow> bool \<Rightarrow> nat \<Rightarrow> (nat \<Rightarrow> bool) \<Rightarrow> (add_options \<Rightarrow> add_options) list \<Rightarrow> data_socket \<Rightarrow> 'h tcp_service \<Rightarrow>
     add_result \<times> bool \<times> tls_socket" where
  "addDataSocket_ssl isServerSide ctx set_fd randNum own optionFuncs ds s =
     (let options = fold (\<lambda>f. f) optionFuncs Options_new; t = tls_new ds in
      if ao_maxRecvBufferSize options \<le> 0 then (Add_throws, False, t)
      else
        let (ok, t) =
          (if ao_useSSL options
           then if isServerSide then if ctx = None then (False, t) else initAcceptSSL set_fd t
                else initConnectSSL set_fd t
           else (True, t))
        in if \<not> ok then (Add_false, True, t)
           else case helpAddChannel randNum own (ao_forceSameThreadLoop options) s of
             None \<Rightarrow> (Add_false, True, t)
           | Some loopIndex \<Rightarrow> (Add_true loopIndex, False, setEnterCallback t))"

lemma addDataSocket_ssl_plain:
  assumes "\<not> ao_useSSL (fold (\<lambda>f. f) optionFuncs Options_new)"
  shows "fst (addDataSocket_ssl server ctx set_fd randNum own optionFuncs ds s) = addDataSocket randNum own optionFuncs s"
  using assms by (simp add: addDataSocket_ssl_def addDataSocket_def Let_def split: option.splits)

text \<open>A channel that is not taken over is deleted; one that is has its TLS state exactly when the options ask for it.\<close>

lemma addDataSocket_ssl_result:
  assumes "addDataSocket_ssl server ctx set_fd randNum own optionFuncs ds s = (r, deleted, t)"
  shows "(r = Add_false \<longleftrightarrow> deleted) \<and>
    (\<forall>i. r = Add_true i \<longrightarrow> mEnterCallback t \<and> mSSL t = ao_useSSL (fold (\<lambda>f. f) optionFuncs Options_new) \<and> tls_ds t = ds)"
  using assms
  by (auto simp: addDataSocket_ssl_def Let_def initAcceptSSL_def initConnectSSL_def tls_new_def setEnterCallback_def
      split: if_splits option.splits prod.splits)

section \<open>Concrete runs\<close>

definition tls_sample :: "(byte list list, unit) tls_env" where
  "tls_sample = \<lparr>te_env = sample_env\<lparr>de_recv := record_read, de_fuel := \<lambda>k. Suc (length (concat k))\<rparr>,
     te_handshake = (\<lambda>_ k. ((1, False), k)), te_enter = [Act_send [7] None]\<rparr>"

lemma tls_sample_law: "env_law (te_env tls_sample)"
proof -
  have "recv_law record_read (\<lambda>k. length (concat k))"
    by (auto simp: recv_law_def record_read_def split: list.splits if_splits)
  with sample_law show ?thesis by (auto simp: env_law_def tls_sample_def)
qed

theorem tls_enters_first_witness:
  "\<exists>ds k' u' t' evs. DataSocket_new full_heap 65536 False False = Some ds \<and>
     tls_life tls_sample [Op_epoll False True False, Op_after]
       ([[1, 2], [3]], (), setEnterCallback (snd (initAcceptSSL True (tls_new ds)))) = Some ((k', u', t'), evs) \<and>
     enter_run evs False = Some (\<not> mEnterCallback t')"
proof -
  obtain ds where ds: "DataSocket_new (de_heap (te_env tls_sample)) 65536 False False = Some ds"
    using sample_new by (auto simp: DataSocket_new_def tls_sample_def)
  from tls_enters_first [OF tls_sample_law ds _ disjI1 [OF refl], of True "snd (initAcceptSSL True (tls_new ds))"
      "[Op_epoll False True False, Op_after]" "[[1, 2], [3]]" "()"] ds
  show ?thesis by (auto simp: initAcceptSSL_def tls_new_def tls_sample_def sample_env_def)
qed



end
