(* ===== verification/Wrap_Tcp.thy ===== *)
theory Wrap_Tcp
  imports Tcp_Service
begin

text \<open>
  Session objects on top of the TCP service, \<open>net/WrapTCPService.cpp\<close>. A session
  is created with its connection, learns its identifier when the connection
  enters a loop, and passes its requests on under that identifier. The callbacks
  of a connection hold the session they were made with.
\<close>

section \<open>Sessions\<close>

type_synonym session = nat

record 'f TCPSession =
  se_mIoLoopData :: "nat option"
  se_mSocketID :: session_id
  se_mIP :: string
  se_mDisConnectCallback :: "'f option"
  se_mDataCallback :: "'f option"

definition TCPSession_Create :: "'f TCPSession" where
  "TCPSession_Create = \<lparr>se_mIoLoopData = None, se_mSocketID = - 1, se_mIP = [], se_mDisConnectCallback = None,
     se_mDataCallback = None\<rparr>"

definition setDisConnectCallback :: "'f option \<Rightarrow> 'f TCPSession \<Rightarrow> 'f TCPSession" where
  "setDisConnectCallback callback s = s\<lparr>se_mDisConnectCallback := callback\<rparr>"

definition setDataCallback :: "'f option \<Rightarrow> 'f TCPSession \<Rightarrow> 'f TCPSession" where
  "setDataCallback callback s = s\<lparr>se_mDataCallback := callback\<rparr>"

definition setIOLoopData :: "nat option \<Rightarrow> 'f TCPSession \<Rightarrow> 'f TCPSession" where
  "setIOLoopData ioLoopData s = s\<lparr>se_mIoLoopData := ioLoopData\<rparr>"

definition setSocketID :: "session_id \<Rightarrow> 'f TCPSession \<Rightarrow> 'f TCPSession" where
  "setSocketID sid s = s\<lparr>se_mSocketID := sid\<rparr>"

definition setIP :: "string \<Rightarrow> 'f TCPSession \<Rightarrow> 'f TCPSession" where
  "setIP ip s = s\<lparr>se_mIP := ip\<rparr>"

text \<open>The service, the session objects, and the session in the callbacks of each connection.\<close>

record ('h, 'f) wrap_service =
  mTCPService :: "'h tcp_service"
  wr_sessions :: "'f TCPSession list"
  wr_captured :: "'h \<Rightarrow> session option"

definition WrapTcpService_new :: "('h, 'f) wrap_service" where
  "WrapTcpService_new = \<lparr>mTCPService = TcpService_new, wr_sessions = [], wr_captured = Map.empty\<rparr>"

definition startWorkThread :: "nat \<Rightarrow> ('h, 'f) wrap_service \<Rightarrow> ('h, 'f) wrap_service" where
  "startWorkThread threadNum w = w\<lparr>mTCPService := startWorkerThread threadNum (mTCPService w)\<rparr>"

definition stopWorkThread :: "('h, 'f) wrap_service \<Rightarrow> ('h, 'f) wrap_service" where
  "stopWorkThread w = w\<lparr>mTCPService := stopWorkerThread (mTCPService w)\<rparr>"

definition with_session ::
    "('f TCPSession \<Rightarrow> 'f TCPSession) \<Rightarrow> session \<Rightarrow> ('h, 'f) wrap_service \<Rightarrow> ('h, 'f) wrap_service" where
  "with_session f p w = w\<lparr>wr_sessions := (wr_sessions w)[p := f (wr_sessions w ! p)]\<rparr>"

section \<open>Requests\<close>

datatype request = Req_shutdown | Req_disConnect | Req_heartBeat int

text \<open>
  The connection a request of a session is carried out on, when it is carried out
  at all. \<open>send\<close> goes through the loop data the session holds, and through a null
  pointer before the session has entered a loop: the outer \<open>None\<close>.
\<close>

definition session_send :: "session \<Rightarrow> ('h, 'f) wrap_service \<Rightarrow> 'h option option" where
  "session_send p w =
     (let s = wr_sessions w ! p
      in case se_mIoLoopData s of
           None \<Rightarrow> None
         | Some loop \<Rightarrow>
             Some (IOLoopData_send (socket_ud (mTCPService w)) (se_mSocketID s) (mIOLoopDatas (mTCPService w) ! loop)))"

definition session_post :: "session \<Rightarrow> ('h, 'f) wrap_service \<Rightarrow> 'h option" where
  "session_post p w = postSessionAsyncProc (se_mSocketID (wr_sessions w ! p)) (mTCPService w)"

section \<open>Adding sessions\<close>

record 'f session_options =
  so_enterCallback :: "'f option"
  so_useSSL :: bool
  so_forceSameThreadLoop :: bool
  so_maxRecvBufferSize :: size_t

definition SessionOptions_new :: "'f session_options" where
  "SessionOptions_new = \<lparr>so_enterCallback = None, so_useSSL = False, so_forceSameThreadLoop = False, so_maxRecvBufferSize = 0\<rparr>"

definition Session_WithEnterCallback :: "'f option \<Rightarrow> 'f session_options \<Rightarrow> 'f session_options" where
  "Session_WithEnterCallback callback opt = opt\<lparr>so_enterCallback := callback\<rparr>"

definition Session_WithSSL :: "'f session_options \<Rightarrow> 'f session_options" where
  "Session_WithSSL opt = opt\<lparr>so_useSSL := True\<rparr>"

definition Session_WithMaxRecvBufferSize :: "size_t \<Rightarrow> 'f session_options \<Rightarrow> 'f session_options" where
  "Session_WithMaxRecvBufferSize n opt = opt\<lparr>so_maxRecvBufferSize := n\<rparr>"

definition Session_WithForceSameThreadLoop :: "bool \<Rightarrow> 'f session_options \<Rightarrow> 'f session_options" where
  "Session_WithForceSameThreadLoop same opt = opt\<lparr>so_forceSameThreadLoop := same\<rparr>"

text \<open>
  \<open>_addSession\<close>: a new session object, and the connection handed to the service. The
  result has the session, the user's enter callback that its connection will run, and what the
  service answered; empty options are skipped.
\<close>

definition addSession ::
    "nat \<Rightarrow> (nat \<Rightarrow> bool) \<Rightarrow> bool \<Rightarrow> ('f session_options \<Rightarrow> 'f session_options) option list \<Rightarrow>
     ('h, 'f) wrap_service \<Rightarrow> (session \<times> 'f option \<times> add_result) \<times> ('h, 'f) wrap_service" where
  "addSession randNum own isServerSide optionFuncs w =
     (let options = fold (\<lambda>v opt. case v of None \<Rightarrow> opt | Some f \<Rightarrow> f opt) optionFuncs SessionOptions_new;
          tmpSession = length (wr_sessions w);
          sslOption = (if so_useSSL options then (if isServerSide then WithServerSideSSL else WithClientSideSSL) else id);
          result = addDataSocket randNum own
            [sslOption, WithMaxRecvBufferSize (so_maxRecvBufferSize options),
             WithForceSameThreadLoop (so_forceSameThreadLoop options)] (mTCPService w)
      in ((tmpSession, so_enterCallback options, result), w\<lparr>wr_sessions := wr_sessions w @ [TCPSession_Create]\<rparr>))"

section \<open>The callbacks of a connection\<close>

datatype 'f user_call = Call_enter 'f session | Call_close 'f session | Call_data 'f session "byte list"

text \<open>
  The connection \<open>h\<close> made for session \<open>p\<close> enters a loop: the service gives it an
  identifier, the session learns it, and the user's callback runs if there is one.
\<close>

definition session_enter ::
    "session \<Rightarrow> 'f option \<Rightarrow> nat \<Rightarrow> string \<Rightarrow> 'h \<Rightarrow> ('h, 'f) wrap_service \<Rightarrow>
     ('f user_call list \<times> ('h, 'f) wrap_service) option" where
  "session_enter p userEnterCallback loopIndex ip h w =
     do {
       (sid, svc) \<leftarrow> enter_callback loopIndex h (mTCPService w);
       let loop = (if unat (sid_loopIndex sid) < length (mIOLoopDatas svc) then Some (unat (sid_loopIndex sid)) else None);
       let w = with_session (setIOLoopData loop) p (w\<lparr>mTCPService := svc, wr_captured := (wr_captured w)(h \<mapsto> p)\<rparr>);
       let w = with_session (setSocketID sid) p w;
       let w = with_session (setIP ip) p w;
       Some (case userEnterCallback of None \<Rightarrow> [] | Some f \<Rightarrow> [Call_enter f p], w)
     }"

text \<open>The connection closes: the service frees the identifier, then the user's callback runs.\<close>

definition session_close ::
    "'h \<Rightarrow> ('h, 'f) wrap_service \<Rightarrow> ('f user_call list \<times> ('h, 'f) wrap_service) option" where
  "session_close h w =
     do {
       svc \<leftarrow> disconnect_callback h (mTCPService w);
       p \<leftarrow> wr_captured w h;
       Some (case se_mDisConnectCallback (wr_sessions w ! p) of None \<Rightarrow> [] | Some f \<Rightarrow> [Call_close f p],
             w\<lparr>mTCPService := svc, wr_captured := (wr_captured w)(h := None)\<rparr>)
     }"

text \<open>The data callback: the number of bytes that the user's callback takes, none without one.\<close>

definition session_data ::
    "('f \<Rightarrow> session \<Rightarrow> byte list \<Rightarrow> nat) \<Rightarrow> 'h \<Rightarrow> byte list \<Rightarrow> ('h, 'f) wrap_service \<Rightarrow> (nat \<times> 'f user_call list) option" where
  "session_data takes h bs w =
     (case wr_captured w h of
        None \<Rightarrow> None
      | Some p \<Rightarrow>
          Some (case se_mDataCallback (wr_sessions w ! p) of
                  None \<Rightarrow> (0, [])
                | Some f \<Rightarrow> (takes f p bs, [Call_data f p bs])))"

section \<open>Runs\<close>

datatype ('h, 'f) wr_op =
    Wr_add nat "nat \<Rightarrow> bool" bool "('f session_options \<Rightarrow> 'f session_options) option list"
  | Wr_enter session "'f option" nat string 'h
  | Wr_close 'h
  | Wr_set_data session "'f option"
  | Wr_set_close session "'f option"

fun wr_step :: "('h, 'f) wr_op \<Rightarrow> ('h, 'f) wrap_service \<Rightarrow> ('h, 'f) wrap_service option" where
  "wr_step (Wr_add randNum own isServerSide fs) w = Some (snd (addSession randNum own isServerSide fs w))"
| "wr_step (Wr_enter p f i ip h) w = map_option snd (session_enter p f i ip h w)"
| "wr_step (Wr_close h) w = map_option snd (session_close h w)"
| "wr_step (Wr_set_data p f) w = Some (with_session (setDataCallback f) p w)"
| "wr_step (Wr_set_close p f) w = Some (with_session (setDisConnectCallback f) p w)"

fun wr_run :: "('h, 'f) wr_op list \<Rightarrow> ('h, 'f) wrap_service \<Rightarrow> ('h, 'f) wrap_service option" where
  "wr_run [] w = Some w"
| "wr_run (x # xs) w = do { w \<leftarrow> wr_step x w; wr_run xs w }"

text \<open>The specification: a session is new, the session of an open connection, or over.\<close>

datatype 'h session_state = Fresh | Open 'h | Over

fun spec_step :: "('h, 'f) wr_op \<Rightarrow> 'h session_state list \<Rightarrow> 'h session_state list" where
  "spec_step (Wr_add randNum own isServerSide fs) v = v @ [Fresh]"
| "spec_step (Wr_enter p f i ip h) v = v[p := Open h]"
| "spec_step (Wr_close h) v = map (\<lambda>x. if x = Open h then Over else x) v"
| "spec_step (Wr_set_data p f) v = v"
| "spec_step (Wr_set_close p f) v = v"

text \<open>
  What the environment keeps to: a connection is made for one new session and
  enters one loop, within the limits of the service; only open connections
  close; the user has only sessions there are.
\<close>

fun wr_admit :: "nat \<Rightarrow> ('h, 'f) wr_op list \<Rightarrow> 'h session_state list \<Rightarrow> ('h \<times> nat) list \<Rightarrow> (nat \<Rightarrow> int) \<Rightarrow> bool" where
  "wr_admit n [] v op cnt \<longleftrightarrow> True"
| "wr_admit n (Wr_add randNum own isServerSide fs # xs) v op cnt \<longleftrightarrow> wr_admit n xs (v @ [Fresh]) op cnt"
| "wr_admit n (Wr_enter p f i ip h # xs) v op cnt \<longleftrightarrow>
     p < length v \<and> v ! p = Fresh \<and> i < n \<and> h \<notin> fst ` set op \<and> length (filter (\<lambda>x. snd x = i) op) < 65500 \<and>
     cnt i < 2 ^ 31 - 1 \<and> wr_admit n xs (v[p := Open h]) ((h, i) # op) (cnt(i := cnt i + 1))"
| "wr_admit n (Wr_close h # xs) v op cnt \<longleftrightarrow>
     h \<in> fst ` set op \<and> wr_admit n xs (map (\<lambda>x. if x = Open h then Over else x) v) (filter (\<lambda>x. fst x \<noteq> h) op) cnt"
| "wr_admit n (Wr_set_data p f # xs) v op cnt \<longleftrightarrow> p < length v \<and> wr_admit n xs v op cnt"
| "wr_admit n (Wr_set_close p f # xs) v op cnt \<longleftrightarrow> p < length v \<and> wr_admit n xs v op cnt"

section \<open>Refinement\<close>

text \<open>What a session object holds in each of its states, given the sessions of the service.\<close>

definition session_ok :: "('h, 'f) wrap_service \<Rightarrow> 'h sessions \<Rightarrow> session \<Rightarrow> 'h session_state \<Rightarrow> bool" where
  "session_ok w st p x \<longleftrightarrow>
     (let s = wr_sessions w ! p; sid = se_mSocketID s
      in case x of
           Fresh \<Rightarrow> se_mIoLoopData s = None \<and> sid = - 1
         | Open h \<Rightarrow> sid \<in> snd st \<and> fst st sid = Some h \<and> se_mIoLoopData s = Some (unat (sid_loopIndex sid)) \<and>
             wr_captured w h = Some p
         | Over \<Rightarrow> sid \<in> snd st \<and> fst st sid = None \<and> se_mIoLoopData s = Some (unat (sid_loopIndex sid)))"

definition wr_rel ::
    "('h, 'f) wrap_service \<Rightarrow> 'h session_state list \<Rightarrow> ('h \<times> nat) list \<Rightarrow> (nat \<Rightarrow> int) \<Rightarrow> 'h sessions \<Rightarrow> bool" where
  "wr_rel w v opens cnt st \<longleftrightarrow> svc_rel (mTCPService w) opens cnt st \<and> length v = length (wr_sessions w) \<and>
     (\<forall>p < length v. session_ok w st p (v ! p)) \<and> (\<forall>h. h \<in> fst ` set opens \<longrightarrow> (\<exists>p < length v. v ! p = Open h))"

lemma session_ok_eq:
  assumes "se_mSocketID (wr_sessions w' ! q) = se_mSocketID (wr_sessions w ! q)"
    and "se_mIoLoopData (wr_sessions w' ! q) = se_mIoLoopData (wr_sessions w ! q)"
    and "\<And>h. x = Open h \<Longrightarrow> wr_captured w' h = wr_captured w h"
  shows "session_ok w' st q x = session_ok w st q x"
  using assms by (cases x) (simp_all add: session_ok_def Let_def)

lemma wr_rel_enter:
  assumes rel: "wr_rel w v opens cnt st" and p: "p < length v" "v ! p = Fresh" and n: "i < length (mIOLoopDatas (mTCPService w))"
    and h: "h \<notin> fst ` set opens" and room: "length (filter (\<lambda>x. snd x = i) opens) < 65500" "cnt i < 2 ^ 31 - 1"
  shows "\<exists>evs w' st'. session_enter p f i ip h w = Some (evs, w') \<and>
    wr_rel w' (v[p := Open h]) ((h, i) # opens) (cnt(i := cnt i + 1)) st' \<and>
    length (mIOLoopDatas (mTCPService w')) = length (mIOLoopDatas (mTCPService w))"
proof -
  have svc: "svc_rel (mTCPService w) opens cnt st" and len: "length v = length (wr_sessions w)"
    and ok: "\<And>q. q < length v \<Longrightarrow> session_ok w st q (v ! q)" and all: "\<And>h. h \<in> fst ` set opens \<Longrightarrow> \<exists>p < length v. v ! p = Open h"
    using rel unfolding wr_rel_def by blast+
  obtain sid s' st' where E: "enter_callback i h (mTCPService w) = Some (sid, s')" "sess_step (Ts_entered sid h) st = Some st'"
    "svc_rel s' ((h, i) # opens) (cnt(i := cnt i + 1)) st'" "length (mIOLoopDatas s') = length (mIOLoopDatas (mTCPService w))"
    using rel_enter [OF svc n h room] by blast
  have st': "sid \<notin> snd st" "st' = ((fst st)(sid \<mapsto> h), insert sid (snd st))"
    using E(2) by (cases st; auto split: if_splits)+
  have "unat (sid_loopIndex sid) < length (mIOLoopDatas s')" using E(3) st'(2) by (simp add: svc_rel_def)
  then have "\<exists>evs. session_enter p f i ip h w = Some (evs, w\<lparr>mTCPService := s', wr_captured := (wr_captured w)(h \<mapsto> p),
      wr_sessions := (wr_sessions w)[p := (wr_sessions w ! p)\<lparr>se_mIoLoopData := Some (unat (sid_loopIndex sid)),
        se_mSocketID := sid, se_mIP := ip\<rparr>]\<rparr>)"
    using E(1) p(1) len by (simp add: session_enter_def with_session_def setIOLoopData_def setSocketID_def setIP_def)
  then obtain w' evs where W: "session_enter p f i ip h w = Some (evs, w')" "mTCPService w' = s'"
    "wr_captured w' = (wr_captured w)(h \<mapsto> p)"
    "wr_sessions w' = (wr_sessions w)[p := (wr_sessions w ! p)\<lparr>se_mIoLoopData := Some (unat (sid_loopIndex sid)),
       se_mSocketID := sid, se_mIP := ip\<rparr>]"
    by fastforce
  have open_h: "v ! q \<noteq> Open h" if "q < length v" for q
  proof
    assume "v ! q = Open h"
    with ok [OF that] svc have "postSessionAsyncProc (se_mSocketID (wr_sessions w ! q)) (mTCPService w) = Some h"
      by (simp add: session_ok_def svc_rel_def Let_def)
    with svc have "socket_ud (mTCPService w) h = Some (se_mSocketID (wr_sessions w ! q))"
      using post_iff [of "mTCPService w"] by (simp add: svc_rel_def)
    with svc h show False unfolding svc_rel_def by (metis map_of_eq_None_iff not_None_eq)
  qed
  have "session_ok w' st' q (v[p := Open h] ! q)" if "q < length v" for q
  proof (cases "q = p")
    case False
    have "session_ok w' st q (v ! q) = session_ok w st q (v ! q)"
      using False open_h [OF that] by (intro session_ok_eq) (auto simp: W(3,4))
    with ok [OF that] have "session_ok w' st q (v ! q)" by simp
    with st' False show ?thesis by (cases "v ! q") (auto simp: session_ok_def Let_def)
  qed (use that W(3,4) st'(2) len in \<open>simp add: session_ok_def\<close>)
  moreover have "\<exists>q < length v. v[p := Open h] ! q = Open g" if g: "g \<in> fst ` set ((h, i) # opens)" for g
  proof (cases "g = h")
    case False
    with g all [of g] obtain q where "q < length v" "v ! q = Open g" by auto
    moreover from this p(2) have "q \<noteq> p" by auto
    ultimately show ?thesis by (intro exI [of _ q]) simp
  qed (use p(1) in auto)
  ultimately have "wr_rel w' (v[p := Open h]) ((h, i) # opens) (cnt(i := cnt i + 1)) st'"
    using W(2,4) E(3) len unfolding wr_rel_def by simp
  with W(1,2) E(4) show ?thesis by blast
qed

lemma wr_rel_close:
  assumes rel: "wr_rel w v opens cnt st" and h: "h \<in> fst ` set opens"
  shows "\<exists>evs w' st'. session_close h w = Some (evs, w') \<and>
    wr_rel w' (map (\<lambda>x. if x = Open h then Over else x) v) (filter (\<lambda>x. fst x \<noteq> h) opens) cnt st' \<and>
    length (mIOLoopDatas (mTCPService w')) = length (mIOLoopDatas (mTCPService w))"
proof -
  have svc: "svc_rel (mTCPService w) opens cnt st" and len: "length v = length (wr_sessions w)"
    and ok: "\<And>q. q < length v \<Longrightarrow> session_ok w st q (v ! q)" and all: "\<And>h. h \<in> fst ` set opens \<Longrightarrow> \<exists>p < length v. v ! p = Open h"
    using rel unfolding wr_rel_def by blast+
  have inv: "svc_inv (mTCPService w)" and m: "fst st = (\<lambda>sid. postSessionAsyncProc sid (mTCPService w))"
    using svc by (simp_all add: svc_rel_def)
  obtain sid s' st' where E: "socket_ud (mTCPService w) h = Some sid" "disconnect_callback h (mTCPService w) = Some s'"
    "sess_step (Ts_closed sid h) st = Some st'" "svc_rel s' (filter (\<lambda>x. fst x \<noteq> h) opens) cnt st'"
    "length (mIOLoopDatas s') = length (mIOLoopDatas (mTCPService w))"
    using rel_close [OF svc h] by blast
  have st': "st' = ((fst st)(sid := None), snd st)" using E(3) by (cases st; auto split: if_splits)
  have same: "fst st x = Some h \<longleftrightarrow> x = sid" for x using post_iff [OF inv, of x h] E(1) by (auto simp: m)
  have mine: "fst st sid = Some h" by (simp add: same)
  obtain p where p: "p < length v" "v ! p = Open h" using all [OF h] by blast
  then have "wr_captured w h = Some p" using ok [OF p(1)] by (simp add: session_ok_def Let_def)
  then have "\<exists>evs. session_close h w = Some (evs, w\<lparr>mTCPService := s', wr_captured := (wr_captured w)(h := None)\<rparr>)"
    using E(2) by (simp add: session_close_def)
  then obtain w' evs where W: "session_close h w = Some (evs, w')" "mTCPService w' = s'"
    "wr_captured w' = (wr_captured w)(h := None)" "wr_sessions w' = wr_sessions w"
    by fastforce
  let ?v = "map (\<lambda>x. if x = Open h then Over else x) v"
  have "session_ok w' st' q (?v ! q)" if "q < length v" for q
    using ok [OF that] that st' mine W(3,4) by (cases "v ! q") (auto simp: session_ok_def Let_def dest: same [THEN iffD1])
  moreover have "\<exists>q < length v. ?v ! q = Open g" if g: "g \<in> fst ` set (filter (\<lambda>x. fst x \<noteq> h) opens)" for g
    using all [of g] g by fastforce
  ultimately have "wr_rel w' ?v (filter (\<lambda>x. fst x \<noteq> h) opens) cnt st'"
    using W(2,4) E(4) len unfolding wr_rel_def by simp
  with W(1,2) E(5) show ?thesis by blast
qed

lemma wr_rel_add:
  assumes "wr_rel w v opens cnt st"
  shows "wr_rel (w\<lparr>wr_sessions := wr_sessions w @ [TCPSession_Create]\<rparr>) (v @ [Fresh]) opens cnt st" (is "wr_rel ?w _ _ _ _")
proof -
  have len: "length v = length (wr_sessions w)" and ok: "\<And>q. q < length v \<Longrightarrow> session_ok w st q (v ! q)"
    and all: "\<And>h. h \<in> fst ` set opens \<Longrightarrow> \<exists>p < length v. v ! p = Open h"
    using assms unfolding wr_rel_def by blast+
  have "session_ok ?w st q ((v @ [Fresh]) ! q)" if "q < Suc (length v)" for q
  proof (cases "q < length v")
    case True
    then have "wr_sessions ?w ! q = wr_sessions w ! q" by (simp add: len nth_append)
    then have "session_ok ?w st q (v ! q) = session_ok w st q (v ! q)" by (intro session_ok_eq) simp_all
    with ok [OF True] True show ?thesis by (simp add: nth_append)
  next
    case False
    then have "q = length v" using that by simp
    then show ?thesis by (simp add: session_ok_def Let_def TCPSession_Create_def nth_append len)
  qed
  moreover have "\<exists>p < Suc (length v). (v @ [Fresh]) ! p = Open h" if "h \<in> fst ` set opens" for h
    using all [OF that] by (metis less_SucI nth_append)
  ultimately show ?thesis using assms by (simp add: wr_rel_def)
qed

lemma session_ok_with:
  assumes "q < length (wr_sessions w)" and "\<And>s. se_mSocketID (f s) = se_mSocketID s" and "\<And>s. se_mIoLoopData (f s) = se_mIoLoopData s"
  shows "session_ok (with_session f p w) st q x = session_ok w st q x"
proof -
  have "se_mSocketID (wr_sessions (with_session f p w) ! q) = se_mSocketID (wr_sessions w ! q)"
    "se_mIoLoopData (wr_sessions (with_session f p w) ! q) = se_mIoLoopData (wr_sessions w ! q)"
    "wr_captured (with_session f p w) = wr_captured w"
    using assms by (cases "p = q"; simp add: with_session_def)+
  then show ?thesis by (intro session_ok_eq) simp_all
qed

lemma wr_rel_with:
  assumes "wr_rel w v opens cnt st" and "\<And>s. se_mSocketID (f s) = se_mSocketID s" and "\<And>s. se_mIoLoopData (f s) = se_mIoLoopData s"
  shows "wr_rel (with_session f p w) v opens cnt st"
proof -
  have "session_ok (with_session f p w) st q (v ! q) = session_ok w st q (v ! q)" if "q < length v" for q
    using assms that by (intro session_ok_with) (simp_all add: wr_rel_def)
  moreover have "mTCPService (with_session f p w) = mTCPService w" "length (wr_sessions (with_session f p w)) = length (wr_sessions w)"
    by (simp_all add: with_session_def)
  ultimately show ?thesis using assms(1) unfolding wr_rel_def by (elim conjE, intro conjI) simp_all
qed

lemma wr_run_rel:
  "wr_rel w v opens cnt st \<Longrightarrow> wr_admit (length (mIOLoopDatas (mTCPService w))) xs v opens cnt \<Longrightarrow>
   \<exists>w' opens' cnt' st'. wr_run xs w = Some w' \<and> wr_rel w' (fold spec_step xs v) opens' cnt' st'"
proof (induction xs arbitrary: w v opens cnt st)
  case (Cons x xs)
  obtain w1 opens1 cnt1 st1 where S: "wr_step x w = Some w1" "wr_rel w1 (spec_step x v) opens1 cnt1 st1"
    "wr_admit (length (mIOLoopDatas (mTCPService w1))) xs (spec_step x v) opens1 cnt1"
  proof (cases x)
    case (Wr_add randNum own isServerSide fs)
    then show ?thesis using Cons.prems(2) wr_rel_add [OF Cons.prems(1)]
      by (intro that [of "w\<lparr>wr_sessions := wr_sessions w @ [TCPSession_Create]\<rparr>" opens cnt st]) (simp_all add: addSession_def Let_def)
  next
    case (Wr_enter p f i ip h)
    then show ?thesis using wr_rel_enter [OF Cons.prems(1), of p i h f ip] Cons.prems(2)
      by (auto intro!: that)
  next
    case (Wr_close h)
    then show ?thesis using wr_rel_close [OF Cons.prems(1), of h] Cons.prems(2) by (auto intro!: that)
  next
    case (Wr_set_data p f)
    let ?w = "with_session (setDataCallback f) p w"
    have "wr_rel ?w v opens cnt st" using Cons.prems(1) by (rule wr_rel_with) (simp_all add: setDataCallback_def)
    then show ?thesis using Cons.prems(2) Wr_set_data by (intro that [of ?w opens cnt st]) (simp_all add: with_session_def)
  next
    case (Wr_set_close p f)
    let ?w = "with_session (setDisConnectCallback f) p w"
    have "wr_rel ?w v opens cnt st" using Cons.prems(1) by (rule wr_rel_with) (simp_all add: setDisConnectCallback_def)
    then show ?thesis using Cons.prems(2) Wr_set_close by (intro that [of ?w opens cnt st]) (simp_all add: with_session_def)
  qed
  from Cons.IH [OF S(2,3)] S(1) show ?case by auto
qed auto

text \<open>The identifier of a session that has not entered a loop names nothing.\<close>

lemma minus_one_unused:
  assumes "svc_inv s"
  shows "postSessionAsyncProc (- 1) s = None"
proof (rule ccontr)
  assume "postSessionAsyncProc (- 1) s \<noteq> None"
  then obtain h where "socket_ud s h = Some (- 1)" using post_iff [OF assms] by blast
  let ?l = "mIOLoopDatas s ! unat (sid_loopIndex (- 1))"
  have ud: "unat (sid_loopIndex (- 1)) < length (mIOLoopDatas s)"
    "ids.content (mDataSockets ?l) (unat (sid_index (- 1))) = Some h"
    using assms \<open>socket_ud s h = Some (- 1)\<close> by (simp_all add: svc_inv_def)
  then have "loop_ok (unat (sid_loopIndex (- 1))) (socket_ud s) ?l" using assms by (simp add: svc_inv_def)
  with ud(2) \<open>socket_ud s h = Some (- 1)\<close> have "uint (sid_iid (- 1)) < mNextId ?l" "mNextId ?l < 2 ^ 31"
    unfolding loop_ok_def by force+
  moreover have "sid_iid (- 1) = - 1" by (rule bit_word_eqI) (simp add: sid_iid_def bit_simps)
  moreover have "uint (- 1 :: 32 word) = 2 ^ 32 - 1" by (simp add: unsigned_minus_1_eq_mask mask_eq_exp_minus_1)
  ultimately show False by simp
qed

text \<open>What the requests and the data callback of a session do in each of its states.\<close>

lemma wr_rel_answers:
  assumes rel: "wr_rel w v opens cnt st" and p: "p < length v"
  shows "session_post p w = (case v ! p of Open h \<Rightarrow> Some h | _ \<Rightarrow> None)"
    and "session_send p w = (case v ! p of Fresh \<Rightarrow> None | Open h \<Rightarrow> Some (Some h) | Over \<Rightarrow> Some None)"
    and "v ! p = Open h \<Longrightarrow> session_data takes h bs w = Some (case se_mDataCallback (wr_sessions w ! p) of
            None \<Rightarrow> (0, []) | Some f \<Rightarrow> (takes f p bs, [Call_data f p bs]))"
proof -
  have inv: "svc_inv (mTCPService w)" and m: "fst st = (\<lambda>sid. postSessionAsyncProc sid (mTCPService w))"
    and given: "\<And>sid. sid \<in> snd st \<Longrightarrow> unat (sid_loopIndex sid) < length (mIOLoopDatas (mTCPService w))"
    and ok: "session_ok w st p (v ! p)"
    using rel p by (auto simp: wr_rel_def svc_rel_def)
  have snd_post: "IOLoopData_send (socket_ud (mTCPService w)) sid (mIOLoopDatas (mTCPService w) ! unat (sid_loopIndex sid)) =
      postSessionAsyncProc sid (mTCPService w)" if "sid \<in> snd st" for sid
    using given [OF that] by (simp add: IOLoopData_send_def postSessionAsyncProc_def getIOLoopDataBySocketID_def)
  show "session_post p w = (case v ! p of Open h \<Rightarrow> Some h | _ \<Rightarrow> None)"
    using ok minus_one_unused [OF inv] by (cases "v ! p") (simp_all add: session_ok_def Let_def session_post_def m)
  show "session_send p w = (case v ! p of Fresh \<Rightarrow> None | Open h \<Rightarrow> Some (Some h) | Over \<Rightarrow> Some None)"
    using ok snd_post by (cases "v ! p") (simp_all add: session_ok_def Let_def session_send_def m)
  assume "v ! p = Open h"
  with ok show "session_data takes h bs w = Some (case se_mDataCallback (wr_sessions w ! p) of
            None \<Rightarrow> (0, []) | Some f \<Rightarrow> (takes f p bs, [Call_data f p bs]))"
    by (simp add: session_ok_def Let_def session_data_def)
qed

lemma wr_rel_start:
  "n \<le> 65536 \<Longrightarrow> wr_rel (startWorkThread n WrapTcpService_new) [] [] (\<lambda>_. 0) (Map.empty, {})"
  using start_rel [of n]
  by (simp add: wr_rel_def startWorkThread_def WrapTcpService_new_def startWorkerThread_def TcpService_new_def)

lemma start_loops: "length (mIOLoopDatas (mTCPService (startWorkThread n WrapTcpService_new))) = n"
  by (simp add: startWorkThread_def WrapTcpService_new_def startWorkerThread_def TcpService_new_def)



end
