(* ===== verification/Http_Session.thy ===== *)
theory Http_Session
  imports Wrap_Tcp Http_Service
begin

text \<open>
  HTTP sessions on session objects on connections: \<open>HttpSession\<close>, \<open>HttpService::setup\<close> and
  \<open>HttpService::handle\<close> of \<open>net/http/HttpService.cpp\<close> over the service of
  \<open>net/WrapTCPService.cpp\<close>. A closure that captures an HTTP session is its index. What a
  session has told its user and sent is its log.
\<close>

section \<open>Sessions\<close>

record http_session =
  hs_session :: session
  hs_cbs :: session_cbs
  hs_close :: bool
  hs_parser :: http_object
  hs_log :: "http_event list"
  hs_closed :: nat

definition HttpSession_Create :: "http_object \<Rightarrow> session \<Rightarrow> http_session" where
  "HttpSession_Create hp p = \<lparr>hs_session = p,
     hs_cbs = \<lparr>has_http_cb = False, has_ws_cb = False, has_ws_connected_cb = False\<rparr>, hs_close = False, hs_parser = hp,
     hs_log = [], hs_closed = 0\<rparr>"

definition setHttpCallback :: "bool \<Rightarrow> http_session \<Rightarrow> http_session" where
  "setHttpCallback b s = s\<lparr>hs_cbs := (hs_cbs s)\<lparr>has_http_cb := b\<rparr>\<rparr>"

definition setCloseCallback :: "bool \<Rightarrow> http_session \<Rightarrow> http_session" where
  "setCloseCallback b s = s\<lparr>hs_close := b\<rparr>"

definition setWSCallback :: "bool \<Rightarrow> http_session \<Rightarrow> http_session" where
  "setWSCallback b s = s\<lparr>hs_cbs := (hs_cbs s)\<lparr>has_ws_cb := b\<rparr>\<rparr>"

definition setWSConnected :: "bool \<Rightarrow> http_session \<Rightarrow> http_session" where
  "setWSConnected b s = s\<lparr>hs_cbs := (hs_cbs s)\<lparr>has_ws_connected_cb := b\<rparr>\<rparr>"

text \<open>What an enter callback does to its session: it sets callbacks.\<close>

datatype http_setting = Set_http bool | Set_close bool | Set_ws bool | Set_ws_connected bool

fun http_set :: "http_setting \<Rightarrow> http_session \<Rightarrow> http_session" where
  "http_set (Set_http b) = setHttpCallback b"
| "http_set (Set_close b) = setCloseCallback b"
| "http_set (Set_ws b) = setWSCallback b"
| "http_set (Set_ws_connected b) = setWSConnected b"

lemma http_set_keeps [simp]:
  "hs_session (fold http_set xs s) = hs_session s" "hs_parser (fold http_set xs s) = hs_parser s"
  "hs_log (fold http_set xs s) = hs_log s"
proof (induction xs arbitrary: s)
  case (Cons x xs)
  {
    case 1
    from Cons(1) show ?case by (cases x) (simp_all add: setHttpCallback_def setCloseCallback_def setWSCallback_def setWSConnected_def)
  next
    case 2
    from Cons(2) show ?case by (cases x) (simp_all add: setHttpCallback_def setCloseCallback_def setWSCallback_def setWSConnected_def)
  next
    case 3
    from Cons(3) show ?case by (cases x) (simp_all add: setHttpCallback_def setCloseCallback_def setWSCallback_def setWSConnected_def)
  }
qed simp_all

record 'h http_service =
  hw_wrap :: "('h, nat) wrap_service"
  hw_https :: "http_session list"

text \<open>\<open>send\<close>, \<open>postShutdown\<close> and \<open>postClose\<close> of an HTTP session: which connection they reach.\<close>

definition http_send :: "nat \<Rightarrow> 'h http_service \<Rightarrow> 'h option option" where
  "http_send n w = session_send (hs_session (hw_https w ! n)) (hw_wrap w)"

definition http_post :: "nat \<Rightarrow> 'h http_service \<Rightarrow> 'h option" where
  "http_post n w = session_post (hs_session (hw_https w ! n)) (hw_wrap w)"

section \<open>The service\<close>

text \<open>\<open>mem\<close> is what the memory of the new parser holds.\<close>

definition HttpService_handle :: "http_object \<Rightarrow> nat \<Rightarrow> 'h http_service \<Rightarrow> 'h http_service" where
  "HttpService_handle mem n w =
     (let p = hs_session (hw_https w ! n);
          wr = with_session (Wrap_Tcp.setDisConnectCallback (Some n)) p (hw_wrap w);
          wr = with_session (Wrap_Tcp.setDataCallback (Some n)) p wr
      in w\<lparr>hw_wrap := wr, hw_https := (hw_https w)[n := (hw_https w ! n)\<lparr>hs_parser := HTTPParser_new mem HTTP_BOTH\<rparr>]\<rparr>)"

definition HttpService_setup :: "http_object \<Rightarrow> session \<Rightarrow> http_setting list option \<Rightarrow> 'h http_service \<Rightarrow> 'h http_service" where
  "HttpService_setup mem p enterCallback w =
     (let httpSession = HttpSession_Create mem p;
          httpSession = (case enterCallback of None \<Rightarrow> httpSession | Some xs \<Rightarrow> fold http_set xs httpSession)
      in HttpService_handle mem (length (hw_https w)) (w\<lparr>hw_https := hw_https w @ [httpSession]\<rparr>))"

text \<open>The data callback that \<open>handle\<close> sets, when it runs for session \<open>n\<close>.\<close>

definition http_call :: "csha1 \<Rightarrow> nat \<Rightarrow> byte list \<Rightarrow> 'h http_service \<Rightarrow> (nat \<times> 'h http_service) option" where
  "http_call sha n bs w =
     (let hs = hw_https w ! n in
      case http_data_callback sha (hs_cbs hs) bs (hs_parser hs) of
        None \<Rightarrow> None
      | Some (retlen, hp, evs) \<Rightarrow>
          Some (retlen, w\<lparr>hw_https := (hw_https w)[n := hs\<lparr>hs_parser := hp, hs_log := hs_log hs @ evs\<rparr>]\<rparr>))"

text \<open>Bytes of connection \<open>h\<close> are shown: the callback of its session runs, if there is one.\<close>

definition http_on_data :: "csha1 \<Rightarrow> 'h \<Rightarrow> byte list \<Rightarrow> 'h http_service \<Rightarrow> (nat \<times> 'h http_service) option" where
  "http_on_data sha h bs w =
     (case session_data (\<lambda>_ _ _. 0) h bs (hw_wrap w) of
        None \<Rightarrow> None
      | Some (_, [Call_data n p shown]) \<Rightarrow> http_call sha n shown w
      | Some _ \<Rightarrow> Some (0, w))"

definition http_on_close :: "'h \<Rightarrow> 'h http_service \<Rightarrow> 'h http_service option" where
  "http_on_close h w =
     (case session_close h (hw_wrap w) of
        None \<Rightarrow> None
      | Some (calls, wr) \<Rightarrow>
          Some (case calls of
            [Call_close n p] \<Rightarrow>
              (let hs = hw_https w ! n
               in w\<lparr>hw_wrap := wr, hw_https := (hw_https w)[n := if hs_close hs then hs\<lparr>hs_closed := hs_closed hs + 1\<rparr> else hs]\<rparr>)
          | _ \<Rightarrow> w\<lparr>hw_wrap := wr\<rparr>))"

section \<open>Runs\<close>

datatype 'h hw_op =
    Hw_add nat "nat \<Rightarrow> bool" bool "(nat session_options \<Rightarrow> nat session_options) option list"
  | Hw_enter session nat string 'h
  | Hw_setup session "http_setting list option"
  | Hw_data 'h "byte list"
  | Hw_close 'h

fun hw_step :: "csha1 \<Rightarrow> http_object \<Rightarrow> 'h hw_op \<Rightarrow> 'h http_service \<Rightarrow> 'h http_service option" where
  "hw_step sha mem (Hw_add randNum own isServerSide fs) w =
     Some (w\<lparr>hw_wrap := snd (addSession randNum own isServerSide fs (hw_wrap w))\<rparr>)"
| "hw_step sha mem (Hw_enter p i ip h) w =
     map_option (\<lambda>(_, wr). w\<lparr>hw_wrap := wr\<rparr>) (session_enter p None i ip h (hw_wrap w))"
| "hw_step sha mem (Hw_setup p xs) w = Some (HttpService_setup mem p xs w)"
| "hw_step sha mem (Hw_data h bs) w = map_option snd (http_on_data sha h bs w)"
| "hw_step sha mem (Hw_close h) w = http_on_close h w"

fun hw_run :: "csha1 \<Rightarrow> http_object \<Rightarrow> 'h hw_op list \<Rightarrow> 'h http_service \<Rightarrow> 'h http_service option" where
  "hw_run sha mem [] w = Some w"
| "hw_run sha mem (x # xs) w = (case hw_step sha mem x w of None \<Rightarrow> None | Some w' \<Rightarrow> hw_run sha mem xs w')"

definition HttpService_start :: "nat \<Rightarrow> 'h http_service" where
  "HttpService_start n = \<lparr>hw_wrap = startWorkThread n WrapTcpService_new, hw_https = []\<rparr>"

section \<open>Specification: every session alone\<close>

text \<open>
  The state of every session object, its HTTP session if it has one, and what each HTTP
  session was shown. \<open>http_feed\<close> is an HTTP session that has the service for itself.
\<close>

type_synonym 'h hw_spec = "'h session_state list \<times> (session \<Rightarrow> nat option) \<times> byte list list list"

definition session_of :: "'h session_state list \<Rightarrow> 'h \<Rightarrow> session option" where
  "session_of v h = find (\<lambda>p. v ! p = Open h) [0..<length v]"

fun hw_spec_step :: "'h hw_op \<Rightarrow> 'h hw_spec \<Rightarrow> 'h hw_spec" where
  "hw_spec_step (Hw_add randNum own isServerSide fs) (v, owner, fed) = (v @ [Fresh], owner, fed)"
| "hw_spec_step (Hw_enter p i ip h) (v, owner, fed) = (v[p := Open h], owner, fed)"
| "hw_spec_step (Hw_setup p xs) (v, owner, fed) = (v, owner(p \<mapsto> length fed), fed @ [[]])"
| "hw_spec_step (Hw_data h bs) (v, owner, fed) =
     (v, owner, case Option.bind (session_of v h) owner of None \<Rightarrow> fed | Some n \<Rightarrow> fed[n := fed ! n @ [bs]])"
| "hw_spec_step (Hw_close h) (v, owner, fed) = (map (\<lambda>x. if x = Open h then Over else x) v, owner, fed)"

fun http_feed :: "csha1 \<Rightarrow> session_cbs \<Rightarrow> byte list list \<Rightarrow> http_object \<Rightarrow> (http_event list \<times> http_object) option" where
  "http_feed sha cbs [] hp = Some ([], hp)"
| "http_feed sha cbs (bs # bss) hp =
     (case http_data_callback sha cbs bs hp of
        None \<Rightarrow> None
      | Some (n, hp', evs) \<Rightarrow> map_option (\<lambda>(evs', hp''). (evs @ evs', hp'')) (http_feed sha cbs bss hp'))"

text \<open>As in \<open>Wrap_Tcp\<close>; only open connections have data, and a session gets one HTTP session.\<close>

fun hw_admit :: "nat \<Rightarrow> 'h hw_op list \<Rightarrow> 'h hw_spec \<Rightarrow> ('h \<times> nat) list \<Rightarrow> (nat \<Rightarrow> int) \<Rightarrow> bool" where
  "hw_admit n [] sp op cnt \<longleftrightarrow> True"
| "hw_admit n (x # xs) sp op cnt \<longleftrightarrow>
     (case sp of (v, owner, fed) \<Rightarrow>
        case x of
          Hw_add randNum own isServerSide fs \<Rightarrow> hw_admit n xs (hw_spec_step x sp) op cnt
        | Hw_enter p i ip h \<Rightarrow>
            p < length v \<and> v ! p = Fresh \<and> i < n \<and> h \<notin> fst ` set op \<and> length (filter (\<lambda>x. snd x = i) op) < 65500 \<and>
            cnt i < 2 ^ 31 - 1 \<and> hw_admit n xs (hw_spec_step x sp) ((h, i) # op) (cnt(i := cnt i + 1))
        | Hw_setup p fs \<Rightarrow> p < length v \<and> owner p = None \<and> hw_admit n xs (hw_spec_step x sp) op cnt
        | Hw_data h bs \<Rightarrow> h \<in> fst ` set op \<and> hw_admit n xs (hw_spec_step x sp) op cnt
        | Hw_close h \<Rightarrow>
            h \<in> fst ` set op \<and> hw_admit n xs (hw_spec_step x sp) (filter (\<lambda>x. fst x \<noteq> h) op) cnt)"

section \<open>Isolation\<close>

lemma nth_update_if: "n < length xs \<Longrightarrow> xs[m := x] ! n = (if m = n then x else xs ! n)"
  by simp

lemma map_update_same: "f y = f (xs ! p) \<Longrightarrow> map f (xs[p := y]) = map f xs"
  by (cases "p < length xs") (simp_all add: map_update list_update_same_conv list_update_beyond)

lemma http_feed_snoc:
  "http_feed sha cbs (bss @ [bs]) hp =
     (case http_feed sha cbs bss hp of
        None \<Rightarrow> None
      | Some (evs, hp') \<Rightarrow> map_option (\<lambda>(n, hp'', evs'). (evs @ evs', hp'')) (http_data_callback sha cbs bs hp'))"
proof (induction bss arbitrary: hp)
  case Nil
  then show ?case by (auto split: option.splits)
next
  case (Cons b bss)
  then show ?case by (auto simp: option.map_comp comp_def case_prod_unfold split: option.splits)
qed

lemma http_feed_prefix: "http_feed sha cbs (bss @ rest) hp \<noteq> None \<Longrightarrow> http_feed sha cbs bss hp \<noteq> None"
proof (induction bss arbitrary: hp)
  case (Cons b bss)
  then show ?case by (fastforce split: option.splits)
qed simp

text \<open>What was shown stays.\<close>

lemma spec_step_grows:
  assumes "hw_spec_step x (v, owner, fed) = (v', owner', fed')" and "n < length fed"
  shows "n < length fed' \<and> (\<exists>rest. fed' ! n = fed ! n @ rest)"
  using assms by (cases x) (auto simp: nth_append nth_update_if split: option.splits)

lemma spec_grows:
  "fold hw_spec_step xs (v, owner, fed) = (v', owner', fed') \<Longrightarrow> n < length fed \<Longrightarrow>
   n < length fed' \<and> (\<exists>rest. fed' ! n = fed ! n @ rest)"
proof (induction xs arbitrary: v owner fed)
  case (Cons x xs)
  obtain v1 o1 f1 where S: "hw_spec_step x (v, owner, fed) = (v1, o1, f1)" by (cases "hw_spec_step x (v, owner, fed)")
  from spec_step_grows [OF S Cons.prems(2)] obtain rest where m: "n < length f1" "f1 ! n = fed ! n @ rest" by blast
  from Cons.IH [of v1 o1 f1] Cons.prems(1) S m show ?case by fastforce
qed auto

definition hw_rel ::
    "csha1 \<Rightarrow> http_object \<Rightarrow> 'h http_service \<Rightarrow> 'h hw_spec \<Rightarrow> ('h \<times> nat) list \<Rightarrow> (nat \<Rightarrow> int) \<Rightarrow> 'h sessions \<Rightarrow> bool" where
  "hw_rel sha mem w sp opens cnt st \<longleftrightarrow>
     (case sp of (v, owner, fed) \<Rightarrow>
        wr_rel (hw_wrap w) v opens cnt st \<and> length fed = length (hw_https w) \<and>
        (\<forall>p < length v. se_mDataCallback (wr_sessions (hw_wrap w) ! p) = owner p \<and>
           se_mDisConnectCallback (wr_sessions (hw_wrap w) ! p) = owner p) \<and>
        (\<forall>p n. owner p = Some n \<longrightarrow> p < length v \<and> n < length fed \<and> hs_session (hw_https w ! n) = p) \<and>
        (\<forall>n < length fed. http_feed sha (hs_cbs (hw_https w ! n)) (fed ! n) (HTTPParser_new mem HTTP_BOTH) =
           Some (hs_log (hw_https w ! n), hs_parser (hw_https w ! n))))"

lemma wr_rel_length: "wr_rel w v opens cnt st \<Longrightarrow> length v = length (wr_sessions w)"
  by (simp add: wr_rel_def)

lemma session_of_open:
  assumes "wr_rel w v opens cnt st" and "h \<in> fst ` set opens"
  shows "\<exists>p. session_of v h = Some p \<and> p < length v \<and> v ! p = Open h"
proof -
  obtain q where "q < length v" "v ! q = Open h" using assms unfolding wr_rel_def by blast
  then have "session_of v h \<noteq> None" by (auto simp: session_of_def find_None_iff)
  then show ?thesis by (auto simp: session_of_def find_Some_iff)
qed

text \<open>Entering and closing do not touch the callbacks that are set.\<close>

lemma enter_keeps_callbacks:
  fixes w :: "('a, 'b) wrap_service"
  assumes "session_enter p f i ip h w = Some (evs, w')"
  shows "map se_mDataCallback (wr_sessions w') = map se_mDataCallback (wr_sessions w) \<and>
    map se_mDisConnectCallback (wr_sessions w') = map se_mDisConnectCallback (wr_sessions w)"
proof -
  have "map se_mDataCallback (wr_sessions (with_session g p v)) = map se_mDataCallback (wr_sessions v)"
    "map se_mDisConnectCallback (wr_sessions (with_session g p v)) = map se_mDisConnectCallback (wr_sessions v)"
    if "\<And>s. se_mDataCallback (g s) = se_mDataCallback s" "\<And>s. se_mDisConnectCallback (g s) = se_mDisConnectCallback s"
    for g :: "'b TCPSession \<Rightarrow> 'b TCPSession" and v :: "('a, 'b) wrap_service"
    using that by (simp_all add: with_session_def map_update_same)
  then show ?thesis using assms
    by (auto simp: session_enter_def setIOLoopData_def setSocketID_def setIP_def split: Option.bind_splits)
qed

lemma close_keeps_callbacks: "session_close h w = Some (evs, w') \<Longrightarrow> wr_sessions w' = wr_sessions w"
  by (auto simp: session_close_def split: Option.bind_splits)

lemma callbacks_nth:
  assumes "map f xs = map f ys" and "p < length ys"
  shows "f (xs ! p) = f (ys ! p)"
  using assms by (metis length_map nth_map)

lemma hw_rel_wrap:
  assumes "hw_rel sha mem w (v, owner, fed) opens cnt st" and "wr_rel wr v' opens' cnt' st'" and "length v \<le> length v'"
    and "\<And>p. p < length v' \<Longrightarrow> se_mDataCallback (wr_sessions wr ! p) = owner p \<and> se_mDisConnectCallback (wr_sessions wr ! p) = owner p"
  shows "hw_rel sha mem (w\<lparr>hw_wrap := wr\<rparr>) (v', owner, fed) opens' cnt' st'"
  using assms unfolding hw_rel_def by fastforce

lemma hw_enter:
  assumes rel: "hw_rel sha mem w (v, owner, fed) opens cnt st" and "p < length v" and "v ! p = Fresh"
    and "i < length (mIOLoopDatas (mTCPService (hw_wrap w)))" and "h \<notin> fst ` set opens"
    and "length (filter (\<lambda>x. snd x = i) opens) < 65500" and "cnt i < 2 ^ 31 - 1"
  shows "\<exists>w' st'. hw_step sha mem (Hw_enter p i ip h) w = Some w' \<and>
    hw_rel sha mem w' (v[p := Open h], owner, fed) ((h, i) # opens) (cnt(i := cnt i + 1)) st' \<and>
    length (mIOLoopDatas (mTCPService (hw_wrap w'))) = length (mIOLoopDatas (mTCPService (hw_wrap w)))"
proof -
  have wr: "wr_rel (hw_wrap w) v opens cnt st" using rel by (simp add: hw_rel_def)
  from wr_rel_enter [OF wr assms(2-7), of None ip] obtain evs wr' st' where
    E: "session_enter p None i ip h (hw_wrap w) = Some (evs, wr')"
    "wr_rel wr' (v[p := Open h]) ((h, i) # opens) (cnt(i := cnt i + 1)) st'"
    "length (mIOLoopDatas (mTCPService wr')) = length (mIOLoopDatas (mTCPService (hw_wrap w)))" by blast
  have len: "length v = length (wr_sessions (hw_wrap w))" using wr by (simp add: wr_rel_def)
  have "se_mDataCallback (wr_sessions wr' ! q) = owner q \<and> se_mDisConnectCallback (wr_sessions wr' ! q) = owner q"
    if "q < length v" for q
    using rel that callbacks_nth [OF conjunct1 [OF enter_keeps_callbacks [OF E(1)]], of q]
      callbacks_nth [OF conjunct2 [OF enter_keeps_callbacks [OF E(1)]], of q] len by (simp add: hw_rel_def)
  then have "hw_rel sha mem (w\<lparr>hw_wrap := wr'\<rparr>) (v[p := Open h], owner, fed) ((h, i) # opens) (cnt(i := cnt i + 1)) st'"
    by (intro hw_rel_wrap [OF rel E(2)]) simp_all
  with E(1,3) show ?thesis by (intro exI [of _ "w\<lparr>hw_wrap := wr'\<rparr>"] exI [of _ st']) simp
qed

lemma hw_close:
  assumes rel: "hw_rel sha mem w (v, owner, fed) opens cnt st" and "h \<in> fst ` set opens"
  shows "\<exists>w' st'. hw_step sha mem (Hw_close h) w = Some w' \<and>
    hw_rel sha mem w' (map (\<lambda>x. if x = Open h then Over else x) v, owner, fed) (filter (\<lambda>x. fst x \<noteq> h) opens) cnt st' \<and>
    length (mIOLoopDatas (mTCPService (hw_wrap w'))) = length (mIOLoopDatas (mTCPService (hw_wrap w)))"
proof -
  have wr: "wr_rel (hw_wrap w) v opens cnt st" using rel by (simp add: hw_rel_def)
  from wr_rel_close [OF wr assms(2)] obtain evs wr' st' where
    E: "session_close h (hw_wrap w) = Some (evs, wr')"
    "wr_rel wr' (map (\<lambda>x. if x = Open h then Over else x) v) (filter (\<lambda>x. fst x \<noteq> h) opens) cnt st'"
    "length (mIOLoopDatas (mTCPService wr')) = length (mIOLoopDatas (mTCPService (hw_wrap w)))" by blast
  have rel': "hw_rel sha mem (w\<lparr>hw_wrap := wr'\<rparr>) (map (\<lambda>x. if x = Open h then Over else x) v, owner, fed)
      (filter (\<lambda>x. fst x \<noteq> h) opens) cnt st'"
    by (rule hw_rel_wrap [OF rel E(2)]) (use rel close_keeps_callbacks [OF E(1)] in \<open>simp_all add: hw_rel_def\<close>)
  have same: "hw_rel sha mem (w'\<lparr>hw_https := (hw_https w')[n := (hw_https w' ! n)\<lparr>hs_closed := k\<rparr>]\<rparr>) sp opens' cnt' st'"
    if "hw_rel sha mem w' sp opens' cnt' st'" for w' sp opens' cnt' n k
    using that by (cases "n < length (hw_https w')") (auto simp: hw_rel_def nth_update_if)
  have "evs = [] \<or> (\<exists>n q. evs = [Call_close n q])"
    using E(1) by (auto simp: session_close_def split: Option.bind_splits option.splits)
  then obtain w' where w': "http_on_close h w = Some w'" "hw_wrap w' = wr'"
    "w' = w\<lparr>hw_wrap := wr'\<rparr> \<or> (\<exists>n k. w' = w\<lparr>hw_wrap := wr', hw_https := (hw_https w)[n := (hw_https w ! n)\<lparr>hs_closed := k\<rparr>]\<rparr>)"
  proof (elim disjE exE)
    fix n q assume evs: "evs = [Call_close n q]"
    let ?hs = "hw_https w ! n"
    let ?k = "if hs_close ?hs then hs_closed ?hs + 1 else hs_closed ?hs"
    let ?w = "w\<lparr>hw_wrap := wr', hw_https := (hw_https w)[n := ?hs\<lparr>hs_closed := ?k\<rparr>]\<rparr>"
    have "http_on_close h w = Some ?w" using E(1) evs by (simp add: http_on_close_def Let_def)
    then show thesis by (rule that) auto
  next
    assume "evs = []"
    with E(1) have "http_on_close h w = Some (w\<lparr>hw_wrap := wr'\<rparr>)" by (simp add: http_on_close_def)
    then show thesis by (rule that) simp_all
  qed
  from w'(3) same [OF rel'] rel' have "hw_rel sha mem w' (map (\<lambda>x. if x = Open h then Over else x) v, owner, fed)
      (filter (\<lambda>x. fst x \<noteq> h) opens) cnt st'" by auto
  with w'(1,2) E(3) show ?thesis by (intro exI [of _ w'] exI [of _ st']) simp
qed

lemma hw_add:
  assumes rel: "hw_rel sha mem w (v, owner, fed) opens cnt st"
  shows "\<exists>w'. hw_step sha mem (Hw_add randNum own isServerSide fs) w = Some w' \<and>
    hw_rel sha mem w' (v @ [Fresh], owner, fed) opens cnt st \<and>
    length (mIOLoopDatas (mTCPService (hw_wrap w'))) = length (mIOLoopDatas (mTCPService (hw_wrap w)))"
proof -
  let ?wr = "(hw_wrap w)\<lparr>wr_sessions := wr_sessions (hw_wrap w) @ [TCPSession_Create]\<rparr>"
  have wr: "wr_rel (hw_wrap w) v opens cnt st" using rel by (simp add: hw_rel_def)
  note len = wr_rel_length [OF wr]
  have new: "owner (length v) = None"
    using rel by (cases "owner (length v)") (auto simp: hw_rel_def)
  have "hw_rel sha mem (w\<lparr>hw_wrap := ?wr\<rparr>) (v @ [Fresh], owner, fed) opens cnt st"
    by (rule hw_rel_wrap [OF rel wr_rel_add [OF wr]])
      (use rel new len in \<open>auto simp: hw_rel_def nth_append TCPSession_Create_def less_Suc_eq\<close>)
  then show ?thesis by (simp add: addSession_def Let_def)
qed

lemma hw_setup:
  assumes rel: "hw_rel sha mem w (v, owner, fed) opens cnt st" and p: "p < length v" and none: "owner p = None"
  shows "\<exists>w'. hw_step sha mem (Hw_setup p xs) w = Some w' \<and>
    hw_rel sha mem w' (v, owner(p \<mapsto> length fed), fed @ [[]]) opens cnt st \<and>
    length (mIOLoopDatas (mTCPService (hw_wrap w'))) = length (mIOLoopDatas (mTCPService (hw_wrap w)))"
proof -
  let ?n = "length (hw_https w)"
  let ?hs0 = "case xs of None \<Rightarrow> HttpSession_Create mem p | Some ys \<Rightarrow> fold http_set ys (HttpSession_Create mem p)"
  let ?hs = "?hs0\<lparr>hs_parser := HTTPParser_new mem HTTP_BOTH\<rparr>"
  let ?wr1 = "with_session (Wrap_Tcp.setDisConnectCallback (Some ?n)) p (hw_wrap w)"
  let ?wr = "with_session (Wrap_Tcp.setDataCallback (Some ?n)) p ?wr1"
  let ?w = "w\<lparr>hw_wrap := ?wr, hw_https := hw_https w @ [?hs]\<rparr>"
  have hs0: "hs_session ?hs0 = p" "hs_log ?hs0 = []" by (simp_all add: HttpSession_Create_def split: option.splits)
  have run: "HttpService_setup mem p xs w = ?w"
    using hs0(1) by (simp add: HttpService_setup_def HttpService_handle_def Let_def)
  have wr: "wr_rel (hw_wrap w) v opens cnt st" and "length fed = length (hw_https w)" using rel by (simp_all add: hw_rel_def)
  note len = this(2) wr_rel_length [OF wr]
  have "wr_rel ?wr1 v opens cnt st" using wr by (rule wr_rel_with) (simp_all add: setDisConnectCallback_def)
  then have wr': "wr_rel ?wr v opens cnt st" by (rule wr_rel_with) (simp_all add: setDataCallback_def)
  have "se_mDataCallback (wr_sessions ?wr ! q) = (owner(p \<mapsto> length fed)) q \<and>
      se_mDisConnectCallback (wr_sessions ?wr ! q) = (owner(p \<mapsto> length fed)) q" if "q < length v" for q
    using rel that len by (auto simp: hw_rel_def with_session_def setDisConnectCallback_def setDataCallback_def nth_update_if)
  then have "hw_rel sha mem ?w (v, owner(p \<mapsto> length fed), fed @ [[]]) opens cnt st"
    using rel wr' p none hs0 len by (auto simp: hw_rel_def nth_append less_Suc_eq)
  with run show ?thesis by (simp add: with_session_def)
qed

lemma hw_data:
  assumes rel: "hw_rel sha mem w (v, owner, fed) opens cnt st" and h: "h \<in> fst ` set opens"
    and ok: "\<And>n cbs. Option.bind (session_of v h) owner = Some n \<Longrightarrow>
      http_feed sha cbs (fed ! n @ [bs]) (HTTPParser_new mem HTTP_BOTH) \<noteq> None"
  shows "\<exists>w'. hw_step sha mem (Hw_data h bs) w = Some w' \<and>
    hw_rel sha mem w' (hw_spec_step (Hw_data h bs) (v, owner, fed)) opens cnt st \<and>
    length (mIOLoopDatas (mTCPService (hw_wrap w'))) = length (mIOLoopDatas (mTCPService (hw_wrap w)))"
proof -
  have wr: "wr_rel (hw_wrap w) v opens cnt st" and len: "length fed = length (hw_https w)" using rel by (simp_all add: hw_rel_def)
  obtain p where p: "session_of v h = Some p" "p < length v" "v ! p = Open h" using session_of_open [OF wr h] by blast
  have D: "session_data (\<lambda>_ _ _. 0) h bs (hw_wrap w) =
      Some (case owner p of None \<Rightarrow> (0, []) | Some f \<Rightarrow> (0, [Call_data f p bs]))"
    using wr_rel_answers(3) [OF wr p(2,3), of "\<lambda>_ _ _. 0" bs] rel p(2) by (simp add: hw_rel_def)
  show ?thesis
  proof (cases "owner p")
    case None
    with D p(1) rel show ?thesis by (simp add: http_on_data_def)
  next
    case (Some n)
    let ?hs = "hw_https w ! n"
    have n: "n < length fed" "hs_session ?hs = p" using rel Some by (auto simp: hw_rel_def)
    have feed: "http_feed sha (hs_cbs ?hs) (fed ! n) (HTTPParser_new mem HTTP_BOTH) = Some (hs_log ?hs, hs_parser ?hs)"
      using rel n(1) by (simp add: hw_rel_def)
    have "http_feed sha (hs_cbs ?hs) (fed ! n @ [bs]) (HTTPParser_new mem HTTP_BOTH) \<noteq> None"
      using ok [of n] p(1) Some by simp
    then obtain m hp evs where C: "http_data_callback sha (hs_cbs ?hs) bs (hs_parser ?hs) = Some (m, hp, evs)"
      by (auto simp: http_feed_snoc feed)
    let ?w = "w\<lparr>hw_https := (hw_https w)[n := ?hs\<lparr>hs_parser := hp, hs_log := hs_log ?hs @ evs\<rparr>]\<rparr>"
    have "http_on_data sha h bs w = Some (m, ?w)" using D Some C by (simp add: http_on_data_def http_call_def Let_def)
    moreover have "http_feed sha (hs_cbs ?hs) (fed ! n @ [bs]) (HTTPParser_new mem HTTP_BOTH) = Some (hs_log ?hs @ evs, hp)"
      by (simp add: http_feed_snoc feed C)
    then have "hw_rel sha mem ?w (v, owner, fed[n := fed ! n @ [bs]]) opens cnt st"
      using rel n len by (auto simp: hw_rel_def nth_update_if)
    ultimately show ?thesis using p(1) Some by simp
  qed
qed

text \<open>What is shown now is a part of what will have been shown, so the session can take it.\<close>

lemma shown_feeds:
  assumes rel: "hw_rel sha mem w (v, owner, fed) opens cnt st" and own: "Option.bind (session_of v h) owner = Some n"
    and run: "fold hw_spec_step (Hw_data h bs # xs) (v, owner, fed) = (v', owner', fed')"
    and ok: "\<And>n cbs. n < length fed' \<Longrightarrow> http_feed sha cbs (fed' ! n) hp \<noteq> None"
  shows "http_feed sha cbs (fed ! n @ [bs]) hp \<noteq> None"
proof -
  have n: "n < length fed" using rel own by (auto simp: hw_rel_def split: Option.bind_splits)
  have "fold hw_spec_step xs (v, owner, fed[n := fed ! n @ [bs]]) = (v', owner', fed')" using run own by simp
  from spec_grows [OF this, of n] n obtain rest where r: "n < length fed'" "fed' ! n = (fed ! n @ [bs]) @ rest" by auto
  show ?thesis by (rule http_feed_prefix [of _ _ _ rest]) (use ok [OF r(1), of cbs] r(2) in simp)
qed

lemma hw_run_rel:
  assumes "fold hw_spec_step xs sp = (v', owner', fed')"
    and "\<And>n cbs. n < length fed' \<Longrightarrow> http_feed sha cbs (fed' ! n) (HTTPParser_new mem HTTP_BOTH) \<noteq> None"
    and "hw_rel sha mem w sp opens cnt st" and "hw_admit (length (mIOLoopDatas (mTCPService (hw_wrap w)))) xs sp opens cnt"
  shows "\<exists>w' opens' cnt' st'. hw_run sha mem xs w = Some w' \<and> hw_rel sha mem w' (v', owner', fed') opens' cnt' st'"
  using assms
proof (induction xs arbitrary: w sp opens cnt st)
  case Nil
  then have "hw_rel sha mem w (v', owner', fed') opens cnt st" by simp
  then show ?case unfolding hw_run.simps(1) by blast
next
  case (Cons x xs)
  obtain v owner fed where sp: "sp = (v, owner, fed)" by (cases sp)
  note rel = Cons.prems(3) [unfolded sp] and adm = Cons.prems(4) [unfolded sp]
  let ?goal = "\<lambda>w1 opens1 cnt1 st1. hw_step sha mem x w = Some w1 \<and> hw_rel sha mem w1 (hw_spec_step x sp) opens1 cnt1 st1 \<and>
    hw_admit (length (mIOLoopDatas (mTCPService (hw_wrap w1)))) xs (hw_spec_step x sp) opens1 cnt1"
  obtain w1 opens1 cnt1 st1 where S: "?goal w1 opens1 cnt1 st1"
  proof (cases x)
    case (Hw_add randNum own isServerSide fs)
    obtain w1 where W: "hw_step sha mem x w = Some w1" "hw_rel sha mem w1 (v @ [Fresh], owner, fed) opens cnt st"
      "length (mIOLoopDatas (mTCPService (hw_wrap w1))) = length (mIOLoopDatas (mTCPService (hw_wrap w)))"
      using hw_add [OF rel, of randNum own isServerSide fs] unfolding Hw_add by blast
    show thesis by (rule that [of w1 opens cnt st]) (use W adm Hw_add sp in simp)
  next
    case (Hw_enter p i ip h)
    have ok: "p < length v" "v ! p = Fresh" "i < length (mIOLoopDatas (mTCPService (hw_wrap w)))" "h \<notin> fst ` set opens"
      "length (filter (\<lambda>x. snd x = i) opens) < 65500" "cnt i < 2 ^ 31 - 1" using adm Hw_enter by auto
    obtain w1 st1 where W: "hw_step sha mem x w = Some w1"
      "hw_rel sha mem w1 (v[p := Open h], owner, fed) ((h, i) # opens) (cnt(i := cnt i + 1)) st1"
      "length (mIOLoopDatas (mTCPService (hw_wrap w1))) = length (mIOLoopDatas (mTCPService (hw_wrap w)))"
      using hw_enter [OF rel ok] unfolding Hw_enter by blast
    show thesis by (rule that [of w1 "(h, i) # opens" "cnt(i := cnt i + 1)" st1]) (use W adm Hw_enter sp in simp)
  next
    case (Hw_setup p fs)
    have ok: "p < length v" "owner p = None" using adm Hw_setup by auto
    obtain w1 where W: "hw_step sha mem x w = Some w1" "hw_rel sha mem w1 (v, owner(p \<mapsto> length fed), fed @ [[]]) opens cnt st"
      "length (mIOLoopDatas (mTCPService (hw_wrap w1))) = length (mIOLoopDatas (mTCPService (hw_wrap w)))"
      using hw_setup [OF rel ok] unfolding Hw_setup by blast
    show thesis by (rule that [of w1 opens cnt st]) (use W adm Hw_setup sp in simp)
  next
    case (Hw_close h)
    have ok: "h \<in> fst ` set opens" using adm Hw_close by auto
    obtain w1 st1 where W: "hw_step sha mem x w = Some w1"
      "hw_rel sha mem w1 (map (\<lambda>x. if x = Open h then Over else x) v, owner, fed) (filter (\<lambda>x. fst x \<noteq> h) opens) cnt st1"
      "length (mIOLoopDatas (mTCPService (hw_wrap w1))) = length (mIOLoopDatas (mTCPService (hw_wrap w)))"
      using hw_close [OF rel ok] unfolding Hw_close by blast
    show thesis by (rule that [of w1 "filter (\<lambda>x. fst x \<noteq> h) opens" cnt st1]) (use W adm Hw_close sp in simp)
  next
    case (Hw_data h bs)
    have ok: "h \<in> fst ` set opens" using adm Hw_data by auto
    have feed: "http_feed sha cbs (fed ! n @ [bs]) (HTTPParser_new mem HTTP_BOTH) \<noteq> None"
      if own: "Option.bind (session_of v h) owner = Some n" for n cbs
      by (rule shown_feeds [OF rel own Cons.prems(1) [unfolded sp Hw_data] Cons.prems(2)])
    obtain w1 where W: "hw_step sha mem x w = Some w1" "hw_rel sha mem w1 (hw_spec_step (Hw_data h bs) (v, owner, fed)) opens cnt st"
      "length (mIOLoopDatas (mTCPService (hw_wrap w1))) = length (mIOLoopDatas (mTCPService (hw_wrap w)))"
      using hw_data [OF rel ok feed] unfolding Hw_data by blast
    show thesis by (rule that [of w1 opens cnt st]) (use W adm Hw_data sp in simp)
  qed
  have "fold hw_spec_step xs (hw_spec_step x sp) = (v', owner', fed')" using Cons.prems(1) by simp
  from Cons.IH [OF this Cons.prems(2) conjunct1 [OF conjunct2 [OF S]] conjunct2 [OF conjunct2 [OF S]]] S show ?case
    unfolding hw_run.simps(2) by simp
qed


section \<open>A concrete run\<close>

definition start_line :: "byte list" where
  "start_line = [71, 69, 84, 32, 47]"

lemma start_line_parsed:
  "case tryParse fresh_object (map char_of_byte start_line) of None \<Rightarrow> False | Some (n, hp) \<Rightarrow> \<not> mISCompleted (hp_data hp)"
  by code_simp

lemma start_line_fed: "http_feed sha cbs [start_line] (HTTPParser_new blank_object HTTP_BOTH) \<noteq> None"
proof -
  have "\<not> mIsWebSocket (hp_data fresh_object)" "\<not> mISCompleted (hp_data fresh_object)"
    by (simp_all add: fresh_object_def HTTPParser_new_def http_parser_init_def)
  with start_line_parsed show ?thesis
    by (auto simp: http_data_callback_def ProcessHttp_def fresh_object_def [symmetric] split: option.splits)
qed

definition two_connections :: "nat hw_op list" where
  "two_connections =
     [Hw_add 0 (\<lambda>_. False) True [], Hw_enter 0 0 ''a'' 7, Hw_setup 0 (Some [Set_http True]),
      Hw_add 0 (\<lambda>_. False) True [], Hw_enter 1 0 ''b'' 8, Hw_setup 1 None, Hw_data 8 start_line, Hw_close 7]"


end
