(* ===== verification/Wait_Group.thy ===== *)
theory Wait_Group
  imports Brynet_Prelude
begin

text \<open>
  \<open>utils/WaitGroup.h\<close>: a counter, a mutex and a condition variable, as a step
  relation of the threads that wait and those that are done. What is atomic are
  the accesses to the counter, the notification, and the release of the mutex with the
  start of the wait.
\<close>

section \<open>State and steps\<close>

text \<open>
  Where a waiting thread is: before the lock, with the lock and the test ahead, after a test that
  failed and before it sleeps, asleep, or woken and without the lock; and when it has returned.
\<close>

datatype waiter_phase = Wp_start | Wp_locked | Wp_tested | Wp_asleep | Wp_woken | Wp_returned

record 't wait_group =
  mCounter :: int
  wg_notifies :: nat
  wg_phase :: "'t \<Rightarrow> waiter_phase"

definition WaitGroup_new :: "'t wait_group" where
  "WaitGroup_new = \<lparr>mCounter = 0, wg_notifies = 0, wg_phase = (\<lambda>_. Wp_start)\<rparr>"

text \<open>The mutex is held from the lock to the sleep or the return.\<close>

definition wg_unlocked :: "'t wait_group \<Rightarrow> bool" where
  "wg_unlocked s \<longleftrightarrow> (\<forall>t. wg_phase s t \<noteq> Wp_locked \<and> wg_phase s t \<noteq> Wp_tested)"

definition wg_add :: "int \<Rightarrow> 't wait_group \<Rightarrow> 't wait_group" where
  "wg_add i s = s\<lparr>mCounter := mCounter s + i\<rparr>"

text \<open>The two halves of \<open>done\<close>; neither takes the mutex.\<close>

definition wg_decrement :: "'t wait_group \<Rightarrow> 't wait_group" where
  "wg_decrement s = s\<lparr>mCounter := mCounter s - 1, wg_notifies := wg_notifies s + 1\<rparr>"

definition wg_notify_all :: "'t wait_group \<Rightarrow> 't wait_group" where
  "wg_notify_all s = s\<lparr>wg_notifies := wg_notifies s - 1,
     wg_phase := (\<lambda>t. if wg_phase s t = Wp_asleep then Wp_woken else wg_phase s t)\<rparr>"

text \<open>One round of \<open>wait\<close>: the test of the predicate.\<close>

definition wg_test :: "'t \<Rightarrow> 't wait_group \<Rightarrow> 't wait_group" where
  "wg_test t s = s\<lparr>wg_phase := (wg_phase s)(t := if mCounter s \<le> 0 then Wp_returned else Wp_tested)\<rparr>"

definition wg_move :: "'t \<Rightarrow> waiter_phase \<Rightarrow> 't wait_group \<Rightarrow> 't wait_group" where
  "wg_move t p s = s\<lparr>wg_phase := (wg_phase s)(t := p)\<rparr>"

text \<open>
  \<open>locked\<close> is false for the code as it is, true for a \<open>done\<close> that takes the mutex around its decrement.
  The threads that \<open>timed\<close> names wait with a timeout: the wait ends when the time is over, with the
  mutex and a last test, whatever that says.
\<close>

inductive wg_step :: "bool \<Rightarrow> ('t \<Rightarrow> bool) \<Rightarrow> 't wait_group \<Rightarrow> 't wait_group \<Rightarrow> bool" for locked timed where
  wg_adds: "0 < i \<Longrightarrow> wg_step locked timed s (wg_add i s)"
| wg_decrements: "locked \<longrightarrow> wg_unlocked s \<Longrightarrow> wg_step locked timed s (wg_decrement s)"
| wg_notified: "0 < wg_notifies s \<Longrightarrow> wg_step locked timed s (wg_notify_all s)"
| wg_locks: "wg_unlocked s \<Longrightarrow> wg_phase s t = Wp_start \<or> wg_phase s t = Wp_woken \<Longrightarrow>
    wg_step locked timed s (wg_move t Wp_locked s)"
| wg_expires: "timed t \<Longrightarrow> wg_unlocked s \<Longrightarrow> wg_phase s t = Wp_asleep \<Longrightarrow> wg_step locked timed s (wg_move t Wp_returned s)"
| wg_tests: "wg_phase s t = Wp_locked \<Longrightarrow> wg_step locked timed s (wg_test t s)"
| wg_sleeps: "wg_phase s t = Wp_tested \<Longrightarrow> wg_step locked timed s (wg_move t Wp_asleep s)"

inductive_cases wg_stepE: "wg_step locked timed s s'"

text \<open>A thread that sleeps although the counter is zero and every \<open>done\<close> is over.\<close>

definition wg_stuck :: "'t \<Rightarrow> 't wait_group \<Rightarrow> bool" where
  "wg_stuck t s \<longleftrightarrow> wg_phase s t = Wp_asleep \<and> mCounter s \<le> 0 \<and> wg_notifies s = 0"

section \<open>The lost wake-up\<close>

text \<open>Once a thread sleeps and no notification is under way, only another \<open>done\<close> can wake it.\<close>

definition no_done :: "('t \<Rightarrow> bool) \<Rightarrow> 't wait_group \<Rightarrow> 't wait_group \<Rightarrow> bool" where
  "no_done timed s s' \<longleftrightarrow> wg_step False timed s s' \<and> s' \<noteq> wg_decrement s"

lemma sleeps_on:
  assumes "no_done timed s s'" and "wg_phase s t = Wp_asleep" and "wg_notifies s = 0" and "\<not> timed t"
  shows "wg_phase s' t = Wp_asleep \<and> wg_notifies s' = 0"
  using assms(1) assms(2-4) unfolding no_done_def
  by (auto elim!: wg_stepE simp: wg_add_def wg_move_def wg_test_def)

text \<open>With the mutex: who sleeps is still waiting for something, and the counter stands while a thread is about to sleep.\<close>

definition wg_awake :: "'t wait_group \<Rightarrow> bool" where
  "wg_awake s \<longleftrightarrow> (\<forall>t. wg_phase s t = Wp_asleep \<longrightarrow> 0 < mCounter s \<or> 0 < wg_notifies s) \<and>
     (\<forall>t. wg_phase s t = Wp_tested \<longrightarrow> 0 < mCounter s)"

lemma awake_step:
  assumes "wg_step True timed s s'" and "wg_awake s"
  shows "wg_awake s'"
  using assms(1)
proof cases
  case (wg_adds i)
  with assms(2) show ?thesis by (fastforce simp: wg_awake_def wg_add_def)
next
  case wg_decrements
  then show ?thesis by (simp add: wg_awake_def wg_decrement_def wg_unlocked_def)
next
  case wg_notified
  with assms(2) show ?thesis by (auto simp: wg_awake_def wg_notify_all_def split: if_splits)
next
  case (wg_locks t)
  with assms(2) show ?thesis by (auto simp: wg_awake_def wg_move_def split: if_splits)
next
  case (wg_expires t)
  with assms(2) show ?thesis by (auto simp: wg_awake_def wg_move_def split: if_splits)
next
  case (wg_tests t)
  with assms(2) show ?thesis by (auto simp: wg_awake_def wg_test_def split: if_splits)
next
  case (wg_sleeps t)
  with assms(2) show ?thesis by (auto simp: wg_awake_def wg_move_def)
qed

text \<open>
  C32. A wake-up can be lost: \<open>done\<close> decrements and notifies without the mutex, so both can fall
  between the test of a waiting thread and its sleep. The thread then sleeps with
  the counter at zero and every \<open>done\<close> over, and whatever the other threads do, it sleeps until
  somebody calls \<open>done\<close> once more. If the decrement were made under the mutex,
  no thread could get there. This is for a thread that waits without a timeout.
\<close>

theorem wait_group_loses_wakeup:
  fixes t :: 't
  assumes untimed: "\<not> timed t"
  shows "(\<exists>s. (wg_step False timed)\<^sup>*\<^sup>* (wg_add 1 WaitGroup_new) s \<and> wg_stuck t s \<and> (\<forall>s'. (no_done timed)\<^sup>*\<^sup>* s s' \<longrightarrow> wg_phase s' t = Wp_asleep)) \<and>
    (\<forall>s. (wg_step True timed)\<^sup>*\<^sup>* WaitGroup_new s \<longrightarrow> \<not> wg_stuck t s)"
proof (intro conjI allI impI)
  define s0 s1 s2 where "s0 = (wg_add 1 WaitGroup_new :: 't wait_group)" and "s1 = wg_move t Wp_locked s0" and "s2 = wg_test t s1"
  define s3 s4 s5 where "s3 = wg_decrement s2" and "s4 = wg_notify_all s3" and "s5 = wg_move t Wp_asleep s4"
  note ops = wg_add_def wg_move_def wg_test_def wg_decrement_def wg_notify_all_def WaitGroup_new_def wg_unlocked_def
  have s0: "mCounter s0 = 1" "wg_notifies s0 = 0" "wg_phase s0 = (\<lambda>_. Wp_start)" by (simp_all add: s0_def ops)
  have s1: "mCounter s1 = 1" "wg_notifies s1 = 0" "wg_phase s1 t = Wp_locked" using s0 by (simp_all add: s1_def ops)
  have s2: "mCounter s2 = 1" "wg_notifies s2 = 0" "wg_phase s2 t = Wp_tested" using s1 by (simp_all add: s2_def ops)
  have s3: "mCounter s3 = 0" "wg_notifies s3 = 1" "wg_phase s3 t = Wp_tested" using s2 by (simp_all add: s3_def ops)
  have s4: "mCounter s4 = 0" "wg_notifies s4 = 0" "wg_phase s4 t = Wp_tested" using s3 by (simp_all add: s4_def ops)
  have stuck: "wg_stuck t s5" using s4 by (simp add: s5_def wg_stuck_def ops)
  have "wg_step False timed s0 s1" unfolding s1_def by (rule wg_locks) (simp_all add: s0 wg_unlocked_def)
  moreover have "wg_step False timed s1 s2" unfolding s2_def by (rule wg_tests [OF s1(3)])
  moreover have "wg_step False timed s2 s3" unfolding s3_def by (rule wg_decrements) simp
  moreover have "wg_step False timed s3 s4" unfolding s4_def by (rule wg_notified) (simp add: s3)
  moreover have "wg_step False timed s4 s5" unfolding s5_def by (rule wg_sleeps [OF s4(3)])
  ultimately have run: "(wg_step False timed)\<^sup>*\<^sup>* s0 s5" by (simp add: rtranclp.rtrancl_into_rtrancl)
  have "wg_phase s' t = Wp_asleep \<and> wg_notifies s' = 0" if "(no_done timed)\<^sup>*\<^sup>* s5 s'" for s'
    using that
  proof (induction rule: rtranclp_induct)
    case base
    then show ?case using stuck by (simp add: wg_stuck_def)
  next
    case (step y z)
    from sleeps_on [OF step.hyps(2), of t] step.IH untimed show ?case by simp
  qed
  with run stuck show "\<exists>s. (wg_step False timed)\<^sup>*\<^sup>* (wg_add 1 WaitGroup_new) s \<and> wg_stuck t s \<and> (\<forall>s'. (no_done timed)\<^sup>*\<^sup>* s s' \<longrightarrow> wg_phase s' t = Wp_asleep)"
    unfolding s0_def by (intro exI [of _ s5]) simp
next
  fix s :: "'t wait_group"
  assume "(wg_step True timed)\<^sup>*\<^sup>* WaitGroup_new s"
  then have "wg_awake s"
  proof (induction rule: rtranclp_induct)
    case base
    then show ?case by (simp add: WaitGroup_new_def wg_awake_def)
  next
    case (step y z)
    show ?case by (rule awake_step [OF step.hyps(2) step.IH])
  qed
  then show "\<not> wg_stuck t s" by (auto simp: wg_stuck_def wg_awake_def)
qed

theorem wait_group_loses_wakeup_witness:
  "\<exists>s. (wg_step False (\<lambda>t. t = 1))\<^sup>*\<^sup>* (wg_add 1 WaitGroup_new) s \<and> wg_stuck (0::nat) s"
  using wait_group_loses_wakeup [of "\<lambda>t. t = 1" "0::nat"] by auto

end
