(* ===== verification/Sync_Connect.thy ===== *)
theory Sync_Connect
  imports Brynet_Prelude
begin

text \<open>
  \<open>net/SyncConnector.cpp\<close>: the calls that wait for a connect. The connector runs one of the two
  callbacks of a request, once, which is shown where it is modelled; here the callbacks, the
  enter callback of the session and the waiting caller are steps on the promise they share.
  \<open>direct\<close> says which function it is: \<open>SyncConnectSocket\<close> hands over the socket and
  waits without a limit, \<open>SyncConnectSession\<close> adds a session and waits for its enter callback.
\<close>

section \<open>Steps\<close>

text \<open>Where the request is: the connector has it, the session \<open>s\<close> is on its way to a loop, or all is over.\<close>

datatype 's request_phase = Rp_connecting | Rp_added 's | Rp_over

record 's sync_state =
  sn_phase :: "'s request_phase"
  sn_promise :: "'s option option"
  sn_sets :: nat
  sn_result :: "'s option option"
  sn_open :: "'s set"

definition sync_start :: "'s sync_state" where
  "sync_start = \<lparr>sn_phase = Rp_connecting, sn_promise = None, sn_sets = 0, sn_result = None, sn_open = {}\<rparr>"

text \<open>\<open>set_value\<close>; a second one throws, which \<open>sn_sets\<close> would show.\<close>

definition set_value :: "'s option \<Rightarrow> 's sync_state \<Rightarrow> 's sync_state" where
  "set_value x s = s\<lparr>sn_promise := Some x, sn_sets := sn_sets s + 1\<rparr>"

definition connect_success :: "bool \<Rightarrow> bool \<Rightarrow> 's \<Rightarrow> 's sync_state \<Rightarrow> 's sync_state" where
  "connect_success direct added x s =
     (if direct then set_value (Some x) (s\<lparr>sn_phase := Rp_over, sn_open := insert x (sn_open s)\<rparr>)
      else if added then s\<lparr>sn_phase := Rp_added x\<rparr> else s\<lparr>sn_phase := Rp_over\<rparr>)"

definition connect_failed :: "'s sync_state \<Rightarrow> 's sync_state" where
  "connect_failed s = set_value None (s\<lparr>sn_phase := Rp_over\<rparr>)"

definition session_entered :: "'s \<Rightarrow> 's sync_state \<Rightarrow> 's sync_state" where
  "session_entered x s = set_value (Some x) (s\<lparr>sn_phase := Rp_over, sn_open := insert x (sn_open s)\<rparr>)"

inductive sync_step :: "bool \<Rightarrow> 's sync_state \<Rightarrow> 's sync_state \<Rightarrow> bool" for direct where
  sync_success: "sn_phase s = Rp_connecting \<Longrightarrow> sync_step direct s (connect_success direct added x s)"
| sync_failed: "sn_phase s = Rp_connecting \<Longrightarrow> sync_step direct s (connect_failed s)"
| sync_entered: "sn_phase s = Rp_added x \<Longrightarrow> sync_step direct s (session_entered x s)"
| sync_ready: "sn_result s = None \<Longrightarrow> sn_promise s = Some r \<Longrightarrow> sync_step direct s (s\<lparr>sn_result := Some r\<rparr>)"
| sync_timeout: "sn_result s = None \<Longrightarrow> sn_promise s = None \<Longrightarrow> \<not> direct \<Longrightarrow> sync_step direct s (s\<lparr>sn_result := Some None\<rparr>)"

inductive_cases sync_stepE: "sync_step direct s s'"

lemmas sync_defs = connect_success_def connect_failed_def session_entered_def set_value_def

section \<open>The promise\<close>

definition sync_inv :: "bool \<Rightarrow> 's sync_state \<Rightarrow> bool" where
  "sync_inv direct s \<longleftrightarrow> sn_sets s = of_bool (sn_promise s \<noteq> None) \<and>
     (sn_promise s \<noteq> None \<longrightarrow> sn_phase s = Rp_over) \<and>
     sn_open s = (case sn_promise s of Some (Some x) \<Rightarrow> {x} | _ \<Rightarrow> {}) \<and>
     (\<forall>r. sn_result s = Some r \<longrightarrow> sn_promise s = Some r \<or> \<not> direct \<and> r = None) \<and>
     (direct \<longrightarrow> (\<forall>x. sn_phase s \<noteq> Rp_added x) \<and> (sn_phase s = Rp_over \<longrightarrow> sn_promise s \<noteq> None))"

lemma sync_inv_step:
  assumes "sync_step direct s s'" and "sync_inv direct s"
  shows "sync_inv direct s'"
  using assms(1)
proof cases
  case (sync_success added x)
  then have "sn_promise s = None" using assms(2) by (auto simp: sync_inv_def)
  with sync_success assms(2) show ?thesis by (auto simp: sync_inv_def sync_defs)
next
  case sync_failed
  then have "sn_promise s = None" using assms(2) by (auto simp: sync_inv_def)
  with sync_failed assms(2) show ?thesis by (auto simp: sync_inv_def sync_defs)
next
  case (sync_entered x)
  then have "sn_promise s = None" "\<not> direct" using assms(2) by (auto simp: sync_inv_def)
  with sync_entered assms(2) show ?thesis by (auto simp: sync_inv_def sync_defs)
next
  case (sync_ready r)
  with assms(2) show ?thesis by (auto simp: sync_inv_def)
next
  case sync_timeout
  with assms(2) show ?thesis by (auto simp: sync_inv_def)
qed

lemma sync_reach_inv: "(sync_step direct)\<^sup>*\<^sup>* sync_start s \<Longrightarrow> sync_inv direct s"
proof (induction rule: rtranclp_induct)
  case base
  then show ?case by (simp add: sync_inv_def sync_start_def)
next
  case (step y z)
  show ?case by (rule sync_inv_step [OF step.hyps(2) step.IH])
qed

text \<open>
  C33. A connect that the caller waits for: in every order of the callbacks and the caller the
  promise is set at most once, and a socket or session that the caller gets is the one that was
  opened. \<open>SyncConnectSocket\<close> never loses one. \<open>SyncConnectSession\<close> may: its caller stops
  waiting after the same time that the connector has for the connect, so it can be told that there is no
  session while the session is on its way, enters the service and stays open, known to nobody.
\<close>

theorem sync_connect_orphan:
  fixes x :: 's
  shows "(\<forall>direct s. (sync_step direct)\<^sup>*\<^sup>* sync_start s \<longrightarrow> sn_sets s \<le> 1 \<and>
      (\<forall>y :: 's. sn_result s = Some (Some y) \<longrightarrow> sn_open s = {y}) \<and>
      (direct \<longrightarrow> sn_result s = Some None \<longrightarrow> sn_open s = {} \<and> sn_phase s = Rp_over)) \<and>
    (\<exists>s. (sync_step False)\<^sup>*\<^sup>* sync_start s \<and> sn_result s = Some None \<and> sn_open s = {x} \<and> sn_phase s = Rp_over)"
proof (intro conjI allI impI)
  fix direct and s :: "'s sync_state"
  assume "(sync_step direct)\<^sup>*\<^sup>* sync_start s"
  then have inv: "sync_inv direct s" by (rule sync_reach_inv)
  then show "sn_sets s \<le> 1" by (simp add: sync_inv_def)
  show "sn_open s = {y}" if "sn_result s = Some (Some y)" for y using inv that by (auto simp: sync_inv_def)
  assume "direct" "sn_result s = Some None"
  then have "sn_promise s = Some None" using inv by (auto simp: sync_inv_def)
  with inv show "sn_open s = {}" "sn_phase s = Rp_over" by (simp_all add: sync_inv_def)
next
  define s1 s2 s3 where "s1 = (connect_success False True x sync_start :: 's sync_state)"
    and "s2 = s1\<lparr>sn_result := Some None\<rparr>" and "s3 = session_entered x s2"
  have s1: "sn_phase s1 = Rp_added x" "sn_result s1 = None" "sn_promise s1 = None"
    by (simp_all add: s1_def sync_defs sync_start_def)
  have "sync_step False sync_start s1" unfolding s1_def by (rule sync_success) (simp add: sync_start_def)
  moreover have "sync_step False s1 s2" unfolding s2_def by (rule sync_timeout) (simp_all add: s1)
  moreover have "sync_step False s2 s3" unfolding s3_def by (rule sync_entered) (simp add: s2_def s1)
  ultimately have run: "(sync_step False)\<^sup>*\<^sup>* sync_start s3" by (simp add: rtranclp.rtrancl_into_rtrancl)
  have "sn_result s3 = Some None" "sn_open s3 = {x}" "sn_phase s3 = Rp_over"
    by (simp_all add: s3_def s2_def s1_def sync_defs sync_start_def)
  with run show "\<exists>s. (sync_step False)\<^sup>*\<^sup>* sync_start s \<and> sn_result s = Some None \<and> sn_open s = {x} \<and> sn_phase s = Rp_over"
    by blast
qed

theorem sync_connect_orphan_witness:
  "\<exists>s. (sync_step False)\<^sup>*\<^sup>* sync_start s \<and> sn_result s = Some None \<and> sn_open s = {5 :: nat}"
  using sync_connect_orphan [of "5 :: nat"] by blast

end
