(* ===== verification/Spec2Isabelle.thy ===== *)
theory Spec2Isabelle
  imports Connector_Safe Md5 Coroutine Http_Format Ws_Connection Promise_Receive Msg_Queue Heartbeat Event_Loop Packet
    Listen_Thread Worker Tls Http_Session Wait_Group Sync_Connect
begin

text \<open>
  A verification development of brynet, a C++ library for TCP servers and clients. Paths are under
  \<open>src/src/brynet\<close>. The model is of the Linux build on a 64-bit little-endian machine.

  \<^bold>\<open>The program.\<close> Worker threads each run an event loop (\<open>net/EventLoop.cpp\<close>). A loop waits in
  \<open>epoll_wait\<close>, dispatches the events of its connections (\<open>net/DataSocket.cpp\<close>), runs the procs that other
  threads handed over, the after-loop procs that connections pushed, and its timers (\<open>timer/\<close>). The TCP
  service (\<open>net/TCPService.cpp\<close>) gives each connection an identifier, kept in a slot table
  (\<open>utils/Typeids.h\<close>), and routes requests to the loop and the object that has it. Session objects
  (\<open>net/WrapTCPService.cpp\<close>) stand on it, and on these the HTTP and WebSocket sessions (\<open>net/http/\<close>) and
  the receive promises (\<open>net/PromiseReceive.h\<close>). Connections come from a listener thread
  (\<open>net/ListenThread.cpp\<close>) or from the connector (\<open>net/Connector.cpp\<close>, \<open>net/SyncConnector.cpp\<close>), through the
  socket wrappers (\<open>net/SocketLibFunction.cpp\<close>). The rest are containers, codecs and digests in \<open>utils/\<close>.

  \<^bold>\<open>How it is modelled.\<close> A struct or class is a record with the names of its members, an operation a
  function on it; \<open>None\<close> is a failed assertion, a read or write outside a block, an access to a deleted object, or
  running out of fuel. Raised errors and early returns are values. Machine integers are words, or integers
  with the wrap-around written out. Memory blocks are byte lists, read and written by the
  primitives of \<open>Brynet_Prelude\<close>; \<open>malloc\<close> is a parameter. System calls, OpenSSL, the clock, \<open>rand\<close> and user
  callbacks are parameters with what their documentation promises as hypotheses, and each such
  hypothesis is met by a concrete instance in a witness. Threads are steps of step relations, one for each access
  to shared state. A closure is a constructor or an index that names what it captured.

  \<^bold>\<open>Theories, bottom up.\<close>

  \<^item> \<open>Brynet_Prelude\<close>: machine types, memory primitives, shared lemmas.
  \<^item> \<open>Ox_Buffer\<close> (\<open>utils/buffer.c\<close>), \<open>Ox_Array\<close>, \<open>Ox_Stack\<close>, \<open>Fdset\<close> (\<open>net/fdset.c\<close>), \<open>Type_Ids\<close>, \<open>Msg_Queue\<close>,
    \<open>Timer\<close>: containers. Each has an interface as a locale (\<open>byte_queue\<close>, \<open>deque\<close>, \<open>poll_set\<close>, \<open>slot_table\<close>,
    \<open>handover\<close>, \<open>priority_queue\<close>) that its operations are shown to implement, and its clients rest on that.
  \<^item> \<open>Data_Socket\<close>, \<open>Data_Socket_Send\<close>, \<open>Data_Socket_Recv\<close>, \<open>Connection\<close>: one connection. Both flush loops are
    instances of the locale \<open>flusher\<close>. Under every sequence of requests and events a connection is a pair of
    byte streams, its receive buffer keeps to its limit, it closes once and never stalls.
  \<^item> \<open>Tls\<close>: the same with OpenSSL, the handshake, \<open>net/SSLHelper.cpp\<close>, and two ways in which it goes wrong.
  \<^item> \<open>Event_Loop\<close>: the hand-over of procs with its wake-up protocol, for any number of threads and interleavings.
    \<open>Heartbeat\<close>: the check for silent connections, on the timers.
  \<^item> \<open>Tcp_Service\<close>: identifiers and routing refine a map from sessions to connections. \<open>Worker\<close>: a worker thread
    with all its connections, their procs, events, timers and their life as heap objects: no step touches a
    deleted object, each connection keeps its streams among the others, closed ones are freed within a turn.
  \<^item> \<open>Wrap_Tcp\<close>: session objects. \<open>Http_Session\<close>: HTTP sessions on them, each as if it were alone.
  \<^item> \<open>Http_Parser_Types\<close>, \<open>Http_Url\<close>, \<open>Http_Parser_Exec\<close>, \<open>Http_Parser_Inv\<close>, \<open>Http_Parser_Safe\<close>: the state machine of
    \<open>http_parser.c\<close>, one definition for each case of its switch. Callbacks are the locale \<open>lawful_settings\<close>. An
    invariant is kept by every case, a rank bounds the re-runs of a byte, and with that the fuel of
    \<open>exec_loop\<close> is shown to be enough: the parser returns on every input. \<open>Http_Wrapper\<close>: the class around it.
  \<^item> \<open>Sha1\<close>, \<open>Md5\<close>, \<open>Base64\<close>: equal to reference definitions after FIPS 180 and RFC 1321; decoding inverts encoding.
  \<^item> \<open>Websocket_Format\<close>: frames, as the locale \<open>frame_codec\<close>. \<open>Http_Service\<close>: the handshake and the delivery of
    messages. \<open>Http_Format\<close>: building messages, read back by a reader of HTTP messages.
  \<^item> \<open>Stream_Callback\<close>: the locale \<open>stream_parser\<close> of data callbacks that can go on where they stopped; what such a
    callback does over a connection does not depend on how the bytes are cut. \<open>Ws_Connection\<close> and
    \<open>Promise_Receive\<close> are its instances.
  \<^item> \<open>Socket_Lib\<close>, \<open>Listen_Thread\<close>, \<open>Connector\<close>, \<open>Connector_Safe\<close>, \<open>Sync_Connect\<close>: opening connections. Descriptors are
    handed over or closed, every connect is answered once, and the listener keeps its protocol.
  \<^item> \<open>Coroutine\<close> (\<open>utils/coroutine.c\<close>), \<open>Packet\<close> (\<open>utils/packet.h\<close>), \<open>Wait_Group\<close> (\<open>utils/WaitGroup.h\<close>).

  \<^bold>\<open>Bounds and hypotheses.\<close> \<open>env_law\<close>: memory is available, \<open>send\<close> and \<open>recv\<close> report at most what they were
  given or have, the system has finitely many bytes for a socket at a time, which is the bound on the
  receive loop's fuel, and a data callback claims no more bytes than it was shown. \<open>os_law\<close>: what the manual
  pages promise of descriptors. Receive buffers are limited to less than \<open>2 ^ 31\<close> bytes, since \<open>recv\<close> takes an \<open>int\<close>. A loop has
  fewer than 65500 open sessions and gives out fewer than \<open>2 ^ 31 - 1\<close> identifiers (\<open>admit\<close>); what happens beyond
  the first of these is a theorem. MD5 is for inputs below \<open>2 ^ 29\<close> bytes. The connector has fewer than \<open>2 ^ 28\<close> connects
  in progress, a schedule fewer than \<open>2 ^ 27\<close> coroutines, where the sizes of their arrays would overflow. The event
  loop's wake-up counter is unbounded; times are unbounded integers.

  In \<open>Worker\<close> a request that the callback of one connection makes on another takes effect when the event that ran the
  callback is done; the kernel reports only descriptors that are open, and a new object is at an address that is not in use.
  Completion callbacks of packets do not send: if they do, \<open>flush\<close> goes on with an iterator that is not valid any more.

  \<^bold>\<open>Where the code goes wrong.\<close> Some theorems show this: TLS connections that are never freed or stop reading,
  a wait group that loses a wake-up, a synchronous connect that leaves a session nobody knows, a receive up to a
  delimiter that reads behind its buffer, the address of an IPv6 peer, the heartbeat that checks once, session slots
  that run out, and the status line of responses.

  \<^bold>\<open>Not modelled.\<close> The Windows branches (completion ports, fibers); \<open>coroutine_resume\<close>, which outside
  Windows treats a plain table as an array object; \<open>utils/app_status.c\<close> and \<open>utils/ox_file.cpp\<close>, which are console and file
  input and output; \<open>net/CurrentThread.cpp\<close>; \<open>net/Any.h\<close> and user data, which no other code reads but the
  identifier that \<open>socket_ud\<close> stands for; the release of memory where nothing depends on it;
  the private template of packets for plain structures; examples, tests and the vendored test framework.
\<close>

end
